(* ===== verification/Prelude.thy ===== *)
theory Prelude
  imports Main "HOL-Library.Multiset" "HOL-Library.Word"
begin

text \<open>
  The prelude of the development: the names of the machine types, the arithmetic of rounding
  and of ceiling division, and the generic facts on lists, strides and sorting by a key that
  the component theories share. \<open>plaid_simps\<close> collects the rewriting facts every component
  proof starts from.
\<close>

named_theorems plaid_simps

type_synonym byte = "8 word"
type_synonym u64 = "64 word"

text \<open>Subtraction of \<open>size_t\<close> values held as numbers below \<open>2 ^ 64\<close>: it wraps around.\<close>

definition sub64 :: "nat \<Rightarrow> nat \<Rightarrow> nat" where
  "sub64 a b = (a + 2 ^ 64 - b) mod 2 ^ 64"

lemma sub64_le: "b \<le> a \<Longrightarrow> a < 2 ^ 64 \<Longrightarrow> sub64 a b = a - b"
proof -
  assume "b \<le> a" and a: "a < 2 ^ 64"
  then have "a + 2 ^ 64 - b = (a - b) + 2 ^ 64" by linarith
  moreover have "a - b < 2 ^ 64" using a by linarith
  ultimately show ?thesis by (simp only: sub64_def mod_add_self2 mod_less)
qed

section \<open>Ceiling division and rounding\<close>

text \<open>The idiom \<open>(a + b - 1) / b\<close> of the sources, on numbers that do not overflow.\<close>

definition ceil_div :: "nat \<Rightarrow> nat \<Rightarrow> nat" where
  "ceil_div a b = (a + b - 1) div b"

definition round_up :: "nat \<Rightarrow> nat \<Rightarrow> nat" where
  "round_up m x = (x + m - 1) div m * m"

lemma ceil_div_0 [simp]: "0 < b \<Longrightarrow> ceil_div 0 b = 0"
  by (simp add: ceil_div_def)

lemma ceil_div_ge: "0 < b \<Longrightarrow> a \<le> ceil_div a b * b"
proof -
  assume b: "0 < b"
  define q r where "q = ceil_div a b * b" and "r = (a + b - 1) mod b"
  have "q + r = a + b - 1"
    unfolding q_def r_def ceil_div_def by (rule div_mult_mod_eq)
  moreover have "r < b"
    using b unfolding r_def by (rule mod_less_divisor)
  ultimately have "a \<le> q" using b by linarith
  then show ?thesis by (simp only: q_def)
qed

lemma ceil_div_lt: "0 < b \<Longrightarrow> ceil_div a b * b < a + b"
proof -
  assume b: "0 < b"
  have "ceil_div a b * b \<le> a + b - 1"
    unfolding ceil_div_def by (rule div_times_less_eq_dividend)
  also have "\<dots> < a + b"
    using b by simp
  finally show ?thesis .
qed

lemma less_ceil_div_iff:
  assumes b: "0 < b"
  shows "i < ceil_div a b \<longleftrightarrow> i * b < a"
proof
  assume "i < ceil_div a b"
  then have "Suc i * b \<le> ceil_div a b * b"
    by (intro mult_le_mono1) simp
  with ceil_div_lt [OF b, of a] show "i * b < a"
    by simp
next
  assume "i * b < a"
  also have "a \<le> ceil_div a b * b"
    using b by (rule ceil_div_ge)
  finally show "i < ceil_div a b"
    by simp
qed

lemma ceil_div_eq_split:
  "0 < b \<Longrightarrow> ceil_div a b = (if a mod b = 0 then a div b else a div b + 1)"
proof -
  assume b: "0 < b"
  have a: "a = a div b * b + a mod b" by simp
  show ?thesis
  proof (cases "a mod b = 0")
    case True
    then have "a + b - 1 = (b - 1) + (a div b) * b" using a b by linarith
    then have "(a + b - 1) div b = a div b + (b - 1) div b"
      using b by (metis div_mult_self1 less_not_refl2)
    then show ?thesis using True b by (simp add: ceil_div_def)
  next
    case False
    then have "a + b - 1 = (a mod b - 1) + (a div b * b + b)" using a b by linarith
    then have "a + b - 1 = (a mod b - 1) + (a div b + 1) * b" by simp
    then have "(a + b - 1) div b = (a div b + 1) + (a mod b - 1) div b"
      using b by (metis div_mult_self1 less_not_refl2)
    moreover have "(a mod b - 1) div b = 0"
      using b by (simp add: less_imp_diff_less)
    ultimately show ?thesis using False by (simp add: ceil_div_def)
  qed
qed

lemma round_up_eq_ceil: "round_up m x = ceil_div x m * m"
  by (simp add: round_up_def ceil_div_def)

lemma round_up_ge: "0 < m \<Longrightarrow> x \<le> round_up m x"
  by (simp add: round_up_eq_ceil ceil_div_ge)

lemma round_up_lt: "0 < m \<Longrightarrow> round_up m x < x + m"
  by (simp add: round_up_eq_ceil ceil_div_lt)

lemma round_up_dvd [simp]: "m dvd round_up m x"
  by (simp add: round_up_def)

lemma round_up_le: "0 < m \<Longrightarrow> m dvd b \<Longrightarrow> x \<le> b \<Longrightarrow> round_up m x \<le> b"
proof -
  assume m: "0 < m" and "m dvd b" and x: "x \<le> b"
  then obtain k where b: "b = m * k" by (elim dvdE)
  have "ceil_div x m \<le> k"
  proof (rule ccontr)
    assume "\<not> ceil_div x m \<le> k"
    then have "k < ceil_div x m" by simp
    then have "k * m < x" using less_ceil_div_iff [OF m] by blast
    with x b show False by (simp add: mult.commute)
  qed
  then show ?thesis by (simp add: round_up_eq_ceil b mult.commute)
qed

text \<open>Blocks of size \<open>B\<close> at different multiples of \<open>B\<close> are disjoint.\<close>

lemma block_regions_disjoint:
  assumes "B dvd a" and "B dvd b" and "a \<noteq> (b::nat)"
  shows "a + B \<le> b \<or> b + B \<le> a"
proof -
  from assms obtain k l where a: "a = B * k" and b: "b = B * l" by (auto elim!: dvdE)
  with assms(3) consider "k < l" | "l < k" by (metis linorder_neqE_nat)
  then show ?thesis
  proof cases
    case 1
    then have "B * Suc k \<le> B * l" by (intro mult_le_mono2) simp
    then show ?thesis by (simp add: a b)
  next
    case 2
    then have "B * Suc l \<le> B * k" by (intro mult_le_mono2) simp
    then show ?thesis by (simp add: a b)
  qed
qed

section \<open>Lists\<close>

text \<open>The sources cut a sequence into runs of \<open>k\<close> elements, the last one possibly shorter.\<close>

definition run_of :: "nat \<Rightarrow> 'a list \<Rightarrow> nat \<Rightarrow> 'a list" where
  "run_of k xs s = take k (drop (s * k) xs)"

lemma length_run_of: "length (run_of k xs s) = min (length xs) ((s + 1) * k) - s * k"
  by (auto simp: run_of_def min_def algebra_simps)

lemma length_run_of_le: "length (run_of k xs s) \<le> k"
  by (simp add: run_of_def)

lemma concat_runs_take:
  "concat (map (run_of k xs) [0..<n]) = take (n * k) xs"
proof (induction n)
  case 0
  then show ?case by simp
next
  case (Suc n)
  have "take (Suc n * k) xs = take (n * k) xs @ take k (drop (n * k) xs)"
    by (simp add: take_add [symmetric] add.commute)
  with Suc show ?case by (simp add: run_of_def)
qed

lemma concat_runs:
  assumes "length xs \<le> n * k"
  shows "concat (map (run_of k xs) [0..<n]) = xs"
  using assms by (simp add: concat_runs_take)

lemma concat_runs_ceil:
  "0 < k \<Longrightarrow> concat (map (run_of k xs) [0..<ceil_div (length xs) k]) = xs"
  by (rule concat_runs) (rule ceil_div_ge)

lemma take_drop_nth_run:
  "j < length (run_of k xs s) \<Longrightarrow> run_of k xs s ! j = xs ! (s * k + j)"
  by (auto simp: run_of_def)

lemma mset_concat: "mset (concat xss) = (\<Sum>xs\<leftarrow>xss. mset xs)"
  by (induction xss) simp_all

lemma mset_concat_map:
  "mset (concat (map g xs)) = \<Sum>\<^sub># (image_mset (\<lambda>x. mset (g x)) (mset xs))"
  by (induction xs) simp_all

lemma mset_concat_map_cong:
  "mset xs = mset ys \<Longrightarrow> mset (concat (map g xs)) = mset (concat (map g ys))"
  by (simp add: mset_concat_map)

lemma mset_concat_cong2:
  "\<forall>x \<in> set xs. mset (h x) = mset (k x) \<Longrightarrow> mset (concat (map h xs)) = mset (concat (map k xs))"
  by (induction xs) simp_all

lemma map_concat_concat:
  "map f (concat (concat (map h ws))) = concat (map (\<lambda>w. map f (concat (h w))) ws)"
  by (induction ws) simp_all

lemma concat_map_concat:
  "concat (map (\<lambda>w. concat (map c (r w))) ws) = concat (map c (concat (map r ws)))"
  by (induction ws) simp_all

text \<open>Overwriting a prefix of a buffer in increasing order of positions.\<close>

lemma take_update_Suc:
  "k < length b \<Longrightarrow> take (Suc k) (b[k := x]) = take k b @ [x]"
  by (simp add: take_Suc_conv_app_nth)

text \<open>Replacing one item changes a sum over a list by that item's share only.\<close>

lemma sum_list_update_add:
  fixes f :: "'a \<Rightarrow> 'b::comm_monoid_add"
  assumes "i < length xs"
  shows "(\<Sum>x\<leftarrow>xs[i := y]. f x) + f (xs ! i) = (\<Sum>x\<leftarrow>xs. f x) + f y"
  using assms
proof (induction xs arbitrary: i)
  case Nil
  then show ?case by simp
next
  case (Cons a xs)
  show ?case
  proof (cases i)
    case 0
    then show ?thesis by (simp add: ac_simps)
  next
    case (Suc j)
    with Cons show ?thesis by (simp add: add.assoc)
  qed
qed

lemma sum_list_split:
  fixes f :: "'c \<Rightarrow> 'd::comm_monoid_add"
  assumes "i < length xs"
  shows "\<exists>R. (\<Sum>x\<leftarrow>xs. f x) = R + f (xs ! i) \<and> (\<forall>y. (\<Sum>x\<leftarrow>xs[i := y]. f x) = R + f y)"
proof -
  let ?R = "(\<Sum>x\<leftarrow>take i xs. f x) + (\<Sum>x\<leftarrow>drop (Suc i) xs. f x)"
  have "xs = take i xs @ xs ! i # drop (Suc i) xs" using assms by (rule id_take_nth_drop)
  then have "(\<Sum>x\<leftarrow>xs. f x) = (\<Sum>x\<leftarrow>take i xs @ xs ! i # drop (Suc i) xs. f x)" by simp
  also have "\<dots> = ?R + f (xs ! i)" by (simp add: ac_simps)
  finally have "(\<Sum>x\<leftarrow>xs. f x) = ?R + f (xs ! i)" .
  moreover have "(\<Sum>x\<leftarrow>xs[i := y]. f x) = ?R + f y" for y
    using assms by (simp add: upd_conv_take_nth_drop ac_simps)
  ultimately show ?thesis by blast
qed

lemma sum_list_perm:
  fixes f :: "'c \<Rightarrow> 'd::comm_monoid_add"
  assumes "mset xs = mset ys"
  shows "(\<Sum>x\<leftarrow>xs. f x) = (\<Sum>x\<leftarrow>ys. f x)"
proof -
  have "mset (map f xs) = mset (map f ys)" using assms by simp
  then show ?thesis by (metis sum_mset_sum_list)
qed

lemma ball_set_update:
  "\<forall>x \<in> set xs. Q x \<Longrightarrow> Q y \<Longrightarrow> \<forall>x \<in> set (xs[i := y]). Q x"
  using set_update_subset_insert [of xs i y] by blast

lemma sum_list_nat_0: "(\<Sum>x\<leftarrow>xs. f x) = (0::nat) \<longleftrightarrow> (\<forall>x \<in> set xs. f x = 0)"
  by (induction xs) auto

lemma filter_upt_less: "filter (\<lambda>i. i < m) [0..<n] = [0..<min n m]"
  by (induction n) (auto simp: min_def not_less_eq_eq le_antisym)

lemma mset_remove_nth:
  "k < length xs \<Longrightarrow> mset xs = add_mset (xs ! k) (mset (take k xs @ drop (Suc k) xs))"
  by (metis append_take_drop_id Cons_nth_drop_Suc mset.simps(2) mset_append union_mset_add_mset_right)

section \<open>Strides\<close>

text \<open>\<open>for (j = i; j < n; j += t) out.push_back(xs[j])\<close>: the share of thread \<open>i\<close> of \<open>t\<close>.\<close>

function stride :: "nat \<Rightarrow> nat \<Rightarrow> 'a list \<Rightarrow> 'a list" where
  "stride j t xs =
     (if j < length xs \<and> 0 < t then xs ! j # stride (j + t) t xs else [])"
  by pat_completeness auto
termination
  by (relation "measure (\<lambda>(j, t, xs). length xs - j)") auto

declare stride.simps [simp del]

lemma stride_Cons_shift: "stride (Suc j) t (x # xs) = stride j t xs"
proof (induction j t xs rule: stride.induct)
  case (1 j t xs)
  then show ?case
    by (simp add: stride.simps [of "Suc j" t "x # xs"] stride.simps [of j t xs])
qed

lemma stride_Nil [simp]: "stride j t [] = []"
  by (simp add: stride.simps)

lemma set_stride: "set (stride j t xs) \<subseteq> set xs"
proof (induction j t xs rule: stride.induct)
  case (1 j t xs)
  then show ?case by (subst stride.simps) auto
qed

lemma mset_strides:
  "0 < t \<Longrightarrow> (\<Sum>i\<leftarrow>[0..<t]. mset (stride i t xs)) = mset xs"
proof (induction xs)
  case Nil
  then show ?case by (simp add: sum_list_triv)
next
  case (Cons x xs)
  then obtain u where t: "t = Suc u" by (cases t) auto
  have first: "stride 0 t (x # xs) = x # stride u t xs"
    by (simp add: stride.simps [of 0] t stride_Cons_shift)
  have "(\<Sum>i\<leftarrow>[0..<t]. mset (stride i t (x # xs)))
      = mset (stride 0 t (x # xs)) + (\<Sum>i\<leftarrow>[0..<u]. mset (stride (Suc i) t (x # xs)))"
    by (simp only: t upt_conv_Cons [of 0 "Suc u"] map_Suc_upt [symmetric] zero_less_Suc
        list.map sum_list.Cons map_map comp_def)
  also have "\<dots> = add_mset x (mset (stride u t xs) + (\<Sum>i\<leftarrow>[0..<u]. mset (stride i t xs)))"
    by (simp add: first stride_Cons_shift)
  also have "\<dots> = add_mset x (\<Sum>i\<leftarrow>[0..<t]. mset (stride i t xs))"
    by (simp add: t)
  finally show ?case using Cons by simp
qed

section \<open>Sorting by a key\<close>

text \<open>
  With distinct keys the sorted arrangement is unique, so it does not matter in which order
  concurrent tasks produced the items.
\<close>

lemma sort_key_perm:
  assumes "mset xs = mset ys" and "distinct (map k xs)"
  shows "sort_key k xs = sort_key k ys"
proof (rule sort_key_inj_key_eq)
  show "mset xs = mset (sort_key k ys)" using assms(1) by simp
  show "inj_on k (set xs)" using assms(2) by (simp add: distinct_map)
  show "sorted (map k (sort_key k ys))" by simp
qed

lemma sort_key_map:
  "sort_key k (map f xs) = map f (sort_key (k \<circ> f) xs)"
proof (induction xs)
  case Nil
  then show ?case by simp
next
  case (Cons x xs)
  have ins: "insort_key k (f x) (map f ys) = map f (insort_key (k \<circ> f) x ys)" for ys
    by (induction ys) auto
  show ?case using Cons by (simp add: ins comp_def)
qed

lemma mset_map_eq_distinct:
  "mset xs = mset ys \<Longrightarrow> distinct (map k xs) \<Longrightarrow> distinct (map k ys)"
  by (metis distinct_map mset_eq_imp_distinct_iff mset_eq_setD)

lemma sort_key_upt_perm:
  assumes "mset (map k xs) = mset [0..<n]"
  shows "map k (sort_key k xs) = [0..<n]"
proof -
  have "mset (map k (sort_key k xs)) = mset [0..<n]" using assms by simp
  moreover have "sorted (map k (sort_key k xs))" by simp
  ultimately show ?thesis
    by (metis sort_upt sorted_sort_id properties_for_sort)
qed

section \<open>Machines that come to an end\<close>

text \<open>
  The threads of a component are a machine of atomic steps. \<open>good\<close> is its invariant, \<open>mu\<close> counts
  the work that is left and \<open>halted\<close> holds of the states in which nothing is left to do.
\<close>

locale finite_machine =
  fixes step :: "'s \<Rightarrow> 's \<Rightarrow> bool"
    and good :: "'s \<Rightarrow> bool"
    and mu :: "'s \<Rightarrow> nat"
    and halted :: "'s \<Rightarrow> bool"
  assumes step_good: "good s \<Longrightarrow> step s t \<Longrightarrow> good t"
    and step_mu: "good s \<Longrightarrow> step s t \<Longrightarrow> mu t < mu s"
    and step_exists: "good s \<Longrightarrow> \<not> halted s \<Longrightarrow> \<exists>t. step s t"
begin

lemma reach_good: "rtranclp step s t \<Longrightarrow> good s \<Longrightarrow> good t"
  by (induction rule: rtranclp_induct) (auto intro: step_good)

lemma reach_mu: "(step ^^ n) s t \<Longrightarrow> good s \<Longrightarrow> n + mu t \<le> mu s"
proof (induction n arbitrary: t)
  case 0
  then show ?case by simp
next
  case (Suc n)
  then obtain u where su: "(step ^^ n) s u" and ut: "step u t" by auto
  have "good u" using su Suc.prems(2) reach_good by (metis relpowp_imp_rtranclp)
  with ut have "mu t < mu u" by (rule step_mu [rotated])
  with Suc.IH [OF su Suc.prems(2)] show ?case by simp
qed

lemma reach_halted: "good s \<Longrightarrow> \<exists>t. rtranclp step s t \<and> halted t"
proof (induction "mu s" arbitrary: s rule: less_induct)
  case less
  show ?case
  proof (cases "halted s")
    case True
    then show ?thesis by blast
  next
    case False
    with less.prems obtain u where u: "step s u" using step_exists by blast
    from less.hyps [OF step_mu [OF less.prems u] step_good [OF less.prems u]]
    obtain t where "rtranclp step u t" and "halted t" by blast
    with u show ?thesis by (meson converse_rtranclp_into_rtranclp)
  qed
qed

end

end
