(* ===== verification/SimpleQueue.thy ===== *)
theory SimpleQueue
  imports Prelude
begin

text \<open>
  utils/simple_queue.h: the bounded blocking queue between the I/O workers and their clients.
  Each operation runs under the queue's mutex, so it is one atomic step; an operation that would
  wait on a condition variable has no step (\<open>None\<close>, \<open>Blocked\<close>) until another one changes the
  queue. The locale \<open>bounded_fifo\<close> is the interface the readers and writers use.
\<close>

datatype QueueCode = FINISH | TIMEOUT | SUCCESS

record 'a simple_queue =
  sq_queue :: "'a list"
  sq_size_limit :: nat
  sq_open :: bool

definition SimpleQueue :: "nat \<Rightarrow> 'a simple_queue" where
  "SimpleQueue size_limit = \<lparr>sq_queue = [], sq_size_limit = size_limit, sq_open = True\<rparr>"

text \<open>\<open>while (size_limit && queue.size() >= size_limit) wait\<close>, then the push.\<close>

definition Push :: "'a simple_queue \<Rightarrow> 'a \<Rightarrow> 'a simple_queue option" where
  "Push q x =
     (if sq_size_limit q \<noteq> 0 \<and> sq_size_limit q \<le> length (sq_queue q) then None
      else Some (q\<lparr>sq_queue := sq_queue q @ [x]\<rparr>))"

text \<open>
  \<open>Poll\<close> with its timeout in microseconds: \<open>-1\<close> waits, \<open>0\<close> returns at once, any other value
  waits at most that long. \<open>expired\<close> says that this call comes back from a wait that has timed out:
  then it returns \<open>TIMEOUT\<close> without looking at the queue again, even if an item has arrived.
\<close>

datatype 'a poll_result = Blocked | Polled 'a QueueCode "'a simple_queue"

definition Poll :: "'a simple_queue \<Rightarrow> 'a \<Rightarrow> int \<Rightarrow> bool \<Rightarrow> 'a poll_result" where
  "Poll q dflt timeout expired =
     (if expired \<and> timeout \<noteq> -1 \<and> timeout \<noteq> 0 then Polled dflt TIMEOUT q
      else case sq_queue q of
        x # xs \<Rightarrow> Polled x SUCCESS (q\<lparr>sq_queue := xs\<rparr>)
      | [] \<Rightarrow>
          if \<not> sq_open q then Polled dflt FINISH q
          else if timeout = 0 then Polled dflt TIMEOUT q
          else Blocked)"

text \<open>A call that does not come back from an expired wait; \<open>Poll\<close> with no timeout given is one.\<close>

definition timed_out :: "int \<Rightarrow> bool \<Rightarrow> bool" where
  "timed_out timeout expired \<longleftrightarrow> expired \<and> timeout \<noteq> -1 \<and> timeout \<noteq> 0"

lemma timed_out_simps [simp]: "\<not> timed_out (-1) expired" "\<not> timed_out 0 expired" "\<not> timed_out t False"
  by (simp_all add: timed_out_def)

lemma Poll_timed_out: "timed_out t expired \<Longrightarrow> Poll q dflt t expired = Polled dflt TIMEOUT q"
  by (simp add: Poll_def timed_out_def)

definition Close :: "'a simple_queue \<Rightarrow> 'a simple_queue" where
  "Close q = q\<lparr>sq_open := False\<rparr>"

text \<open>\<open>Reopen\<close> aborts on a queue that still holds data.\<close>

definition Reopen :: "'a simple_queue \<Rightarrow> 'a simple_queue option" where
  "Reopen q = (if sq_queue q = [] then Some (q\<lparr>sq_open := True\<rparr>) else None)"

definition IsEmptyUnsafe :: "'a simple_queue \<Rightarrow> bool" where
  "IsEmptyUnsafe q \<longleftrightarrow> sq_queue q = []"

definition SetSizeLimit :: "'a simple_queue \<Rightarrow> nat \<Rightarrow> 'a simple_queue" where
  "SetSizeLimit q n = q\<lparr>sq_size_limit := n\<rparr>"

text \<open>The successful outcome of a poll, the one that takes an item.\<close>

definition pop :: "'a simple_queue \<Rightarrow> ('a \<times> 'a simple_queue) option" where
  "pop q = (case sq_queue q of [] \<Rightarrow> None | x # xs \<Rightarrow> Some (x, q\<lparr>sq_queue := xs\<rparr>))"

lemma Poll_success:
  "Poll q dflt timeout expired = Polled x SUCCESS q' \<longleftrightarrow> \<not> timed_out timeout expired \<and> pop q = Some (x, q')"
  by (auto simp: Poll_def pop_def timed_out_def split: list.splits)

lemma Poll_finish:
  "Poll q dflt timeout expired = Polled x FINISH q' \<longleftrightarrow>
     \<not> timed_out timeout expired \<and> sq_queue q = [] \<and> \<not> sq_open q \<and> x = dflt \<and> q' = q"
  by (auto simp: Poll_def timed_out_def split: list.splits)

lemma Push_Some:
  "Push q x = Some q' \<longleftrightarrow>
     (sq_size_limit q = 0 \<or> length (sq_queue q) < sq_size_limit q) \<and>
     q' = q\<lparr>sq_queue := sq_queue q @ [x]\<rparr>"
  by (auto simp: Push_def)

lemma pop_Some:
  "pop q = Some (x, q') \<longleftrightarrow> sq_queue q = x # sq_queue q' \<and> q' = q\<lparr>sq_queue := sq_queue q'\<rparr>"
  by (auto simp: pop_def split: list.splits)

lemma Push_empty: "sq_queue q = [] \<Longrightarrow> \<exists>q'. Push q x = Some q'"
  by (auto simp: Push_def)

section \<open>The queue as an interface\<close>

datatype 'a queue_op = OpPush 'a | OpPop

locale bounded_fifo =
  fixes contents :: "'q \<Rightarrow> 'a list"
    and push :: "'q \<Rightarrow> 'a \<Rightarrow> 'q option"
    and take_first :: "'q \<Rightarrow> ('a \<times> 'q) option"
    and room :: "'q \<Rightarrow> nat \<Rightarrow> bool"
  assumes push_contents: "push q x = Some q' \<Longrightarrow> contents q' = contents q @ [x]"
    and take_contents: "take_first q = Some (x, q') \<Longrightarrow> contents q = x # contents q'"
    and push_room: "push q x = Some q' \<Longrightarrow> room q (length (contents q'))"
    and room_frame: "push q x = Some q' \<Longrightarrow> room q' n = room q n"
    and room_frame_take: "take_first q = Some (x, q') \<Longrightarrow> room q' n = room q n"
    and room_mono: "room q n \<Longrightarrow> m \<le> n \<Longrightarrow> room q m"
begin

text \<open>A history of completed operations: what was pushed and what was taken.\<close>

fun exec :: "'q \<Rightarrow> 'a queue_op list \<Rightarrow> ('q \<times> 'a list \<times> 'a list) option" where
  "exec q [] = Some (q, [], [])"
| "exec q (OpPush x # ops) =
     (case push q x of None \<Rightarrow> None
      | Some q' \<Rightarrow> map_option (\<lambda>(r, ps, ts). (r, x # ps, ts)) (exec q' ops))"
| "exec q (OpPop # ops) =
     (case take_first q of None \<Rightarrow> None
      | Some (x, q') \<Rightarrow> map_option (\<lambda>(r, ps, ts). (r, ps, x # ts)) (exec q' ops))"

lemma exec_fifo:
  "exec q ops = Some (q', pushed, taken) \<Longrightarrow> contents q @ pushed = taken @ contents q'"
proof (induction q ops arbitrary: pushed taken rule: exec.induct)
  case (1 q)
  then show ?case by simp
next
  case (2 q x ops)
  from "2.prems" obtain q1 ps where p: "push q x = Some q1"
    and e: "exec q1 ops = Some (q', ps, taken)" and ps: "pushed = x # ps"
    by (auto split: option.splits)
  from "2.IH" [OF p e] push_contents [OF p] ps show ?case by simp
next
  case (3 q ops)
  from "3.prems" obtain x q1 ts where t: "take_first q = Some (x, q1)"
    and e: "exec q1 ops = Some (q', pushed, ts)" and ts: "taken = x # ts"
    by (auto split: option.splits)
  from "3.IH" [OF t _ e] take_contents [OF t] ts show ?case by simp
qed

lemma exec_room:
  "exec q ops = Some (q', pushed, taken) \<Longrightarrow> room q (length (contents q)) \<Longrightarrow>
   room q (length (contents q'))"
proof (induction q ops arbitrary: pushed taken rule: exec.induct)
  case (1 q)
  then show ?case by simp
next
  case (2 q x ops)
  from "2.prems"(1) obtain q1 ps where p: "push q x = Some q1"
    and e: "exec q1 ops = Some (q', ps, taken)"
    by (auto split: option.splits)
  have "room q1 (length (contents q1))" using push_room [OF p] room_frame [OF p] by simp
  with "2.IH" [OF p e] room_frame [OF p] show ?case by simp
next
  case (3 q ops)
  from "3.prems"(1) obtain x q1 ts where t: "take_first q = Some (x, q1)"
    and e: "exec q1 ops = Some (q', pushed, ts)"
    by (auto split: option.splits)
  have "length (contents q1) \<le> length (contents q)" using take_contents [OF t] by simp
  then have "room q1 (length (contents q1))"
    using "3.prems"(2) room_mono room_frame_take [OF t] by blast
  with "3.IH" [OF t _ e] room_frame_take [OF t] show ?case by simp
qed

end

definition has_room :: "'a simple_queue \<Rightarrow> nat \<Rightarrow> bool" where
  "has_room q n \<longleftrightarrow> sq_size_limit q = 0 \<or> n \<le> sq_size_limit q"

interpretation simple_fifo: bounded_fifo sq_queue Push pop has_room
  by unfold_locales (auto simp: Push_Some pop_def has_room_def split: list.splits)

text \<open>A history of the queue, with the pushed and the taken items.\<close>

definition queue_history :: "'a simple_queue \<Rightarrow> 'a queue_op list \<Rightarrow>
    ('a simple_queue \<times> 'a list \<times> 'a list) option" where
  "queue_history = simple_fifo.exec"

section \<open>Properties\<close>

text \<open>C11: The queue is a bounded FIFO: over any history of completed pushes and successful polls,
what was in the queue followed by what was pushed is what was taken followed by what is left, so
items leave in the order in which they entered and none is lost or duplicated; and a queue within
its limit stays within it.\<close>

theorem queue_fifo_bounded:
  assumes "queue_history q ops = Some (q', pushed, taken)" and "has_room q (length (sq_queue q))"
  shows "sq_queue q @ pushed = taken @ sq_queue q' \<and>
    (sq_size_limit q \<noteq> 0 \<longrightarrow> length (sq_queue q') \<le> sq_size_limit q)"
  using simple_fifo.exec_fifo [of q ops q' pushed taken] simple_fifo.exec_room [of q ops q' pushed taken] assms
  by (auto simp add: queue_history_def has_room_def)

lemma queue_fifo_bounded_witness:
  "\<exists>q'. queue_history (SimpleQueue 2) [OpPush (1::nat), OpPush 2, OpPop, OpPush 3] = Some (q', [1, 2, 3], [1]) \<and>
     [1, 2, 3] = [1] @ sq_queue q' \<and> length (sq_queue q') \<le> 2"
proof -
  let ?ops = "[OpPush (1::nat), OpPush 2, OpPop, OpPush 3]"
  let ?q = "\<lparr>sq_queue = [2, 3], sq_size_limit = 2, sq_open = True\<rparr>"
  have run: "queue_history (SimpleQueue 2) ?ops = Some (?q, [1, 2, 3], [1])"
    by (simp add: queue_history_def SimpleQueue_def Push_def pop_def)
  then show ?thesis
    using queue_fifo_bounded [OF run] by (simp add: SimpleQueue_def has_room_def)
qed

text \<open>A \<open>Poll\<close> whose wait has not timed out takes the first item whenever there is one, even after
\<open>Close\<close>; it reports the end exactly when the queue is closed and drained; and a closed queue never
makes it wait.\<close>

theorem Poll_drains_then_finishes:
  "\<not> timed_out t expired \<Longrightarrow>
   (sq_queue q = x # xs \<longrightarrow> Poll (Close q) dflt t expired = Polled x SUCCESS ((Close q)\<lparr>sq_queue := xs\<rparr>)) \<and>
   (sq_queue q = [] \<longrightarrow> Poll (Close q) dflt t expired = Polled dflt FINISH (Close q)) \<and>
   ((\<exists>y. Poll q dflt t expired = Polled y FINISH q) \<longleftrightarrow> sq_queue q = [] \<and> \<not> sq_open q)"
  by (auto simp: Poll_def Close_def timed_out_def split: list.splits)

lemma Poll_drains_then_finishes_witness:
  "Poll (Close \<lparr>sq_queue = [7::nat], sq_size_limit = 1, sq_open = True\<rparr>) 0 (-1) False
     = Polled 7 SUCCESS \<lparr>sq_queue = [], sq_size_limit = 1, sq_open = False\<rparr> \<and>
   Poll (Close (SimpleQueue 0)) (0::nat) (-1) False = Polled 0 FINISH (Close (SimpleQueue 0))"
  using Poll_drains_then_finishes [of "-1" False "\<lparr>sq_queue = [7::nat], sq_size_limit = 1, sq_open = True\<rparr>" 7 "[]" 0]
    Poll_drains_then_finishes [of "-1" False "SimpleQueue 0" 0 "[]" "0::nat"]
  by (simp add: Close_def SimpleQueue_def)

end
