(* ===== verification/Storage.thy ===== *)
theory Storage
  imports Prelude
begin

text \<open>
  Files and the representation of elements. A file is a list of bytes; the store maps names to
  files. \<open>pwrite_bytes\<close> and \<open>fs_read\<close> are positioned writes and reads: a write past the end
  of a file fills the hole with zero bytes, a read stops at the end. An element type of the
  templates is a \<open>pod\<close>: its \<open>sizeof\<close> and its bytes in memory, which is what a
  reinterpreting cast of a buffer gives. The locale \<open>pod_repr\<close> is what the code relies on for
  a trivially copyable type.
\<close>

type_synonym fstore = "string \<Rightarrow> byte list option"

definition pwrite_bytes :: "byte list \<Rightarrow> nat \<Rightarrow> byte list \<Rightarrow> byte list" where
  "pwrite_bytes f off bs =
     take off f @ replicate (off - length f) 0 @ bs @ drop (off + length bs) f"

definition file_of :: "fstore \<Rightarrow> string \<Rightarrow> byte list" where
  "file_of fs name = (case fs name of None \<Rightarrow> [] | Some f \<Rightarrow> f)"

definition fs_write :: "fstore \<Rightarrow> string \<Rightarrow> nat \<Rightarrow> byte list \<Rightarrow> fstore" where
  "fs_write fs name off bs = fs(name \<mapsto> pwrite_bytes (file_of fs name) off bs)"

definition fs_read :: "fstore \<Rightarrow> string \<Rightarrow> nat \<Rightarrow> nat \<Rightarrow> byte list" where
  "fs_read fs name off n = take n (drop off (file_of fs name))"

lemma length_pwrite [simp]:
  "length (pwrite_bytes f off bs) = max (length f) (off + length bs)"
  by (auto simp: pwrite_bytes_def)

lemma nth_pwrite:
  assumes "i < max (length f) (off + length bs)"
  shows "pwrite_bytes f off bs ! i =
    (if off \<le> i \<and> i < off + length bs then bs ! (i - off)
     else if i < length f then f ! i else 0)"
proof -
  consider "i < off" | "off \<le> i" "i < off + length bs" | "off + length bs \<le> i"
    by linarith
  then show ?thesis
  proof cases
    case 1
    then show ?thesis
      using assms by (auto simp: pwrite_bytes_def nth_append)
  next
    case 2
    have "min (length f) off + (off - length f) = off" by simp
    with 2 show ?thesis
      by (auto simp: pwrite_bytes_def nth_append)
  next
    case 3
    then have "i < length f" using assms by simp
    with 3 show ?thesis
      by (auto simp: pwrite_bytes_def nth_append)
  qed
qed

lemma read_pwrite_same:
  "take (length bs) (drop off (pwrite_bytes f off bs)) = bs"
  by (rule nth_equalityI) (auto simp: nth_pwrite)

lemma read_pwrite_disjoint:
  assumes "o2 + n \<le> length f" and "o2 + n \<le> off \<or> off + length bs \<le> o2"
  shows "take n (drop o2 (pwrite_bytes f off bs)) = take n (drop o2 f)"
  using assms by (intro nth_equalityI) (auto simp: nth_pwrite)

lemma file_of_write:
  "file_of (fs_write fs name off bs) n2 =
     (if n2 = name then pwrite_bytes (file_of fs name) off bs else file_of fs n2)"
  by (simp add: file_of_def fs_write_def)

lemma length_fs_read [simp]: "length (fs_read fs name off n) = min n (length (file_of fs name) - off)"
  by (simp add: fs_read_def min.commute)

lemma fs_read_write_same [simp]:
  "fs_read (fs_write fs name off bs) name off (length bs) = bs"
  by (simp add: fs_read_def file_of_write read_pwrite_same)

lemma fs_read_write_other:
  "n2 \<noteq> name \<Longrightarrow> fs_read (fs_write fs name off bs) n2 o2 n = fs_read fs n2 o2 n"
  by (simp add: fs_read_def file_of_write)

lemma fs_read_write_disjoint:
  assumes "o2 + n \<le> length (file_of fs n2)"
    and "n2 \<noteq> name \<or> o2 + n \<le> off \<or> off + length bs \<le> o2"
  shows "fs_read (fs_write fs name off bs) n2 o2 n = fs_read fs n2 o2 n"
  using assms by (auto simp: fs_read_def file_of_write read_pwrite_disjoint)

lemma file_length_write_mono:
  "length (file_of fs n2) \<le> length (file_of (fs_write fs name off bs) n2)"
  by (simp add: file_of_write)

lemma file_length_write_same:
  "off + length bs \<le> length (file_of (fs_write fs name off bs) name)"
  by (simp add: file_of_write)

lemma fs_read_prefix: "m \<le> n \<Longrightarrow> take m (fs_read fs name off n) = fs_read fs name off m"
  by (simp add: fs_read_def min.absorb1)

section \<open>Trivially copyable element types\<close>

record 'a pod =
  pod_size :: nat
  pod_enc :: "'a \<Rightarrow> byte list"
  pod_dec :: "byte list \<Rightarrow> 'a"

definition enc_list :: "'a pod \<Rightarrow> 'a list \<Rightarrow> byte list" where
  "enc_list P xs = concat (map (pod_enc P) xs)"

fun dec_list :: "'a pod \<Rightarrow> nat \<Rightarrow> byte list \<Rightarrow> 'a list" where
  "dec_list P 0 bs = []"
| "dec_list P (Suc n) bs = pod_dec P (take (pod_size P) bs) # dec_list P n (drop (pod_size P) bs)"

lemma length_dec_list [simp]: "length (dec_list P n bs) = n"
  by (induction n arbitrary: bs) simp_all

lemma dec_list_take:
  "n * pod_size P \<le> m \<Longrightarrow> dec_list P n (take m bs) = dec_list P n bs"
proof (induction n arbitrary: m bs)
  case 0
  then show ?case by simp
next
  case (Suc n)
  then have "pod_size P \<le> m" and "n * pod_size P \<le> m - pod_size P"
    by (simp_all add: algebra_simps)
  with Suc.IH [of "m - pod_size P" "drop (pod_size P) bs"] show ?case
    by (simp add: drop_take min_def)
qed

lemma take_dec_list: "m \<le> n \<Longrightarrow> take m (dec_list P n bs) = dec_list P m bs"
proof (induction n arbitrary: m bs)
  case 0
  then show ?case by simp
next
  case (Suc n)
  then show ?case by (cases m) simp_all
qed

lemma enc_list_append [simp]: "enc_list P (xs @ ys) = enc_list P xs @ enc_list P ys"
  by (simp add: enc_list_def)

lemma enc_list_Nil [simp]: "enc_list P [] = []"
  by (simp add: enc_list_def)

lemma enc_list_Cons [simp]: "enc_list P (x # xs) = pod_enc P x @ enc_list P xs"
  by (simp add: enc_list_def)

locale pod_repr =
  fixes P :: "'a pod"
  assumes size_pos [simp]: "0 < pod_size P"
    and enc_length [simp]: "length (pod_enc P x) = pod_size P"
    and dec_enc [simp]: "pod_dec P (pod_enc P x) = x"
begin

lemma length_enc_list [simp]: "length (enc_list P xs) = length xs * pod_size P"
  by (induction xs) simp_all

lemma dec_enc_list_append [simp]: "dec_list P (length xs) (enc_list P xs @ bs) = xs"
  by (induction xs) simp_all

lemma dec_enc_list [simp]: "dec_list P (length xs) (enc_list P xs) = xs"
  using dec_enc_list_append [of xs "[]"] by simp

lemma dec_enc_take:
  "n \<le> length xs \<Longrightarrow> dec_list P n (take (n * pod_size P) (enc_list P xs)) = take n xs"
proof -
  assume n: "n \<le> length xs"
  have "enc_list P xs = enc_list P (take n xs) @ enc_list P (drop n xs)"
    by (simp flip: enc_list_append)
  then have "dec_list P n (enc_list P xs) = take n xs"
    using n dec_enc_list_append [of "take n xs" "enc_list P (drop n xs)"]
    by (simp add: min.absorb2)
  then show ?thesis
    by (simp add: dec_list_take)
qed

end

section \<open>The element types the programs are instantiated with\<close>

text \<open>
  \<open>size_t\<close>, \<open>uint16_t\<close> and \<open>bool\<close> on the little-endian machine the code is written for
  (it reads and writes the end marker through a \<open>uint16_t\<close> pointer).
\<close>

fun le_bytes :: "nat \<Rightarrow> nat \<Rightarrow> byte list" where
  "le_bytes 0 k = []"
| "le_bytes (Suc n) k = of_nat (k mod 256) # le_bytes n (k div 256)"

fun le_val :: "byte list \<Rightarrow> nat" where
  "le_val [] = 0"
| "le_val (b # bs) = unat b + 256 * le_val bs"

lemma length_le_bytes [simp]: "length (le_bytes n k) = n"
  by (induction n arbitrary: k) simp_all

lemma le_val_bytes: "k < 256 ^ n \<Longrightarrow> le_val (le_bytes n k) = k"
proof (induction n arbitrary: k)
  case 0
  then show ?case by simp
next
  case (Suc n)
  then have "k div 256 < 256 ^ n" by (simp add: less_mult_imp_div_less mult.commute)
  then have "le_val (le_bytes n (k div 256)) = k div 256" by (rule Suc.IH)
  moreover have "unat (of_nat (k mod 256) :: byte) = k mod 256"
    by (simp add: unat_of_nat)
  ultimately show ?case by simp
qed

definition u64_pod :: "u64 pod" where
  "u64_pod = \<lparr>pod_size = 8, pod_enc = (\<lambda>w. le_bytes 8 (unat w)),
              pod_dec = (\<lambda>bs. of_nat (le_val bs))\<rparr>"

definition u16_pod :: "16 word pod" where
  "u16_pod = \<lparr>pod_size = 2, pod_enc = (\<lambda>w. le_bytes 2 (unat w)),
              pod_dec = (\<lambda>bs. of_nat (le_val bs))\<rparr>"

definition u8_pod :: "byte pod" where
  "u8_pod = \<lparr>pod_size = 1, pod_enc = (\<lambda>w. [w]), pod_dec = (\<lambda>bs. hd (bs @ [0]))\<rparr>"

definition bool_pod :: "bool pod" where
  "bool_pod = \<lparr>pod_size = 1, pod_enc = (\<lambda>b. [if b then 1 else 0]),
               pod_dec = (\<lambda>bs. hd (bs @ [0]) \<noteq> 0)\<rparr>"

lemma le_val_unat_u64: "le_val (le_bytes 8 (unat (w :: u64))) = unat w"
  using unsigned_less [of w] by (intro le_val_bytes) simp

lemma le_val_unat_u16: "le_val (le_bytes 2 (unat (w :: 16 word))) = unat w"
  using unsigned_less [of w] by (intro le_val_bytes) simp

interpretation u64_repr: pod_repr u64_pod
  by unfold_locales (simp_all add: u64_pod_def le_val_unat_u64)

interpretation u16_repr: pod_repr u16_pod
  by unfold_locales (simp_all add: u16_pod_def le_val_unat_u16)

interpretation u8_repr: pod_repr u8_pod
  by unfold_locales (simp_all add: u8_pod_def)

interpretation bool_repr: pod_repr bool_pod
  by unfold_locales (simp_all add: bool_pod_def)

text \<open>
  No output file is an input file. An operation that reads while it writes is modelled as reading the
  file system it started with, which is what the code sees as long as this holds.
\<close>

definition fresh_outputs :: "string list \<Rightarrow> string list \<Rightarrow> bool" where
  "fresh_outputs ins outs \<longleftrightarrow> set ins \<inter> set outs = {}"

end
