(* ===== verification/FileUtils.thy ===== *)
theory FileUtils
  imports Storage
begin

text \<open>
  utils/file_utils.h, utils/file_utils.cpp and utils/file_info.h: alignment of offsets on
  \<open>size_t\<close>, the round-robin file naming over the SSDs and the search for files by prefix, the
  end-of-file marker that records how much of a padded file is valid, and the small positioned
  reads. The list of SSD directories is an explicit argument of what reads it.
\<close>

definition O_DIRECT_MULTIPLE :: nat where "O_DIRECT_MULTIPLE = 4096"
definition METADATA_SIZE :: nat where "METADATA_SIZE = 2"
definition SSD_COUNT :: nat where "SSD_COUNT = 30"

section \<open>Alignment\<close>

definition AlignDown_to :: "u64 \<Rightarrow> u64 \<Rightarrow> u64" where
  "AlignDown_to original alignment = original div alignment * alignment"

definition AlignUp_to :: "u64 \<Rightarrow> u64 \<Rightarrow> u64" where
  "AlignUp_to original alignment = (original + alignment - 1) div alignment * alignment"

definition AlignDown :: "u64 \<Rightarrow> u64" where
  "AlignDown original = original div of_nat O_DIRECT_MULTIPLE * of_nat O_DIRECT_MULTIPLE"

definition AlignUp :: "u64 \<Rightarrow> u64" where
  "AlignUp original =
     (original + of_nat O_DIRECT_MULTIPLE - 1) div of_nat O_DIRECT_MULTIPLE * of_nat O_DIRECT_MULTIPLE"

lemma unat_div_mult:
  "unat ((x :: u64) div m * m) = unat x div unat m * unat m"
proof -
  have "unat x div unat m * unat m \<le> unat x" by (rule div_times_less_eq_dividend)
  also have "unat x < 2 ^ 64" using unsigned_less [of x] by simp
  finally show ?thesis by (simp add: unat_word_ariths unat_div_distrib mod_mult_left_eq)
qed

lemma unat_add_sub1:
  assumes "0 < unat (m :: u64)" and "unat x + unat m \<le> 2 ^ 64"
  shows "unat (x + m - 1) = unat x + unat m - 1"
proof -
  have "x + m - 1 = of_nat (unat x + unat m - 1)"
    using assms(1) by (simp add: of_nat_diff)
  moreover have "unat x + unat m - 1 < 2 ^ 64" using assms by linarith
  ultimately show ?thesis by (simp add: unat_of_nat)
qed

lemma AlignUp_to_unat:
  "0 < unat m \<Longrightarrow> unat x + unat m \<le> 2 ^ 64 \<Longrightarrow>
   unat (AlignUp_to x m) = round_up (unat m) (unat x)"
  unfolding AlignUp_to_def round_up_def by (simp only: unat_div_mult unat_add_sub1)

lemma AlignDown_to_unat: "unat (AlignDown_to x m) = unat x div unat m * unat m"
  unfolding AlignDown_to_def by (rule unat_div_mult)

lemma AlignUp_eq: "AlignUp x = AlignUp_to x 4096"
  by (simp add: AlignUp_def AlignUp_to_def O_DIRECT_MULTIPLE_def)

lemma AlignDown_eq: "AlignDown x = AlignDown_to x 4096"
  by (simp add: AlignDown_def AlignDown_to_def O_DIRECT_MULTIPLE_def)

section \<open>Decimal numbers\<close>

fun to_string :: "nat \<Rightarrow> string" where
  "to_string n = (if n < 10 then [char_of (48 + n)] else to_string (n div 10) @ [char_of (48 + n mod 10)])"

declare to_string.simps [simp del]

definition is_digit :: "char \<Rightarrow> bool" where
  "is_digit c \<longleftrightarrow> 48 \<le> (of_char c :: nat) \<and> (of_char c :: nat) \<le> 57"

definition digits_value :: "string \<Rightarrow> nat" where
  "digits_value s = foldl (\<lambda>v c. v * 10 + (of_char c - 48)) 0 s"

definition is_space :: "char \<Rightarrow> bool" where
  "is_space c \<longleftrightarrow> (of_char c :: nat) \<in> {9, 10, 11, 12, 13, 32}"

text \<open>
  \<open>std::stol\<close>: white space, an optional sign, then at least one digit (else
  \<open>invalid_argument\<close>) of a value that fits a \<open>long\<close> (else \<open>out_of_range\<close>).
\<close>

definition stol :: "string \<Rightarrow> int option" where
  "stol s =
     (let t = dropWhile is_space s;
          neg = (t \<noteq> [] \<and> hd t = CHR ''-'');
          u = (if t \<noteq> [] \<and> (hd t = CHR ''-'' \<or> hd t = CHR ''+'') then tl t else t);
          ds = takeWhile is_digit u;
          v = (if neg then - int (digits_value ds) else int (digits_value ds))
      in if ds = [] then None
         else if - (2 ^ 63) \<le> v \<and> v < 2 ^ 63 then Some v else None)"

lemma of_char_digit: "d < 10 \<Longrightarrow> (of_char (char_of (48 + d :: nat)) :: nat) = 48 + d"
  by (simp add: of_char_of)

lemma to_string_digits: "\<forall>c \<in> set (to_string n). is_digit c"
proof (induction n rule: to_string.induct)
  case (1 n)
  have d: "is_digit (char_of (48 + d :: nat))" if "d < 10" for d
    using of_char_digit [OF that] that by (simp add: is_digit_def)
  show ?case
  proof (cases "n < 10")
    case True
    then show ?thesis using d by (subst to_string.simps) simp
  next
    case False
    then show ?thesis using 1 d by (subst to_string.simps) auto
  qed
qed

lemma to_string_value: "digits_value (to_string n) = n"
proof (induction n rule: to_string.induct)
  case (1 n)
  show ?case
  proof (cases "n < 10")
    case True
    then show ?thesis using of_char_digit [OF True]
      by (subst to_string.simps) (simp add: digits_value_def)
  next
    case False
    then have "digits_value (to_string (n div 10)) = n div 10" by (rule 1)
    moreover have "to_string n = to_string (n div 10) @ [char_of (48 + n mod 10)]"
      using False by (subst to_string.simps) simp
    moreover have "n div 10 * 10 + n mod 10 = n" by simp
    ultimately show ?thesis
      using of_char_digit [of "n mod 10"] by (simp only: digits_value_def foldl_append) simp
  qed
qed

lemma to_string_nonempty [simp]: "to_string n \<noteq> []"
  by (subst to_string.simps) simp

lemma to_string_inject: "to_string m = to_string n \<longleftrightarrow> m = n"
  using to_string_value by metis

lemma digit_not_special:
  "is_digit c \<Longrightarrow> \<not> is_space c \<and> c \<noteq> CHR ''-'' \<and> c \<noteq> CHR ''+'' \<and> c \<noteq> CHR ''/''"
  by (auto simp: is_digit_def is_space_def)

lemma stol_to_string:
  assumes "n < 2 ^ 63"
  shows "stol (to_string n) = Some (int n)"
proof -
  obtain c cs where s: "to_string n = c # cs" by (cases "to_string n") auto
  then have c: "is_digit c" and all: "takeWhile is_digit (to_string n) = to_string n"
    using to_string_digits [of n] by (auto simp: takeWhile_eq_all_conv)
  have "dropWhile is_space (to_string n) = to_string n"
    using digit_not_special [OF c] by (simp add: s)
  moreover have "hd (to_string n) \<noteq> CHR ''-''" "hd (to_string n) \<noteq> CHR ''+''"
    using digit_not_special [OF c] by (simp_all add: s)
  moreover have "int n < 2 ^ 63" using assms by simp
  ultimately show ?thesis by (simp add: stol_def Let_def all to_string_value)
qed

section \<open>SSD directories and file names\<close>

text \<open>\<open>sprintf(buffer, "/mnt/ssd%lu", i)\<close>\<close>

definition ssd_path :: "nat \<Rightarrow> string" where
  "ssd_path i = ''/mnt/ssd'' @ to_string i"

text \<open>The list of numbers is empty: the \<open>CHECK\<close> aborts.\<close>

definition PopulateSSDList_numbers :: "string list \<Rightarrow> nat list \<Rightarrow> string list option" where
  "PopulateSSDList_numbers ssd_list numbers =
     (if numbers = [] then None else Some (ssd_list @ map ssd_path numbers))"

text \<open>\<open>draws\<close> are the values of the random distribution, \<open>None\<close> when they run out.\<close>

fun choose_random :: "nat \<Rightarrow> nat list \<Rightarrow> nat list \<Rightarrow> nat list option" where
  "choose_random num chosen draws =
     (if num \<le> length chosen then Some chosen
      else case draws of [] \<Rightarrow> None
        | d # ds \<Rightarrow> choose_random num (if d \<in> set chosen then chosen else insort d chosen) ds)"

definition PopulateSSDList :: "string list \<Rightarrow> nat \<Rightarrow> bool \<Rightarrow> nat list \<Rightarrow> string list option" where
  "PopulateSSDList ssd_list num random draws =
     (if \<not> num \<le> SSD_COUNT \<or> ssd_list \<noteq> [] then None
      else case (if random then choose_random num [] draws else Some [0..<num]) of
          None \<Rightarrow> None
        | Some numbers \<Rightarrow> PopulateSSDList_numbers ssd_list numbers)"

definition CheckSSDList :: "string list \<Rightarrow> string list" where
  "CheckSSDList ssd_list =
     (if ssd_list = [] then (case PopulateSSDList [] SSD_COUNT False [] of Some l \<Rightarrow> l | None \<Rightarrow> [])
      else ssd_list)"

definition GetFileName :: "string list \<Rightarrow> string \<Rightarrow> nat \<Rightarrow> string" where
  "GetFileName ssd_list prefix file_number =
     (let ssds = CheckSSDList ssd_list
      in ssds ! (file_number mod length ssds) @ ''/'' @ prefix @ to_string file_number)"

definition file_names :: "string list \<Rightarrow> string \<Rightarrow> nat \<Rightarrow> string list" where
  "file_names ssds prefix n = map (GetFileName ssds prefix) [0..<n]"

lemma CheckSSDList_nonempty [simp]: "CheckSSDList l \<noteq> []"
  by (simp add: CheckSSDList_def PopulateSSDList_def PopulateSSDList_numbers_def SSD_COUNT_def)

lemma split_last_slash:
  assumes "CHR ''/'' \<notin> set s" and "CHR ''/'' \<notin> set t" and "a @ ''/'' @ s = b @ ''/'' @ t"
  shows "a = b \<and> s = t"
proof -
  have split: "takeWhile (\<lambda>c. c \<noteq> CHR ''/'') (rev (x @ ''/'' @ y)) = rev y"
    if "CHR ''/'' \<notin> set y" for x y :: string
    using that by (subst rev_append, subst rev_append, subst append_assoc, subst takeWhile_append2) auto
  have "rev s = rev t"
    by (metis split [OF assms(1), of a] split [OF assms(2), of b] assms(3))
  with assms(3) show ?thesis by simp
qed

lemma GetFileName_inject:
  assumes "CHR ''/'' \<notin> set prefix" and "GetFileName ssds prefix m = GetFileName ssds prefix n"
  shows "m = n"
proof -
  have dig: "CHR ''/'' \<notin> set (prefix @ to_string k)" for k
    using assms(1) to_string_digits [of k] digit_not_special by fastforce
  let ?d = "\<lambda>k. CheckSSDList ssds ! (k mod length (CheckSSDList ssds))"
  have "?d m @ ''/'' @ (prefix @ to_string m) = ?d n @ ''/'' @ (prefix @ to_string n)"
    using assms(2) by (simp add: GetFileName_def Let_def)
  then have "prefix @ to_string m = prefix @ to_string n"
    using split_last_slash [OF dig dig] by blast
  then show ?thesis by (simp add: to_string_inject)
qed

lemma distinct_file_names:
  "CHR ''/'' \<notin> set prefix \<Longrightarrow> distinct (file_names ssds prefix n)"
  by (auto simp: file_names_def distinct_map inj_on_def dest: GetFileName_inject)

lemma length_file_names [simp]: "length (file_names ssds prefix n) = n"
  by (simp add: file_names_def)

section \<open>Finding files and their sizes\<close>

record FileInfo =
  fi_file_name :: string
  fi_file_index :: nat
  fi_true_size :: nat
  fi_file_size :: nat
  fi_before_size :: nat

text \<open>No file of the list has a name that \<open>GetFileName\<close> makes from the prefix.\<close>

definition files_apart :: "string list \<Rightarrow> string \<Rightarrow> FileInfo list \<Rightarrow> bool" where
  "files_apart ssds prefix files \<longleftrightarrow> (\<forall>info \<in> set files. \<forall>j. fi_file_name info \<noteq> GetFileName ssds prefix j)"

lemma files_apart_relative: "\<forall>info \<in> set files. CHR ''/'' \<notin> set (fi_file_name info) \<Longrightarrow> files_apart ssds prefix files"
  by (fastforce simp: files_apart_def GetFileName_def Let_def)

definition new_FileInfo :: "string \<Rightarrow> nat \<Rightarrow> nat \<Rightarrow> nat \<Rightarrow> FileInfo" where
  "new_FileInfo name index true_size file_size =
     \<lparr>fi_file_name = name, fi_file_index = index, fi_true_size = true_size,
      fi_file_size = file_size, fi_before_size = 0\<rparr>"

text \<open>\<open>std::string::find\<close>: the first position at which \<open>pat\<close> occurs.\<close>

fun find_sub :: "string \<Rightarrow> string \<Rightarrow> nat option" where
  "find_sub pat [] = (if pat = [] then Some 0 else None)"
| "find_sub pat (c # cs) =
     (if take (length pat) (c # cs) = pat then Some 0 else map_option Suc (find_sub pat cs))"

text \<open>
  What \<open>FindFiles\<close> does with one directory entry: skipped, recorded, or an exception of
  \<open>stol\<close> (\<open>None\<close>). The index is a \<open>size_t\<close>, so a negative number wraps around.
\<close>

definition find_entry :: "string \<Rightarrow> string \<times> nat \<Rightarrow> FileInfo list option" where
  "find_entry prefix entry =
     (case find_sub (''/'' @ prefix) (fst entry) of
        None \<Rightarrow> Some []
      | Some index \<Rightarrow>
          let sub = drop (index + 1 + length prefix) (fst entry)
          in if sub = [] then Some [new_FileInfo (fst entry) 0 0 (snd entry)]
             else map_option (\<lambda>v. [new_FileInfo (fst entry) (nat (v mod 2 ^ 64)) 0 (snd entry)]) (stol sub))"

fun find_entries :: "string \<Rightarrow> (string \<times> nat) list \<Rightarrow> FileInfo list option" where
  "find_entries prefix [] = Some []"
| "find_entries prefix (e # es) =
     (case find_entry prefix e of
        None \<Rightarrow> None
      | Some fi \<Rightarrow> map_option (\<lambda>rest. fi @ rest) (find_entries prefix es))"

text \<open>\<open>listing d\<close> is what the directory iterator yields for the directory \<open>d\<close>.\<close>

definition FindFiles :: "string list \<Rightarrow> (string \<Rightarrow> (string \<times> nat) list) \<Rightarrow> string \<Rightarrow> FileInfo list option" where
  "FindFiles ssd_list listing prefix =
     map_option (sort_key fi_file_index)
       (find_entries prefix (concat (map listing (CheckSSDList ssd_list))))"

fun ComputeBeforeSize_from :: "nat \<Rightarrow> FileInfo list \<Rightarrow> FileInfo list" where
  "ComputeBeforeSize_from total_size [] = []"
| "ComputeBeforeSize_from total_size (f # files) =
     f\<lparr>fi_before_size := total_size\<rparr> # ComputeBeforeSize_from (total_size + fi_true_size f) files"

definition ComputeBeforeSize :: "FileInfo list \<Rightarrow> FileInfo list" where
  "ComputeBeforeSize files = ComputeBeforeSize_from 0 files"

text \<open>
  \<open>ReadFileOnce\<close> with three arguments: one direct-I/O unit at an aligned offset. Here and below
  \<open>None\<close> for a name that is in no file stands for a result that is not defined: \<open>SYSCALL\<close> only logs
  the failed \<open>open\<close> or \<open>stat\<close>, and the code goes on with an uninitialised buffer or size. No theorem
  states more of it than that.
\<close>

definition ReadFileOnce :: "fstore \<Rightarrow> string \<Rightarrow> nat \<Rightarrow> byte list option" where
  "ReadFileOnce fs name off =
     (if fs name = None \<or> off mod O_DIRECT_MULTIPLE \<noteq> 0 then None
      else Some (fs_read fs name off O_DIRECT_MULTIPLE))"

definition file_info_true_size :: "fstore \<Rightarrow> FileInfo \<Rightarrow> FileInfo option" where
  "file_info_true_size fs f =
     (if fi_true_size f = 0 \<and> 0 < fi_file_size f
      then (case ReadFileOnce fs (fi_file_name f) (sub64 (fi_file_size f) O_DIRECT_MULTIPLE) of
          None \<Rightarrow> None
        | Some buffer \<Rightarrow>
            let m = le_val (take METADATA_SIZE (drop (O_DIRECT_MULTIPLE - METADATA_SIZE) buffer))
            in Some (f\<lparr>fi_true_size := sub64 (fi_file_size f) m\<rparr>))
      else Some f)"

definition file_info_one :: "fstore \<Rightarrow> bool \<Rightarrow> FileInfo \<Rightarrow> FileInfo option" where
  "file_info_one fs eof_marker f =
     (let sized = (if fi_file_size f = 0
          then map_option (\<lambda>bs. f\<lparr>fi_file_size := length bs\<rparr>) (fs (fi_file_name f)) else Some f)
      in case sized of None \<Rightarrow> None
       | Some g \<Rightarrow> if eof_marker then file_info_true_size fs g
                  else Some (g\<lparr>fi_true_size := fi_file_size g\<rparr>))"

fun file_info_all :: "fstore \<Rightarrow> bool \<Rightarrow> FileInfo list \<Rightarrow> FileInfo list option" where
  "file_info_all fs eof_marker [] = Some []"
| "file_info_all fs eof_marker (f # infos) =
     (case file_info_one fs eof_marker f of
        None \<Rightarrow> None
      | Some g \<Rightarrow> map_option (\<lambda>rest. g # rest) (file_info_all fs eof_marker infos))"

definition GetFileInfo :: "fstore \<Rightarrow> bool \<Rightarrow> bool \<Rightarrow> FileInfo list \<Rightarrow> FileInfo list option" where
  "GetFileInfo fs eof_marker compute_before_size infos =
     map_option (\<lambda>l. if compute_before_size then ComputeBeforeSize l else l)
       (file_info_all fs eof_marker infos)"

definition MakeFileEndMarker :: "byte list \<Rightarrow> nat \<Rightarrow> nat \<Rightarrow> byte list option" where
  "MakeFileEndMarker buffer buf_size real_size =
     (let byte_diff = sub64 buf_size real_size
      in if byte_diff < 2 ^ (8 * METADATA_SIZE)
         then Some (pwrite_bytes buffer (buf_size - METADATA_SIZE) (le_bytes METADATA_SIZE byte_diff))
         else None)"

definition throughput_bytes :: "FileInfo list \<Rightarrow> nat" where
  "throughput_bytes files =
     (\<Sum>f\<leftarrow>files. if fi_true_size f = 0 then fi_file_size f else fi_true_size f)"

section \<open>Positioned reads\<close>

text \<open>
  The four-argument \<open>ReadFileOnce\<close>: it reads only \<open>O_DIRECT_MULTIPLE\<close> bytes into a temporary
  buffer of the aligned size; \<open>junk\<close> is the uninitialised memory of that buffer. As above, \<open>None\<close>
  for a missing file means a result that is not defined.
\<close>

definition ReadFileOnce_range :: "fstore \<Rightarrow> byte list \<Rightarrow> string \<Rightarrow> nat \<Rightarrow> nat \<Rightarrow> byte list option" where
  "ReadFileOnce_range fs junk name start read_size =
     (if fs name = None then None
      else
        let start_aligned = start div O_DIRECT_MULTIPLE * O_DIRECT_MULTIPLE;
            end_aligned = round_up O_DIRECT_MULTIPLE (start + read_size);
            temp_buffer = take (end_aligned - start_aligned) junk;
            got = fs_read fs name start_aligned O_DIRECT_MULTIPLE
        in Some (take read_size (drop (start - start_aligned) (got @ drop (length got) temp_buffer))))"

text \<open>
  The loop of \<open>ReadEntireFile\<close>: one \<open>read\<close> returns at most \<open>cap\<close> bytes (Linux: 2147479552) and
  0 at the end of the file. \<open>None\<close>: the fuel ran out. For a missing file, where \<open>None\<close> again means a
  result that is not defined, each \<open>read\<close> returns -1 and the unsigned counter of the loop wraps around.
\<close>

fun read_entire_loop :: "nat \<Rightarrow> nat \<Rightarrow> fstore \<Rightarrow> string \<Rightarrow> nat \<Rightarrow> byte list \<Rightarrow> byte list option" where
  "read_entire_loop 0 cap fs name read_size acc = None"
| "read_entire_loop (Suc fuel) cap fs name read_size acc =
     (if length acc < read_size
      then read_entire_loop fuel cap fs name read_size
             (acc @ fs_read fs name (length acc) (min cap (read_size - length acc)))
      else Some acc)"

definition ReadEntireFile :: "nat \<Rightarrow> nat \<Rightarrow> fstore \<Rightarrow> string \<Rightarrow> nat \<Rightarrow> byte list option" where
  "ReadEntireFile fuel cap fs name read_size =
     (if fs name = None then None
      else read_entire_loop fuel cap fs name (round_up O_DIRECT_MULTIPLE read_size) [])"

text \<open>
  \<open>Read\<close> and \<open>Write\<close>: the system call moves the numbers of bytes \<open>got\<close>, one per call; a call
  that moves nothing fails the \<open>CHECK\<close>.
\<close>

fun Read_loop :: "nat list \<Rightarrow> byte list \<Rightarrow> nat \<Rightarrow> byte list \<Rightarrow> (byte list \<times> byte list) option" where
  "Read_loop got file read_size acc =
     (if read_size = 0 then Some (acc, file)
      else case got of [] \<Rightarrow> None
        | n # ns \<Rightarrow>
            if n = 0 \<or> read_size < n \<or> length file < n then None
            else Read_loop ns (drop n file) (read_size - n) (acc @ take n file))"

fun Write_loop :: "nat list \<Rightarrow> byte list \<Rightarrow> nat \<Rightarrow> byte list \<Rightarrow> byte list option" where
  "Write_loop got buffer pos file =
     (if buffer = [] then Some file
      else case got of [] \<Rightarrow> None
        | n # ns \<Rightarrow>
            if n = 0 \<or> length buffer < n then None
            else Write_loop ns (drop n buffer) (pos + n) (pwrite_bytes file pos (take n buffer)))"

declare Read_loop.simps [simp del] Write_loop.simps [simp del]

section \<open>Lemmas\<close>

lemma find_sub_name:
  "find_sub (CHR ''/'' # p) d = None \<Longrightarrow> CHR ''/'' \<notin> set p \<Longrightarrow>
   find_sub (CHR ''/'' # p) (d @ CHR ''/'' # p @ t) = Some (length d)"
proof (induction d)
  case Nil
  then show ?case by simp
next
  case (Cons c cs)
  let ?pat = "CHR ''/'' # p" and ?rest = "CHR ''/'' # p @ t"
  from Cons.prems have no: "take (length ?pat) (c # cs) \<noteq> ?pat" and cs: "find_sub ?pat cs = None"
    by (auto split: if_splits)
  have "take (length ?pat) ((c # cs) @ ?rest) \<noteq> ?pat"
  proof
    assume eq: "take (length ?pat) ((c # cs) @ ?rest) = ?pat"
    show False
    proof (cases "length ?pat \<le> length (c # cs)")
      case True
      with eq no show False by simp
    next
      case False
      then have len: "length cs < length p" by simp
      have "p ! length cs = ?pat ! Suc (length cs)" by simp
      also have "\<dots> = ((c # cs) @ ?rest) ! Suc (length cs)"
        using eq len by (metis length_Cons Suc_less_eq nth_take)
      also have "\<dots> = CHR ''/''" by (simp add: nth_append)
      finally show False using Cons.prems(2) len nth_mem by metis
    qed
  qed
  then show ?case using Cons.IH [OF cs Cons.prems(2)] by simp
qed

lemma find_entry_name:
  assumes "CHR ''/'' \<notin> set prefix" and "n < 2 ^ 63"
    and "\<forall>d \<in> set (CheckSSDList ssds). find_sub (''/'' @ prefix) d = None"
  shows "find_entry prefix (GetFileName ssds prefix n, sz)
       = Some [new_FileInfo (GetFileName ssds prefix n) n 0 sz]"
proof -
  let ?d = "CheckSSDList ssds ! (n mod length (CheckSSDList ssds))"
  have mem: "?d \<in> set (CheckSSDList ssds)" by (simp add: mod_less_divisor)
  have name: "GetFileName ssds prefix n = ?d @ CHR ''/'' # prefix @ to_string n"
    by (simp add: GetFileName_def Let_def)
  have "find_sub (''/'' @ prefix) (GetFileName ssds prefix n) = Some (length ?d)"
    unfolding name using find_sub_name [of prefix ?d "to_string n"] assms(1,3) mem by simp
  moreover have "drop (length ?d + 1 + length prefix) (GetFileName ssds prefix n) = to_string n"
    unfolding name by simp
  moreover have "nat (int n mod 2 ^ 64) = n"
    using assms(2) by (simp add: nat_mod_distrib nat_power_eq)
  ultimately show ?thesis
    using stol_to_string [OF assms(2)] by (simp add: find_entry_def Let_def)
qed

lemma find_entries_map:
  "\<forall>e \<in> set es. find_entry prefix e = Some (g e) \<Longrightarrow>
   find_entries prefix es = Some (concat (map g es))"
  by (induction es) auto

lemma before_size_from:
  "i < length files \<Longrightarrow>
   ComputeBeforeSize_from t files ! i = (files ! i)\<lparr>fi_before_size := t + (\<Sum>f\<leftarrow>take i files. fi_true_size f)\<rparr>"
proof (induction files arbitrary: t i)
  case Nil
  then show ?case by simp
next
  case (Cons f files)
  then show ?case by (cases i) (simp_all add: add.assoc)
qed

lemma length_before_size [simp]: "length (ComputeBeforeSize_from t files) = length files"
  by (induction files arbitrary: t) simp_all

lemma fs_read_append:
  "fs_read fs name off m @ fs_read fs name (off + m) n = fs_read fs name off (m + n)"
  by (simp add: fs_read_def take_add add.commute)

lemma fs_read_0 [simp]: "fs_read fs name off 0 = []"
  by (simp add: fs_read_def)

lemma read_entire_enough:
  assumes "0 < cap" and "read_size \<le> length (file_of fs name)"
  shows "acc = fs_read fs name 0 (length acc) \<Longrightarrow> read_size \<le> length acc + fuel * cap \<Longrightarrow>
    length acc \<le> read_size \<Longrightarrow>
    read_entire_loop (Suc fuel) cap fs name read_size acc = Some (fs_read fs name 0 read_size)"
proof (induction fuel arbitrary: acc)
  case 0
  then show ?case by simp
next
  case (Suc fuel)
  show ?case
  proof (cases "length acc < read_size")
    case False
    with Suc.prems show ?thesis by simp
  next
    case True
    let ?n = "min cap (read_size - length acc)"
    let ?acc = "acc @ fs_read fs name (length acc) ?n"
    have len: "length ?acc = length acc + ?n" using assms(2) True by auto
    have eq: "?acc = fs_read fs name 0 (length acc + ?n)"
      using Suc.prems(1) fs_read_append [of fs name 0 "length acc" ?n] by simp
    have "read_entire_loop (Suc fuel) cap fs name read_size ?acc = Some (fs_read fs name 0 read_size)"
    proof (rule Suc.IH)
      show "?acc = fs_read fs name 0 (length ?acc)" using eq len by simp
      show "read_size \<le> length ?acc + fuel * cap"
        using Suc.prems(2) len by (auto simp: min_def algebra_simps)
      show "length ?acc \<le> read_size" using len True by simp
    qed
    then show ?thesis using True by simp
  qed
qed

lemma read_entire_stuck:
  "length (file_of fs name) < read_size \<Longrightarrow> length acc \<le> length (file_of fs name) \<Longrightarrow>
   read_entire_loop fuel cap fs name read_size acc = None"
proof (induction fuel arbitrary: acc)
  case 0
  then show ?case by simp
next
  case (Suc fuel)
  then show ?case by (auto intro!: Suc.IH)
qed

lemma Read_loop_prefix:
  "Read_loop got f0 n acc = Some (out, rest) \<Longrightarrow>
   n \<le> length f0 \<and> out = acc @ take n f0 \<and> rest = drop n f0"
proof (induction got f0 n acc rule: Read_loop.induct)
  case (1 got f0 n acc)
  show ?case
  proof (cases "n = 0")
    case True
    with "1.prems" show ?thesis by (simp add: Read_loop.simps)
  next
    case False
    with "1.prems" obtain m ms where got: "got = m # ms" and m: "m \<noteq> 0" "m \<le> n" "m \<le> length f0"
      and rec: "Read_loop ms (drop m f0) (n - m) (acc @ take m f0) = Some (out, rest)"
      by (auto simp: Read_loop.simps [of got] split: list.splits if_splits)
    have "\<not> (m = 0 \<or> n < m \<or> length f0 < m)" using m by simp
    note ih = "1.IH" [OF False got this rec]
    have "take m f0 @ take (n - m) (drop m f0) = take n f0"
      using m(2) by (metis le_add_diff_inverse take_add)
    with ih m show ?thesis by auto
  qed
qed

lemma Write_loop_pwrite:
  "Write_loop got buffer pos f0 = Some out \<Longrightarrow> pos \<le> length f0 \<Longrightarrow>
   out = (if buffer = [] then f0 else pwrite_bytes f0 pos buffer)"
proof (induction got buffer pos f0 rule: Write_loop.induct)
  case (1 got buffer pos f0)
  show ?case
  proof (cases "buffer = []")
    case True
    with "1.prems" show ?thesis by (simp add: Write_loop.simps)
  next
    case False
    with "1.prems" obtain m ms where got: "got = m # ms" and m: "m \<noteq> 0" "m \<le> length buffer"
      and rec: "Write_loop ms (drop m buffer) (pos + m) (pwrite_bytes f0 pos (take m buffer)) = Some out"
      by (auto simp: Write_loop.simps [of got] split: list.splits if_splits)
    let ?f = "pwrite_bytes f0 pos (take m buffer)"
    have "\<not> (m = 0 \<or> length buffer < m)" using m by simp
    moreover have "pos + m \<le> length ?f" using m by simp
    ultimately have out: "out = (if drop m buffer = [] then ?f else pwrite_bytes ?f (pos + m) (drop m buffer))"
      using "1.IH" [OF False got _ rec] by blast
    show ?thesis
    proof (cases "drop m buffer = []")
      case True
      with out False show ?thesis by simp
    next
      case more: False
      have "pwrite_bytes ?f (pos + m) (drop m buffer) = pwrite_bytes f0 pos buffer"
        using m "1.prems"(2) by (intro nth_equalityI) (auto simp: nth_pwrite)
      with out more False show ?thesis by simp
    qed
  qed
qed

section \<open>Properties\<close>

text \<open>\<open>AlignUp\<close> and \<open>AlignDown\<close> give the nearest multiples of the direct-I/O unit above and
below an offset, as long as the sum in \<open>AlignUp\<close> does not wrap around; when it does, the result
is 0.\<close>

theorem AlignUp_AlignDown_nearest:
  "unat (AlignDown x) mod 4096 = 0 \<and> unat (AlignDown x) \<le> unat x \<and> unat x < unat (AlignDown x) + 4096 \<and>
   unat (AlignUp x) mod 4096 = 0 \<and>
   (if unat x \<le> 2 ^ 64 - 4096 then unat x \<le> unat (AlignUp x) \<and> unat (AlignUp x) < unat x + 4096
    else AlignUp x = 0)"
proof -
  have down: "unat (AlignDown x) = unat x div 4096 * 4096"
    using AlignDown_to_unat [of x 4096] by (simp add: AlignDown_eq)
  have up_mod: "unat (AlignUp x) = unat (x + 4096 - 1) div 4096 * 4096"
    unfolding AlignUp_def O_DIRECT_MULTIPLE_def using unat_div_mult [of "x + 4096 - 1" 4096] by simp
  have "unat x \<le> unat (AlignUp x) \<and> unat (AlignUp x) < unat x + 4096"
    if x: "unat x \<le> 2 ^ 64 - 4096"
  proof -
    have "unat (AlignUp x) = round_up 4096 (unat x)"
      using AlignUp_to_unat [of 4096 x] x by (simp add: AlignUp_eq)
    then show ?thesis by (simp add: round_up_ge round_up_lt)
  qed
  moreover have "AlignUp x = 0" if x: "\<not> unat x \<le> 2 ^ 64 - 4096"
  proof -
    have "unat x < 2 ^ 64" using unsigned_less [of x] by simp
    then have "(unat x + 4095) div 2 ^ 64 = 1" using x by simp
    then have "(unat x + 4095) mod 2 ^ 64 = unat x + 4095 - 2 ^ 64"
      using minus_div_mult_eq_mod [of "unat x + 4095" "2 ^ 64"] by simp
    then have "unat (x + 4095) < 4096"
      using \<open>unat x < 2 ^ 64\<close> by (simp add: unat_word_ariths)
    then have "unat (4095 + x) div 4096 = 0" by (simp add: add.commute)
    then have "unat (AlignUp x) = 0" unfolding up_mod by simp
    then show ?thesis by (simp only: unat_eq_0)
  qed
  ultimately show ?thesis
    unfolding down by (simp add: up_mod)
qed

text \<open>C31: \<open>FindFiles\<close> finds exactly the files \<open>GetFileName\<close> has named for a prefix, each with its
number, and returns them in that order whatever the order of the directory listings and whatever
other files there are, provided the prefix does not already occur in a directory name.\<close>

theorem FindFiles_GetFileName:
  assumes prefix: "CHR ''/'' \<notin> set prefix" and n: "n \<le> 2 ^ 63"
    and dirs: "\<forall>d \<in> set (CheckSSDList ssds). find_sub (''/'' @ prefix) d = None"
    and listed: "mset (concat (map listing (CheckSSDList ssds))) =
      mset (map (\<lambda>i. (GetFileName ssds prefix i, sz i)) [0..<n] @ others)"
    and other: "\<forall>e \<in> set others. find_sub (''/'' @ prefix) (fst e) = None"
  shows "FindFiles ssds listing prefix =
    Some (map (\<lambda>i. new_FileInfo (GetFileName ssds prefix i) i 0 (sz i)) [0..<n])"
proof -
  let ?es = "concat (map listing (CheckSSDList ssds))"
  let ?ours = "map (\<lambda>i. (GetFileName ssds prefix i, sz i)) [0..<n]"
  let ?info = "\<lambda>i. new_FileInfo (GetFileName ssds prefix i) i 0 (sz i)"
  define g where "g = (\<lambda>e. the (find_entry prefix e))"
  have ours: "find_entry prefix (GetFileName ssds prefix i, sz i) = Some [?info i]" if "i < n" for i
    using that n by (intro find_entry_name [OF prefix _ dirs]) simp
  have oth: "find_entry prefix e = Some []" if "e \<in> set others" for e
    using other that by (simp add: find_entry_def)
  have "\<forall>e \<in> set ?es. find_entry prefix e = Some (g e)"
    using mset_eq_setD [OF listed] ours oth by (auto simp: g_def)
  then have found: "find_entries prefix ?es = Some (concat (map g ?es))"
    by (rule find_entries_map)
  have "mset (concat (map g ?es)) = mset (concat (map g (?ours @ others)))"
    using listed by (rule mset_concat_map_cong)
  also have "concat (map g (?ours @ others)) = map ?info [0..<n]"
  proof -
    have "concat (map g others) = []" using oth by (simp add: g_def)
    moreover have "map g ?ours = map (\<lambda>i. [?info i]) [0..<n]"
      using ours by (simp add: g_def)
    ultimately show ?thesis by (simp add: concat_map_singleton del: map_map)
  qed
  finally have m: "mset (map ?info [0..<n]) = mset (concat (map g ?es))" by simp
  have "map fi_file_index (map ?info [0..<n]) = [0..<n]"
    by (simp add: new_FileInfo_def comp_def)
  then have keys: "sorted (map fi_file_index (map ?info [0..<n]))" "distinct (map fi_file_index (map ?info [0..<n]))"
    by (simp_all only: sorted_upt distinct_upt)
  have "sort_key fi_file_index (concat (map g ?es)) = map ?info [0..<n]"
    using sort_key_perm [OF m keys(2)] sort_key_id_if_sorted [OF keys(1)] by metis
  then show ?thesis by (simp add: FindFiles_def found)
qed

lemma FindFiles_GetFileName_witness:
  "FindFiles [''/mnt/ssd0'', ''/mnt/ssd1'']
     (\<lambda>d. if d = ''/mnt/ssd0'' then [(''/mnt/ssd0/f2'', 8), (''/mnt/ssd0/old'', 5), (''/mnt/ssd0/f0'', 8)]
          else [(''/mnt/ssd1/f1'', 8)]) ''f''
   = Some [new_FileInfo ''/mnt/ssd0/f0'' 0 0 8, new_FileInfo ''/mnt/ssd1/f1'' 1 0 8,
           new_FileInfo ''/mnt/ssd0/f2'' 2 0 8]"
proof -
  have n: "GetFileName [''/mnt/ssd0'', ''/mnt/ssd1''] ''f'' 0 = ''/mnt/ssd0/f0''"
    "GetFileName [''/mnt/ssd0'', ''/mnt/ssd1''] ''f'' 1 = ''/mnt/ssd1/f1''"
    "GetFileName [''/mnt/ssd0'', ''/mnt/ssd1''] ''f'' 2 = ''/mnt/ssd0/f2''"
    by code_simp+
  have u: "[0..<3] = [0, 1, 2]" by (simp add: upt_rec numeral_3_eq_3)
  show ?thesis
    using FindFiles_GetFileName [of "''f''" 3 "[''/mnt/ssd0'', ''/mnt/ssd1'']"
        "\<lambda>d. if d = ''/mnt/ssd0'' then [(''/mnt/ssd0/f2'', 8), (''/mnt/ssd0/old'', 5), (''/mnt/ssd0/f0'', 8)]
          else [(''/mnt/ssd1/f1'', 8)]" "\<lambda>_. 8" "[(''/mnt/ssd0/old'', 5)]"]
    by (simp add: u n [unfolded One_nat_def] CheckSSDList_def del: upt_Suc)
qed

text \<open>The marker of a buffer with \<open>used\<close> valid bytes is behind them.\<close>

lemma end_marker_buffer:
  assumes "length xs = used" and "used + METADATA_SIZE \<le> n" and "n < used + METADATA_SIZE + 2 * O_DIRECT_MULTIPLE"
    and "n < 2 ^ 64" and "n - used \<le> length junk"
  shows "\<exists>bs. MakeFileEndMarker (xs @ take (n - used) junk) n used = Some bs \<and> length bs = n \<and> take used bs = xs"
proof -
  define buf where "buf = xs @ take (n - used) junk"
  define bs where "bs = pwrite_bytes buf (n - METADATA_SIZE) (le_bytes METADATA_SIZE (n - used))"
  have le: "used \<le> n - METADATA_SIZE" using assms(2) by linarith
  have lb: "length buf = n" using assms by (simp add: buf_def)
  have "sub64 n used = n - used" using assms by (intro sub64_le) linarith+
  moreover have "n - used < 2 ^ (8 * METADATA_SIZE)"
    using assms(3) unfolding METADATA_SIZE_def O_DIRECT_MULTIPLE_def by simp
  ultimately have "MakeFileEndMarker buf n used = Some bs" by (simp add: MakeFileEndMarker_def bs_def Let_def)
  moreover have "length bs = n" using lb assms(2) by (simp add: bs_def)
  moreover have "take used bs = xs"
  proof -
    have "take used bs = take used (take (n - METADATA_SIZE) bs)" using le by (simp add: min_absorb1)
    also have "take (n - METADATA_SIZE) bs = take (n - METADATA_SIZE) buf"
      using lb assms(2) by (simp add: bs_def pwrite_bytes_def)
    also have "take used \<dots> = xs" using le assms(1) by (simp add: buf_def min_absorb1)
    finally show ?thesis .
  qed
  ultimately show ?thesis unfolding buf_def by blast
qed

lemma marker_read:
  assumes mk: "MakeFileEndMarker buf (length buf) real = Some buf'"
    and real: "real \<le> length buf" "length buf < 2 ^ 64" and buf: "O_DIRECT_MULTIPLE \<le> length buf"
  shows "length buf' = length buf \<and> length buf - real < 65536 \<and>
    le_val (drop (length buf' - METADATA_SIZE) buf') = length buf - real"
proof -
  let ?d = "length buf - real"
  have d: "sub64 (length buf) real = ?d" using real by (rule sub64_le)
  have lt: "?d < 65536" and buf': "buf' = pwrite_bytes buf (length buf - 2) (le_bytes 2 ?d)"
    using mk d by (auto simp: MakeFileEndMarker_def Let_def METADATA_SIZE_def split: if_splits)
  have b2: "2 \<le> length buf" using buf by (simp add: O_DIRECT_MULTIPLE_def)
  have len: "length buf' = length buf" using b2 by (simp add: buf')
  have "take 2 (drop (length buf - 2) buf') = le_bytes 2 ?d"
    using read_pwrite_same [of "le_bytes 2 ?d" "length buf - 2" buf] by (simp add: buf')
  moreover have "length (drop (length buf - 2) buf') = 2" using len b2 by simp
  ultimately have "drop (length buf - 2) buf' = le_bytes 2 ?d" by simp
  then show ?thesis using lt len le_val_bytes [of ?d 2] by (simp add: METADATA_SIZE_def)
qed

lemma end_marker_info:
  assumes mk: "MakeFileEndMarker buf (length buf) real = Some buf'"
    and real: "real \<le> length buf" and buf: "O_DIRECT_MULTIPLE \<le> length buf"
    and f: "fs name = Some (before @ buf')"
    and al: "O_DIRECT_MULTIPLE dvd length before" "O_DIRECT_MULTIPLE dvd length buf"
    and small: "length before + length buf < 2 ^ 64"
  shows "GetFileInfo fs True False [new_FileInfo name k 0 0] =
    Some [new_FileInfo name k (length before + real) (length before + length buf)]"
proof -
  let ?n = "length before + length buf"
  have l: "length buf < 2 ^ 64" using small by simp
  note mr = marker_read [OF mk real l buf]
  have n4: "4096 \<le> ?n" using buf by (simp add: O_DIRECT_MULTIPLE_def)
  then have n0: "0 < ?n" by linarith
  have off: "sub64 ?n O_DIRECT_MULTIPLE = ?n - O_DIRECT_MULTIPLE"
    using n4 small by (intro sub64_le) (simp_all add: O_DIRECT_MULTIPLE_def)
  have "O_DIRECT_MULTIPLE dvd ?n - O_DIRECT_MULTIPLE" using al by simp
  then have rd: "ReadFileOnce fs name (?n - O_DIRECT_MULTIPLE) =
      Some (drop (length buf - O_DIRECT_MULTIPLE) buf')"
    using f mr buf by (simp add: ReadFileOnce_def fs_read_def file_of_def)
  have tk: "take METADATA_SIZE (drop (O_DIRECT_MULTIPLE - METADATA_SIZE) (drop (length buf - O_DIRECT_MULTIPLE) buf'))
      = drop (length buf' - METADATA_SIZE) buf'"
    using mr buf by (simp add: METADATA_SIZE_def O_DIRECT_MULTIPLE_def)
  have m: "le_val (take METADATA_SIZE (drop (O_DIRECT_MULTIPLE - METADATA_SIZE)
      (drop (length buf - O_DIRECT_MULTIPLE) buf'))) = length buf - real"
    using mr by (subst tk) (elim conjE, assumption)
  have size: "sub64 ?n (length buf - real) = length before + real"
    using sub64_le [of "length buf - real" ?n] real small by simp
  have len: "length (before @ buf') = ?n" using mr by simp
  have "file_info_one fs True (new_FileInfo name k 0 0) =
      file_info_true_size fs (new_FileInfo name k 0 ?n)"
    using f len by (simp add: file_info_one_def new_FileInfo_def)
  also have "\<dots> = Some (new_FileInfo name k (length before + real) ?n)"
    using n0 off rd m size by (simp add: file_info_true_size_def new_FileInfo_def Let_def)
  finally show ?thesis by (simp add: GetFileInfo_def)
qed

text \<open>C30: The end marker round trip: when the last block of a file is a buffer of which \<open>real\<close>
bytes are valid and \<open>MakeFileEndMarker\<close> has marked it, \<open>GetFileInfo\<close> recovers the exact number
of valid bytes of the file from the padded file.\<close>

theorem end_marker_roundtrip:
  assumes mk: "MakeFileEndMarker buf (length buf) real = Some buf'"
    and real: "real \<le> length buf" and buf: "O_DIRECT_MULTIPLE \<le> length buf"
    and f: "fs name = Some (before @ buf')"
    and al: "O_DIRECT_MULTIPLE dvd length before" "O_DIRECT_MULTIPLE dvd length buf"
    and small: "length before + length buf < 2 ^ 64"
  shows "GetFileInfo fs True False [new_FileInfo name k 0 0] =
    Some [new_FileInfo name k (length before + real) (length before + length buf)]"
  using assms by (rule end_marker_info)

lemma end_marker_roundtrip_witness:
  "\<exists>buf'. MakeFileEndMarker (replicate 4096 7) 4096 4000 = Some buf' \<and>
     GetFileInfo [''f'' \<mapsto> replicate 4096 1 @ buf'] True False [new_FileInfo ''f'' 3 0 0] =
       Some [new_FileInfo ''f'' 3 8096 8192]"
proof -
  have "MakeFileEndMarker (replicate 4096 7) 4096 4000
      = Some (pwrite_bytes (replicate 4096 7) 4094 (le_bytes 2 96))"
    by (simp add: MakeFileEndMarker_def METADATA_SIZE_def sub64_def)
  then show ?thesis
    using end_marker_roundtrip [of "replicate 4096 7" 4000
        "pwrite_bytes (replicate 4096 7) 4094 (le_bytes 2 96)"
        "[''f'' \<mapsto> replicate 4096 1 @ pwrite_bytes (replicate 4096 7) 4094 (le_bytes 2 96)]" "''f''"
        "replicate 4096 1" 3]
    by (simp add: O_DIRECT_MULTIPLE_def)
qed

text \<open>C29: \<open>ReadEntireFile\<close> returns the first \<open>AlignUp(read_size)\<close> bytes of a file that has that
many, however few bytes one system call moves, and its loop then takes at most one call per
\<open>cap\<close> bytes; on a shorter file, one that is not padded to the direct-I/O unit, no number of
iterations is enough: the loop never ends.\<close>

theorem ReadEntireFile_total:
  assumes "fs name = Some f" and "0 < cap"
  shows "if round_up O_DIRECT_MULTIPLE n \<le> length f
    then ReadEntireFile (Suc (round_up O_DIRECT_MULTIPLE n)) cap fs name n =
           Some (take (round_up O_DIRECT_MULTIPLE n) f)
    else ReadEntireFile fuel cap fs name n = None"
proof -
  let ?n = "round_up O_DIRECT_MULTIPLE n"
  have f: "file_of fs name = f" using assms(1) by (simp add: file_of_def)
  have "?n \<le> ?n * cap" using assms(2) by simp
  then show ?thesis
    using assms(1) read_entire_enough [OF assms(2), of ?n fs name "[]" ?n]
      read_entire_stuck [of fs name ?n "[]" fuel cap]
    by (auto simp: ReadEntireFile_def f fs_read_def)
qed

lemma ReadEntireFile_total_witness:
  "ReadEntireFile 4097 1000 [''a'' \<mapsto> replicate 8192 1] ''a'' 100 = Some (replicate 4096 1) \<and>
   ReadEntireFile 77 1000 [''a'' \<mapsto> replicate 100 1] ''a'' 100 = None"
  using ReadEntireFile_total [of "[''a'' \<mapsto> replicate 8192 1]" "''a''" "replicate 8192 1" 1000 100 0]
    ReadEntireFile_total [of "[''a'' \<mapsto> replicate 100 1]" "''a''" "replicate 100 1" 1000 100 77]
  by (simp add: round_up_def O_DIRECT_MULTIPLE_def)

text \<open>The four-argument \<open>ReadFileOnce\<close> returns the requested bytes when they lie within one
direct-I/O unit. When they do not, everything beyond the first unit comes from the uninitialised
temporary buffer, although the file has the bytes.\<close>

theorem ReadFileOnce_range_bytes:
  assumes "fs name = Some f" and "start + n \<le> length f" and "O_DIRECT_MULTIPLE dvd length f"
    and "round_up O_DIRECT_MULTIPLE (start + n) \<le> length junk"
  shows "ReadFileOnce_range fs junk name start n = Some
    (let k = O_DIRECT_MULTIPLE - start mod O_DIRECT_MULTIPLE
     in if n \<le> k then take n (drop start f)
        else take k (drop start f) @ take (n - k) (drop O_DIRECT_MULTIPLE junk))"
proof -
  let ?M = O_DIRECT_MULTIPLE
  have M: "0 < ?M" by (simp add: O_DIRECT_MULTIPLE_def)
  let ?s = "start div ?M * ?M" and ?r = "start mod ?M" and ?e = "round_up ?M (start + n)"
  have s: "start = ?s + ?r" by simp
  have e: "start + n \<le> ?e" using round_up_ge [OF M] .
  show ?thesis
  proof (cases "n = 0")
    case True
    then show ?thesis using assms(1) M by (simp add: ReadFileOnce_range_def Let_def)
  next
    case False
    have "?s < length f" using s False assms(2) by linarith
    moreover have "?M dvd ?s" by simp
    ultimately have sM: "?s + ?M \<le> length f"
      using block_regions_disjoint [of ?M ?s "length f"] assms(3) by linarith
    then have got: "fs_read fs name ?s ?M = take ?M (drop ?s f)" and gl: "length (fs_read fs name ?s ?M) = ?M"
      using assms(1) by (simp_all add: fs_read_def file_of_def)
    let ?temp = "take (?e - ?s) junk"
    have dt: "drop ?M ?temp = take (?e - ?s - ?M) (drop ?M junk)" by (simp add: drop_take)
    have "ReadFileOnce_range fs junk name start n = Some (take n (drop (start - ?s)
        (fs_read fs name ?s ?M @ drop (length (fs_read fs name ?s ?M)) ?temp)))"
      by (simp only: assms(1) ReadFileOnce_range_def Let_def option.simps if_False)
    then have "ReadFileOnce_range fs junk name start n
        = Some (take n (drop ?r (take ?M (drop ?s f) @ drop ?M ?temp)))"
      by (simp only: gl minus_div_mult_eq_mod) (simp only: got)
    moreover have split: "drop ?r (take ?M (drop ?s f) @ drop ?M ?temp)
        = take (?M - ?r) (drop start f) @ drop ?M ?temp"
    proof -
      have "?r \<le> ?M" using M by (simp add: less_imp_le)
      moreover have "drop ?r (take ?M (drop ?s f)) = take (?M - ?r) (drop ?r (drop ?s f))"
        by (rule drop_take)
      moreover have "drop ?r (drop ?s f) = drop start f" using s by (metis add.commute drop_drop)
      ultimately show ?thesis using sM by simp
    qed
    ultimately have res: "ReadFileOnce_range fs junk name start n
        = Some (take n (take (?M - ?r) (drop start f) @ drop ?M ?temp))" by (simp only:)
    have len: "length (take (?M - ?r) (drop start f)) = ?M - ?r"
    proof -
      have "?M - ?r \<le> length f - start" using sM s by linarith
      then show ?thesis by simp
    qed
    have le: "n - (?M - ?r) \<le> ?e - ?s - ?M" using e s by linarith
    show ?thesis
    proof (cases "n \<le> ?M - ?r")
      case True
      then have "take n (take (?M - ?r) (drop start f) @ drop ?M ?temp) = take n (drop start f)"
        by (simp only: take_append len take_take min_absorb1) simp
      with res True show ?thesis by (simp only: Let_def if_True)
    next
      case False
      then have "take n (take (?M - ?r) (drop start f) @ drop ?M ?temp)
          = take (?M - ?r) (drop start f) @ take (n - (?M - ?r)) (drop ?M junk)"
        using le by (simp only: take_append len take_take dt) (simp add: min_absorb1 min_absorb2)
      with res False show ?thesis by (simp only: Let_def if_False)
    qed
  qed
qed

lemma ReadFileOnce_range_bytes_witness:
  "ReadFileOnce_range [''a'' \<mapsto> replicate 8192 1] (replicate 8192 9) ''a'' 4000 200
     = Some (replicate 96 1 @ replicate 104 9)"
proof -
  have "take 96 (drop 4000 (replicate 8192 (1 :: byte))) @ take 104 (drop 4096 (replicate 8192 9))
      = replicate 96 1 @ replicate 104 9"
    by (simp only: take_replicate drop_replicate) simp
  moreover have "4000 + 200 \<le> length (replicate 8192 (1 :: byte))"
    and "O_DIRECT_MULTIPLE dvd length (replicate 8192 (1 :: byte))"
    and "round_up O_DIRECT_MULTIPLE (4000 + 200) \<le> length (replicate 8192 (9 :: byte))"
    by (simp_all add: round_up_def O_DIRECT_MULTIPLE_def)
  moreover have "[''a'' \<mapsto> replicate 8192 (1 :: byte)] ''a'' = Some (replicate 8192 1)" by simp
  moreover have "O_DIRECT_MULTIPLE - 4000 mod O_DIRECT_MULTIPLE = 96" "\<not> (200 :: nat) \<le> 96"
    "(200 :: nat) - 96 = 104" "O_DIRECT_MULTIPLE = 4096"
    by (simp_all add: O_DIRECT_MULTIPLE_def)
  ultimately show ?thesis
    using ReadFileOnce_range_bytes [of "[''a'' \<mapsto> replicate 8192 1]" "''a''" "replicate 8192 1" 4000 200
      "replicate 8192 9"] by (simp only: Let_def if_False)
qed

text \<open>\<open>ComputeBeforeSize\<close> stores in every file the number of valid bytes of all files before
it and changes nothing else.\<close>

theorem ComputeBeforeSize_prefix_sums:
  "map fi_before_size (ComputeBeforeSize files) =
     map (\<lambda>i. \<Sum>f\<leftarrow>take i files. fi_true_size f) [0..<length files] \<and>
   map (fi_before_size_update (\<lambda>_. 0)) (ComputeBeforeSize files) =
     map (fi_before_size_update (\<lambda>_. 0)) files"
  by (auto intro!: nth_equalityI simp: ComputeBeforeSize_def before_size_from)

text \<open>The loops \<open>Read\<close> and \<open>Write\<close> move exactly the requested bytes however the system calls
split them; a call that moves nothing aborts, so a loop that returns has moved everything.\<close>

theorem Read_Write_loops:
  "(Read_loop got f0 n [] = Some (out, rest) \<longrightarrow> out = take n f0 \<and> rest = drop n f0 \<and> n \<le> length f0) \<and>
   (Write_loop got buffer pos f0 = Some f1 \<and> pos \<le> length f0 \<and> buffer \<noteq> [] \<longrightarrow>
      f1 = pwrite_bytes f0 pos buffer)"
  using Read_loop_prefix [of got f0 n "[]" out rest] Write_loop_pwrite [of got buffer pos f0 f1] by auto

lemma Read_Write_loops_witness:
  "Read_loop [2, 1] [1, 2, 3, 4] 3 [] = Some ([1, 2, 3], [4]) \<and>
   Write_loop [1, 2] [7, 8, 9] 1 [0] = Some [0, 7, 8, 9] \<and>
   [1, 2, 3] = take 3 [1, 2, 3, 4 :: byte] \<and> [0, 7, 8, 9] = pwrite_bytes [0] 1 [7, 8, 9]"
proof -
  have r: "Read_loop [2, 1] [1, 2, 3, 4] 3 [] = Some ([1, 2, 3], [4])" by code_simp
  have w: "Write_loop [1, 2] [7, 8, 9] 1 [0] = Some [0, 7, 8, 9]" by code_simp
  from Read_Write_loops [of "[2, 1]" "[1, 2, 3, 4]" 3 "[1, 2, 3]" "[4]" "[]" 0 "[]"] r
    Read_Write_loops [of "[1, 2]" "[0]" 0 "[]" "[]" "[7, 8, 9]" 1 "[0, 7, 8, 9]"] w
  show ?thesis by simp
qed

end
