(* ===== verification/ChunkHeader.thy ===== *)
theory ChunkHeader
  imports Storage
begin

text \<open>
  Plaidlay/chunk_header.h: the header of one on-disk block and the external sequence, the list
  of its block headers. The elements an external sequence denotes are those of its blocks in the
  order of their \<open>index\<close>; \<open>ReadOutput\<close> (Plaidlay/external_main.cpp) reads them back and is
  the abstraction function of the specifications of all primitives.
\<close>

record chunk_header =
  h_filename :: string
  h_begin_address :: nat
  h_used :: nat
  h_index :: nat

record External_Sequence =
  ordered_underlying_sequence :: "chunk_header list"

text \<open>\<open>External_Sequence(length)\<close> value-initialises its headers.\<close>

definition default_header :: chunk_header where
  "default_header = \<lparr>h_filename = [], h_begin_address = 0, h_used = 0, h_index = 0\<rparr>"

definition new_sequence :: "nat \<Rightarrow> External_Sequence" where
  "new_sequence n = \<lparr>ordered_underlying_sequence = replicate n default_header\<rparr>"

definition seq_size :: "External_Sequence \<Rightarrow> nat" where
  "seq_size s = length (ordered_underlying_sequence s)"

definition add_header :: "External_Sequence \<Rightarrow> chunk_header \<Rightarrow> External_Sequence" where
  "add_header s h =
     s\<lparr>ordered_underlying_sequence := ordered_underlying_sequence s @ [h]\<rparr>"

text \<open>
  \<open>get_val\<close>: the loop advances \<open>ctr\<close> while \<open>running_total + used \<le> index\<close>. Reading the header
  at \<open>ctr\<close> past the last one is \<open>None\<close>.
\<close>

fun get_val_loop :: "chunk_header list \<Rightarrow> nat \<Rightarrow> nat \<Rightarrow> chunk_header option" where
  "get_val_loop [] running_total i = None"
| "get_val_loop (h # hs) running_total i =
     (if running_total + h_used h \<le> i then get_val_loop hs (running_total + h_used h) i
      else Some h)"

definition get_val :: "External_Sequence \<Rightarrow> nat \<Rightarrow> chunk_header option" where
  "get_val s i = get_val_loop (ordered_underlying_sequence s) 0 i"

definition total_used :: "chunk_header list \<Rightarrow> nat" where
  "total_used hs = (\<Sum>h\<leftarrow>hs. h_used h)"

lemma total_used_simps [simp]:
  "total_used [] = 0"
  "total_used (h # hs) = h_used h + total_used hs"
  "total_used (hs @ hs') = total_used hs + total_used hs'"
  by (simp_all add: total_used_def)

lemma get_val_loop_None:
  "get_val_loop hs t i = None \<longleftrightarrow> hs = [] \<or> t + total_used hs \<le> i"
proof (induction hs arbitrary: t)
  case Nil
  then show ?case by simp
next
  case (Cons h hs)
  show ?case
  proof (cases "t + h_used h \<le> i")
    case True
    with Cons [of "t + h_used h"] show ?thesis by (cases hs) (simp_all add: add.assoc)
  next
    case False
    then show ?thesis by simp
  qed
qed

lemma get_val_loop_Some:
  "get_val_loop hs t i = Some h \<Longrightarrow> t \<le> i \<Longrightarrow>
   \<exists>before after. hs = before @ h # after \<and> t + total_used before \<le> i \<and>
     i < t + total_used before + h_used h"
proof (induction hs arbitrary: t)
  case Nil
  then show ?case by simp
next
  case (Cons g hs)
  show ?case
  proof (cases "t + h_used g \<le> i")
    case True
    with Cons.prems have "get_val_loop hs (t + h_used g) i = Some h" by simp
    from Cons.IH [OF this True] obtain before after where
      "hs = before @ h # after" and "t + h_used g + total_used before \<le> i"
      and "i < t + h_used g + total_used before + h_used h" by blast
    then have "g # hs = (g # before) @ h # after \<and> t + total_used (g # before) \<le> i \<and>
        i < t + total_used (g # before) + h_used h" by simp
    then show ?thesis by blast
  next
    case False
    with Cons.prems have "h = g" by simp
    with False Cons.prems have "g # hs = [] @ h # hs \<and> t + total_used [] \<le> i \<and>
        i < t + total_used [] + h_used h" by simp
    then show ?thesis by blast
  qed
qed

section \<open>Reading a sequence back\<close>

definition chunk_elems :: "'a pod \<Rightarrow> fstore \<Rightarrow> chunk_header \<Rightarrow> 'a list" where
  "chunk_elems P fs h =
     dec_list P (h_used h div pod_size P) (fs_read fs (h_filename h) (h_begin_address h) (h_used h))"

text \<open>One iteration of the loop of \<open>ReadOutput\<close>: \<open>None\<close> where a \<open>CHECK\<close> aborts.\<close>

definition read_block :: "'a pod \<Rightarrow> fstore \<Rightarrow> chunk_header \<Rightarrow> 'a list option" where
  "read_block P fs h =
     (if h_used h div pod_size P = 0 then Some []
      else if fs (h_filename h) = None then None
      else if length (fs_read fs (h_filename h) (h_begin_address h) (h_used h)) = h_used h
      then Some (chunk_elems P fs h)
      else None)"

fun read_blocks :: "'a pod \<Rightarrow> fstore \<Rightarrow> chunk_header list \<Rightarrow> 'a list option" where
  "read_blocks P fs [] = Some []"
| "read_blocks P fs (h # hs) =
     (case read_block P fs h of
        None \<Rightarrow> None
      | Some xs \<Rightarrow> map_option (\<lambda>ys. xs @ ys) (read_blocks P fs hs))"

definition ReadOutput :: "'a pod \<Rightarrow> fstore \<Rightarrow> External_Sequence \<Rightarrow> 'a list option" where
  "ReadOutput P fs s = read_blocks P fs (sort_key h_index (ordered_underlying_sequence s))"

text \<open>
  Well-formed blocks: whole elements, no larger than the block size, and backed by bytes of
  their file; and no two headers of a sequence have the same ordering key.
\<close>

definition wf_block :: "'a pod \<Rightarrow> nat \<Rightarrow> fstore \<Rightarrow> chunk_header \<Rightarrow> bool" where
  "wf_block P B fs h \<longleftrightarrow>
     pod_size P dvd h_used h \<and> h_used h \<le> B \<and>
     (h_used h \<noteq> 0 \<longrightarrow> fs (h_filename h) \<noteq> None \<and>
        h_begin_address h + h_used h \<le> length (file_of fs (h_filename h)))"

definition wf_seq :: "'a pod \<Rightarrow> nat \<Rightarrow> fstore \<Rightarrow> External_Sequence \<Rightarrow> bool" where
  "wf_seq P B fs s \<longleftrightarrow>
     distinct (map h_index (ordered_underlying_sequence s)) \<and>
     (\<forall>h \<in> set (ordered_underlying_sequence s). wf_block P B fs h)"

lemma length_chunk_elems [simp]: "length (chunk_elems P fs h) = h_used h div pod_size P"
  by (simp add: chunk_elems_def)

lemma read_block_wf: "wf_block P B fs h \<Longrightarrow> read_block P fs h = Some (chunk_elems P fs h)"
  by (auto simp: read_block_def wf_block_def chunk_elems_def split: if_splits)

lemma read_blocks_wf:
  "\<forall>h \<in> set hs. wf_block P B fs h \<Longrightarrow>
   read_blocks P fs hs = Some (concat (map (chunk_elems P fs) hs))"
  by (induction hs) (simp_all add: read_block_wf [of P B])

lemma ReadOutput_wf:
  "wf_seq P B fs s \<Longrightarrow>
   ReadOutput P fs s =
     Some (concat (map (chunk_elems P fs) (sort_key h_index (ordered_underlying_sequence s))))"
  by (simp add: ReadOutput_def wf_seq_def read_blocks_wf [of _ P B])

text \<open>
  What a stream of blocks denotes: each block is its ordering key with its elements, and the
  blocks are taken in key order whatever the order of the stream.
\<close>

definition ordered_elems :: "(nat \<times> 'a list) list \<Rightarrow> 'a list" where
  "ordered_elems bs = concat (map snd (sort_key fst bs))"

definition chunk_core :: "'a pod \<Rightarrow> fstore \<Rightarrow> chunk_header \<Rightarrow> nat \<times> 'a list" where
  "chunk_core P fs h = (h_index h, chunk_elems P fs h)"

lemma fst_chunk_core [simp]: "fst (chunk_core P fs h) = h_index h"
  by (simp add: chunk_core_def)

lemma snd_chunk_core [simp]: "snd (chunk_core P fs h) = chunk_elems P fs h"
  by (simp add: chunk_core_def)

lemma ordered_elems_perm:
  "mset xs = mset ys \<Longrightarrow> distinct (map fst xs) \<Longrightarrow> ordered_elems xs = ordered_elems ys"
  using sort_key_perm [of xs ys fst] by (simp add: ordered_elems_def)

lemma ReadOutput_ordered:
  assumes "wf_seq P B fs s"
  shows "ReadOutput P fs s =
    Some (ordered_elems (map (chunk_core P fs) (ordered_underlying_sequence s)))"
proof -
  have "sort_key fst (map (chunk_core P fs) hs)
      = map (chunk_core P fs) (sort_key h_index hs)" for hs
    by (simp add: sort_key_map comp_def)
  then show ?thesis
    using assms by (simp add: ReadOutput_wf ordered_elems_def comp_def)
qed

text \<open>Applying a function to the elements of every block commutes with reading in order.\<close>

lemma ordered_elems_map_blocks:
  assumes "\<And>xs ys. g (xs @ ys) = g xs @ g ys" and "g [] = []"
  shows "ordered_elems (map (\<lambda>b. (fst b, g (snd b))) bs) = g (ordered_elems bs)"
proof -
  have "concat (map (\<lambda>b. g (snd b)) cs) = g (concat (map snd cs))" for cs :: "(nat \<times> _ list) list"
    by (induction cs) (simp_all add: assms)
  then show ?thesis
    by (simp add: ordered_elems_def sort_key_map comp_def)
qed

lemma mset_ordered_elems: "mset (ordered_elems bs) = (\<Sum>b\<leftarrow>bs. mset (snd b))"
proof -
  have "mset (concat (map snd cs)) = \<Sum>\<^sub># (image_mset (\<lambda>b. mset (snd b)) (mset cs))"
    for cs :: "(nat \<times> 'a list) list"
    by (induction cs) simp_all
  moreover have "(\<Sum>b\<leftarrow>bs. mset (snd b)) = \<Sum>\<^sub># (image_mset (\<lambda>b. mset (snd b)) (mset bs))"
    by (induction bs) simp_all
  ultimately show ?thesis by (simp add: ordered_elems_def)
qed

section \<open>An example sequence\<close>

definition fresh_seq :: "External_Sequence \<Rightarrow> string list \<Rightarrow> bool" where
  "fresh_seq s names \<longleftrightarrow> fresh_outputs (map h_filename (ordered_underlying_sequence s)) names"

text \<open>Two blocks of at most four bytes of one file, stored against their order.\<close>

definition demo_fs :: fstore where
  "demo_fs = [''a'' \<mapsto> [1, 2, 3, 4, 5, 6, 7, 8]]"

definition demo_seq :: External_Sequence where
  "demo_seq = \<lparr>ordered_underlying_sequence =
     [\<lparr>h_filename = ''a'', h_begin_address = 0, h_used = 4, h_index = 1\<rparr>,
      \<lparr>h_filename = ''a'', h_begin_address = 4, h_used = 3, h_index = 0\<rparr>]\<rparr>"

lemma demo_wf: "wf_seq u8_pod 4 demo_fs demo_seq"
  by (simp add: wf_seq_def wf_block_def demo_seq_def demo_fs_def u8_pod_def file_of_def)

lemma demo_fresh: "fresh_seq demo_seq [''o0'', ''o1'']"
  by (simp add: fresh_seq_def fresh_outputs_def demo_seq_def)

lemma demo_output: "ReadOutput u8_pod demo_fs demo_seq = Some [5, 6, 7, 1, 2, 3, 4]"
  by (simp add: ReadOutput_def read_block_def chunk_elems_def demo_seq_def demo_fs_def u8_pod_def
      file_of_def fs_read_def eval_nat_numeral)

lemma demo_size: "seq_size demo_seq = 2"
  by (simp add: seq_size_def demo_seq_def)

section \<open>Properties\<close>

text \<open>\<open>get_val\<close> finds the block that covers position \<open>i\<close> of the concatenation of the blocks:
the result \<open>h\<close> starts at or before \<open>i\<close> and ends after it; no header is read past the end exactly
when \<open>i\<close> is below the total of all \<open>used\<close> fields.\<close>

theorem get_val_covers:
  "(get_val s i = None \<longleftrightarrow> total_used (ordered_underlying_sequence s) \<le> i) \<and>
   (\<forall>h. get_val s i = Some h \<longrightarrow>
      (\<exists>before after. ordered_underlying_sequence s = before @ h # after \<and>
         total_used before \<le> i \<and> i < total_used before + h_used h))"
  using get_val_loop_None [of "ordered_underlying_sequence s" 0 i]
    get_val_loop_Some [of "ordered_underlying_sequence s" 0 i]
  by (cases "ordered_underlying_sequence s") (auto simp: get_val_def)

lemma get_val_covers_witness:
  "\<exists>h. get_val demo_seq 5 = Some h \<and> h_index h = 0 \<and> get_val demo_seq 7 = None"
  using get_val_covers [of demo_seq 5] get_val_covers [of demo_seq 7]
  by (simp add: get_val_def demo_seq_def)

end
