(* ===== verification/Placement.thy ===== *)
theory Placement
  imports ChunkHeader
begin

text \<open>
  The placement discipline every writing primitive follows: a block goes to one of the output
  files, at an offset reserved by \<open>file_offsets[ssd].fetch_add(B)\<close>, and its header records the
  file, the offset, the number of valid bytes and the ordering key. \<open>entry\<close> is one such block;
  the lemmas show that blocks placed this way are read back unharmed whatever the order in which
  the writer completes them. The locale \<open>block_sink\<close> is the interface the primitives have to a
  file writer.
\<close>

text \<open>A request of a file writer (\<open>WriteRequest\<close>); \<open>None\<close> is the value \<open>(size_t) -1\<close>.\<close>

record 'b write_request =
  wr_data :: "'b list"
  wr_size :: nat
  wr_file_index :: "nat option"
  wr_file_offset :: "nat option"

text \<open>The bytes of a request: \<open>size\<close> elements from its buffer.\<close>

definition wr_bytes :: "'b pod \<Rightarrow> 'b write_request \<Rightarrow> byte list" where
  "wr_bytes P r = enc_list P (take (wr_size r) (wr_data r))"

definition explicit_request :: "'b list \<Rightarrow> nat \<Rightarrow> nat \<Rightarrow> nat \<Rightarrow> 'b write_request" where
  "explicit_request buf n ssd base =
     \<lparr>wr_data = buf, wr_size = n, wr_file_index = Some ssd, wr_file_offset = Some base\<rparr>"

type_synonym write_op = "string \<times> nat \<times> byte list"

definition apply_op :: "write_op \<Rightarrow> fstore \<Rightarrow> fstore" where
  "apply_op w fs = (case w of (name, off, bs) \<Rightarrow> fs_write fs name off bs)"

definition op_disjoint :: "write_op \<Rightarrow> write_op \<Rightarrow> bool" where
  "op_disjoint v w =
     (case v of (n1, o1, b1) \<Rightarrow> case w of (n2, o2, b2) \<Rightarrow>
        n1 \<noteq> n2 \<or> o1 + length b1 \<le> o2 \<or> o2 + length b2 \<le> o1)"

text \<open>A write that all later ones are disjoint from is read back.\<close>

lemma fold_apply_keeps:
  assumes "\<forall>v \<in> set ws. op_disjoint (name, off, bs) v"
    and "off + length bs \<le> length (file_of fs name)"
  shows "fs_read (fold apply_op ws fs) name off (length bs) = fs_read fs name off (length bs)
       \<and> off + length bs \<le> length (file_of (fold apply_op ws fs) name)"
  using assms
proof (induction ws arbitrary: fs)
  case Nil
  then show ?case by simp
next
  case (Cons w ws)
  obtain n2 o2 b2 where w: "w = (n2, o2, b2)" by (cases w) auto
  let ?fs = "apply_op w fs"
  have len: "off + length bs \<le> length (file_of ?fs name)"
    using Cons.prems(2) file_length_write_mono [of fs name n2 o2 b2]
    by (simp add: apply_op_def w)
  have "fs_read ?fs name off (length bs) = fs_read fs name off (length bs)"
    using Cons.prems by (simp add: apply_op_def w) (rule fs_read_write_disjoint, auto simp: op_disjoint_def)
  with Cons.IH [of ?fs] Cons.prems len show ?case by simp
qed

lemma fold_apply_exists:
  "fs name \<noteq> None \<Longrightarrow> fold apply_op ws fs name \<noteq> None"
proof (induction ws arbitrary: fs)
  case Nil
  then show ?case by simp
next
  case (Cons w ws)
  then have "apply_op w fs name \<noteq> None"
    by (cases w) (simp add: apply_op_def fs_write_def)
  then have "fold apply_op ws (apply_op w fs) name \<noteq> None" by (rule Cons.IH)
  then show ?case by simp
qed

lemma fold_apply_read:
  assumes "(name, off, bs) \<in> set ws"
    and "distinct ws"
    and "\<forall>v \<in> set ws. \<forall>w \<in> set ws. v \<noteq> w \<longrightarrow> op_disjoint v w"
  shows "fs_read (fold apply_op ws fs) name off (length bs) = bs
       \<and> off + length bs \<le> length (file_of (fold apply_op ws fs) name)
       \<and> fold apply_op ws fs name \<noteq> None"
proof -
  obtain xs ys where ws: "ws = xs @ (name, off, bs) # ys"
    using assms(1) by (meson split_list)
  let ?fs1 = "apply_op (name, off, bs) (fold apply_op xs fs)"
  have dis: "\<forall>v \<in> set ys. op_disjoint (name, off, bs) v"
  proof
    fix v assume v: "v \<in> set ys"
    with assms(2) have "v \<noteq> (name, off, bs)" unfolding ws by auto
    with v assms(3) show "op_disjoint (name, off, bs) v" unfolding ws by simp
  qed
  have len: "off + length bs \<le> length (file_of ?fs1 name)"
    by (simp add: apply_op_def file_length_write_same)
  have same: "fs_read ?fs1 name off (length bs) = bs"
    by (simp add: apply_op_def)
  have "?fs1 name \<noteq> None" by (simp add: apply_op_def fs_write_def)
  then have "fold apply_op ys ?fs1 name \<noteq> None" by (rule fold_apply_exists)
  moreover have "fold apply_op ws fs = fold apply_op ys ?fs1" by (simp add: ws)
  ultimately show ?thesis
    using fold_apply_keeps [OF dis len] same by simp
qed

text \<open>Disjoint writes commute, so their order does not matter.\<close>

lemma pwrite_commute:
  assumes "o1 + length b1 \<le> o2 \<or> o2 + length b2 \<le> o1"
  shows "pwrite_bytes (pwrite_bytes f o1 b1) o2 b2 = pwrite_bytes (pwrite_bytes f o2 b2) o1 b1"
  by (rule nth_equalityI) (use assms in \<open>auto simp: nth_pwrite\<close>)

lemma apply_op_commute:
  "v \<noteq> w \<longrightarrow> op_disjoint v w \<Longrightarrow> apply_op v \<circ> apply_op w = apply_op w \<circ> apply_op v"
  using pwrite_commute
  by (cases v; cases w) (fastforce simp: fun_eq_iff apply_op_def fs_write_def file_of_def op_disjoint_def)

definition ops_disjoint :: "write_op list \<Rightarrow> bool" where
  "ops_disjoint ws \<longleftrightarrow> (\<forall>v \<in> set ws. \<forall>w \<in> set ws. v \<noteq> w \<longrightarrow> op_disjoint v w)"

lemma fold_apply_perm:
  assumes "mset vs = mset ws" and "ops_disjoint ws"
  shows "fold apply_op vs = fold apply_op ws"
proof -
  have "set vs = set ws" using assms(1) by (rule mset_eq_setD)
  then show ?thesis
    using assms(2) by (intro fold_multiset_equiv [OF apply_op_commute assms(1)]) (auto simp: ops_disjoint_def)
qed

section \<open>Placed blocks\<close>

record 'b entry =
  e_index :: nat
  e_ssd :: nat
  e_base :: nat
  e_data :: "'b list"
  e_buf :: "'b list"

definition entry_header :: "string list \<Rightarrow> nat \<Rightarrow> 'b entry \<Rightarrow> chunk_header" where
  "entry_header names sz e =
     \<lparr>h_filename = names ! e_ssd e, h_begin_address = e_base e,
      h_used = length (e_data e) * sz, h_index = e_index e\<rparr>"

definition entry_request :: "nat \<Rightarrow> 'b entry \<Rightarrow> 'b write_request" where
  "entry_request cap e = explicit_request (e_buf e) cap (e_ssd e) (e_base e)"

definition entry_core :: "'b entry \<Rightarrow> nat \<times> 'b list" where
  "entry_core e = (e_index e, e_data e)"

text \<open>The operation the writer performs for a request with an explicit file and offset.\<close>

definition request_op :: "'b pod \<Rightarrow> string list \<Rightarrow> 'b write_request \<Rightarrow> write_op" where
  "request_op P names r =
     (names ! the (wr_file_index r), the (wr_file_offset r), wr_bytes P r)"

text \<open>
  The invariant of a set of placed blocks: buffers of exactly \<open>cap\<close> elements that begin with the
  valid ones, block-aligned offsets below what has been reserved, one block per place.
\<close>

definition placed :: "nat \<Rightarrow> nat \<Rightarrow> nat \<Rightarrow> (nat \<Rightarrow> nat) \<Rightarrow> 'b entry list \<Rightarrow> bool" where
  "placed B cap N offs L \<longleftrightarrow>
     distinct (map (\<lambda>e. (e_ssd e, e_base e)) L) \<and>
     (\<forall>e \<in> set L. e_ssd e < N \<and> B dvd e_base e \<and> e_base e + B \<le> offs (e_ssd e) \<and>
        length (e_buf e) = cap \<and> length (e_data e) \<le> cap \<and>
        take (length (e_data e)) (e_buf e) = e_data e) \<and>
     (\<forall>i. B dvd offs i)"

lemma placed_Nil [simp]: "placed B cap N (\<lambda>_. 0) []"
  by (simp add: placed_def)

text \<open>One \<open>fetch_add\<close> places one more block.\<close>

lemma placed_add:
  assumes "placed B cap N offs L" and "ssd < N" and "0 < B"
    and "length buf = cap" and "length data \<le> cap" and "take (length data) buf = data"
  shows "placed B cap N (offs(ssd := offs ssd + B))
    (L @ [\<lparr>e_index = i, e_ssd = ssd, e_base = offs ssd, e_data = data, e_buf = buf\<rparr>])"
proof -
  let ?e = "\<lparr>e_index = i, e_ssd = ssd, e_base = offs ssd, e_data = data, e_buf = buf\<rparr>"
  have new: "(ssd, offs ssd) \<notin> (\<lambda>e. (e_ssd e, e_base e)) ` set L"
    using assms(1,3) unfolding placed_def by force
  have old: "e_base e + B \<le> (offs(ssd := offs ssd + B)) (e_ssd e)" if "e \<in> set L" for e
    using assms(1) that by (auto simp: placed_def intro: trans_le_add1)
  have dv: "B dvd (offs(ssd := offs ssd + B)) i" for i
    using assms(1) by (simp add: placed_def)
  have dist: "distinct (map (\<lambda>e. (e_ssd e, e_base e)) (L @ [?e]))"
    using assms(1) new by (simp add: placed_def)
  have "\<forall>e \<in> set (L @ [?e]). e_ssd e < N \<and> B dvd e_base e \<and>
      e_base e + B \<le> (offs(ssd := offs ssd + B)) (e_ssd e) \<and>
      length (e_buf e) = cap \<and> length (e_data e) \<le> cap \<and>
      take (length (e_data e)) (e_buf e) = e_data e"
  proof
    fix e assume "e \<in> set (L @ [?e])"
    then consider "e \<in> set L" | "e = ?e" by auto
    then show "e_ssd e < N \<and> B dvd e_base e \<and>
      e_base e + B \<le> (offs(ssd := offs ssd + B)) (e_ssd e) \<and>
      length (e_buf e) = cap \<and> length (e_data e) \<le> cap \<and>
      take (length (e_data e)) (e_buf e) = e_data e"
    proof cases
      case 1
      with assms(1) have "e_ssd e < N \<and> B dvd e_base e \<and> length (e_buf e) = cap \<and>
        length (e_data e) \<le> cap \<and> take (length (e_data e)) (e_buf e) = e_data e"
        by (simp add: placed_def)
      with old [OF 1] show ?thesis by blast
    next
      case 2
      have "B dvd offs ssd" using assms(1) by (simp add: placed_def)
      with 2 assms(2-6) show ?thesis by simp
    qed
  qed
  with dist dv show ?thesis unfolding placed_def by blast
qed

lemma placed_mset:
  assumes "mset L = mset L'" and "placed B cap N offs L"
  shows "placed B cap N offs L'"
proof -
  have "set L = set L'" using assms(1) by (rule mset_eq_setD)
  moreover have "distinct (map (\<lambda>e. (e_ssd e, e_base e)) L')"
    using assms(2) by (intro mset_map_eq_distinct [OF assms(1)]) (simp add: placed_def)
  ultimately show ?thesis using assms(2) by (simp add: placed_def)
qed

text \<open>What \<open>placed\<close> means for the headers: no two blocks share a place, and every block starts at a multiple
  of the block size in one of the files.\<close>

definition blocks_apart :: "nat \<Rightarrow> string list \<Rightarrow> chunk_header list \<Rightarrow> bool" where
  "blocks_apart B names hs \<longleftrightarrow> distinct (map (\<lambda>h. (h_filename h, h_begin_address h)) hs) \<and>
     (\<forall>h \<in> set hs. h_filename h \<in> set names \<and> B dvd h_begin_address h)"

lemma placed_apart:
  assumes "placed B cap N offs L" and "mset hs = mset (map (entry_header names sz) L)"
    and "length names = N" and "distinct names"
  shows "blocks_apart B names hs"
proof -
  have ssd: "\<forall>e \<in> set L. e_ssd e < length names \<and> B dvd e_base e" using assms(1,3) by (simp add: placed_def)
  have "inj_on (\<lambda>e. (e_ssd e, e_base e)) (set L)" "distinct L" using assms(1) by (simp_all add: placed_def distinct_map)
  then have "distinct (map (\<lambda>e. (names ! e_ssd e, e_base e)) L)"
    using ssd assms(4) unfolding distinct_map inj_on_def by (simp add: nth_eq_iff_index_eq)
  moreover have "map (\<lambda>h. (h_filename h, h_begin_address h)) (map (entry_header names sz) L) = map (\<lambda>e. (names ! e_ssd e, e_base e)) L"
    by (simp add: entry_header_def)
  ultimately have "distinct (map (\<lambda>h. (h_filename h, h_begin_address h)) (map (entry_header names sz) L))" by (simp only:)
  then have "distinct (map (\<lambda>h. (h_filename h, h_begin_address h)) hs)"
    by (rule mset_map_eq_distinct [OF assms(2) [symmetric]])
  then show ?thesis using ssd mset_eq_setD [OF assms(2)] by (auto simp: blocks_apart_def entry_header_def)
qed

text \<open>The write that puts a block at its place; writes of different blocks do not overlap.\<close>

definition entry_op :: "'b pod \<Rightarrow> string list \<Rightarrow> 'b entry \<Rightarrow> write_op" where
  "entry_op P names e = (names ! e_ssd e, e_base e, enc_list P (e_buf e))"

lemma placed_ops:
  assumes repr: "pod_repr P" and pl: "placed B cap N offs L" and B: "B = cap * pod_size P" and N: "length names = N" "distinct names"
  shows "distinct (map (entry_op P names) L)"
    and "\<forall>v \<in> entry_op P names ` set L. \<forall>w \<in> entry_op P names ` set L. v \<noteq> w \<longrightarrow> op_disjoint v w"
proof -
  let ?op = "entry_op P names"
  have blen: "length (enc_list P (e_buf x)) = B" if "x \<in> set L" for x
    using that pl B by (simp add: placed_def pod_repr.length_enc_list [OF repr])
  have key: "e_ssd x = e_ssd y \<and> e_base x = e_base y \<longrightarrow> x = y" if "x \<in> set L" "y \<in> set L" for x y
    using that pl by (auto simp: placed_def distinct_map inj_on_def)
  have names_inj: "names ! e_ssd x = names ! e_ssd y \<Longrightarrow> e_ssd x = e_ssd y" if "x \<in> set L" "y \<in> set L" for x y
    using that pl N nth_eq_iff_index_eq [of names "e_ssd x" "e_ssd y"] by (auto simp: placed_def)
  have "inj_on ?op (set L)" using key names_inj by (auto simp: inj_on_def entry_op_def)
  then show "distinct (map ?op L)" using pl by (auto simp: distinct_map placed_def)
  have "op_disjoint (?op x) (?op y)" if x: "x \<in> set L" and y: "y \<in> set L" and ne: "?op x \<noteq> ?op y" for x y
  proof (cases "e_ssd x = e_ssd y")
    case True
    with key [OF x y] ne have "e_base x \<noteq> e_base y" by auto
    moreover have "B dvd e_base x" "B dvd e_base y" using x y pl by (auto simp: placed_def)
    ultimately show ?thesis
      using block_regions_disjoint [of B "e_base x" "e_base y"] blen [OF x] blen [OF y]
      by (auto simp: op_disjoint_def entry_op_def)
  next
    case False
    then have "names ! e_ssd x \<noteq> names ! e_ssd y" using names_inj [OF x y] by blast
    then show ?thesis by (simp add: op_disjoint_def entry_op_def)
  qed
  then show "\<forall>v \<in> ?op ` set L. \<forall>w \<in> ?op ` set L. v \<noteq> w \<longrightarrow> op_disjoint v w" by blast
qed

section \<open>The interface to a file writer\<close>

text \<open>
  \<open>final P names fs rs fs'\<close>: after \<open>Wait()\<close> has returned for a writer started on the files
  \<open>names\<close> over the store \<open>fs\<close>, to which the requests \<open>rs\<close> were pushed, the store can be \<open>fs'\<close>.
  The law: all requests with an explicit place have been performed, in some order.
\<close>

locale block_sink =
  fixes final :: "'b pod \<Rightarrow> string list \<Rightarrow> fstore \<Rightarrow> 'b write_request list \<Rightarrow> fstore \<Rightarrow> bool"
  assumes final_order:
      "final P names fs rs fs' \<Longrightarrow>
       \<forall>r \<in> set rs. 0 < wr_size r \<and> wr_file_offset r \<noteq> None \<and>
          (\<exists>i. wr_file_index r = Some i \<and> i < length names) \<Longrightarrow>
       \<exists>order. mset order = mset rs \<and>
          fs' = fold apply_op (map (request_op P names) order) fs"
begin

lemma wr_bytes_entry:
  assumes "length (e_buf e) = cap"
  shows "wr_bytes P (entry_request cap e) = enc_list P (e_buf e)"
  using assms by (simp add: wr_bytes_def entry_request_def explicit_request_def)

lemma final_read:
  assumes repr: "pod_repr P" and fin: "final P names fs rs fs'"
    and rs: "mset rs = mset (map (entry_request cap) L)"
    and pl: "placed B cap N offs L"
    and B: "B = cap * pod_size P" and cap: "0 < cap"
    and N: "length names = N" "distinct names"
    and e: "e \<in> set L"
  shows "fs_read fs' (names ! e_ssd e) (e_base e) B = enc_list P (e_buf e)
       \<and> e_base e + B \<le> length (file_of fs' (names ! e_ssd e))
       \<and> fs' (names ! e_ssd e) \<noteq> None"
proof -
  have ok: "\<forall>r \<in> set rs. 0 < wr_size r \<and> wr_file_offset r \<noteq> None \<and>
      (\<exists>i. wr_file_index r = Some i \<and> i < length names)"
  proof
    fix r assume "r \<in> set rs"
    then obtain x where "x \<in> set L" and "r = entry_request cap x"
      using mset_eq_setD [OF rs] by auto
    then show "0 < wr_size r \<and> wr_file_offset r \<noteq> None \<and>
        (\<exists>i. wr_file_index r = Some i \<and> i < length names)"
      using pl cap N by (auto simp: entry_request_def explicit_request_def placed_def)
  qed
  from final_order [OF fin ok] obtain order where ord: "mset order = mset rs"
    and fs': "fs' = fold apply_op (map (request_op P names) order) fs" by blast
  let ?op = "entry_op P names" and ?ws = "map (request_op P names) order"
  have op: "request_op P names (entry_request cap x) = ?op x" if "x \<in> set L" for x
    using that pl by (auto simp: request_op_def entry_op_def wr_bytes_entry placed_def)
       (simp_all add: entry_request_def explicit_request_def)
  have "mset ?ws = mset (map (request_op P names) (map (entry_request cap) L))" using ord rs by (metis mset_map)
  also have "map (request_op P names) (map (entry_request cap) L) = map ?op L" using op by simp
  finally have mops: "mset ?ws = mset (map ?op L)" .
  note ops = placed_ops [OF repr pl B N]
  have set_ws: "set ?ws = ?op ` set L" using mset_eq_setD [OF mops] by (simp only: set_map)
  have "distinct ?ws" using ops(1) mops mset_eq_imp_distinct_iff by blast
  moreover have "\<forall>v \<in> set ?ws. \<forall>w \<in> set ?ws. v \<noteq> w \<longrightarrow> op_disjoint v w" unfolding set_ws by (rule ops(2))
  moreover have "(names ! e_ssd e, e_base e, enc_list P (e_buf e)) \<in> set ?ws"
    unfolding set_ws using e by (auto simp: entry_op_def)
  moreover have "length (enc_list P (e_buf e)) = B" using e pl B by (simp add: placed_def pod_repr.length_enc_list [OF repr])
  ultimately show ?thesis
    using fold_apply_read [of "names ! e_ssd e" "e_base e" "enc_list P (e_buf e)" ?ws fs] by (simp add: fs')
qed

lemma final_elems:
  assumes repr: "pod_repr P" and fin: "final P names fs rs fs'"
    and rs: "mset rs = mset (map (entry_request cap) L)"
    and pl: "placed B cap N offs L"
    and B: "B = cap * pod_size P" and cap: "0 < cap"
    and N: "length names = N" "distinct names"
    and e: "e \<in> set L"
  shows "wf_block P B fs' (entry_header names (pod_size P) e)
       \<and> chunk_core P fs' (entry_header names (pod_size P) e) = entry_core e"
proof -
  let ?h = "entry_header names (pod_size P) e" and ?n = "length (e_data e)"
  from final_read [OF assms] have rd: "fs_read fs' (names ! e_ssd e) (e_base e) B = enc_list P (e_buf e)"
    and len: "e_base e + B \<le> length (file_of fs' (names ! e_ssd e))"
    and ex: "fs' (names ! e_ssd e) \<noteq> None" by blast+
  from pl e have buf: "length (e_buf e) = cap" "?n \<le> cap" "take ?n (e_buf e) = e_data e"
    by (auto simp: placed_def)
  have le: "?n * pod_size P \<le> B" using buf(2) B by simp
  have "fs_read fs' (names ! e_ssd e) (e_base e) (?n * pod_size P)
      = take (?n * pod_size P) (enc_list P (e_buf e))"
    using fs_read_prefix [OF le] rd by metis
  moreover have "dec_list P ?n (take (?n * pod_size P) (enc_list P (e_buf e))) = e_data e"
    using pod_repr.dec_enc_take [OF repr, of ?n "e_buf e"] buf by simp
  moreover have "?n * pod_size P div pod_size P = ?n" using pod_repr.size_pos [OF repr] by simp
  ultimately have "chunk_elems P fs' ?h = e_data e"
    by (simp add: chunk_elems_def entry_header_def)
  moreover have "wf_block P B fs' ?h"
    using le len ex by (auto simp: wf_block_def entry_header_def)
  ultimately show ?thesis
    by (simp add: chunk_core_def entry_core_def) (simp add: entry_header_def)
qed

text \<open>The blocks on disk are, up to order, the blocks that were placed.\<close>

lemma sink_cores:
  assumes repr: "pod_repr P" and fin: "final P names fs rs fs'"
    and rs: "mset rs = mset (map (entry_request cap) L)"
    and pl: "placed B cap N offs L"
    and B: "B = cap * pod_size P" and cap: "0 < cap"
    and N: "length names = N" "distinct names"
    and hs: "mset hs = mset (map (entry_header names (pod_size P)) L)"
  shows "mset (map (chunk_core P fs') hs) = mset (map entry_core L)"
proof -
  let ?eh = "entry_header names (pod_size P)"
  have "mset (map (chunk_core P fs') hs) = mset (map (chunk_core P fs') (map ?eh L))"
    using hs by (metis mset_map)
  also have "map (chunk_core P fs') (map ?eh L) = map entry_core L"
    using final_elems [OF repr fin rs pl B cap N] by simp
  finally show ?thesis .
qed

text \<open>
  The clients' rule: a sequence whose headers are those of placed blocks reads back as the
  blocks' elements in key order.
\<close>

lemma sink_ReadOutput:
  assumes repr: "pod_repr P" and fin: "final P names fs rs fs'"
    and rs: "mset rs = mset (map (entry_request cap) L)"
    and pl: "placed B cap N offs L"
    and B: "B = cap * pod_size P" and cap: "0 < cap"
    and N: "length names = N" "distinct names"
    and hs: "mset hs = mset (map (entry_header names (pod_size P)) L)"
    and idx: "distinct (map e_index L)"
  shows "wf_seq P B fs' \<lparr>ordered_underlying_sequence = hs\<rparr>
       \<and> ReadOutput P fs' \<lparr>ordered_underlying_sequence = hs\<rparr> = Some (ordered_elems (map entry_core L))"
proof -
  let ?eh = "entry_header names (pod_size P)"
  note el = final_elems [OF repr fin rs pl B cap N]
  have hi: "map h_index (map ?eh L) = map e_index L" by (simp add: entry_header_def)
  have "distinct (map h_index hs)"
    using mset_map_eq_distinct [OF hs [symmetric], of h_index] idx by (simp only: hi)
  moreover have "\<forall>h \<in> set hs. wf_block P B fs' h"
    using mset_eq_setD [OF hs] el by auto
  ultimately have wf: "wf_seq P B fs' \<lparr>ordered_underlying_sequence = hs\<rparr>"
    by (simp add: wf_seq_def)
  have "mset (map (chunk_core P fs') hs) = mset (map entry_core L)"
    by (rule sink_cores [OF repr fin rs pl B cap N hs])
  moreover have "distinct (map fst (map (chunk_core P fs') hs))"
    using wf by (simp add: wf_seq_def comp_def)
  ultimately have "ordered_elems (map (chunk_core P fs') hs) = ordered_elems (map entry_core L)"
    by (rule ordered_elems_perm)
  with wf show ?thesis by (simp add: ReadOutput_ordered [OF wf])
qed

end

end
