(* ===== verification/ChunkReader.thy ===== *)
theory ChunkReader
  imports Placement SimpleQueue
begin

text \<open>
  utils/unordered_file_reader_modified.h: \<open>UnorderedChunkReader\<close>, which reads the blocks of an
  external sequence with several worker threads and hands them to its clients through the
  bounded queue, in whatever order the device completes the reads. The whole reader is one
  state; a step is one iteration of a worker's reap or issue loop, the end of a worker, or a
  successful \<open>Poll\<close> of a client. \<open>A\<close> is \<open>O_DIRECT_MULTIPLE\<close>, \<open>B\<close> is \<open>READ_SIZE\<close>.
\<close>

record UnorderedChunkReaderConfig =
  rc_num_threads :: nat
  rc_max_requests :: nat
  rc_queue_depth :: nat
  rc_buffer_queue_size :: nat

definition default_reader_config :: UnorderedChunkReaderConfig where
  "default_reader_config =
     \<lparr>rc_num_threads = 2, rc_max_requests = 64, rc_queue_depth = 32, rc_buffer_queue_size = 1024\<rparr>"

text \<open>
  The tuple given to the client. \<open>bd_data\<close> is the whole buffer: beyond \<open>bd_size\<close> elements it
  holds what was in memory before.
\<close>

record 'a BufferData =
  bd_data :: "'a list"
  bd_size :: nat
  bd_file_index :: nat
  bd_index :: nat
  bd_which_chunk :: nat
  bd_filename :: string

record reader_worker =
  w_chunks :: "chunk_header list"
  w_next :: nat
  w_completed :: nat
  w_inflight :: "nat list"
  w_avail :: nat
  w_done :: bool

record 'a reader =
  rd_chunks :: "chunk_header list"
  rd_workers :: "reader_worker list"
  rd_active :: nat
  rd_queue :: "'a BufferData simple_queue"
  rd_is_open :: bool
  rd_failed :: bool

definition new_reader :: "'a reader" where
  "new_reader = \<lparr>rd_chunks = [], rd_workers = [], rd_active = 0, rd_queue = SimpleQueue 0,
                 rd_is_open = True, rd_failed = False\<rparr>"

definition PrepFiles :: "'a reader \<Rightarrow> chunk_header list \<Rightarrow> 'a reader" where
  "PrepFiles r headers = r\<lparr>rd_chunks := headers\<rparr>"

definition start_worker :: "UnorderedChunkReaderConfig \<Rightarrow> chunk_header list \<Rightarrow> reader_worker" where
  "start_worker cfg cs =
     \<lparr>w_chunks = cs, w_next = 0, w_completed = 0, w_inflight = [],
      w_avail = rc_max_requests cfg, w_done = False\<rparr>"

definition Start :: "UnorderedChunkReaderConfig \<Rightarrow> 'a reader \<Rightarrow> 'a reader option" where
  "Start cfg r =
     (if rc_num_threads cfg = 0 then None
      else Some (r\<lparr>rd_queue := SetSizeLimit (rd_queue r) (rc_buffer_queue_size cfg),
                   rd_active := rc_num_threads cfg,
                   rd_workers := rd_workers r @
                     map (\<lambda>i. start_worker cfg (stride i (rc_num_threads cfg) (rd_chunks r)))
                       [0..<rc_num_threads cfg]\<rparr>))"

text \<open>A read of \<open>bs\<close> into a buffer overwrites its beginning.\<close>

definition read_into :: "'a pod \<Rightarrow> 'a list \<Rightarrow> byte list \<Rightarrow> 'a list" where
  "read_into P old bs =
     (let n = length bs div pod_size P in dec_list P n bs @ drop n old)"

definition chunk_buffer :: "'a pod \<Rightarrow> nat \<Rightarrow> nat \<Rightarrow> fstore \<Rightarrow> chunk_header \<Rightarrow> nat \<Rightarrow> 'a list \<Rightarrow> 'a BufferData" where
  "chunk_buffer P A B fs c chunk_idx old =
     \<lparr>bd_data = read_into P old (fs_read fs (h_filename c) (h_begin_address c) (round_up A (h_used c))),
      bd_size = h_used c div pod_size P, bd_file_index = chunk_idx, bd_index = h_index c,
      bd_which_chunk = h_begin_address c div B, bd_filename = h_filename c\<rparr>"

definition empty_buffer :: "nat \<Rightarrow> chunk_header \<Rightarrow> nat \<Rightarrow> 'a list \<Rightarrow> 'a BufferData" where
  "empty_buffer B c chunk_idx old =
     \<lparr>bd_data = old, bd_size = 0, bd_file_index = chunk_idx, bd_index = h_index c,
      bd_which_chunk = h_begin_address c div B, bd_filename = h_filename c\<rparr>"

definition running :: "'a reader \<Rightarrow> nat \<Rightarrow> bool" where
  "running r i \<longleftrightarrow> i < length (rd_workers r) \<and> \<not> w_done (rd_workers r ! i)"

text \<open>
  One iteration of the reap loop of worker \<open>i\<close>: the \<open>k\<close>-th read in flight has completed, its
  buffer, which held \<open>old\<close>, is pushed.
\<close>

definition reap :: "'a pod \<Rightarrow> nat \<Rightarrow> nat \<Rightarrow> fstore \<Rightarrow> nat \<Rightarrow> nat \<Rightarrow> 'a list \<Rightarrow> 'a reader \<Rightarrow> 'a reader option" where
  "reap P A B fs i k old r =
     (let w = rd_workers r ! i in
      if running r i \<and> w_completed w < length (w_chunks w) \<and> k < length (w_inflight w)
      then let j = w_inflight w ! k in
        map_option (\<lambda>q. r\<lparr>rd_queue := q,
            rd_workers := (rd_workers r)[i := w\<lparr>w_inflight := take k (w_inflight w) @ drop (Suc k) (w_inflight w),
              w_avail := w_avail w + 1, w_completed := w_completed w + 1\<rparr>]\<rparr>)
          (Push (rd_queue r) (chunk_buffer P A B fs (w_chunks w ! j) j old))
      else None)"

text \<open>
  One iteration of the issue loop. A block without valid bytes is handed on at once, any other
  one takes a request object.
\<close>

definition issue :: "nat \<Rightarrow> nat \<Rightarrow> 'a list \<Rightarrow> 'a reader \<Rightarrow> 'a reader option" where
  "issue B i old r =
     (let w = rd_workers r ! i in
      if running r i \<and> 0 < w_avail w \<and> w_next w < length (w_chunks w)
      then let c = w_chunks w ! w_next w in
        if h_used c = 0
        then map_option (\<lambda>q. r\<lparr>rd_queue := q,
            rd_workers := (rd_workers r)[i := w\<lparr>w_completed := w_completed w + 1,
              w_next := w_next w + 1\<rparr>]\<rparr>)
          (Push (rd_queue r) (empty_buffer B c (w_next w) old))
        else Some (r\<lparr>rd_workers := (rd_workers r)[i := w\<lparr>w_avail := w_avail w - 1,
              w_inflight := w_inflight w @ [w_next w], w_next := w_next w + 1\<rparr>]\<rparr>)
      else None)"

text \<open>
  The end of a worker: the outer loop is left, the final \<open>CHECK\<close> holds or the process aborts,
  and the last worker closes the queue.
\<close>

definition finish :: "nat \<Rightarrow> 'a reader \<Rightarrow> 'a reader option" where
  "finish i r =
     (let w = rd_workers r ! i in
      if running r i \<and> (length (w_chunks w) \<le> w_completed w \<or> \<not> rd_is_open r)
      then if w_completed w = length (w_chunks w)
        then Some (r\<lparr>rd_workers := (rd_workers r)[i := w\<lparr>w_done := True\<rparr>],
            rd_active := rd_active r - 1,
            rd_queue := (if rd_active r - 1 = 0 then Close (rd_queue r) else rd_queue r)\<rparr>)
        else Some (r\<lparr>rd_workers := (rd_workers r)[i := w\<lparr>w_done := True\<rparr>], rd_failed := True\<rparr>)
      else None)"

text \<open>A \<open>Poll\<close> of a client that takes an item.\<close>

definition reader_poll :: "'a reader \<Rightarrow> ('a BufferData \<times> 'a reader) option" where
  "reader_poll r = map_option (\<lambda>(d, q). (d, r\<lparr>rd_queue := q\<rparr>)) (pop (rd_queue r))"

definition all_joined :: "'a reader \<Rightarrow> bool" where
  "all_joined r \<longleftrightarrow> (\<forall>w \<in> set (rd_workers r). w_done w)"

text \<open>The destructor clears \<open>is_open\<close>; \<open>Reset\<close> runs after \<open>Wait\<close> and needs a drained queue.\<close>

definition Destroy :: "'a reader \<Rightarrow> 'a reader" where
  "Destroy r = r\<lparr>rd_is_open := False\<rparr>"

definition Reset :: "'a reader \<Rightarrow> 'a reader option" where
  "Reset r =
     (if all_joined r
      then map_option (\<lambda>q. r\<lparr>rd_workers := [], rd_active := 0, rd_is_open := True, rd_queue := q\<rparr>)
             (Reopen (rd_queue r))
      else None)"

text \<open>The reader together with what its clients have polled so far.\<close>

inductive reader_step :: "'a pod \<Rightarrow> nat \<Rightarrow> nat \<Rightarrow> fstore \<Rightarrow>
    'a reader \<times> 'a BufferData list \<Rightarrow> 'a reader \<times> 'a BufferData list \<Rightarrow> bool"
  for P A B fs where
  step_reap: "reap P A B fs i k old r = Some r' \<Longrightarrow> length old = B div pod_size P \<Longrightarrow>
    reader_step P A B fs (r, ds) (r', ds)"
| step_issue: "issue B i old r = Some r' \<Longrightarrow> length old = B div pod_size P \<Longrightarrow>
    reader_step P A B fs (r, ds) (r', ds)"
| step_finish: "finish i r = Some r' \<Longrightarrow> reader_step P A B fs (r, ds) (r', ds)"
| step_poll: "reader_poll r = Some (d, r') \<Longrightarrow> reader_step P A B fs (r, ds) (r', ds @ [d])"

inductive_cases reader_stepE: "reader_step P A B fs s t"

definition drained :: "'a reader \<Rightarrow> bool" where
  "drained r \<longleftrightarrow> all_joined r \<and> sq_queue (rd_queue r) = []"

text \<open>
  The client's view: a fresh reader is prepared with the headers \<open>hs\<close>, started and polled
  until it reports \<open>FINISH\<close>; the results of the polls were \<open>ds\<close>.
\<close>

definition reader_polls :: "'a pod \<Rightarrow> nat \<Rightarrow> nat \<Rightarrow> UnorderedChunkReaderConfig \<Rightarrow> fstore \<Rightarrow>
    chunk_header list \<Rightarrow> 'a BufferData list \<Rightarrow> bool" where
  "reader_polls P A B cfg fs hs ds \<longleftrightarrow>
     (\<exists>r r'. Start cfg (PrepFiles new_reader hs) = Some r \<and>
        rtranclp (reader_step P A B fs) (r, []) (r', ds) \<and> drained r')"

section \<open>The invariant\<close>

definition bd_core :: "'a BufferData \<Rightarrow> nat \<times> 'a list" where
  "bd_core d = (bd_index d, take (bd_size d) (bd_data d))"

definition bd_ok :: "nat \<Rightarrow> 'a BufferData \<Rightarrow> bool" where
  "bd_ok cap d \<longleftrightarrow> length (bd_data d) = cap \<and> bd_size d \<le> cap"

text \<open>The blocks a worker still has to deliver.\<close>

definition pending :: "reader_worker \<Rightarrow> chunk_header multiset" where
  "pending w = image_mset (\<lambda>j. w_chunks w ! j) (mset (w_inflight w)) + mset (drop (w_next w) (w_chunks w))"

definition worker_inv :: "nat \<Rightarrow> bool \<Rightarrow> reader_worker \<Rightarrow> bool" where
  "worker_inv m is_open w \<longleftrightarrow>
     w_completed w + length (w_inflight w) = w_next w \<and> w_next w \<le> length (w_chunks w) \<and>
     (\<forall>j \<in> set (w_inflight w). j < w_next w) \<and> w_avail w + length (w_inflight w) = m \<and>
     (w_done w \<longrightarrow> w_completed w = length (w_chunks w))"

definition count_running :: "reader_worker list \<Rightarrow> nat" where
  "count_running ws = (\<Sum>w\<leftarrow>ws. if w_done w then 0 else 1)"

definition reader_inv :: "'a pod \<Rightarrow> nat \<Rightarrow> nat \<Rightarrow> fstore \<Rightarrow> chunk_header list \<Rightarrow>
    'a reader \<times> 'a BufferData list \<Rightarrow> bool" where
  "reader_inv P m B fs hs s \<longleftrightarrow>
     (case s of (r, ds) \<Rightarrow>
       rd_is_open r \<and> \<not> rd_failed r \<and>
       (\<forall>w \<in> set (rd_workers r). worker_inv m True w \<and> set (w_chunks w) \<subseteq> set hs) \<and>
       rd_active r = count_running (rd_workers r) \<and>
       sq_open (rd_queue r) = (0 < rd_active r) \<and>
       (\<forall>d \<in> set (ds @ sq_queue (rd_queue r)). bd_ok (B div pod_size P) d) \<and>
       mset (map bd_core (ds @ sq_queue (rd_queue r))) +
         image_mset (chunk_core P fs) (\<Sum>w\<leftarrow>rd_workers r. pending w) =
         mset (map (chunk_core P fs) hs))"

definition worker_work :: "reader_worker \<Rightarrow> nat" where
  "worker_work w = 3 * (length (w_chunks w) - w_next w) + 2 * length (w_inflight w)
     + (if w_done w then 0 else 1)"

definition reader_work :: "'a reader \<times> 'a BufferData list \<Rightarrow> nat" where
  "reader_work s = (\<Sum>w\<leftarrow>rd_workers (fst s). worker_work w) + length (sq_queue (rd_queue (fst s)))"

lemma pending_remove:
  "k < length (w_inflight w) \<Longrightarrow>
   pending w = add_mset (w_chunks w ! (w_inflight w ! k))
     (pending (w\<lparr>w_inflight := take k (w_inflight w) @ drop (Suc k) (w_inflight w),
                 w_avail := a, w_completed := c\<rparr>))"
  using mset_remove_nth [of k "w_inflight w"] by (simp add: pending_def)

lemma pending_skip:
  "w_next w < length (w_chunks w) \<Longrightarrow>
   pending w = add_mset (w_chunks w ! w_next w)
     (pending (w\<lparr>w_completed := c, w_next := w_next w + 1\<rparr>))"
  by (simp add: pending_def Cons_nth_drop_Suc [symmetric])

lemma pending_start:
  "w_next w < length (w_chunks w) \<Longrightarrow>
   pending (w\<lparr>w_avail := a, w_inflight := w_inflight w @ [w_next w], w_next := w_next w + 1\<rparr>) = pending w"
  by (simp add: pending_def Cons_nth_drop_Suc [symmetric])

lemma read_into_core:
  assumes P: "0 < pod_size P" and A: "0 < A" "A dvd B" and c: "wf_block P B fs c"
    and old: "length old = B div pod_size P"
  shows "bd_ok (B div pod_size P) (chunk_buffer P A B fs c j old)
       \<and> bd_core (chunk_buffer P A B fs c j old) = chunk_core P fs c"
proof -
  let ?u = "h_used c"
  let ?bs = "fs_read fs (h_filename c) (h_begin_address c) (round_up A ?u)"
  let ?n = "length ?bs div pod_size P" and ?m = "?u div pod_size P"
  have u: "?u \<le> B" using c by (simp add: wf_block_def)
  have ru: "round_up A ?u \<le> B" using round_up_le [OF A u] .
  have up: "?u \<le> round_up A ?u" using A(1) by (rule round_up_ge)
  have "?u \<le> length (file_of fs (h_filename c)) - h_begin_address c \<or> ?u = 0"
    using c by (auto simp: wf_block_def)
  then have "?u \<le> length ?bs" using up by auto
  then have m: "?m \<le> ?n" by (rule div_le_mono)
  have n: "?n \<le> B div pod_size P" using ru by (intro div_le_mono) simp
  have "take ?m (read_into P old ?bs) = take ?m (dec_list P ?n ?bs)"
    using m by (simp add: read_into_def Let_def)
  also have "\<dots> = dec_list P ?m ?bs" using m by (rule take_dec_list)
  also have "\<dots> = dec_list P ?m (take ?u ?bs)" by (simp add: dec_list_take)
  also have "\<dots> = chunk_elems P fs c" using up by (simp add: chunk_elems_def fs_read_prefix)
  finally have "bd_core (chunk_buffer P A B fs c j old) = chunk_core P fs c"
    by (simp add: bd_core_def chunk_buffer_def chunk_core_def)
  moreover have "bd_ok (B div pod_size P) (chunk_buffer P A B fs c j old)"
  proof -
    have "length (bd_data (chunk_buffer P A B fs c j old)) = B div pod_size P"
      using n old by (simp add: chunk_buffer_def read_into_def Let_def del: length_fs_read)
    moreover have "bd_size (chunk_buffer P A B fs c j old) \<le> B div pod_size P"
      using m n by (simp add: chunk_buffer_def)
    ultimately show ?thesis by (simp add: bd_ok_def)
  qed
  ultimately show ?thesis by blast
qed

lemma empty_buffer_core:
  "h_used c = 0 \<Longrightarrow> length old = B div pod_size P \<Longrightarrow>
   bd_ok (B div pod_size P) (empty_buffer B c j old) \<and>
   bd_core (empty_buffer B c j old) = chunk_core P fs c"
  by (simp add: bd_ok_def bd_core_def empty_buffer_def chunk_core_def chunk_elems_def)

text \<open>Worker \<open>i\<close> changes its state and pushes \<open>ps\<close>.\<close>

lemma inv_replace:
  assumes inv: "reader_inv P m B fs hs (r, ds)"
    and i: "i < length (rd_workers r)"
    and w': "worker_inv m True w'" "w_chunks w' = w_chunks (rd_workers r ! i)"
      "w_done w' = w_done (rd_workers r ! i)"
    and ps: "\<forall>d \<in> set ps. bd_ok (B div pod_size P) d"
      "image_mset (chunk_core P fs) (pending (rd_workers r ! i)) =
         mset (map bd_core ps) + image_mset (chunk_core P fs) (pending w')"
    and q: "sq_queue q = sq_queue (rd_queue r) @ ps" "sq_open q = sq_open (rd_queue r)"
  shows "reader_inv P m B fs hs (r\<lparr>rd_queue := q, rd_workers := (rd_workers r)[i := w']\<rparr>, ds)"
proof -
  let ?ws = "rd_workers r" and ?core = "chunk_core P fs"
  have each: "\<forall>w \<in> set (?ws[i := w']). worker_inv m True w \<and> set (w_chunks w) \<subseteq> set hs"
    using inv w'(1,2) i by (intro ball_set_update) (auto simp: reader_inv_def)
  have cnt: "count_running (?ws[i := w']) = count_running ?ws"
    using sum_list_update_add [OF i, where f = "\<lambda>w. if w_done w then 0 else 1::nat" and y = w'] w'(3)
    by (simp add: count_running_def)
  have "image_mset ?core ((\<Sum>w\<leftarrow>?ws[i := w']. pending w) + pending (?ws ! i))
      = image_mset ?core ((\<Sum>w\<leftarrow>?ws. pending w) + pending w')"
    by (simp only: sum_list_update_add [OF i])
  then have "image_mset ?core (\<Sum>w\<leftarrow>?ws[i := w']. pending w) + mset (map bd_core ps)
      = image_mset ?core (\<Sum>w\<leftarrow>?ws. pending w)" (is "?p' + ?n = ?p")
    using ps(2) by simp
  moreover have "mset (map bd_core (ds @ sq_queue (rd_queue r))) + ?p = mset (map ?core hs)"
    using inv by (simp add: reader_inv_def)
  ultimately have "mset (map bd_core (ds @ sq_queue q)) + ?p' = mset (map ?core hs)"
    by (simp add: q(1) ac_simps flip: \<open>?p' + ?n = ?p\<close>)
  with each cnt inv ps(1) q show ?thesis by (auto simp: reader_inv_def)
qed

lemma reader_inv_worker:
  "reader_inv P m B fs hs (r, ds) \<Longrightarrow> i < length (rd_workers r) \<Longrightarrow>
   worker_inv m True (rd_workers r ! i) \<and> set (w_chunks (rd_workers r ! i)) \<subseteq> set hs"
  by (auto simp: reader_inv_def)

lemma reap_inv:
  assumes st: "reap P A B fs i k old r = Some r'" "length old = B div pod_size P"
    and inv: "reader_inv P m B fs hs (r, ds)"
    and P: "0 < pod_size P" and A: "0 < A" "A dvd B" and hs: "\<forall>h \<in> set hs. wf_block P B fs h"
  shows "reader_inv P m B fs hs (r', ds)"
proof -
  let ?w = "rd_workers r ! i"
  let ?j = "w_inflight ?w ! k"
  let ?c = "w_chunks ?w ! ?j"
  let ?d = "chunk_buffer P A B fs ?c ?j old"
  let ?w' = "?w\<lparr>w_inflight := take k (w_inflight ?w) @ drop (Suc k) (w_inflight ?w),
              w_avail := w_avail ?w + 1, w_completed := w_completed ?w + 1\<rparr>"
  from st(1) obtain q where run: "running r i" and k: "k < length (w_inflight ?w)"
    and q: "Push (rd_queue r) ?d = Some q"
    and r': "r' = r\<lparr>rd_queue := q, rd_workers := (rd_workers r)[i := ?w']\<rparr>"
    by (auto simp: reap_def Let_def split: if_splits)
  have i: "i < length (rd_workers r)" and nd: "\<not> w_done ?w" using run by (simp_all add: running_def)
  note wi = reader_inv_worker [OF inv i]
  have j: "?j < length (w_chunks ?w)"
    using wi nth_mem [OF k] by (auto simp: worker_inv_def)
  then have "?c \<in> set hs" using wi nth_mem by blast
  then have c: "wf_block P B fs ?c" using hs by blast
  note core = read_into_core [OF P A c st(2), of ?j]
  have "worker_inv m True ?w'"
    using wi k nd by (auto simp: worker_inv_def dest: in_set_takeD in_set_dropD)
  moreover have "image_mset (chunk_core P fs) (pending ?w)
      = mset (map bd_core [?d]) + image_mset (chunk_core P fs) (pending ?w')"
    by (subst pending_remove [OF k]) (simp add: core)
  ultimately show ?thesis
    unfolding r' using inv i core q
    by (intro inv_replace [where ps = "[?d]"]) (auto simp: Push_Some)
qed

lemma issue_inv:
  assumes st: "issue B i old r = Some r'" "length old = B div pod_size P"
    and inv: "reader_inv P m B fs hs (r, ds)"
  shows "reader_inv P m B fs hs (r', ds)"
proof -
  let ?w = "rd_workers r ! i"
  let ?c = "w_chunks ?w ! w_next ?w"
  let ?d = "empty_buffer B ?c (w_next ?w) old"
  from st(1) have run: "running r i" and av: "0 < w_avail ?w" and nx: "w_next ?w < length (w_chunks ?w)"
    by (auto simp: issue_def Let_def split: if_splits)
  have i: "i < length (rd_workers r)" and nd: "\<not> w_done ?w" using run by (simp_all add: running_def)
  note wi = reader_inv_worker [OF inv i]
  show ?thesis
  proof (cases "h_used ?c = 0")
    case True
    let ?w' = "?w\<lparr>w_completed := w_completed ?w + 1, w_next := w_next ?w + 1\<rparr>"
    from st(1) True run av nx obtain q where q: "Push (rd_queue r) ?d = Some q"
      and r': "r' = r\<lparr>rd_queue := q, rd_workers := (rd_workers r)[i := ?w']\<rparr>"
      by (auto simp: issue_def Let_def split: if_splits)
    note core = empty_buffer_core [OF True st(2), of "w_next ?w" fs]
    have "worker_inv m True ?w'" using wi nx nd by (auto simp: worker_inv_def)
    moreover have "image_mset (chunk_core P fs) (pending ?w)
        = mset (map bd_core [?d]) + image_mset (chunk_core P fs) (pending ?w')"
      by (subst pending_skip [OF nx]) (simp add: core)
    ultimately show ?thesis
      unfolding r' using inv i core q
      by (intro inv_replace [where ps = "[?d]"]) (auto simp: Push_Some)
  next
    case False
    let ?w' = "?w\<lparr>w_avail := w_avail ?w - 1, w_inflight := w_inflight ?w @ [w_next ?w],
      w_next := w_next ?w + 1\<rparr>"
    have r': "r' = r\<lparr>rd_queue := rd_queue r, rd_workers := (rd_workers r)[i := ?w']\<rparr>"
      using st(1) False run av nx by (simp add: issue_def Let_def)
    have "worker_inv m True ?w'" using wi nx nd av by (auto simp: worker_inv_def)
    then show ?thesis
      unfolding r' using inv i pending_start [OF nx, of "w_avail ?w - 1"]
      by (intro inv_replace [where ps = "[]"]) simp_all
  qed
qed

lemma finish_inv:
  assumes st: "finish i r = Some r'" and inv: "reader_inv P m B fs hs (r, ds)"
  shows "reader_inv P m B fs hs (r', ds)"
proof -
  let ?ws = "rd_workers r"
  let ?w = "?ws ! i"
  let ?w' = "?w\<lparr>w_done := True\<rparr>"
  from st have run: "running r i"
    by (auto simp: finish_def Let_def split: if_splits)
  then have i: "i < length ?ws" and nd: "\<not> w_done ?w" by (simp_all add: running_def)
  note wi = reader_inv_worker [OF inv i]
  have ropen: "rd_is_open r" using inv by (simp add: reader_inv_def)
  have comp: "w_completed ?w = length (w_chunks ?w)"
    using st wi ropen by (auto simp: finish_def Let_def worker_inv_def split: if_splits)
  have r': "r' = r\<lparr>rd_workers := ?ws[i := ?w'], rd_active := rd_active r - 1,
      rd_queue := (if rd_active r - 1 = 0 then Close (rd_queue r) else rd_queue r)\<rparr>"
    using st comp run by (simp add: finish_def Let_def)
  have each: "\<forall>w \<in> set (?ws[i := ?w']). worker_inv m True w \<and> set (w_chunks w) \<subseteq> set hs"
  proof -
    have "worker_inv m True ?w'" using wi comp by (simp add: worker_inv_def)
    then show ?thesis
      using inv wi by (intro ball_set_update) (auto simp: reader_inv_def)
  qed
  have cnt: "count_running (?ws[i := ?w']) + 1 = count_running ?ws"
    using sum_list_update_add [OF i, where f = "\<lambda>w. if w_done w then 0 else 1::nat" and y = ?w'] nd
    by (simp add: count_running_def)
  have "(\<Sum>w\<leftarrow>?ws[i := ?w']. pending w) + pending ?w = (\<Sum>w\<leftarrow>?ws. pending w) + pending ?w'"
    by (rule sum_list_update_add [OF i])
  then have "(\<Sum>w\<leftarrow>?ws[i := ?w']. pending w) = (\<Sum>w\<leftarrow>?ws. pending w)"
    by (simp add: pending_def)
  with inv each cnt show ?thesis
    unfolding r' by (auto simp: reader_inv_def Close_def)
qed

lemma poll_inv:
  assumes st: "reader_poll r = Some (d, r')" and inv: "reader_inv P m B fs hs (r, ds)"
  shows "reader_inv P m B fs hs (r', ds @ [d])"
proof -
  from st obtain q where q: "pop (rd_queue r) = Some (d, q)" and r': "r' = r\<lparr>rd_queue := q\<rparr>"
    by (auto simp: reader_poll_def)
  from q have "sq_queue (rd_queue r) = d # sq_queue q" "sq_open q = sq_open (rd_queue r)"
    by (auto simp: pop_def split: list.splits)
  with inv show ?thesis by (simp add: reader_inv_def r')
qed

lemma reader_step_inv:
  assumes "reader_step P A B fs s t" and "reader_inv P m B fs hs s"
    and "0 < pod_size P" "0 < A" "A dvd B" "\<forall>h \<in> set hs. wf_block P B fs h"
  shows "reader_inv P m B fs hs t"
  using assms
  by (elim reader_stepE) (auto intro: reap_inv issue_inv finish_inv poll_inv)

section \<open>Termination and progress\<close>

lemma work_replace:
  assumes "i < length (rd_workers r)"
  shows "reader_work (r\<lparr>rd_queue := q, rd_workers := (rd_workers r)[i := w']\<rparr>, ds)
      + worker_work (rd_workers r ! i) + length (sq_queue (rd_queue r))
    = reader_work (r, ds) + worker_work w' + length (sq_queue q)"
  using sum_list_update_add [OF assms, of worker_work w'] by (simp add: reader_work_def)

lemma reap_work:
  assumes "reap P A B fs i k old r = Some r'"
  shows "reader_work (r', ds) < reader_work (r, ds)"
proof -
  let ?w = "rd_workers r ! i"
  let ?w' = "?w\<lparr>w_inflight := take k (w_inflight ?w) @ drop (Suc k) (w_inflight ?w),
              w_avail := w_avail ?w + 1, w_completed := w_completed ?w + 1\<rparr>"
  from assms obtain q d where i: "i < length (rd_workers r)" and k: "k < length (w_inflight ?w)"
    and q: "Push (rd_queue r) d = Some q"
    and r': "r' = r\<lparr>rd_queue := q, rd_workers := (rd_workers r)[i := ?w']\<rparr>"
    by (auto simp: reap_def Let_def running_def split: if_splits)
  have "worker_work ?w' + 2 = worker_work ?w" using k by (simp add: worker_work_def min_def)
  moreover have "length (sq_queue q) = length (sq_queue (rd_queue r)) + 1"
    using q by (auto simp: Push_Some)
  ultimately show ?thesis unfolding r' using work_replace [OF i, of ?w' q ds] by linarith
qed

lemma issue_work:
  assumes "issue B i old r = Some r'"
  shows "reader_work (r', ds) < reader_work (r, ds)"
proof -
  let ?w = "rd_workers r ! i"
  let ?c = "w_chunks ?w ! w_next ?w"
  from assms have i: "i < length (rd_workers r)" and nx: "w_next ?w < length (w_chunks ?w)"
    and run: "running r i" and av: "0 < w_avail ?w"
    by (auto simp: issue_def Let_def running_def split: if_splits)
  show ?thesis
  proof (cases "h_used ?c = 0")
    case True
    let ?w' = "?w\<lparr>w_completed := w_completed ?w + 1, w_next := w_next ?w + 1\<rparr>"
    from assms True run av nx obtain q d where q: "Push (rd_queue r) d = Some q"
      and r': "r' = r\<lparr>rd_queue := q, rd_workers := (rd_workers r)[i := ?w']\<rparr>"
      by (auto simp: issue_def Let_def split: if_splits)
    have "worker_work ?w' + 3 = worker_work ?w" using nx by (simp add: worker_work_def)
    moreover have "length (sq_queue q) = length (sq_queue (rd_queue r)) + 1"
      using q by (auto simp: Push_Some)
    ultimately show ?thesis unfolding r' using work_replace [OF i, of ?w' q ds] by linarith
  next
    case False
    let ?w' = "?w\<lparr>w_avail := w_avail ?w - 1, w_inflight := w_inflight ?w @ [w_next ?w],
      w_next := w_next ?w + 1\<rparr>"
    have r': "r' = r\<lparr>rd_queue := rd_queue r, rd_workers := (rd_workers r)[i := ?w']\<rparr>"
      using assms False run av nx by (simp add: issue_def Let_def)
    have "worker_work ?w' + 1 = worker_work ?w" using nx by (simp add: worker_work_def)
    then show ?thesis unfolding r' using work_replace [OF i, of ?w' "rd_queue r" ds] by linarith
  qed
qed

lemma finish_work:
  assumes st: "finish i r = Some r'"
  shows "reader_work (r', ds) < reader_work (r, ds)"
proof -
  let ?w = "rd_workers r ! i"
  let ?w' = "?w\<lparr>w_done := True\<rparr>"
  from st have i: "i < length (rd_workers r)" and nd: "\<not> w_done ?w"
    and ws: "rd_workers r' = (rd_workers r)[i := ?w']"
    and q: "sq_queue (rd_queue r') = sq_queue (rd_queue r)"
    by (auto simp: finish_def Let_def running_def Close_def split: if_splits)
  have "worker_work ?w' + 1 = worker_work ?w" using nd by (simp add: worker_work_def)
  then show ?thesis
    using sum_list_update_add [OF i, of worker_work ?w'] ws q by (simp add: reader_work_def)
qed

lemma poll_work: "reader_poll r = Some (d, r') \<Longrightarrow> reader_work (r', ds') < reader_work (r, ds)"
  by (auto simp: reader_poll_def reader_work_def pop_def split: list.splits)

lemma reader_step_work: "reader_step P A B fs s t \<Longrightarrow> reader_work t < reader_work s"
  by (elim reader_stepE) (auto intro: reap_work issue_work finish_work poll_work)

lemma reader_progress:
  assumes inv: "reader_inv P m B fs hs s" and m: "0 < m" and nd: "\<not> drained (fst s)"
  shows "\<exists>t. reader_step P A B fs s t"
proof -
  obtain r ds where s: "s = (r, ds)" by (cases s)
  define old :: "'a list" where "old = replicate (B div pod_size P) undefined"
  have old: "length old = B div pod_size P" by (simp add: old_def)
  show ?thesis
  proof (cases "sq_queue (rd_queue r)")
    case (Cons d q)
    then have "reader_poll r = Some (d, r\<lparr>rd_queue := (rd_queue r)\<lparr>sq_queue := q\<rparr>\<rparr>)"
      by (simp add: reader_poll_def pop_def)
    then show ?thesis unfolding s by (blast intro: step_poll)
  next
    case Nil
    have can_push: "\<exists>q. Push (rd_queue r) d = Some q" for d
      using Nil by (rule Push_empty)
    from nd Nil obtain w where "w \<in> set (rd_workers r)" and nw: "\<not> w_done w"
      by (auto simp: s drained_def all_joined_def)
    then obtain i where i: "i < length (rd_workers r)" and w: "rd_workers r ! i = w"
      by (auto simp: in_set_conv_nth)
    have run: "running r i" using i w nw by (simp add: running_def)
    have wi: "worker_inv m True w" using reader_inv_worker [OF inv [unfolded s] i] w by simp
    show ?thesis
    proof (cases "w_inflight w")
      case (Cons j js)
      then have "w_completed w < length (w_chunks w)" using wi by (auto simp: worker_inv_def)
      then have "\<exists>r'. reap P A B fs i 0 old r = Some r'"
        using can_push [of "chunk_buffer P A B fs (w_chunks w ! j) j old"] run w Cons
        by (auto simp: reap_def Let_def)
      then show ?thesis unfolding s using old by (blast intro: step_reap)
    next
      case Nil
      show ?thesis
      proof (cases "w_next w < length (w_chunks w)")
        case True
        have "0 < w_avail w" using wi m Nil by (simp add: worker_inv_def)
        then have "\<exists>r'. issue B i old r = Some r'"
          using can_push [of "empty_buffer B (w_chunks w ! w_next w) (w_next w) old"] run w True
          by (auto simp: issue_def Let_def)
        then show ?thesis unfolding s using old by (blast intro: step_issue)
      next
        case False
        then have "w_completed w = length (w_chunks w)" using wi Nil by (simp add: worker_inv_def)
        then have "\<exists>r'. finish i r = Some r'" using run w by (auto simp: finish_def Let_def)
        then show ?thesis unfolding s by (blast intro: step_finish)
      qed
    qed
  qed
qed

lemma Start_inv:
  assumes "Start cfg (PrepFiles new_reader hs) = Some r"
  shows "reader_inv P (rc_max_requests cfg) B fs hs (r, [])"
proof -
  let ?t = "rc_num_threads cfg"
  from assms have t: "0 < ?t"
    and r: "r = (new_reader :: 'a reader)\<lparr>rd_chunks := hs, rd_queue := SetSizeLimit (SimpleQueue 0) (rc_buffer_queue_size cfg),
      rd_active := ?t, rd_workers := map (\<lambda>i. start_worker cfg (stride i ?t hs)) [0..<?t]\<rparr>"
    by (auto simp: Start_def PrepFiles_def new_reader_def split: if_splits)
  have "(\<Sum>w\<leftarrow>rd_workers r. pending w) = (\<Sum>i\<leftarrow>[0..<?t]. mset (stride i ?t hs))"
    by (simp add: r pending_def start_worker_def comp_def)
  then have "(\<Sum>w\<leftarrow>rd_workers r. pending w) = mset hs" using mset_strides [OF t] by simp
  moreover have "count_running (rd_workers r) = ?t"
    by (simp add: r count_running_def start_worker_def comp_def sum_list_triv)
  moreover have "\<forall>w \<in> set (rd_workers r). worker_inv (rc_max_requests cfg) True w \<and> set (w_chunks w) \<subseteq> set hs"
    using set_stride by (fastforce simp: r worker_inv_def start_worker_def)
  ultimately show ?thesis
    using t by (simp add: reader_inv_def r new_reader_def SimpleQueue_def SetSizeLimit_def)
qed

text \<open>
  The invariant together with what a started reader relies on: blocks that are well formed on
  disk, buffers of whole direct-I/O units, and at least one request object per worker.
\<close>

definition reader_good :: "'a pod \<Rightarrow> nat \<Rightarrow> nat \<Rightarrow> nat \<Rightarrow> fstore \<Rightarrow> chunk_header list \<Rightarrow>
    'a reader \<times> 'a BufferData list \<Rightarrow> bool" where
  "reader_good P m A B fs hs s \<longleftrightarrow>
     reader_inv P m B fs hs s \<and> 0 < m \<and> 0 < pod_size P \<and> 0 < A \<and> A dvd B \<and>
     (\<forall>h \<in> set hs. wf_block P B fs h)"

interpretation reader_machine: finite_machine "reader_step P A B fs" "reader_good P m A B fs hs"
    reader_work "\<lambda>s. drained (fst s)" for P A B fs m hs
proof unfold_locales
  fix s t :: "'a reader \<times> 'a BufferData list"
  assume g: "reader_good P m A B fs hs s"
  show "\<not> drained (fst s) \<Longrightarrow> \<exists>t. reader_step P A B fs s t"
    using g by (intro reader_progress) (auto simp: reader_good_def)
  assume st: "reader_step P A B fs s t"
  show "reader_good P m A B fs hs t"
    using g reader_step_inv [OF st] by (auto simp: reader_good_def)
  show "reader_work t < reader_work s" using st by (rule reader_step_work)
qed

definition config_ok :: "UnorderedChunkReaderConfig \<Rightarrow> bool" where
  "config_ok cfg \<longleftrightarrow> 0 < rc_num_threads cfg \<and> 0 < rc_max_requests cfg"

lemma default_reader_config_ok [simp]: "config_ok default_reader_config"
  by (simp add: config_ok_def default_reader_config_def)

lemma Start_good:
  assumes "Start cfg (PrepFiles new_reader hs) = Some r" and "config_ok cfg"
    and "0 < pod_size P" "0 < A" "A dvd B" "\<forall>h \<in> set hs. wf_block P B fs h"
  shows "reader_good P (rc_max_requests cfg) A B fs hs (r, [])"
  using assms Start_inv [OF assms(1)] by (simp add: reader_good_def config_ok_def)

lemma Start_Some: "config_ok cfg \<Longrightarrow> \<exists>r. Start cfg (PrepFiles new_reader hs) = Some r"
  by (simp add: Start_def config_ok_def)

text \<open>When nothing is left, the next \<open>Poll\<close> of any client returns \<open>FINISH\<close>.\<close>

lemma drained_inv:
  assumes inv: "reader_inv P m B fs hs (r, ds)" and dr: "drained r"
  shows "mset (map bd_core ds) = mset (map (chunk_core P fs) hs)"
    and "\<forall>d \<in> set ds. bd_ok (B div pod_size P) d"
    and "Poll (rd_queue r) dflt (-1) expired = Polled dflt FINISH (rd_queue r)"
proof -
  have "pending w = {#}" if "w \<in> set (rd_workers r)" for w
  proof -
    have "worker_inv m True w" and "w_done w"
      using that inv dr by (auto simp: reader_inv_def drained_def all_joined_def)
    then have e: "w_completed w + length (w_inflight w) = w_next w" "w_completed w = length (w_chunks w)"
      "w_next w \<le> length (w_chunks w)"
      by (auto simp: worker_inv_def)
    then have "length (w_inflight w) = 0" by linarith
    with e show ?thesis by (simp add: pending_def)
  qed
  then have p: "(\<Sum>w\<leftarrow>rd_workers r. pending w) = {#}" by (simp add: sum_list_0 cong: map_cong)
  have c: "count_running (rd_workers r) = 0"
    using dr by (simp add: count_running_def sum_list_nat_0 drained_def all_joined_def)
  show "mset (map bd_core ds) = mset (map (chunk_core P fs) hs)"
    and "\<forall>d \<in> set ds. bd_ok (B div pod_size P) d"
    and "Poll (rd_queue r) dflt (-1) expired = Polled dflt FINISH (rd_queue r)"
    using inv dr p c by (simp_all add: reader_inv_def drained_def Poll_def)
qed

section \<open>The reader as an interface\<close>

text \<open>
  \<open>polls P A B cfg fs hs ds\<close>: the non-null results of polling a reader of the blocks \<open>hs\<close> can be
  \<open>ds\<close>, in that order. The laws: every block is delivered exactly once, in a full buffer, and a
  reader always comes to its end.
\<close>

locale chunk_source =
  fixes polls :: "'a pod \<Rightarrow> nat \<Rightarrow> nat \<Rightarrow> UnorderedChunkReaderConfig \<Rightarrow> fstore \<Rightarrow>
    chunk_header list \<Rightarrow> 'a BufferData list \<Rightarrow> bool"
  assumes polls_mset:
      "polls P A B cfg fs hs ds \<Longrightarrow> config_ok cfg \<Longrightarrow> 0 < pod_size P \<Longrightarrow> 0 < A \<Longrightarrow> A dvd B \<Longrightarrow>
       \<forall>h \<in> set hs. wf_block P B fs h \<Longrightarrow>
       mset (map bd_core ds) = mset (map (chunk_core P fs) hs)"
    and polls_ok:
      "polls P A B cfg fs hs ds \<Longrightarrow> config_ok cfg \<Longrightarrow> 0 < pod_size P \<Longrightarrow> 0 < A \<Longrightarrow> A dvd B \<Longrightarrow>
       \<forall>h \<in> set hs. wf_block P B fs h \<Longrightarrow>
       \<forall>d \<in> set ds. bd_ok (B div pod_size P) d"
    and polls_exist:
      "config_ok cfg \<Longrightarrow> 0 < pod_size P \<Longrightarrow> 0 < A \<Longrightarrow> A dvd B \<Longrightarrow>
       \<forall>h \<in> set hs. wf_block P B fs h \<Longrightarrow> \<exists>ds. polls P A B cfg fs hs ds"
begin

lemma polls_length:
  assumes "polls P A B cfg fs hs ds" "config_ok cfg" "0 < pod_size P" "0 < A" "A dvd B"
    "\<forall>h \<in> set hs. wf_block P B fs h"
  shows "length ds = length hs"
  using polls_mset [OF assms] by (metis mset_eq_length length_map)

lemma polls_index:
  assumes "polls P A B cfg fs hs ds" "config_ok cfg" "0 < pod_size P" "0 < A" "A dvd B"
    "\<forall>h \<in> set hs. wf_block P B fs h"
  shows "mset (map bd_index ds) = mset (map h_index hs)"
proof -
  have "mset (map fst (map bd_core ds)) = mset (map fst (map (chunk_core P fs) hs))"
    using polls_mset [OF assms] by (metis mset_map)
  then show ?thesis by (simp add: comp_def bd_core_def)
qed

text \<open>Reading a well-formed sequence in polling order and then sorting is reading it in order.\<close>

lemma polls_ordered:
  assumes "polls P A B cfg fs (ordered_underlying_sequence s) ds" "config_ok cfg"
    "0 < pod_size P" "0 < A" "A dvd B" "wf_seq P B fs s"
  shows "ReadOutput P fs s = Some (ordered_elems (map bd_core ds))"
proof -
  let ?hs = "ordered_underlying_sequence s"
  have wf: "\<forall>h \<in> set ?hs. wf_block P B fs h" using assms(6) by (simp add: wf_seq_def)
  have m: "mset (map (chunk_core P fs) ?hs) = mset (map bd_core ds)"
    using polls_mset [OF assms(1-5) wf] by simp
  have "distinct (map fst (map (chunk_core P fs) ?hs))"
    using assms(6) by (simp add: wf_seq_def comp_def)
  then show ?thesis
    using ReadOutput_ordered [OF assms(6)] ordered_elems_perm [OF m] by simp
qed

end

lemma reader_polls_reach:
  assumes "reader_polls P A B cfg fs hs ds" "config_ok cfg" "0 < pod_size P" "0 < A" "A dvd B"
    "\<forall>h \<in> set hs. wf_block P B fs h"
  shows "\<exists>r. reader_inv P (rc_max_requests cfg) B fs hs (r, ds) \<and> drained r"
proof -
  from assms(1) obtain r r' where st: "Start cfg (PrepFiles new_reader hs) = Some r"
    and run: "rtranclp (reader_step P A B fs) (r, []) (r', ds)" and dr: "drained r'"
    by (auto simp: reader_polls_def)
  from reader_machine.reach_good [OF run Start_good [OF st assms(2-6)]] dr show ?thesis
    by (auto simp: reader_good_def)
qed

interpretation chunk_reader: chunk_source reader_polls
proof unfold_locales
  fix P :: "'a pod" and A B cfg fs hs ds
  assume h: "config_ok cfg" "0 < pod_size P" "0 < A" "A dvd B" "\<forall>h \<in> set hs. wf_block P B fs h"
  show "reader_polls P A B cfg fs hs ds \<Longrightarrow> mset (map bd_core ds) = mset (map (chunk_core P fs) hs)"
    using reader_polls_reach [OF _ h] drained_inv(1) by metis
  show "reader_polls P A B cfg fs hs ds \<Longrightarrow> \<forall>d \<in> set ds. bd_ok (B div pod_size P) d"
    using reader_polls_reach [OF _ h] drained_inv(2) by metis
  obtain r where st: "Start cfg (PrepFiles new_reader hs) = Some (r :: 'a reader)"
    using Start_Some [OF h(1)] by blast
  obtain t where "rtranclp (reader_step P A B fs) (r, []) t" and "drained (fst t)"
    using reader_machine.reach_halted [OF Start_good [OF st h]] by blast
  then show "\<exists>ds. reader_polls P A B cfg fs hs ds"
    using st by (cases t) (auto simp: reader_polls_def)
qed

section \<open>Properties\<close>

lemma start_work:
  assumes "Start cfg (PrepFiles new_reader hs) = Some (r :: 'a reader)"
  shows "reader_work (r, []) = 3 * length hs + rc_num_threads cfg"
proof -
  let ?t = "rc_num_threads cfg"
  from assms have t: "0 < ?t"
    and r: "rd_workers r = map (\<lambda>i. start_worker cfg (stride i ?t hs)) [0..<?t]" "sq_queue (rd_queue r) = []"
    by (auto simp: Start_def PrepFiles_def new_reader_def SimpleQueue_def SetSizeLimit_def split: if_splits)
  have size: "size (\<Sum>i\<leftarrow>is. mset (f i)) = (\<Sum>i\<leftarrow>is. length (f i))" for "is" :: "nat list" and f :: "nat \<Rightarrow> chunk_header list"
    by (induction "is") simp_all
  have "(\<Sum>i\<leftarrow>[0..<?t]. length (stride i ?t hs)) = length hs"
    using size [of "\<lambda>i. stride i ?t hs" "[0..<?t]"] mset_strides [OF t, of hs] by simp
  moreover have "reader_work (r, []) = (\<Sum>i\<leftarrow>[0..<?t]. 3 * length (stride i ?t hs) + 1)"
    by (simp add: reader_work_def r worker_work_def start_worker_def comp_def)
  ultimately show ?thesis
    by (simp only: sum_list_addf sum_list_const_mult sum_list_triv length_upt) simp
qed

text \<open>C2: The chunk reader delivers every block exactly once. When a reader started on the headers
\<open>hs\<close> has been polled to its end, the results are, up to order, the blocks of \<open>hs\<close> with their
ordering keys and exactly their valid elements, each in a buffer of the full block size, for every
number of threads and requests and every order of the device's completions.\<close>

theorem reader_delivers_each_block_once:
  assumes "reader_polls P A B cfg fs hs ds" "config_ok cfg" "0 < pod_size P" "0 < A" "A dvd B"
    "\<forall>h \<in> set hs. wf_block P B fs h"
  shows "mset (map (\<lambda>d. (bd_index d, take (bd_size d) (bd_data d))) ds) =
      mset (map (\<lambda>h. (h_index h, chunk_elems P fs h)) hs) \<and>
    (\<forall>d \<in> set ds. length (bd_data d) = B div pod_size P \<and> bd_size d \<le> B div pod_size P)"
  using chunk_reader.polls_mset [OF assms] chunk_reader.polls_ok [OF assms]
  by (simp add: bd_core_def [abs_def] chunk_core_def [abs_def] bd_ok_def)

lemma reader_delivers_each_block_once_witness:
  "\<exists>ds. reader_polls u8_pod 2 4 default_reader_config demo_fs (ordered_underlying_sequence demo_seq) ds \<and>
     mset (map (\<lambda>d. (bd_index d, take (bd_size d) (bd_data d))) ds) = {#(0, [5, 6, 7]), (1, [1, 2, 3, 4])#}"
proof -
  let ?hs = "ordered_underlying_sequence demo_seq"
  have w: "\<forall>h \<in> set ?hs. wf_block u8_pod 4 demo_fs h" using demo_wf by (simp add: wf_seq_def)
  have c: "0 < (2::nat)" "2 dvd (4::nat)" by simp_all
  obtain ds where p: "reader_polls u8_pod 2 4 default_reader_config demo_fs ?hs ds"
    using chunk_reader.polls_exist [OF default_reader_config_ok u8_repr.size_pos c w] by blast
  have "map (\<lambda>h. (h_index h, chunk_elems u8_pod demo_fs h)) ?hs = [(1, [1, 2, 3, 4]), (0, [5, 6, 7])]"
    by (simp add: demo_seq_def chunk_elems_def demo_fs_def u8_pod_def file_of_def fs_read_def eval_nat_numeral)
  with reader_delivers_each_block_once [OF p default_reader_config_ok u8_repr.size_pos c w] p
  show ?thesis by (auto simp: add_mset_commute)
qed

text \<open>C27: The chunk reader always comes to its end: a started reader makes at most three steps per
block and one per thread, polls included, and it is never stuck before every worker has finished
and the queue is drained, as long as its clients keep polling.\<close>

theorem reader_terminates:
  assumes "Start cfg (PrepFiles new_reader hs) = Some r" "config_ok cfg" "0 < pod_size P" "0 < A" "A dvd B"
    "\<forall>h \<in> set hs. wf_block P B fs h" and "(reader_step P A B fs ^^ n) (r, []) s"
  shows "n \<le> 3 * length hs + rc_num_threads cfg \<and>
    (drained (fst s) \<or> (\<exists>t. reader_step P A B fs s t))"
proof -
  note good = Start_good [OF assms(1-6)]
  have "rtranclp (reader_step P A B fs) (r, []) s" using assms(7) by (rule relpowp_imp_rtranclp)
  then have "reader_good P (rc_max_requests cfg) A B fs hs s"
    using good by (rule reader_machine.reach_good)
  then show ?thesis
    using reader_machine.reach_mu [OF assms(7) good] start_work [OF assms(1)]
      reader_machine.step_exists by fastforce
qed

lemma reader_terminates_witness:
  "\<exists>r. Start default_reader_config (PrepFiles new_reader (ordered_underlying_sequence demo_seq)) = Some r \<and>
     (drained (fst (r, [])) \<or> (\<exists>t. reader_step u8_pod 2 4 demo_fs (r, []) t))"
proof -
  let ?hs = "ordered_underlying_sequence demo_seq"
  have w: "\<forall>h \<in> set ?hs. wf_block u8_pod 4 demo_fs h" using demo_wf by (simp add: wf_seq_def)
  have c: "0 < (2::nat)" "2 dvd (4::nat)" by simp_all
  obtain r :: "byte reader" where r: "Start default_reader_config (PrepFiles new_reader ?hs) = Some r"
    using Start_Some [OF default_reader_config_ok] by blast
  from reader_terminates [OF r default_reader_config_ok u8_repr.size_pos c w, of 0 "(r, [])"] r
  show ?thesis by auto
qed

end
