(* ===== verification/ChunkWriter.thy ===== *)
theory ChunkWriter
  imports Placement SimpleQueue FileUtils
begin

text \<open>
  utils/unordered_file_writer_modified.h: \<open>UnorderedChunkWriter\<close>. Clients push write requests
  into the bounded queue; worker threads take them, reserve a place (or use the explicit one) and
  submit them to the device, which completes them in any order. A request of size 0 is the
  end-of-queue mark. The whole writer is one state; a step is one push of the client, one
  request taken by a worker, one completion, one change of phase, or the \<open>Close\<close> of \<open>Wait\<close>.
  \<open>A\<close> is \<open>O_DIRECT_MULTIPLE\<close>. The place reservation is a parameter, because
  utils/unordered_file_writer.h differs only there.
\<close>

record UnorderedChunkWriterConfig =
  wc_io_uring_size :: nat
  wc_queue_size :: nat
  wc_num_threads :: nat
  wc_num_files :: nat
  wc_allow_expand :: bool

definition default_writer_config :: UnorderedChunkWriterConfig where
  "default_writer_config =
     \<lparr>wc_io_uring_size = 64, wc_queue_size = 1000, wc_num_threads = 1,
      wc_num_files = SSD_COUNT, wc_allow_expand = False\<rparr>"

record OpenedFile =
  of_name :: string
  of_bytes_issued :: nat
  of_bytes_written :: nat

text \<open>
  The record of an opened file. \<open>open\<close> with \<open>O_CREAT\<close> also creates an empty file; in the store
  a name gets a file with its first write. A file without a write is never read by the program.
\<close>

definition open_file :: "string \<Rightarrow> OpenedFile" where
  "open_file name = \<lparr>of_name = name, of_bytes_issued = 0, of_bytes_written = 0\<rparr>"

datatype Phase = NORMAL | WAITING_FOR_COMPLETION | ALL_DONE

text \<open>A request submitted to the device: its file and the offset it is written to.\<close>

record 'b pending_write =
  pw_request :: "'b write_request"
  pw_file :: nat
  pw_offset :: nat

record 'b writer_worker =
  wk_files :: "nat list"
  wk_current :: nat
  wk_outstanding :: "'b pending_write list"
  wk_phase :: Phase

record 'b writer =
  wt_allow_expand :: bool
  wt_num_files :: nat
  wt_workers :: "'b writer_worker list"
  wt_queue :: "'b write_request simple_queue"
  wt_global_files :: "OpenedFile list"
  wt_prefix :: string
  wt_cleanup_done :: bool

definition new_writer :: "'b writer" where
  "new_writer = \<lparr>wt_allow_expand = False, wt_num_files = 0, wt_workers = [],
     wt_queue = SimpleQueue 0, wt_global_files = [], wt_prefix = [], wt_cleanup_done = False\<rparr>"

definition start_writer_worker :: "nat list \<Rightarrow> 'b writer_worker" where
  "start_writer_worker files =
     \<lparr>wk_files = files, wk_current = 0, wk_outstanding = [], wk_phase = NORMAL\<rparr>"

text \<open>Thread \<open>t\<close> gets the files \<open>t, t + num_threads, \<dots>\<close>; a thread without files is not started.\<close>

definition writer_start :: "UnorderedChunkWriterConfig \<Rightarrow> string list \<Rightarrow> 'b writer \<Rightarrow> 'b writer option" where
  "writer_start cfg names w =
     (if names = [] \<or> wc_num_threads cfg = 0 then None
      else let files = wt_global_files w @ map open_file names;
               shares = map (\<lambda>t. stride t (wc_num_threads cfg) [0..<length names]) [0..<wc_num_threads cfg]
           in Some (w\<lparr>wt_queue := SetSizeLimit (wt_queue w) (wc_queue_size cfg),
                      wt_num_files := length names, wt_allow_expand := wc_allow_expand cfg,
                      wt_global_files := files,
                      wt_workers := wt_workers w @
                        map start_writer_worker (filter (\<lambda>s. s \<noteq> []) shares)\<rparr>))"

definition writer_start_prefix :: "UnorderedChunkWriterConfig \<Rightarrow> string list \<Rightarrow> string \<Rightarrow> 'b writer \<Rightarrow> 'b writer option" where
  "writer_start_prefix cfg ssds prefix w =
     writer_start cfg (map (GetFileName ssds prefix) [0..<wc_num_files cfg]) (w\<lparr>wt_prefix := prefix\<rparr>)"

text \<open>
  The \<open>CHECK\<close> of \<open>Push\<close> on the size. The one on the address of the buffer holds for every buffer
  that comes from \<open>aligned_alloc\<close> or an allocator built on it, which is every buffer but the one that
  filter.h of sequence_algorithms grows with \<open>realloc\<close>; that one is checked in FileStreams.
\<close>

definition push_check :: "'b pod \<Rightarrow> nat \<Rightarrow> 'b write_request \<Rightarrow> bool" where
  "push_check P A r \<longleftrightarrow> wr_size r * pod_size P mod A = 0"

definition writer_push :: "'b write_request \<Rightarrow> 'b writer \<Rightarrow> 'b writer option" where
  "writer_push r w = map_option (\<lambda>q. w\<lparr>wt_queue := q\<rparr>) (Push (wt_queue w) r)"

definition empty_request :: "'b write_request" where
  "empty_request = \<lparr>wr_data = [], wr_size = 0, wr_file_index = None, wr_file_offset = None\<rparr>"

text \<open>\<open>Poll\<close> in a worker: \<open>None\<close> while it has to wait, the empty request when closed and drained.\<close>

definition writer_poll :: "'b writer \<Rightarrow> ('b write_request \<times> 'b writer) option" where
  "writer_poll w =
     (case Poll (wt_queue w) empty_request (-1) False of
        Blocked \<Rightarrow> None
      | Polled r code q \<Rightarrow> Some (r, w\<lparr>wt_queue := q\<rparr>))"

definition ExpandFiles :: "string list \<Rightarrow> nat \<Rightarrow> 'b writer \<Rightarrow> 'b writer option" where
  "ExpandFiles ssds new_num_files w =
     (if \<not> wt_num_files w < new_num_files then None
      else let n = length (wt_global_files w);
               files = wt_global_files w @
                 map (\<lambda>i. open_file (GetFileName ssds (wt_prefix w) i)) [n..<new_num_files]
           in Some (w\<lparr>wt_global_files := files, wt_num_files := length files\<rparr>))"

text \<open>
  The file of a request: the explicit one (\<open>None\<close>: the \<open>CHECK\<close> aborts when there is no such
  file and the writer may not expand), or the worker's files in turn.
\<close>

definition choose_file :: "string list \<Rightarrow> nat \<Rightarrow> 'b write_request \<Rightarrow> 'b writer \<Rightarrow> (nat \<times> 'b writer) option" where
  "choose_file ssds i r w =
     (case wr_file_index r of
        Some k \<Rightarrow>
          if wt_num_files w \<le> k
          then if wt_allow_expand w then map_option (\<lambda>w'. (k, w')) (ExpandFiles ssds (k + 1) w) else None
          else Some (k, w)
      | None \<Rightarrow>
          let wk = wt_workers w ! i
          in Some (wk_files wk ! wk_current wk,
               w\<lparr>wt_workers := (wt_workers w)[i :=
                   wk\<lparr>wk_current := (wk_current wk + 1) mod length (wk_files wk)\<rparr>]\<rparr>))"

text \<open>
  The place of a request: an explicit offset leaves the append cursor untouched, otherwise the
  next place is reserved by \<open>fetch_add\<close>.
\<close>

definition reserve_chunk :: "nat \<Rightarrow> 'b write_request \<Rightarrow> OpenedFile \<Rightarrow> nat \<times> OpenedFile" where
  "reserve_chunk num_bytes r f =
     (case wr_file_offset r of
        Some off \<Rightarrow> (off, f)
      | None \<Rightarrow> (of_bytes_issued f, f\<lparr>of_bytes_issued := of_bytes_issued f + num_bytes\<rparr>))"

type_synonym 'b reservation = "nat \<Rightarrow> 'b write_request \<Rightarrow> OpenedFile \<Rightarrow> nat \<times> OpenedFile"

definition submit_request :: "'b reservation \<Rightarrow> 'b pod \<Rightarrow> nat \<Rightarrow> nat \<Rightarrow> 'b write_request \<Rightarrow> 'b writer \<Rightarrow> 'b writer" where
  "submit_request reserve P i k r w =
     (let (off, f) = reserve (wr_size r * pod_size P) r (wt_global_files w ! k);
          wk = wt_workers w ! i
      in w\<lparr>wt_global_files := (wt_global_files w)[k := f],
           wt_workers := (wt_workers w)[i := wk\<lparr>wk_outstanding :=
             wk_outstanding wk @ [\<lparr>pw_request = r, pw_file = k, pw_offset = off\<rparr>]\<rparr>]\<rparr>)"

text \<open>
  One iteration of the submission loop of worker \<open>i\<close>. \<open>None\<close>: it is not in that loop, it waits
  for a request, or the process aborts.
\<close>

definition writer_take :: "'b reservation \<Rightarrow> 'b pod \<Rightarrow> string list \<Rightarrow> nat \<Rightarrow> nat \<Rightarrow> 'b writer \<Rightarrow> 'b writer option" where
  "writer_take reserve P ssds io_uring_size i w =
     (if i < length (wt_workers w) \<and> wk_phase (wt_workers w ! i) = NORMAL \<and>
         length (wk_outstanding (wt_workers w ! i)) < io_uring_size * 2
      then case writer_poll w of
          None \<Rightarrow> None
        | Some (r, w') \<Rightarrow>
            if wr_size r = 0
            then Some (w'\<lparr>wt_workers := (wt_workers w')[i :=
                   (wt_workers w' ! i)\<lparr>wk_phase := WAITING_FOR_COMPLETION\<rparr>]\<rparr>)
            else map_option (\<lambda>(k, w''). submit_request reserve P i k r w'') (choose_file ssds i r w')
      else None)"

text \<open>The completion of the \<open>k\<close>-th outstanding write of worker \<open>i\<close>: the bytes are on disk.\<close>

definition writer_complete :: "'b pod \<Rightarrow> nat \<Rightarrow> nat \<Rightarrow> 'b writer \<times> fstore \<Rightarrow> ('b write_request \<times> 'b writer \<times> fstore) option" where
  "writer_complete P i k s =
     (case s of (w, fs) \<Rightarrow>
       if i < length (wt_workers w) \<and> k < length (wk_outstanding (wt_workers w ! i))
       then let wk = wt_workers w ! i; p = wk_outstanding wk ! k; f = wt_global_files w ! pw_file p;
                f' = f\<lparr>of_bytes_written := of_bytes_written f + wr_size (pw_request p) * pod_size P\<rparr>
            in Some (pw_request p,
                 w\<lparr>wt_global_files := (wt_global_files w)[pw_file p := f'],
                   wt_workers := (wt_workers w)[i := wk\<lparr>wk_outstanding :=
                     take k (wk_outstanding wk) @ drop (Suc k) (wk_outstanding wk)\<rparr>]\<rparr>,
                 fs_write fs (of_name f) (pw_offset p) (wr_bytes P (pw_request p)))
       else None)"

definition writer_finish :: "nat \<Rightarrow> 'b writer \<Rightarrow> 'b writer option" where
  "writer_finish i w =
     (if i < length (wt_workers w) \<and> wk_phase (wt_workers w ! i) = WAITING_FOR_COMPLETION \<and>
         wk_outstanding (wt_workers w ! i) = []
      then Some (w\<lparr>wt_workers := (wt_workers w)[i := (wt_workers w ! i)\<lparr>wk_phase := ALL_DONE\<rparr>]\<rparr>)
      else None)"

text \<open>\<open>Wait\<close>: the first call closes the queue, joins the workers and closes the files.\<close>

definition writer_close :: "'b writer \<Rightarrow> 'b writer" where
  "writer_close w = w\<lparr>wt_cleanup_done := True, wt_queue := Close (wt_queue w)\<rparr>"

definition writer_joined :: "'b writer \<Rightarrow> bool" where
  "writer_joined w \<longleftrightarrow> wt_cleanup_done w \<and> (\<forall>wk \<in> set (wt_workers w). wk_phase wk = ALL_DONE)"

text \<open>
  The writer with the store, the requests its clients still have to push and, for the proofs, the
  requests completed so far.
\<close>

type_synonym 'b writer_state = "'b writer \<times> fstore \<times> 'b write_request list \<times> 'b write_request list"

inductive writer_step :: "'b reservation \<Rightarrow> 'b pod \<Rightarrow> nat \<Rightarrow> string list \<Rightarrow> nat \<Rightarrow>
    'b writer_state \<Rightarrow> 'b writer_state \<Rightarrow> bool"
  for reserve P A ssds ring where
  wstep_push: "push_check P A r \<Longrightarrow> writer_push r w = Some w' \<Longrightarrow>
    writer_step reserve P A ssds ring (w, fs, r # rs, ds) (w', fs, rs, ds)"
| wstep_take: "writer_take reserve P ssds ring i w = Some w' \<Longrightarrow>
    writer_step reserve P A ssds ring (w, fs, rs, ds) (w', fs, rs, ds)"
| wstep_complete: "writer_complete P i k (w, fs) = Some (r, w', fs') \<Longrightarrow>
    writer_step reserve P A ssds ring (w, fs, rs, ds) (w', fs', rs, ds @ [r])"
| wstep_finish: "writer_finish i w = Some w' \<Longrightarrow>
    writer_step reserve P A ssds ring (w, fs, rs, ds) (w', fs, rs, ds)"
| wstep_wait: "\<not> wt_cleanup_done w \<Longrightarrow>
    writer_step reserve P A ssds ring (w, fs, [], ds) (writer_close w, fs, [], ds)"

inductive_cases writer_stepE: "writer_step reserve P A ssds ring s t"

text \<open>
  \<open>writer_runs\<close>: a fresh writer is started on the files \<open>names\<close>, the requests \<open>rs\<close> are pushed in
  this order and \<open>Wait\<close> returns; then the store can be \<open>fs'\<close>.
\<close>

definition writer_runs :: "'b reservation \<Rightarrow> nat \<Rightarrow> string list \<Rightarrow> UnorderedChunkWriterConfig \<Rightarrow>
    'b pod \<Rightarrow> string list \<Rightarrow> fstore \<Rightarrow> 'b write_request list \<Rightarrow> fstore \<Rightarrow> bool" where
  "writer_runs reserve A ssds cfg P names fs rs fs' \<longleftrightarrow>
     (\<exists>w w' ds. writer_start cfg names new_writer = Some w \<and>
        rtranclp (writer_step reserve P A ssds (wc_io_uring_size cfg)) (w, fs, rs, []) (w', fs', [], ds) \<and>
        writer_joined w')"

abbreviation chunk_writer_runs :: "nat \<Rightarrow> string list \<Rightarrow> UnorderedChunkWriterConfig \<Rightarrow>
    'b pod \<Rightarrow> string list \<Rightarrow> fstore \<Rightarrow> 'b write_request list \<Rightarrow> fstore \<Rightarrow> bool" where
  "chunk_writer_runs \<equiv> writer_runs reserve_chunk"

section \<open>The invariant\<close>

text \<open>The requests the invariant is about: whole direct-I/O units with an explicit place.\<close>

definition valid_request :: "'b pod \<Rightarrow> nat \<Rightarrow> nat \<Rightarrow> 'b write_request \<Rightarrow> bool" where
  "valid_request P A n r \<longleftrightarrow> 0 < wr_size r \<and> wr_file_offset r \<noteq> None \<and>
     (\<exists>i. wr_file_index r = Some i \<and> i < n)"

definition honest :: "'b reservation \<Rightarrow> bool" where
  "honest reserve \<longleftrightarrow> (\<forall>n r f off. wr_file_offset r = Some off \<longrightarrow>
     fst (reserve n r f) = off \<and> of_name (snd (reserve n r f)) = of_name f)"

lemma honest_chunk [simp]: "honest reserve_chunk"
  by (simp add: honest_def reserve_chunk_def)

definition right_place :: "'b pending_write \<Rightarrow> bool" where
  "right_place p \<longleftrightarrow> wr_file_index (pw_request p) = Some (pw_file p) \<and>
     wr_file_offset (pw_request p) = Some (pw_offset p)"

definition outstanding :: "'b writer \<Rightarrow> 'b write_request multiset" where
  "outstanding w = (\<Sum>wk\<leftarrow>wt_workers w. mset (map pw_request (wk_outstanding wk)))"

definition wk_inv :: "nat \<Rightarrow> 'b writer_worker \<Rightarrow> bool" where
  "wk_inv n wk \<longleftrightarrow> (\<forall>p \<in> set (wk_outstanding wk). right_place p \<and> pw_file p < n) \<and>
     (wk_phase wk = ALL_DONE \<longrightarrow> wk_outstanding wk = [])"

definition writer_inv :: "'b pod \<Rightarrow> nat \<Rightarrow> string list \<Rightarrow> fstore \<Rightarrow> 'b write_request list \<Rightarrow>
    'b writer_state \<Rightarrow> bool" where
  "writer_inv P A names fs0 rs s \<longleftrightarrow>
     (case s of (w, fs, todo, ds) \<Rightarrow>
        map of_name (wt_global_files w) = names \<and> wt_num_files w = length names \<and>
        wt_workers w \<noteq> [] \<and> (\<forall>wk \<in> set (wt_workers w). wk_inv (length names) wk) \<and>
        (\<forall>wk \<in> set (wt_workers w). wk_phase wk \<noteq> NORMAL \<longrightarrow>
           sq_queue (wt_queue w) = [] \<and> wt_cleanup_done w) \<and>
        sq_open (wt_queue w) = (\<not> wt_cleanup_done w) \<and> (wt_cleanup_done w \<longrightarrow> todo = []) \<and>
        mset ds + outstanding w + mset (sq_queue (wt_queue w)) + mset todo = mset rs \<and>
        fs = fold apply_op (map (request_op P names) ds) fs0)"

lemma writer_poll_cases:
  "writer_poll w = Some (r, w') \<longleftrightarrow>
     (\<exists>q. sq_queue (wt_queue w) = r # q \<and> w' = w\<lparr>wt_queue := (wt_queue w)\<lparr>sq_queue := q\<rparr>\<rparr>) \<or>
     (sq_queue (wt_queue w) = [] \<and> \<not> sq_open (wt_queue w) \<and> r = empty_request \<and> w' = w)"
  by (auto simp: writer_poll_def Poll_def split: list.splits)

lemma outstanding_update:
  "i < length (wt_workers w) \<Longrightarrow>
   outstanding (w\<lparr>wt_workers := (wt_workers w)[i := wk]\<rparr>) + mset (map pw_request (wk_outstanding (wt_workers w ! i)))
     = outstanding w + mset (map pw_request (wk_outstanding wk))"
  using sum_list_update_add [of i "wt_workers w" "\<lambda>wk. mset (map pw_request (wk_outstanding wk))" wk]
  by (simp add: outstanding_def)

lemma outstanding_cong: "wt_workers w' = wt_workers w \<Longrightarrow> outstanding w' = outstanding w"
  by (simp add: outstanding_def)

lemma take_stop_inv:
  assumes inv: "writer_inv P A names fs0 rs (w, fs, todo, ds)"
    and i: "i < length (wt_workers w)"
    and q: "sq_queue (wt_queue w) = []" "\<not> sq_open (wt_queue w)"
  shows "writer_inv P A names fs0 rs (w\<lparr>wt_workers := (wt_workers w)[i :=
     (wt_workers w ! i)\<lparr>wk_phase := WAITING_FOR_COMPLETION\<rparr>]\<rparr>, fs, todo, ds)"
proof -
  let ?wk = "(wt_workers w ! i)\<lparr>wk_phase := WAITING_FOR_COMPLETION\<rparr>"
  have "wk_inv (length names) (wt_workers w ! i)" using inv i by (auto simp: writer_inv_def)
  then have "wk_inv (length names) ?wk" by (simp add: wk_inv_def)
  then have each: "\<forall>wk \<in> set ((wt_workers w)[i := ?wk]). wk_inv (length names) wk"
    using inv by (intro ball_set_update) (auto simp: writer_inv_def)
  have "outstanding (w\<lparr>wt_workers := (wt_workers w)[i := ?wk]\<rparr>) = outstanding w"
    using outstanding_update [OF i, of ?wk] by simp
  with inv each q show ?thesis by (auto simp: writer_inv_def)
qed

lemma take_submit_inv:
  assumes inv: "writer_inv P A names fs0 rs (w, fs, todo, ds)" and hon: "honest reserve"
    and rs: "\<forall>r \<in> set rs. valid_request P A (length names) r"
    and i: "i < length (wt_workers w)" and ph: "wk_phase (wt_workers w ! i) = NORMAL"
    and q: "sq_queue (wt_queue w) = r # q"
    and w': "choose_file ssds i r (w\<lparr>wt_queue := (wt_queue w)\<lparr>sq_queue := q\<rparr>\<rparr>) = Some (k, w')"
  shows "writer_inv P A names fs0 rs (submit_request reserve P i k r w', fs, todo, ds)"
proof -
  let ?w1 = "w\<lparr>wt_queue := (wt_queue w)\<lparr>sq_queue := q\<rparr>\<rparr>"
  have m: "mset ds + outstanding w + mset (r # q) + mset todo = mset rs"
    using inv q by (simp add: writer_inv_def)
  then have "r \<in># mset rs" by (metis in_multiset_in_set list.set_intros(1) union_iff)
  then have val: "valid_request P A (length names) r" using rs by simp
  then obtain off where off: "wr_file_offset r = Some off" by (auto simp: valid_request_def)
  have idx: "wr_file_index r = Some k" and k: "k < length names" and w1: "w' = ?w1"
    using val w' inv by (auto simp: valid_request_def choose_file_def writer_inv_def)
  define f where "f = snd (reserve (wr_size r * pod_size P) r (wt_global_files w ! k))"
  have res: "reserve (wr_size r * pod_size P) r (wt_global_files w ! k) = (off, f)"
    and fn: "of_name f = of_name (wt_global_files w ! k)"
    using hon off by (simp_all add: honest_def f_def prod_eq_iff)
  let ?p = "\<lparr>pw_request = r, pw_file = k, pw_offset = off\<rparr>"
  let ?wk = "(wt_workers w ! i)\<lparr>wk_outstanding := wk_outstanding (wt_workers w ! i) @ [?p]\<rparr>"
  have sub: "submit_request reserve P i k r w' = ?w1\<lparr>wt_global_files := (wt_global_files w)[k := f],
      wt_workers := (wt_workers w)[i := ?wk]\<rparr>"
    by (simp add: submit_request_def w1 res Let_def)
  have nm: "map of_name (wt_global_files w) = names" using inv by (simp add: writer_inv_def)
  then have "k < length (wt_global_files w)" using k by auto
  then have names: "map of_name ((wt_global_files w)[k := f]) = names"
    using fn by (metis nm list_update_id map_update nth_map)
  have "wk_inv (length names) (wt_workers w ! i)" using inv i by (auto simp: writer_inv_def)
  then have "wk_inv (length names) ?wk"
    using ph idx off k by (auto simp: wk_inv_def right_place_def)
  then have each: "\<forall>wk \<in> set ((wt_workers w)[i := ?wk]). wk_inv (length names) wk"
    using inv by (intro ball_set_update) (auto simp: writer_inv_def)
  have phases: "\<forall>wk \<in> set ((wt_workers w)[i := ?wk]). wk_phase wk = NORMAL"
    using inv q ph by (intro ball_set_update) (auto simp: writer_inv_def)
  have "outstanding (w\<lparr>wt_workers := (wt_workers w)[i := ?wk]\<rparr>) = add_mset r (outstanding w)"
    using outstanding_update [OF i, of ?wk] by simp
  then have "outstanding (submit_request reserve P i k r w') = add_mset r (outstanding w)"
    by (simp add: sub outstanding_def)
  with inv m names each phases show ?thesis
    by (auto simp: writer_inv_def sub)
qed

lemma writer_take_inv:
  assumes st: "writer_take reserve P ssds ring i w = Some w'" and hon: "honest reserve"
    and rs: "\<forall>r \<in> set rs. valid_request P A (length names) r"
    and inv: "writer_inv P A names fs0 rs (w, fs, todo, ds)"
  shows "writer_inv P A names fs0 rs (w', fs, todo, ds)"
proof -
  from st obtain r w1 where i: "i < length (wt_workers w)" and ph: "wk_phase (wt_workers w ! i) = NORMAL"
    and poll: "writer_poll w = Some (r, w1)"
    by (auto simp: writer_take_def split: if_splits option.splits)
  from poll consider
      (item) q where "sq_queue (wt_queue w) = r # q" "w1 = w\<lparr>wt_queue := (wt_queue w)\<lparr>sq_queue := q\<rparr>\<rparr>"
    | (closed) "sq_queue (wt_queue w) = []" "\<not> sq_open (wt_queue w)" "r = empty_request" "w1 = w"
    unfolding writer_poll_cases by blast
  then show ?thesis
  proof cases
    case item
    have "r \<in># mset rs"
    proof -
      have "mset ds + outstanding w + mset (r # q) + mset todo = mset rs"
        using inv item by (simp add: writer_inv_def)
      then show ?thesis by (metis in_multiset_in_set list.set_intros(1) union_iff)
    qed
    then have "0 < wr_size r" using rs by (simp add: valid_request_def)
    with st i ph poll obtain k w2 where "choose_file ssds i r w1 = Some (k, w2)"
      and "w' = submit_request reserve P i k r w2"
      by (auto simp: writer_take_def split: if_splits)
    with take_submit_inv [OF inv hon rs i ph item(1)] item(2) show ?thesis by simp
  next
    case closed
    have "wr_size r = 0" by (simp add: closed empty_request_def)
    with st i ph poll closed have "w' = w\<lparr>wt_workers := (wt_workers w)[i :=
        (wt_workers w ! i)\<lparr>wk_phase := WAITING_FOR_COMPLETION\<rparr>]\<rparr>"
      by (auto simp: writer_take_def split: if_splits)
    with take_stop_inv [OF inv i closed(1,2)] show ?thesis by simp
  qed
qed

lemma writer_complete_inv:
  assumes st: "writer_complete P i k (w, fs) = Some (r, w', fs')"
    and inv: "writer_inv P A names fs0 rs (w, fs, todo, ds)"
  shows "writer_inv P A names fs0 rs (w', fs', todo, ds @ [r])"
proof -
  let ?wk = "wt_workers w ! i"
  let ?p = "wk_outstanding ?wk ! k"
  let ?f = "wt_global_files w ! pw_file ?p"
  let ?f' = "?f\<lparr>of_bytes_written := of_bytes_written ?f + wr_size (pw_request ?p) * pod_size P\<rparr>"
  let ?wk' = "?wk\<lparr>wk_outstanding := take k (wk_outstanding ?wk) @ drop (Suc k) (wk_outstanding ?wk)\<rparr>"
  from st have i: "i < length (wt_workers w)" and k: "k < length (wk_outstanding ?wk)"
    and r: "r = pw_request ?p"
    and w': "w' = w\<lparr>wt_global_files := (wt_global_files w)[pw_file ?p := ?f'], wt_workers := (wt_workers w)[i := ?wk']\<rparr>"
    and fs': "fs' = fs_write fs (of_name ?f) (pw_offset ?p) (wr_bytes P (pw_request ?p))"
    by (auto simp: writer_complete_def Let_def split: if_splits)
  have wi: "wk_inv (length names) ?wk" using inv i by (auto simp: writer_inv_def)
  have "?p \<in> set (wk_outstanding ?wk)" using k by simp
  then have place: "right_place ?p" and pf: "pw_file ?p < length names"
    using wi by (auto simp: wk_inv_def)
  have nm: "map of_name (wt_global_files w) = names" using inv by (simp add: writer_inv_def)
  then have "pw_file ?p < length (wt_global_files w)" using pf by auto
  then have names: "map of_name ((wt_global_files w)[pw_file ?p := ?f']) = names"
    and fname: "of_name ?f = names ! pw_file ?p"
    using nm by (auto simp: map_update) (metis list_update_id nth_map)
  have "fs' = apply_op (request_op P names r) fs"
    using place by (simp add: fs' r fname apply_op_def request_op_def right_place_def)
  moreover have "wk_inv (length names) ?wk'"
    using wi by (auto simp: wk_inv_def dest: in_set_takeD in_set_dropD)
  then have "\<forall>wk \<in> set ((wt_workers w)[i := ?wk']). wk_inv (length names) wk"
    using inv by (intro ball_set_update) (auto simp: writer_inv_def)
  moreover have "\<forall>wk \<in> set ((wt_workers w)[i := ?wk']). wk_phase wk \<noteq> NORMAL \<longrightarrow>
      sq_queue (wt_queue w) = [] \<and> wt_cleanup_done w"
    using inv i by (intro ball_set_update) (auto simp: writer_inv_def)
  moreover have "outstanding w = add_mset r (outstanding w')"
  proof -
    have "mset (map pw_request (wk_outstanding ?wk)) = add_mset r (mset (map pw_request (wk_outstanding ?wk')))"
      using mset_remove_nth [OF k] by (simp add: r)
    then show ?thesis
      using outstanding_update [OF i, of ?wk'] by (simp add: w' outstanding_def)
  qed
  ultimately show ?thesis
    using inv names by (simp add: writer_inv_def w')
qed

lemma writer_finish_inv:
  assumes st: "writer_finish i w = Some w'" and inv: "writer_inv P A names fs0 rs (w, fs, todo, ds)"
  shows "writer_inv P A names fs0 rs (w', fs, todo, ds)"
proof -
  let ?wk = "(wt_workers w ! i)\<lparr>wk_phase := ALL_DONE\<rparr>"
  from st have i: "i < length (wt_workers w)" and ph: "wk_phase (wt_workers w ! i) = WAITING_FOR_COMPLETION"
    and out: "wk_outstanding (wt_workers w ! i) = []"
    and w': "w' = w\<lparr>wt_workers := (wt_workers w)[i := ?wk]\<rparr>"
    by (auto simp: writer_finish_def split: if_splits)
  have "wk_phase (wt_workers w ! i) \<noteq> NORMAL" using ph by simp
  then have q: "sq_queue (wt_queue w) = []" and cl: "wt_cleanup_done w"
    using inv nth_mem [OF i] by (auto simp: writer_inv_def)
  have "wk_inv (length names) ?wk" using out by (simp add: wk_inv_def)
  then have each: "\<forall>wk \<in> set ((wt_workers w)[i := ?wk]). wk_inv (length names) wk"
    using inv by (intro ball_set_update) (auto simp: writer_inv_def)
  have "outstanding w' = outstanding w"
    using outstanding_update [OF i, of ?wk] by (simp add: w')
  with inv each q cl show ?thesis by (auto simp: writer_inv_def w')
qed

lemma writer_step_inv:
  assumes "writer_step reserve P A ssds ring s t" and "writer_inv P A names fs0 rs s"
    and "honest reserve" and "\<forall>r \<in> set rs. valid_request P A (length names) r"
  shows "writer_inv P A names fs0 rs t"
  using assms(1)
proof cases
  case (wstep_push r w w' fs todo ds)
  then have q: "sq_queue (wt_queue w') = sq_queue (wt_queue w) @ [r]" "sq_open (wt_queue w') = sq_open (wt_queue w)"
      "outstanding w' = outstanding w" "wt_global_files w' = wt_global_files w" "wt_num_files w' = wt_num_files w"
      "wt_workers w' = wt_workers w" "wt_cleanup_done w' = wt_cleanup_done w"
    by (auto simp: writer_push_def Push_Some outstanding_def)
  with wstep_push assms(2) show ?thesis by (auto simp: writer_inv_def)
next
  case (wstep_take i w w' fs todo ds)
  with assms writer_take_inv show ?thesis by metis
next
  case (wstep_complete i k w fs r w' fs' todo ds)
  with assms(2) writer_complete_inv show ?thesis by metis
next
  case (wstep_finish i w w' fs todo ds)
  with assms(2) writer_finish_inv show ?thesis by metis
next
  case (wstep_wait w fs ds)
  with assms(2) show ?thesis
    by (auto simp: writer_inv_def writer_close_def Close_def outstanding_def)
qed

section \<open>Termination and progress\<close>

definition phase_rank :: "Phase \<Rightarrow> nat" where
  "phase_rank ph = (case ph of NORMAL \<Rightarrow> 2 | WAITING_FOR_COMPLETION \<Rightarrow> 1 | ALL_DONE \<Rightarrow> 0)"

definition wk_work :: "'b writer_worker \<Rightarrow> nat" where
  "wk_work wk = 2 * length (wk_outstanding wk) + phase_rank (wk_phase wk)"

definition writer_work :: "'b writer_state \<Rightarrow> nat" where
  "writer_work s = (case s of (w, fs, todo, ds) \<Rightarrow>
     4 * length todo + 3 * length (sq_queue (wt_queue w)) + (\<Sum>wk\<leftarrow>wt_workers w. wk_work wk)
       + (if wt_cleanup_done w then 0 else 1))"

lemma wk_work_update:
  "i < length ws \<Longrightarrow> (\<Sum>wk\<leftarrow>ws[i := wk]. wk_work wk) + wk_work (ws ! i) = (\<Sum>wk\<leftarrow>ws. wk_work wk) + wk_work wk"
  by (rule sum_list_update_add)

lemma choose_file_frame:
  assumes "choose_file ssds i r w = Some (k, w')"
  shows "wt_queue w' = wt_queue w \<and> wt_cleanup_done w' = wt_cleanup_done w \<and>
    length (wt_workers w') = length (wt_workers w) \<and> map wk_work (wt_workers w') = map wk_work (wt_workers w)"
proof (cases "wr_file_index r")
  case None
  have "map wk_work ((wt_workers w)[i := (wt_workers w ! i)\<lparr>wk_current := c\<rparr>]) = map wk_work (wt_workers w)" for c
    by (cases "i < length (wt_workers w)")
      (auto intro!: nth_equalityI simp: wk_work_def nth_list_update)
  with None assms show ?thesis by (auto simp: choose_file_def Let_def)
next
  case (Some j)
  with assms show ?thesis
    by (auto simp: choose_file_def ExpandFiles_def Let_def split: if_splits)
qed

lemma writer_take_work:
  assumes st: "writer_take reserve P ssds ring i w = Some w'"
  shows "writer_work (w', fs, todo, ds) < writer_work (w, fs, todo, ds)"
proof -
  from st obtain r w1 where i: "i < length (wt_workers w)" and ph: "wk_phase (wt_workers w ! i) = NORMAL"
    and poll: "writer_poll w = Some (r, w1)"
    by (auto simp: writer_take_def split: if_splits option.splits)
  have w1: "wt_workers w1 = wt_workers w" "wt_cleanup_done w1 = wt_cleanup_done w"
    and len: "length (sq_queue (wt_queue w1)) + (if wr_size r = 0 then 0 else 1) \<le> length (sq_queue (wt_queue w))"
    using poll by (auto simp: writer_poll_cases empty_request_def)
  show ?thesis
  proof (cases "wr_size r = 0")
    case True
    let ?wk = "(wt_workers w ! i)\<lparr>wk_phase := WAITING_FOR_COMPLETION\<rparr>"
    have w': "w' = w1\<lparr>wt_workers := (wt_workers w)[i := ?wk]\<rparr>"
      using st i ph poll True w1 by (auto simp: writer_take_def split: if_splits)
    have "wk_work ?wk + 1 = wk_work (wt_workers w ! i)"
      by (simp add: wk_work_def phase_rank_def ph)
    with wk_work_update [OF i, of ?wk] len w1 show ?thesis
      by (simp add: writer_work_def w' True)
  next
    case False
    with st i ph poll obtain k w2 where ch: "choose_file ssds i r w1 = Some (k, w2)"
      and w': "w' = submit_request reserve P i k r w2"
      by (auto simp: writer_take_def split: if_splits)
    note fr = choose_file_frame [OF ch]
    have i2: "i < length (wt_workers w2)" using fr i w1 by simp
    have sum2: "(\<Sum>wk\<leftarrow>wt_workers w2. wk_work wk) = (\<Sum>wk\<leftarrow>wt_workers w. wk_work wk)"
      using fr w1 by simp
    obtain off f where res: "reserve (wr_size r * pod_size P) r (wt_global_files w2 ! k) = (off, f)"
      by (cases "reserve (wr_size r * pod_size P) r (wt_global_files w2 ! k)")
    let ?p = "\<lparr>pw_request = r, pw_file = k, pw_offset = off\<rparr>"
    have ws: "wt_workers w' = (wt_workers w2)[i := (wt_workers w2 ! i)\<lparr>wk_outstanding :=
        wk_outstanding (wt_workers w2 ! i) @ [?p]\<rparr>]"
      and q: "wt_queue w' = wt_queue w2" "wt_cleanup_done w' = wt_cleanup_done w2"
      by (simp_all add: w' submit_request_def Let_def res)
    have "(\<Sum>wk\<leftarrow>wt_workers w'. wk_work wk) = (\<Sum>wk\<leftarrow>wt_workers w. wk_work wk) + 2"
      using wk_work_update [OF i2, of "(wt_workers w2 ! i)\<lparr>wk_outstanding :=
        wk_outstanding (wt_workers w2 ! i) @ [?p]\<rparr>"] sum2 by (simp add: ws wk_work_def)
    with q fr w1 len False show ?thesis by (simp add: writer_work_def)
  qed
qed

lemma writer_complete_work:
  assumes st: "writer_complete P i k (w, fs) = Some (r, w', fs')"
  shows "writer_work (w', fs', todo, ds') < writer_work (w, fs, todo, ds)"
proof -
  let ?wk = "wt_workers w ! i"
  let ?wk' = "?wk\<lparr>wk_outstanding := take k (wk_outstanding ?wk) @ drop (Suc k) (wk_outstanding ?wk)\<rparr>"
  from st have i: "i < length (wt_workers w)" and k: "k < length (wk_outstanding ?wk)"
    and w': "wt_workers w' = (wt_workers w)[i := ?wk']" "wt_queue w' = wt_queue w"
      "wt_cleanup_done w' = wt_cleanup_done w"
    by (auto simp: writer_complete_def Let_def split: if_splits)
  have "wk_work ?wk' + 2 = wk_work ?wk" using k by (simp add: wk_work_def min_def)
  with wk_work_update [OF i, of ?wk'] show ?thesis by (simp add: writer_work_def w')
qed

lemma writer_finish_work:
  assumes st: "writer_finish i w = Some w'"
  shows "writer_work (w', fs, todo, ds) < writer_work (w, fs, todo, ds)"
proof -
  let ?wk = "(wt_workers w ! i)\<lparr>wk_phase := ALL_DONE\<rparr>"
  from st have i: "i < length (wt_workers w)" and ph: "wk_phase (wt_workers w ! i) = WAITING_FOR_COMPLETION"
    and w': "w' = w\<lparr>wt_workers := (wt_workers w)[i := ?wk]\<rparr>"
    by (auto simp: writer_finish_def split: if_splits)
  have "wk_work ?wk + 1 = wk_work (wt_workers w ! i)"
    by (simp add: wk_work_def phase_rank_def ph)
  with wk_work_update [OF i, of ?wk] show ?thesis by (simp add: writer_work_def w')
qed

lemma writer_step_work:
  assumes "writer_step reserve P A ssds ring s t"
  shows "writer_work t < writer_work s"
  using assms
proof cases
  case (wstep_push r w w' fs todo ds)
  then show ?thesis by (auto simp: writer_work_def writer_push_def Push_Some)
next
  case (wstep_take i w w' fs todo ds)
  with writer_take_work show ?thesis by metis
next
  case (wstep_complete i k w fs r w' fs' todo ds)
  with writer_complete_work show ?thesis by metis
next
  case (wstep_finish i w w' fs todo ds)
  with writer_finish_work show ?thesis by metis
next
  case (wstep_wait w fs ds)
  then show ?thesis by (simp add: writer_work_def writer_close_def Close_def)
qed

definition writer_halted :: "'b writer_state \<Rightarrow> bool" where
  "writer_halted s \<longleftrightarrow> (case s of (w, fs, todo, ds) \<Rightarrow> todo = [] \<and> writer_joined w)"

text \<open>What progress needs: a request in the queue names a file that exists or none.\<close>

definition writer_ready :: "'b pod \<Rightarrow> nat \<Rightarrow> 'b writer \<Rightarrow> 'b write_request list \<Rightarrow> bool" where
  "writer_ready P A w todo \<longleftrightarrow> wt_workers w \<noteq> [] \<and>
     (\<forall>wk \<in> set (wt_workers w). wk_phase wk \<noteq> NORMAL \<longrightarrow>
        sq_queue (wt_queue w) = [] \<and> wt_cleanup_done w) \<and>
     sq_open (wt_queue w) = (\<not> wt_cleanup_done w) \<and>
     (\<forall>r \<in> set (sq_queue (wt_queue w)). 0 < wr_size r \<and> (\<forall>k. wr_file_index r = Some k \<longrightarrow> k < wt_num_files w)) \<and>
     (\<forall>r \<in> set todo. push_check P A r)"

lemma choose_file_ready:
  assumes "\<forall>k. wr_file_index r = Some k \<longrightarrow> k < wt_num_files w"
  shows "\<exists>k w'. choose_file ssds i r w = Some (k, w')"
  using assms by (auto simp: choose_file_def Let_def split: option.splits)

lemma writer_ready_progress:
  assumes rdy: "writer_ready P A w todo" and ring: "0 < ring" and nd: "\<not> writer_halted (w, fs, todo, ds)"
  shows "\<exists>t. writer_step reserve P A ssds ring (w, fs, todo, ds) t"
proof -
  consider (out) i where "i < length (wt_workers w)" "wk_outstanding (wt_workers w ! i) \<noteq> []"
    | (clear) "\<forall>wk \<in> set (wt_workers w). wk_outstanding wk = []"
    by (metis in_set_conv_nth)
  then show ?thesis
  proof cases
    case out
    then have "\<exists>x. writer_complete P i 0 (w, fs) = Some x"
      by (simp add: writer_complete_def Let_def)
    then show ?thesis by (metis prod_cases3 wstep_complete)
  next
    case clear
    show ?thesis
    proof (cases "sq_queue (wt_queue w)")
      case (Cons r q)
      have i: "0 < length (wt_workers w)" using rdy by (simp add: writer_ready_def)
      then have mem: "wt_workers w ! 0 \<in> set (wt_workers w)" by (rule nth_mem)
      then have ph: "wk_phase (wt_workers w ! 0) = NORMAL" and out: "wk_outstanding (wt_workers w ! 0) = []"
        using rdy Cons clear by (auto simp: writer_ready_def)
      let ?w1 = "w\<lparr>wt_queue := (wt_queue w)\<lparr>sq_queue := q\<rparr>\<rparr>"
      have poll: "writer_poll w = Some (r, ?w1)" using Cons by (simp add: writer_poll_cases)
      have pos: "0 < wr_size r" and "\<forall>k. wr_file_index r = Some k \<longrightarrow> k < wt_num_files ?w1"
        using rdy Cons by (auto simp: writer_ready_def)
      from this(2) obtain k w2 where "choose_file ssds 0 r ?w1 = Some (k, w2)"
        using choose_file_ready by blast
      then have "\<exists>w'. writer_take reserve P ssds ring 0 w = Some w'"
        using i ph out poll ring pos by (simp add: writer_take_def)
      then show ?thesis by (blast intro: wstep_take)
    next
      case Nil
      show ?thesis
      proof (cases todo)
        case (Cons r todo')
        have "push_check P A r" using rdy Cons by (simp add: writer_ready_def)
        moreover have "\<exists>w'. writer_push r w = Some w'"
          using Push_empty [OF Nil] by (auto simp: writer_push_def)
        ultimately show ?thesis unfolding Cons by (blast intro: wstep_push)
      next
        case todo: Nil
        show ?thesis
        proof (cases "wt_cleanup_done w")
          case False
          then show ?thesis unfolding todo by (blast intro: wstep_wait)
        next
          case True
          then obtain wk where "wk \<in> set (wt_workers w)" and "wk_phase wk \<noteq> ALL_DONE"
            using nd todo by (auto simp: writer_halted_def writer_joined_def)
          then obtain i where i: "i < length (wt_workers w)" and ph: "wk_phase (wt_workers w ! i) \<noteq> ALL_DONE"
            by (auto simp: in_set_conv_nth)
          have out: "wk_outstanding (wt_workers w ! i) = []" using clear i by simp
          show ?thesis
          proof (cases "wk_phase (wt_workers w ! i) = NORMAL")
            case True2: True
            have "writer_poll w = Some (empty_request, w)"
              using Nil True rdy by (simp add: writer_poll_cases writer_ready_def)
            then have "\<exists>w'. writer_take reserve P ssds ring i w = Some w'"
              using i True2 out ring by (simp add: writer_take_def empty_request_def)
            then show ?thesis by (blast intro: wstep_take)
          next
            case False
            then have "wk_phase (wt_workers w ! i) = WAITING_FOR_COMPLETION"
              using ph by (cases "wk_phase (wt_workers w ! i)") auto
            then have "\<exists>w'. writer_finish i w = Some w'" using i out by (simp add: writer_finish_def)
            then show ?thesis by (blast intro: wstep_finish)
          qed
        qed
      qed
    qed
  qed
qed

lemma writer_progress:
  assumes inv: "writer_inv P A names fs0 rs s" and rs: "\<forall>r \<in> set rs. valid_request P A (length names) r"
    and ck: "\<forall>r \<in> set rs. push_check P A r"
    and ring: "0 < ring" and nd: "\<not> writer_halted s"
  shows "\<exists>t. writer_step reserve P A ssds ring s t"
proof -
  obtain w fs todo ds where s: "s = (w, fs, todo, ds)" by (metis prod_cases4)
  have "mset ds + outstanding w + mset (sq_queue (wt_queue w)) + mset todo = mset rs"
    using inv by (simp add: s writer_inv_def)
  then have "set rs = set_mset (mset ds + outstanding w + mset (sq_queue (wt_queue w)) + mset todo)"
    by simp
  then have "r \<in> set rs" if "r \<in> set (sq_queue (wt_queue w)) \<or> r \<in> set todo" for r
    using that by auto
  then have "writer_ready P A w todo"
    using inv rs ck by (fastforce simp: s writer_inv_def writer_ready_def valid_request_def)
  then show ?thesis unfolding s by (rule writer_ready_progress [OF _ ring nd [unfolded s]])
qed

section \<open>The writer as an interface\<close>

definition writer_good :: "'b reservation \<Rightarrow> 'b pod \<Rightarrow> nat \<Rightarrow> nat \<Rightarrow> string list \<Rightarrow> fstore \<Rightarrow>
    'b write_request list \<Rightarrow> 'b writer_state \<Rightarrow> bool" where
  "writer_good reserve P A ring names fs0 rs s \<longleftrightarrow>
     writer_inv P A names fs0 rs s \<and> honest reserve \<and> 0 < ring \<and>
     (\<forall>r \<in> set rs. valid_request P A (length names) r \<and> push_check P A r)"

interpretation writer_machine: finite_machine "writer_step reserve P A ssds ring"
    "writer_good reserve P A ring names fs0 rs" writer_work writer_halted
    for reserve P A ssds ring names fs0 rs
proof unfold_locales
  fix s t :: "'a writer_state"
  assume g: "writer_good reserve P A ring names fs0 rs s"
  show "\<not> writer_halted s \<Longrightarrow> \<exists>t. writer_step reserve P A ssds ring s t"
    using g by (intro writer_progress) (auto simp: writer_good_def)
  assume st: "writer_step reserve P A ssds ring s t"
  show "writer_good reserve P A ring names fs0 rs t"
    using g writer_step_inv [OF st] by (auto simp: writer_good_def)
  show "writer_work t < writer_work s" using st by (rule writer_step_work)
qed

lemma writer_start_inv:
  assumes "writer_start cfg names new_writer = Some w"
  shows "writer_inv P A names fs rs (w, fs, rs, [])"
proof -
  let ?t = "wc_num_threads cfg"
  let ?shares = "map (\<lambda>t. stride t ?t [0..<length names]) [0..<?t]"
  from assms have ne: "names \<noteq> []" and t: "0 < ?t"
    and w: "w = (new_writer :: 'a writer)\<lparr>wt_queue := SetSizeLimit (SimpleQueue 0) (wc_queue_size cfg),
      wt_num_files := length names, wt_allow_expand := wc_allow_expand cfg,
      wt_global_files := map open_file names,
      wt_workers := map start_writer_worker (filter (\<lambda>s. s \<noteq> []) ?shares)\<rparr>"
    by (auto simp: writer_start_def new_writer_def Let_def split: if_splits)
  have "stride 0 ?t [0..<length names] \<noteq> []"
    using t ne by (subst stride.simps) simp
  then have some: "filter (\<lambda>s. s \<noteq> []) ?shares \<noteq> []"
    using t by (auto simp: filter_empty_conv intro!: bexI [of _ 0])
  have out: "outstanding w = {#}"
    by (simp add: w outstanding_def start_writer_worker_def comp_def sum_list_triv)
  have "\<forall>wk \<in> set (wt_workers w). wk_inv (length names) wk \<and> wk_phase wk = NORMAL"
    by (auto simp: w start_writer_worker_def wk_inv_def)
  with some out show ?thesis
    by (simp add: writer_inv_def w new_writer_def SimpleQueue_def SetSizeLimit_def open_file_def comp_def)
qed

lemma writer_start_Some:
  "names \<noteq> [] \<Longrightarrow> 0 < wc_num_threads cfg \<Longrightarrow> \<exists>w. writer_start cfg names new_writer = Some w"
  by (simp add: writer_start_def Let_def)

lemma writer_joined_drained:
  assumes inv: "writer_inv P A names fs0 rs (w, fs, [], ds)" and j: "writer_joined w"
  shows "mset ds = mset rs \<and> fs = fold apply_op (map (request_op P names) ds) fs0"
proof -
  have "wk_outstanding wk = []" if "wk \<in> set (wt_workers w)" for wk
    using that inv j by (auto simp: writer_inv_def writer_joined_def wk_inv_def)
  then have "outstanding w = {#}" by (simp add: outstanding_def cong: map_cong)
  moreover have "sq_queue (wt_queue w) = []"
  proof -
    obtain wk where "wk \<in> set (wt_workers w)"
      using inv by (auto simp: writer_inv_def intro: list.set_sel(1))
    then show ?thesis using inv j by (auto simp: writer_inv_def writer_joined_def)
  qed
  ultimately show ?thesis using inv by (simp add: writer_inv_def)
qed

text \<open>A run that was given valid requests only has performed each of them, in some order.\<close>

lemma writer_runs_order:
  assumes run: "writer_runs reserve A ssds cfg P names fs rs fs'" and hon: "honest reserve"
    and val: "\<forall>r \<in> set rs. valid_request P A (length names) r"
  shows "\<exists>order. mset order = mset rs \<and> fs' = fold apply_op (map (request_op P names) order) fs"
proof -
  from run obtain w w' ds where st: "writer_start cfg names new_writer = Some w"
    and steps: "rtranclp (writer_step reserve P A ssds (wc_io_uring_size cfg)) (w, fs, rs, []) (w', fs', [], ds)"
    and j: "writer_joined w'"
    by (auto simp: writer_runs_def)
  have "writer_inv P A names fs rs t"
    if "rtranclp (writer_step reserve P A ssds (wc_io_uring_size cfg)) (w, fs, rs, []) t" for t
    using that
  proof (induction rule: rtranclp_induct)
    case base
    show ?case using writer_start_inv [OF st] .
  next
    case (step y z)
    then show ?case using writer_step_inv hon val by metis
  qed
  from writer_joined_drained [OF this [OF steps] j] show ?thesis by blast
qed

interpretation chunk_writer: block_sink "chunk_writer_runs A ssds cfg" for A ssds cfg
proof unfold_locales
  fix P :: "'b pod" and names fs rs fs'
  assume "chunk_writer_runs A ssds cfg P names fs rs fs'"
    and "\<forall>r \<in> set rs. 0 < wr_size r \<and> wr_file_offset r \<noteq> None \<and>
      (\<exists>i. wr_file_index r = Some i \<and> i < length names)"
  then show "\<exists>order. mset order = mset rs \<and> fs' = fold apply_op (map (request_op P names) order) fs"
    by (intro writer_runs_order) (auto simp: valid_request_def)
qed

text \<open>Such a run exists: pushing, then waiting, always comes to an end.\<close>

lemma writer_runs_exists:
  assumes hon: "honest reserve" and cfg: "0 < wc_io_uring_size cfg" "0 < wc_num_threads cfg"
    and names: "names \<noteq> []"
    and val: "\<forall>r \<in> set rs. valid_request P A (length names) r \<and> push_check P A r"
  shows "\<exists>fs'. writer_runs reserve A ssds cfg P names fs rs fs'"
proof -
  obtain w where st: "writer_start cfg names new_writer = Some (w :: 'a writer)"
    using writer_start_Some [OF names cfg(2)] by blast
  have "writer_good reserve P A (wc_io_uring_size cfg) names fs rs (w, fs, rs, [])"
    using writer_start_inv [OF st] hon cfg val by (simp add: writer_good_def)
  then obtain t where "rtranclp (writer_step reserve P A ssds (wc_io_uring_size cfg)) (w, fs, rs, []) t"
    and "writer_halted t"
    using writer_machine.reach_halted by blast
  then show ?thesis
    using st by (cases t) (auto simp: writer_runs_def writer_halted_def)
qed

text \<open>What every primitive needs of its environment: an element type that fills a block exactly,
direct-I/O units that divide it, and one distinct output file per SSD.\<close>

definition env_ok :: "'a pod \<Rightarrow> nat \<Rightarrow> nat \<Rightarrow> nat \<Rightarrow> string list \<Rightarrow> bool" where
  "env_ok P A B N names \<longleftrightarrow>
     pod_size P dvd B \<and> 0 < B \<and> 0 < A \<and> A dvd B \<and> 0 < N \<and> N < 2 ^ 64 \<and>
     length names = N \<and> distinct names"

lemma env_ok_cap:
  assumes "env_ok P A B N names" and "pod_repr P"
  shows "B = B div pod_size P * pod_size P \<and> 0 < B div pod_size P"
  using assms(1) unfolding env_ok_def by (metis dvd_div_mult_self mult_0 neq0_conv)

lemma entry_requests_valid:
  assumes pl: "placed B (B div pod_size P) N offs L" and env: "env_ok P A B N names" and P: "pod_repr P"
  shows "\<forall>r \<in> set (map (entry_request (B div pod_size P)) L). valid_request P A N r \<and> push_check P A r"
proof -
  note cap = env_ok_cap [OF env P]
  have "B mod A = 0" using env by (simp add: env_ok_def)
  then have "B div pod_size P * pod_size P mod A = 0" using cap by simp
  then show ?thesis
    using cap pl by (auto simp: valid_request_def push_check_def entry_request_def explicit_request_def placed_def)
qed

lemma demo_env: "env_ok u8_pod 2 4 2 [''o0'', ''o1'']"
  by (simp add: env_ok_def u8_pod_def)

section \<open>Properties\<close>

definition demo_request :: "byte list \<Rightarrow> nat \<Rightarrow> nat \<Rightarrow> byte write_request" where
  "demo_request bs k off = explicit_request bs (length bs) k off"

lemma demo_requests_valid:
  "\<forall>r \<in> set [demo_request [1, 2] 0 0, demo_request [3, 4] 1 2].
     valid_request u8_pod 2 (length [''o0'', ''o1'']) r \<and> push_check u8_pod 2 r"
  by (simp add: demo_request_def explicit_request_def valid_request_def push_check_def u8_pod_def)

text \<open>C3: After \<open>Wait\<close> has returned, the writer has performed every request with an explicit place
exactly once, in some order and nothing else, whatever the number of threads, the depth of the
ring and the order of the device's completions.\<close>

theorem writer_performs_requests:
  assumes "chunk_writer_runs A ssds cfg P names fs rs fs'"
    and "\<forall>r \<in> set rs. valid_request P A (length names) r"
  shows "\<exists>order. mset order = mset rs \<and> fs' = fold apply_op (map (request_op P names) order) fs"
  using assms(1) honest_chunk assms(2) by (rule writer_runs_order)

lemma writer_performs_requests_witness:
  "\<exists>fs' order. chunk_writer_runs 2 [] default_writer_config u8_pod [''o0'', ''o1''] Map.empty
       [demo_request [1, 2] 0 0, demo_request [3, 4] 1 2] fs' \<and>
     mset order = {#demo_request [1, 2] 0 0, demo_request [3, 4] 1 2#} \<and>
     fs' = fold apply_op (map (request_op u8_pod [''o0'', ''o1'']) order) Map.empty"
proof -
  let ?rs = "[demo_request [1, 2] 0 0, demo_request [3, 4] 1 2]"
  have c: "0 < wc_io_uring_size default_writer_config" "0 < wc_num_threads default_writer_config"
    "[''o0'', ''o1''] \<noteq> []" by (simp_all add: default_writer_config_def)
  obtain fs' where run: "chunk_writer_runs 2 [] default_writer_config u8_pod [''o0'', ''o1''] Map.empty ?rs fs'"
    using writer_runs_exists [OF honest_chunk c demo_requests_valid] by blast
  have val: "\<forall>r \<in> set ?rs. valid_request u8_pod 2 (length [''o0'', ''o1'']) r"
    using demo_requests_valid by blast
  from writer_performs_requests [OF run val] run show ?thesis by auto
qed

text \<open>C28: The writer always comes to its end: from its start every run is finite, and it is never
stuck before all requests have been pushed and performed and every worker has ended.\<close>

theorem writer_terminates:
  assumes "writer_start cfg names new_writer = Some w" and "0 < wc_io_uring_size cfg"
    and "\<forall>r \<in> set rs. valid_request P A (length names) r \<and> push_check P A r"
    and "(writer_step reserve_chunk P A ssds (wc_io_uring_size cfg) ^^ n) (w, fs, rs, []) s"
  shows "n \<le> writer_work (w, fs, rs, []) \<and>
    (writer_halted s \<or> (\<exists>t. writer_step reserve_chunk P A ssds (wc_io_uring_size cfg) s t))"
proof -
  let ?step = "writer_step reserve_chunk P A ssds (wc_io_uring_size cfg)"
  have good: "writer_good reserve_chunk P A (wc_io_uring_size cfg) names fs rs (w, fs, rs, [])"
    using writer_start_inv [OF assms(1)] assms(2,3) by (simp add: writer_good_def)
  have "rtranclp ?step (w, fs, rs, []) s" using assms(4) by (rule relpowp_imp_rtranclp)
  then have gs: "writer_good reserve_chunk P A (wc_io_uring_size cfg) names fs rs s"
    using good by (rule writer_machine.reach_good)
  have "n \<le> writer_work (w, fs, rs, [])"
    using writer_machine.reach_mu [OF assms(4) good] by (rule add_leD1)
  moreover have "writer_halted s \<or> (\<exists>t. ?step s t)"
    using writer_machine.step_exists [OF gs] by blast
  ultimately show ?thesis ..
qed

lemma writer_terminates_witness:
  "\<exists>w t. writer_start default_writer_config [''o0'', ''o1''] new_writer = Some w \<and>
     writer_step reserve_chunk u8_pod 2 [] 64
       (w, Map.empty, [demo_request [1, 2] 0 0, demo_request [3, 4] 1 2], []) t"
proof -
  let ?rs = "[demo_request [1, 2] 0 0, demo_request [3, 4] 1 2]"
  obtain w :: "byte writer" where w: "writer_start default_writer_config [''o0'', ''o1''] new_writer = Some w"
    using writer_start_Some [of "[''o0'', ''o1'']" default_writer_config] by (auto simp: default_writer_config_def)
  have s: "wc_io_uring_size default_writer_config = 64" by (simp add: default_writer_config_def)
  have "\<not> writer_halted (w, Map.empty, ?rs, [])" by (simp add: writer_halted_def)
  with writer_terminates [OF w _ demo_requests_valid, of 0 "[]" Map.empty "(w, Map.empty, ?rs, [])"] w
  show ?thesis by (auto simp: s)
qed

lemma no_more_takes:
  assumes "rtranclp (writer_step reserve P A ssds ring) (w1, fs, todo, ds) s"
    and "\<forall>wk \<in> set (wt_workers w1). wk_phase wk \<noteq> NORMAL"
  shows "(\<forall>wk \<in> set (wt_workers (fst s)). wk_phase wk \<noteq> NORMAL) \<and>
    mset (snd (snd (snd s))) + outstanding (fst s) = mset ds + outstanding w1"
  using assms(1)
proof (induction rule: rtranclp_induct)
  case base
  show ?case using assms(2) by simp
next
  case (step y z)
  from step(2) show ?case
  proof cases
    case (wstep_push r w w' fs todo ds)
    with step.IH show ?thesis by (auto simp: writer_push_def outstanding_def)
  next
    case (wstep_take i w w' fs todo ds)
    then have False using step.IH by (auto simp: writer_take_def split: if_splits)
    then show ?thesis ..
  next
    case (wstep_complete i k w fs r w' fs' todo ds)
    let ?wk = "wt_workers w ! i"
    let ?wk' = "?wk\<lparr>wk_outstanding := take k (wk_outstanding ?wk) @ drop (Suc k) (wk_outstanding ?wk)\<rparr>"
    have i: "i < length (wt_workers w)" and k: "k < length (wk_outstanding ?wk)"
      and r: "r = pw_request (wk_outstanding ?wk ! k)"
      and w': "wt_workers w' = (wt_workers w)[i := ?wk']"
      using wstep_complete(3) by (auto simp: writer_complete_def Let_def split: if_splits)
    have "mset (map pw_request (wk_outstanding ?wk)) = add_mset r (mset (map pw_request (wk_outstanding ?wk')))"
      using mset_remove_nth [OF k] by (simp add: r)
    then have "outstanding w = add_mset r (outstanding w')"
      using outstanding_update [OF i, of ?wk'] by (simp add: w' outstanding_def)
    moreover have "\<forall>wk \<in> set (wt_workers w'). wk_phase wk \<noteq> NORMAL"
      unfolding w' using step.IH i by (intro ball_set_update) (auto simp: wstep_complete)
    ultimately show ?thesis using step.IH by (simp add: wstep_complete)
  next
    case (wstep_finish i w w' fs todo ds)
    let ?wk = "(wt_workers w ! i)\<lparr>wk_phase := ALL_DONE\<rparr>"
    have i: "i < length (wt_workers w)" and w': "w' = w\<lparr>wt_workers := (wt_workers w)[i := ?wk]\<rparr>"
      using wstep_finish(3) by (auto simp: writer_finish_def split: if_splits)
    have "outstanding w' = outstanding w" using outstanding_update [OF i, of ?wk] by (simp add: w')
    moreover have "\<forall>wk \<in> set (wt_workers w'). wk_phase wk \<noteq> NORMAL"
      using step.IH i by (simp add: w' wstep_finish) (intro ball_set_update, auto)
    ultimately show ?thesis using step.IH by (simp add: wstep_finish)
  next
    case (wstep_wait w fs ds)
    with step.IH show ?thesis by (simp add: writer_close_def outstanding_def)
  qed
qed

text \<open>C36: A pushed request of size 0 passes the \<open>CHECK\<close>s of \<open>Push\<close> but is taken for the end of the
queue: when the writer has exactly one worker thread, once the request has been taken, no request
behind it in the queue and none pushed later is ever submitted or performed.\<close>

theorem zero_size_request_ends_writer:
  assumes q: "sq_queue (wt_queue w) = r # q" "wr_size r = 0"
    and one: "wt_workers w = [wk]" "wk_phase wk = NORMAL" "length (wk_outstanding wk) < ring * 2"
    and run: "writer_take reserve P ssds ring 0 w = Some w1"
      "rtranclp (writer_step reserve P A ssds ring) (w1, fs, todo, ds) (w2, fs2, todo2, ds2)"
  shows "push_check P A r \<and> mset ds2 + outstanding w2 = mset ds + mset (map pw_request (wk_outstanding wk))"
proof -
  have "writer_poll w = Some (r, w\<lparr>wt_queue := (wt_queue w)\<lparr>sq_queue := q\<rparr>\<rparr>)"
    using q by (simp add: writer_poll_cases)
  then have w1: "wt_workers w1 = [wk\<lparr>wk_phase := WAITING_FOR_COMPLETION\<rparr>]"
    using run(1) one q(2) by (auto simp: writer_take_def)
  then have "outstanding w1 = mset (map pw_request (wk_outstanding wk))"
    by (simp add: outstanding_def)
  with no_more_takes [OF run(2)] w1 q(2) show ?thesis by (simp add: push_check_def)
qed

lemma zero_size_request_ends_writer_witness:
  "\<exists>w w1. wt_queue w = \<lparr>sq_queue = [demo_request [] 0 0, demo_request [1, 2] 0 0], sq_size_limit = 0, sq_open = True\<rparr> \<and>
     writer_take reserve_chunk u8_pod [] 1 0 w = Some w1 \<and>
     (\<forall>w2 fs2 todo2 ds2. rtranclp (writer_step reserve_chunk u8_pod 2 [] 1) (w1, Map.empty, [], []) (w2, fs2, todo2, ds2)
        \<longrightarrow> mset ds2 + outstanding w2 = {#})"
proof -
  let ?wk = "start_writer_worker [0] :: byte writer_worker"
  let ?w = "(new_writer :: byte writer)\<lparr>wt_workers := [?wk], wt_num_files := 1, wt_global_files := [open_file ''o''],
    wt_queue := \<lparr>sq_queue = [demo_request [] 0 0, demo_request [1, 2] 0 0], sq_size_limit = 0, sq_open = True\<rparr>\<rparr>"
  have z: "wr_size (demo_request [] 0 0) = 0" by (simp add: demo_request_def explicit_request_def)
  obtain w1 where t: "writer_take reserve_chunk u8_pod [] 1 0 ?w = Some w1"
    by (simp add: writer_take_def start_writer_worker_def writer_poll_def Poll_def z)
  have "mset ds2 + outstanding w2 = {#}"
    if "rtranclp (writer_step reserve_chunk u8_pod 2 [] 1) (w1, Map.empty, [], []) (w2, fs2, todo2, ds2)"
    for w2 fs2 todo2 ds2
    using zero_size_request_ends_writer [OF _ z _ _ _ t that, of "[demo_request [1, 2] 0 0]" ?wk]
    by (simp add: start_writer_worker_def)
  with t show ?thesis by (intro exI [of _ ?w] exI [of _ w1]) auto
qed

end
