(* ===== verification/TwoPhase.thy ===== *)
theory TwoPhase
  imports ChunkWriter
begin

text \<open>
  The batch discipline that Plaidlay/externalFilter.h, ExternalIota.h and ExternalBoolean.h share.
  A batch runs \<open>N\<close> parallel tasks; a task with work fills a buffer of its own and stores a header in
  the next free slot (\<open>counter.fetch_add\<close>); then a sequential loop reserves a place in a randomly
  chosen file for every such task, completes its header and pushes the full buffer.
  \<open>work i\<close> is what task \<open>i\<close> computes: its buffer, the number of valid elements and the ordering
  key, or \<open>None\<close> for a task whose flag \<open>bad_flags[i]\<close> is set.
\<close>

type_synonym 'b work = "nat \<Rightarrow> ('b list \<times> nat \<times> nat) option"

text \<open>Writing past the end of the header array is an error, not a silent no-op.\<close>

definition put_header :: "chunk_header list \<Rightarrow> nat \<Rightarrow> chunk_header \<Rightarrow> chunk_header list option" where
  "put_header arr i h = (if i < length arr then Some (arr[i := h]) else None)"

record 'b batch_state =
  ba_headers :: "chunk_header list"
  ba_buffers :: "'b list list"
  ba_slot_for :: "nat list"

text \<open>The parallel part: task \<open>i\<close> has drawn \<open>slot\<close>.\<close>

definition slot_task :: "'b work \<Rightarrow> nat list \<Rightarrow> string list \<Rightarrow> nat \<Rightarrow> nat \<Rightarrow> nat \<Rightarrow> nat \<Rightarrow>
    'b batch_state \<Rightarrow> 'b batch_state option" where
  "slot_task work random names sz start i slot st =
     (case work i of
        None \<Rightarrow> None
      | Some (buf, k, index) \<Rightarrow>
          let chunked = \<lparr>h_filename = names ! (random ! i), h_begin_address = 0,
                         h_used = k * sz, h_index = index\<rparr>
          in map_option (\<lambda>arr. st\<lparr>ba_headers := arr, ba_buffers := (ba_buffers st)[i := buf],
                                ba_slot_for := (ba_slot_for st)[i := slot]\<rparr>)
               (put_header (ba_headers st) (start + slot) chunked))"

fun slot_tasks :: "'b work \<Rightarrow> nat list \<Rightarrow> string list \<Rightarrow> nat \<Rightarrow> nat \<Rightarrow> nat list \<Rightarrow> nat \<Rightarrow>
    'b batch_state \<Rightarrow> 'b batch_state option" where
  "slot_tasks work random names sz start [] slot st = Some st"
| "slot_tasks work random names sz start (i # is) slot st =
     (case slot_task work random names sz start i slot st of
        None \<Rightarrow> None
      | Some st' \<Rightarrow> slot_tasks work random names sz start is (slot + 1) st')"

text \<open>The sequential part: reserve the place, complete the header, push the full buffer.\<close>

record 'b push_state =
  ps_headers :: "chunk_header list"
  ps_offsets :: "nat \<Rightarrow> nat"
  ps_requests :: "'b write_request list"

definition push_task :: "'b work \<Rightarrow> nat list \<Rightarrow> nat \<Rightarrow> nat \<Rightarrow> nat \<Rightarrow> 'b batch_state \<Rightarrow> nat \<Rightarrow>
    'b push_state \<Rightarrow> 'b push_state option" where
  "push_task work random B cap start st r ps =
     (case work r of
        None \<Rightarrow> Some ps
      | Some _ \<Rightarrow>
          let ssd = random ! r;
              base_offset = ps_offsets ps ssd;
              i = start + ba_slot_for st ! r
          in map_option (\<lambda>arr. \<lparr>ps_headers = arr, ps_offsets = (ps_offsets ps)(ssd := base_offset + B),
                 ps_requests = ps_requests ps @ [explicit_request (ba_buffers st ! r) cap ssd base_offset]\<rparr>)
               (put_header (ps_headers ps) i ((ps_headers ps ! i)\<lparr>h_begin_address := base_offset\<rparr>)))"

fun push_tasks :: "'b work \<Rightarrow> nat list \<Rightarrow> nat \<Rightarrow> nat \<Rightarrow> nat \<Rightarrow> 'b batch_state \<Rightarrow> nat list \<Rightarrow>
    'b push_state \<Rightarrow> 'b push_state option" where
  "push_tasks work random B cap start st [] ps = Some ps"
| "push_tasks work random B cap start st (r # rs) ps =
     (case push_task work random B cap start st r ps of
        None \<Rightarrow> None
      | Some ps' \<Rightarrow> push_tasks work random B cap start st rs ps')"

text \<open>One batch; \<open>order\<close> lists the tasks with work in the order in which they draw their slots.\<close>

definition two_phase_batch :: "'b work \<Rightarrow> nat list \<Rightarrow> nat list \<Rightarrow> 'b pod \<Rightarrow> nat \<Rightarrow> nat \<Rightarrow> string list \<Rightarrow> nat \<Rightarrow>
    'b push_state \<Rightarrow> 'b push_state option" where
  "two_phase_batch work random order P B N names start ps =
     (case slot_tasks work random names (pod_size P) start order 0
             \<lparr>ba_headers = ps_headers ps, ba_buffers = replicate N [], ba_slot_for = replicate N 0\<rparr> of
        None \<Rightarrow> None
      | Some st \<Rightarrow> push_tasks work random B (B div pod_size P) start st [0..<N]
                    (ps\<lparr>ps_headers := ba_headers st\<rparr>))"

text \<open>
  The loop over the batches. \<open>work w i\<close> is what task \<open>i\<close> of batch \<open>w\<close> computes; a schedule gives
  the random file choices of a batch and the order in which its tasks draw their slots.
\<close>

fun two_phase_batches :: "(nat \<Rightarrow> 'b work) \<Rightarrow> 'b pod \<Rightarrow> nat \<Rightarrow> nat \<Rightarrow> string list \<Rightarrow> nat \<Rightarrow> (nat list \<times> nat list) list \<Rightarrow>
    'b push_state \<Rightarrow> 'b push_state option" where
  "two_phase_batches work P B N names w [] ps = Some ps"
| "two_phase_batches work P B N names w ((random, order) # schs) ps =
     (case two_phase_batch (work w) random order P B N names (w * N) ps of
        None \<Rightarrow> None
      | Some ps' \<Rightarrow> two_phase_batches work P B N names (w + 1) schs ps')"

definition initial_push_state :: "chunk_header list \<Rightarrow> 'b push_state" where
  "initial_push_state hs = \<lparr>ps_headers = hs, ps_offsets = (\<lambda>_. 0), ps_requests = []\<rparr>"

section \<open>What a batch does\<close>

definition task_ok :: "'b work \<Rightarrow> nat list \<Rightarrow> nat \<Rightarrow> nat \<Rightarrow> nat \<Rightarrow> bool" where
  "task_ok work random N cap i \<longleftrightarrow> i < N \<and> random ! i < N \<and>
     (\<exists>buf k index. work i = Some (buf, k, index) \<and> length buf = cap \<and> k \<le> cap)"

definition work_core :: "'b work \<Rightarrow> nat \<Rightarrow> nat \<times> 'b list" where
  "work_core work i = (case the (work i) of (buf, k, index) \<Rightarrow> (index, take k buf))"

text \<open>The block that task \<open>i\<close> writes, at the place \<open>base\<close>.\<close>

definition task_entry :: "'b work \<Rightarrow> nat list \<Rightarrow> nat \<Rightarrow> nat \<Rightarrow> 'b entry" where
  "task_entry work random i base =
     \<lparr>e_index = fst (work_core work i), e_ssd = random ! i, e_base = base,
      e_data = snd (work_core work i), e_buf = fst (the (work i))\<rparr>"

lemma task_entry_core [simp]: "entry_core (task_entry work random i base) = work_core work i"
  by (simp add: entry_core_def task_entry_def)

lemma slot_task_eq:
  assumes "task_ok work random N cap i" and "start + slot < length (ba_headers st)"
  shows "slot_task work random names sz start i slot st = Some
    (st\<lparr>ba_headers := (ba_headers st)[start + slot := entry_header names sz (task_entry work random i 0)],
        ba_buffers := (ba_buffers st)[i := e_buf (task_entry work random i 0)],
        ba_slot_for := (ba_slot_for st)[i := slot]\<rparr>)"
  using assms
  by (auto simp: task_ok_def slot_task_def put_header_def entry_header_def task_entry_def work_core_def min_def)

lemma entry_header_base:
  "(entry_header names sz (task_entry work random r b))\<lparr>h_begin_address := b'\<rparr>
     = entry_header names sz (task_entry work random r b')"
  by (simp add: entry_header_def task_entry_def)

lemma entry_buf_base: "e_buf (task_entry work random r b) = e_buf (task_entry work random r 0)"
  by (simp add: task_entry_def)

lemma task_entry_placed:
  assumes "placed B cap N offs L" and "task_ok work random N cap r" and "0 < B"
  shows "placed B cap N (offs(random ! r := offs (random ! r) + B))
    (L @ [task_entry work random r (offs (random ! r))])"
  unfolding task_entry_def
  using assms by (intro placed_add) (auto simp: task_ok_def work_core_def)

lemma slot_tasks_result:
  assumes "\<forall>i \<in> set is. task_ok work random N cap i" and "distinct is"
    and "start + slot + length is \<le> length (ba_headers st)"
    and "length (ba_buffers st) = N" and "length (ba_slot_for st) = N"
  shows "\<exists>st'. slot_tasks work random names sz start is slot st = Some st' \<and>
    ba_headers st' = take (start + slot) (ba_headers st)
      @ map (\<lambda>i. entry_header names sz (task_entry work random i 0)) is
      @ drop (start + slot + length is) (ba_headers st) \<and>
    length (ba_buffers st') = N \<and> length (ba_slot_for st') = N \<and>
    (\<forall>i \<in> set is. ba_buffers st' ! i = e_buf (task_entry work random i 0)) \<and>
    (\<forall>i. i \<notin> set is \<longrightarrow> ba_slot_for st' ! i = ba_slot_for st ! i \<and> ba_buffers st' ! i = ba_buffers st ! i) \<and>
    (\<forall>j < length is. ba_slot_for st' ! (is ! j) = slot + j)"
  using assms
proof (induction "is" arbitrary: slot st)
  case Nil
  then show ?case by simp
next
  case (Cons i "is")
  let ?h = "entry_header names sz (task_entry work random i 0)"
  let ?st = "st\<lparr>ba_headers := (ba_headers st)[start + slot := ?h],
        ba_buffers := (ba_buffers st)[i := e_buf (task_entry work random i 0)],
        ba_slot_for := (ba_slot_for st)[i := slot]\<rparr>"
  have ok: "task_ok work random N cap i" and i: "i < N" using Cons.prems(1) by (simp_all add: task_ok_def)
  have lt: "start + slot < length (ba_headers st)" using Cons.prems(3) by simp
  have eq: "slot_task work random names sz start i slot st = Some ?st" using ok lt by (rule slot_task_eq)
  obtain st' where rec: "slot_tasks work random names sz start is (slot + 1) ?st = Some st'"
    and hd: "ba_headers st' = take (start + (slot + 1)) (ba_headers ?st)
      @ map (\<lambda>i. entry_header names sz (task_entry work random i 0)) is
      @ drop (start + (slot + 1) + length is) (ba_headers ?st)"
    and len: "length (ba_buffers st') = N" "length (ba_slot_for st') = N"
    and bf: "\<forall>i \<in> set is. ba_buffers st' ! i = e_buf (task_entry work random i 0)"
    and un: "\<forall>i. i \<notin> set is \<longrightarrow> ba_slot_for st' ! i = ba_slot_for ?st ! i \<and> ba_buffers st' ! i = ba_buffers ?st ! i"
    and sl: "\<forall>j < length is. ba_slot_for st' ! (is ! j) = slot + 1 + j"
    using Cons.IH [of "slot + 1" ?st] Cons.prems by auto
  have "take (Suc (start + slot)) ((ba_headers st)[start + slot := ?h]) = take (start + slot) (ba_headers st) @ [?h]"
    using lt by (rule take_update_Suc)
  then have headers: "ba_headers st' = take (start + slot) (ba_headers st)
      @ map (\<lambda>i. entry_header names sz (task_entry work random i 0)) (i # is)
      @ drop (start + slot + length (i # is)) (ba_headers st)"
    by (simp add: hd)
  have ni: "i \<notin> set is" using Cons.prems(2) by simp
  have buffers: "\<forall>k \<in> set (i # is). ba_buffers st' ! k = e_buf (task_entry work random k 0)"
    using bf un ni Cons.prems(4) i by simp
  have slots: "\<forall>j < length (i # is). ba_slot_for st' ! ((i # is) ! j) = slot + j"
    using sl un ni Cons.prems(5) i by (simp add: nth_Cons split: nat.split)
  have "slot_tasks work random names sz start (i # is) slot st = Some st'" using eq rec by simp
  with headers len buffers slots un show ?case by (auto simp del: slot_tasks.simps)
qed

text \<open>The updates of the header array: one for each place.\<close>

definition update_all :: "(nat \<times> 'c) list \<Rightarrow> 'c list \<Rightarrow> 'c list" where
  "update_all ups xs = fold (\<lambda>(i, x) xs. xs[i := x]) ups xs"

lemma update_all_simps [simp]: "update_all [] xs = xs" "update_all ((i, x) # ups) xs = update_all ups (xs[i := x])"
  by (simp_all add: update_all_def)

lemma length_update_all [simp]: "length (update_all ups xs) = length xs"
  by (induction ups arbitrary: xs) auto

lemma update_all_other: "i \<notin> fst ` set ups \<Longrightarrow> update_all ups xs ! i = xs ! i"
  by (induction ups arbitrary: xs) auto

lemma update_all_at:
  "length is = length ys \<Longrightarrow> distinct is \<Longrightarrow> \<forall>i \<in> set is. i < length xs \<Longrightarrow> map (\<lambda>i. update_all (zip is ys) xs ! i) is = ys"
proof (induction "is" ys arbitrary: xs rule: list_induct2)
  case (Cons i "is" y ys)
  then have "i \<notin> fst ` set (zip is ys)" by (auto dest: set_zip_leftD)
  then show ?case using Cons by (simp add: update_all_other)
qed simp

text \<open>The blocks that the tasks \<open>rs\<close> write when the next free offsets are \<open>offs\<close>.\<close>

fun place_tasks :: "'b work \<Rightarrow> nat list \<Rightarrow> nat \<Rightarrow> (nat \<Rightarrow> nat) \<Rightarrow> nat list \<Rightarrow> 'b entry list" where
  "place_tasks work random B offs [] = []"
| "place_tasks work random B offs (r # rs) = task_entry work random r (offs (random ! r)) #
     place_tasks work random B (offs(random ! r := offs (random ! r) + B)) rs"

lemma place_tasks_core [simp]: "map entry_core (place_tasks work random B offs rs) = map (work_core work) rs"
  by (induction rs arbitrary: offs) simp_all

lemma length_place_tasks [simp]: "length (place_tasks work random B offs rs) = length rs"
  by (induction rs arbitrary: offs) simp_all

lemma push_tasks_filter:
  "push_tasks work random B cap start st rs ps = push_tasks work random B cap start st (filter (\<lambda>r. work r \<noteq> None) rs) ps"
proof (induction rs arbitrary: ps)
  case (Cons r rs)
  show ?case
  proof (cases "work r = None")
    case True
    then have "push_task work random B cap start st r ps = Some ps" by (simp add: push_task_def)
    then show ?thesis using Cons [of ps] True by simp
  next
    case False
    then have "filter (\<lambda>r. work r \<noteq> None) (r # rs) = r # filter (\<lambda>r. work r \<noteq> None) rs" by simp
    then show ?thesis using Cons by (simp only: push_tasks.simps split: option.split) simp
  qed
qed simp

lemma push_task_eq:
  assumes "task_ok work random N cap r" and "start + ba_slot_for st ! r < length (ps_headers ps)"
    and "ba_buffers st ! r = e_buf (task_entry work random r 0)"
    and "ps_headers ps ! (start + ba_slot_for st ! r) = entry_header names sz (task_entry work random r 0)"
  shows "push_task work random B cap start st r ps =
    (let base = ps_offsets ps (random ! r); e = task_entry work random r base
     in Some \<lparr>ps_headers = (ps_headers ps)[start + ba_slot_for st ! r := entry_header names sz e],
          ps_offsets = (ps_offsets ps)(random ! r := base + B), ps_requests = ps_requests ps @ [entry_request cap e]\<rparr>)"
proof -
  obtain d where "work r = Some d" using assms(1) by (auto simp: task_ok_def)
  then show ?thesis using assms by (simp add: push_task_def Let_def put_header_def entry_header_base)
      (simp add: entry_request_def task_entry_def)
qed

lemma push_tasks_result:
  assumes "\<forall>r \<in> set rs. task_ok work random N cap r \<and> ba_buffers st ! r = e_buf (task_entry work random r 0) \<and>
       start + ba_slot_for st ! r < length (ps_headers ps) \<and>
       ps_headers ps ! (start + ba_slot_for st ! r) = entry_header names sz (task_entry work random r 0)"
    and "distinct (map (\<lambda>r. start + ba_slot_for st ! r) rs)" and "0 < B" and "placed B cap N (ps_offsets ps) L"
  shows "\<exists>ps'. push_tasks work random B cap start st rs ps = Some ps' \<and>
    ps_headers ps' = update_all (zip (map (\<lambda>r. start + ba_slot_for st ! r) rs)
      (map (entry_header names sz) (place_tasks work random B (ps_offsets ps) rs))) (ps_headers ps) \<and>
    ps_requests ps' = ps_requests ps @ map (entry_request cap) (place_tasks work random B (ps_offsets ps) rs) \<and>
    placed B cap N (ps_offsets ps') (L @ place_tasks work random B (ps_offsets ps) rs)"
  using assms
proof (induction rs arbitrary: ps L)
  case (Cons r rs)
  let ?base = "ps_offsets ps (random ! r)" and ?at = "\<lambda>r. start + ba_slot_for st ! r"
  let ?e = "task_entry work random r ?base"
  let ?ps = "\<lparr>ps_headers = (ps_headers ps)[?at r := entry_header names sz ?e],
      ps_offsets = (ps_offsets ps)(random ! r := ?base + B), ps_requests = ps_requests ps @ [entry_request cap ?e]\<rparr>"
  have r: "task_ok work random N cap r" using Cons.prems(1) by simp
  have step: "push_task work random B cap start st r ps = Some ?ps"
    using push_task_eq [OF r, of start st ps names sz B] Cons.prems(1) by (simp add: Let_def)
  have pl: "placed B cap N (ps_offsets ?ps) (L @ [?e])"
    using task_entry_placed [OF Cons.prems(4) r Cons.prems(3)] by simp
  have other: "ps_headers ?ps ! ?at r' = ps_headers ps ! ?at r'" if "r' \<in> set rs" for r'
  proof -
    have "?at r \<noteq> ?at r'" using that Cons.prems(2) by (auto simp: image_iff)
    then show ?thesis unfolding push_state.select_convs by (rule nth_list_update_neq)
  qed
  have ready: "\<forall>r \<in> set rs. task_ok work random N cap r \<and> ba_buffers st ! r = e_buf (task_entry work random r 0) \<and>
       ?at r < length (ps_headers ?ps) \<and> ps_headers ?ps ! ?at r = entry_header names sz (task_entry work random r 0)"
    using Cons.prems(1) other by (metis list.set_intros(2) length_list_update push_state.select_convs(1))
  have "distinct (map ?at rs)" using Cons.prems(2) by simp
  from Cons.IH [OF ready this Cons.prems(3) pl] obtain ps' where
      "push_tasks work random B cap start st rs ?ps = Some ps'"
      "ps_headers ps' = update_all (zip (map ?at rs) (map (entry_header names sz) (place_tasks work random B (ps_offsets ?ps) rs))) (ps_headers ?ps)"
      "ps_requests ps' = ps_requests ?ps @ map (entry_request cap) (place_tasks work random B (ps_offsets ?ps) rs)"
      "placed B cap N (ps_offsets ps') ((L @ [?e]) @ place_tasks work random B (ps_offsets ?ps) rs)" by blast
  then show ?case by (intro exI [of _ ps']) (simp add: step)
qed simp

definition with_work :: "'b work \<Rightarrow> nat \<Rightarrow> nat list" where
  "with_work work N = filter (\<lambda>i. work i \<noteq> None) [0..<N]"

text \<open>After the parallel part: the task with slot \<open>j\<close> has stored its header and its buffer.\<close>

lemma slot_tasks_ready:
  fixes work :: "'b work"
  assumes ok: "\<forall>i \<in> set order. task_ok work random N cap i" and dist: "distinct order"
    and room: "start + length order \<le> length hs"
  shows "\<exists>st. slot_tasks work random names sz start order 0
      \<lparr>ba_headers = hs, ba_buffers = replicate N [], ba_slot_for = replicate N 0\<rparr> = Some st \<and>
    length (ba_headers st) = length hs \<and> take start (ba_headers st) = take start hs \<and>
    map (\<lambda>r. ba_slot_for st ! r) order = [0..<length order] \<and>
    (\<forall>r \<in> set order. task_ok work random N cap r \<and> ba_buffers st ! r = e_buf (task_entry work random r 0) \<and>
       start + ba_slot_for st ! r < length hs \<and>
       ba_headers st ! (start + ba_slot_for st ! r) = entry_header names sz (task_entry work random r 0))"
proof -
  let ?st0 = "\<lparr>ba_headers = hs, ba_buffers = replicate N ([] :: 'b list), ba_slot_for = replicate N 0\<rparr>"
  let ?h = "\<lambda>i. entry_header names sz (task_entry work random i 0)"
  have st0: "start + 0 + length order \<le> length (ba_headers ?st0)" "length (ba_buffers ?st0) = N" "length (ba_slot_for ?st0) = N"
    using room by simp_all
  obtain st where run: "slot_tasks work random names sz start order 0 ?st0 = Some st"
    and hd0: "ba_headers st = take (start + 0) (ba_headers ?st0) @ map (\<lambda>i. entry_header names sz (task_entry work random i 0)) order
      @ drop (start + 0 + length order) (ba_headers ?st0)"
    and bf: "\<forall>i \<in> set order. ba_buffers st ! i = e_buf (task_entry work random i 0)"
    and sl0: "\<forall>j < length order. ba_slot_for st ! (order ! j) = 0 + j"
    using slot_tasks_result [OF ok dist st0, of names sz] by (elim exE conjE) (rule that; assumption)
  have hd: "ba_headers st = take start hs @ map ?h order @ drop (start + length order) hs"
    and sl: "\<forall>j < length order. ba_slot_for st ! (order ! j) = j"
    using hd0 sl0 by simp_all
  have "ba_headers st ! (start + ba_slot_for st ! r) = ?h r \<and> start + ba_slot_for st ! r < length hs" if r: "r \<in> set order" for r
  proof -
    obtain j where j: "j < length order" "order ! j = r" using r by (metis in_set_conv_nth)
    then have "ba_slot_for st ! r = j" using sl by blast
    moreover have "ba_headers st ! (start + j) = ?h r" using j room unfolding hd by (simp add: nth_append)
    ultimately show ?thesis using j(1) room by simp
  qed
  moreover have "map (\<lambda>r. ba_slot_for st ! r) order = [0..<length order]" using sl by (intro nth_equalityI) simp_all
  moreover have "length (ba_headers st) = length hs" "take start (ba_headers st) = take start hs" using room by (simp_all add: hd)
  ultimately show ?thesis using run bf ok by blast
qed

lemma two_phase_result:
  fixes work :: "'b work"
  assumes ok: "\<forall>i \<in> set (with_work work N). task_ok work random N cap i"
    and order: "mset order = mset (with_work work N)"
    and room: "start + length order \<le> length (ps_headers ps)"
    and pl: "placed B cap N (ps_offsets ps) L" and B: "0 < B" "cap = B div pod_size P"
  shows "\<exists>ps' Lb. two_phase_batch work random order P B N names start ps = Some ps' \<and>
    length (ps_headers ps') = length (ps_headers ps) \<and>
    take start (ps_headers ps') = take start (ps_headers ps) \<and>
    mset (take (length order) (drop start (ps_headers ps'))) = mset (map (entry_header names (pod_size P)) Lb) \<and>
    ps_requests ps' = ps_requests ps @ map (entry_request cap) Lb \<and>
    placed B cap N (ps_offsets ps') (L @ Lb) \<and>
    map entry_core Lb = map (work_core work) (with_work work N)"
proof -
  let ?sz = "pod_size P" and ?ww = "with_work work N" and ?n = "length order"
  have dist: "distinct ?ww" by (simp add: with_work_def)
  then have "distinct order" using order mset_eq_imp_distinct_iff by blast
  moreover have set_ord: "set order = set ?ww" using order by (rule mset_eq_setD)
  ultimately obtain st where tasks: "slot_tasks work random names ?sz start order 0
        \<lparr>ba_headers = ps_headers ps, ba_buffers = replicate N [], ba_slot_for = replicate N 0\<rparr> = Some st"
    and hd: "length (ba_headers st) = length (ps_headers ps)" "take start (ba_headers st) = take start (ps_headers ps)"
    and slots: "map (\<lambda>r. ba_slot_for st ! r) order = [0..<?n]"
    and ready: "\<forall>r \<in> set ?ww. task_ok work random N cap r \<and> ba_buffers st ! r = e_buf (task_entry work random r 0) \<and>
       start + ba_slot_for st ! r < length (ps_headers ps) \<and>
       ba_headers st ! (start + ba_slot_for st ! r) = entry_header names ?sz (task_entry work random r 0)"
    using slot_tasks_ready [of order work random N cap start "ps_headers ps" names ?sz] ok room by auto
  let ?at = "map (\<lambda>r. start + ba_slot_for st ! r) ?ww" and ?Lb = "place_tasks work random B (ps_offsets ps) ?ww"
  have at: "mset ?at = mset (map (\<lambda>j. start + j) [0..<?n])"
    unfolding slots [symmetric] map_map comp_def using order by (metis mset_map)
  then have "distinct ?at" using mset_eq_imp_distinct_iff [OF at] by (simp add: distinct_map)
  moreover have "placed B cap N (ps_offsets (ps\<lparr>ps_headers := ba_headers st\<rparr>)) L" using pl by simp
  ultimately obtain ps' where run: "push_tasks work random B cap start st ?ww (ps\<lparr>ps_headers := ba_headers st\<rparr>) = Some ps'"
    and hd': "ps_headers ps' = update_all (zip ?at (map (entry_header names ?sz) ?Lb)) (ba_headers st)"
    and rq: "ps_requests ps' = ps_requests ps @ map (entry_request cap) ?Lb" and pl': "placed B cap N (ps_offsets ps') (L @ ?Lb)"
    using push_tasks_result [of ?ww work random N cap st start "ps\<lparr>ps_headers := ba_headers st\<rparr>" names ?sz B L] ready B(1) hd(1) by auto
  have "push_tasks work random B cap start st [0..<N] (ps\<lparr>ps_headers := ba_headers st\<rparr>) = Some ps'"
    unfolding push_tasks_filter [of work random B cap start st "[0..<N]"] run [unfolded with_work_def] ..
  then have batch: "two_phase_batch work random order P B N names start ps = Some ps'"
    using tasks B(2) by (simp add: two_phase_batch_def)
  have set_at: "set ?at = {start..<start + ?n}" unfolding mset_eq_setD [OF at] by (auto simp: image_iff intro: le_Suc_ex)
  have "mset (take ?n (drop start (ps_headers ps'))) = mset (map (\<lambda>i. ps_headers ps' ! i) (map (\<lambda>j. start + j) [0..<?n]))"
    using room hd by (intro arg_cong [of _ _ mset] nth_equalityI) (simp_all add: hd')
  also have "\<dots> = mset (map (\<lambda>i. ps_headers ps' ! i) ?at)" using at by (metis mset_map)
  also have "map (\<lambda>i. ps_headers ps' ! i) ?at = map (entry_header names ?sz) ?Lb"
    unfolding hd' using \<open>distinct ?at\<close> ready hd(1) by (intro update_all_at) auto
  finally have seg: "mset (take ?n (drop start (ps_headers ps'))) = mset (map (entry_header names ?sz) ?Lb)" .
  have "ps_headers ps' ! i = ba_headers st ! i" if "i < start" for i
  proof -
    have "i \<notin> set ?at" unfolding set_at using that by simp
    then show ?thesis unfolding hd' by (intro update_all_other) (auto dest!: set_zip_leftD)
  qed
  then have "take start (ps_headers ps') = take start (ba_headers st)" by (intro nth_equalityI) (simp_all add: hd')
  then have "take start (ps_headers ps') = take start (ps_headers ps)" using hd(2) by simp
  then show ?thesis using batch seg rq pl' hd(1) by (intro exI [of _ ps'] exI [of _ ?Lb]) (simp add: hd')
qed

section \<open>Several batches\<close>

text \<open>
  The batches are numbered; \<open>cores w\<close> lists the blocks of batch \<open>w\<close> in the order of the tasks.
  After \<open>w\<close> batches, the first slots hold the headers of the blocks written so far.
\<close>

definition phases_inv :: "'b pod \<Rightarrow> nat \<Rightarrow> nat \<Rightarrow> string list \<Rightarrow> nat \<Rightarrow> nat \<Rightarrow> (nat \<times> 'b list) multiset \<Rightarrow>
    'b push_state \<Rightarrow> 'b entry list \<Rightarrow> bool" where
  "phases_inv P B N names n w cores ps L \<longleftrightarrow>
     length (ps_headers ps) = n \<and>
     mset (take (w * N) (ps_headers ps)) = mset (map (entry_header names (pod_size P)) L) \<and>
     ps_requests ps = map (entry_request (B div pod_size P)) L \<and>
     placed B (B div pod_size P) N (ps_offsets ps) L \<and>
     mset (map entry_core L) = cores"

lemma take_min_length: "take n xs = take (min n (length xs)) xs"
  by (metis min_def take_all nle_le)

lemma take_next_batch: "take (Suc w * N) xs = take (w * N) xs @ take N (drop (w * N) xs)"
  by (metis add.commute mult_Suc take_add)

lemma phases_step:
  assumes inv: "phases_inv P B N names n w cores ps L"
    and ok: "\<forall>i \<in> set (with_work work N). task_ok work random N (B div pod_size P) i"
    and order: "mset order = mset (with_work work N)"
    and room: "w * N \<le> n" "length order = min N (n - w * N)" and B: "0 < B"
  shows "\<exists>ps' L'. two_phase_batch work random order P B N names (w * N) ps = Some ps' \<and>
    phases_inv P B N names n (Suc w) (cores + mset (map (work_core work) (with_work work N))) ps' L'"
proof -
  let ?cap = "B div pod_size P"
  have inv': "length (ps_headers ps) = n"
      "mset (take (w * N) (ps_headers ps)) = mset (map (entry_header names (pod_size P)) L)"
      "ps_requests ps = map (entry_request ?cap) L" "placed B ?cap N (ps_offsets ps) L"
      "mset (map entry_core L) = cores"
    using inv by (simp_all add: phases_inv_def)
  have "w * N + length order \<le> length (ps_headers ps)" using room inv'(1) by simp
  note res = two_phase_result [OF ok order this inv'(4) B refl, of names]
  obtain ps1 Lb where step: "two_phase_batch work random order P B N names (w * N) ps = Some ps1"
    and r: "length (ps_headers ps1) = length (ps_headers ps)"
      "take (w * N) (ps_headers ps1) = take (w * N) (ps_headers ps)"
      "mset (take (length order) (drop (w * N) (ps_headers ps1))) = mset (map (entry_header names (pod_size P)) Lb)"
      "ps_requests ps1 = ps_requests ps @ map (entry_request ?cap) Lb"
      "placed B ?cap N (ps_offsets ps1) (L @ Lb)"
      "map entry_core Lb = map (work_core work) (with_work work N)"
    using res by (elim exE conjE) (rule that; assumption)
  have "take N (drop (w * N) (ps_headers ps1)) = take (length order) (drop (w * N) (ps_headers ps1))"
    using take_min_length [of N "drop (w * N) (ps_headers ps1)"] room(2) r(1) inv'(1) by simp
  then have "mset (take (Suc w * N) (ps_headers ps1)) = mset (map (entry_header names (pod_size P)) (L @ Lb))"
    using r(2,3) inv'(2) by (simp add: take_next_batch del: mult_Suc)
  moreover have "mset (map entry_core (L @ Lb)) = cores + mset (map (work_core work) (with_work work N))"
    using inv'(5) by (simp only: map_append mset_append r(6))
  ultimately have "phases_inv P B N names n (Suc w) (cores + mset (map (work_core work) (with_work work N))) ps1 (L @ Lb)"
    using r(1,4,5) inv'(1,3) unfolding phases_inv_def by simp
  with step show ?thesis by blast
qed

lemma phases_done:
  assumes "phases_inv P B N names n w cores ps L" and "n \<le> w * N"
  shows "mset (ps_headers ps) = mset (map (entry_header names (pod_size P)) L)"
proof -
  have "take (w * N) (ps_headers ps) = ps_headers ps"
    using assms by (simp add: phases_inv_def)
  then show ?thesis using assms(1) unfolding phases_inv_def by metis
qed

lemma phases_init: "phases_inv P B N names (length hs) 0 {#} (initial_push_state hs) []"
  by (simp add: phases_inv_def initial_push_state_def)

text \<open>A schedule of one batch: file choices in range, and exactly the tasks with work draw slots.\<close>

definition choice_ok :: "'b work \<Rightarrow> nat \<Rightarrow> nat list \<times> nat list \<Rightarrow> bool" where
  "choice_ok work N c \<longleftrightarrow> length (fst c) = N \<and> (\<forall>r \<in> set (fst c). r < N) \<and>
     mset (snd c) = mset (with_work work N)"

definition work_ok :: "'b work \<Rightarrow> nat \<Rightarrow> nat \<Rightarrow> bool" where
  "work_ok work N cap \<longleftrightarrow> (\<forall>i < N. \<forall>buf k index. work i = Some (buf, k, index) \<longrightarrow> length buf = cap \<and> k \<le> cap)"

lemma choice_task_ok:
  "choice_ok work N (random, order) \<Longrightarrow> work_ok work N cap \<Longrightarrow>
   \<forall>i \<in> set (with_work work N). task_ok work random N cap i"
  by (auto simp: choice_ok_def work_ok_def task_ok_def with_work_def)

definition batch_cores :: "(nat \<Rightarrow> 'b work) \<Rightarrow> nat \<Rightarrow> nat \<Rightarrow> (nat \<times> 'b list) list" where
  "batch_cores work N w = map (work_core (work w)) (with_work (work w) N)"

lemma two_phase_batches_result:
  assumes "\<forall>j < length schs. choice_ok (work (w + j)) N (schs ! j) \<and> work_ok (work (w + j)) N (B div pod_size P) \<and>
      length (with_work (work (w + j)) N) = min N (n - (w + j) * N)"
    and "0 < N" and "0 < B" and "w + length schs \<le> ceil_div n N"
    and "phases_inv P B N names n w cores ps L"
  shows "\<exists>ps' L'. two_phase_batches work P B N names w schs ps = Some ps' \<and>
    phases_inv P B N names n (w + length schs)
      (cores + mset (concat (map (batch_cores work N) [w..<w + length schs]))) ps' L'"
  using assms
proof (induction schs arbitrary: w cores ps L)
  case Nil
  then show ?case by auto
next
  case (Cons c schs)
  obtain random order where c: "c = (random, order)" by (cases c)
  have head: "choice_ok (work w) N (random, order)" "work_ok (work w) N (B div pod_size P)"
      "length (with_work (work w) N) = min N (n - w * N)"
    using Cons.prems(1)[rule_format, of 0] c by simp_all
  have "w < ceil_div n N" using Cons.prems(4) by simp
  then have "w * N < n" using less_ceil_div_iff [OF Cons.prems(2)] by blast
  moreover have order: "mset order = mset (with_work (work w) N)" using head(1) by (simp add: choice_ok_def)
  moreover have "length order = min N (n - w * N)" using mset_eq_length [OF order] head(3) by simp
  moreover note choice_task_ok [OF head(1,2)]
  ultimately obtain ps1 L1 where step: "two_phase_batch (work w) random order P B N names (w * N) ps = Some ps1"
    and inv1: "phases_inv P B N names n (Suc w) (cores + mset (batch_cores work N w)) ps1 L1"
    using phases_step [OF Cons.prems(5) _ order _ _ Cons.prems(3)]
    by (metis batch_cores_def less_imp_le)
  have rest: "\<forall>j < length schs. choice_ok (work (Suc w + j)) N (schs ! j) \<and> work_ok (work (Suc w + j)) N (B div pod_size P) \<and>
      length (with_work (work (Suc w + j)) N) = min N (n - (Suc w + j) * N)"
    using Cons.prems(1) by (metis Suc_less_eq add_Suc_shift length_Cons nth_Cons_Suc)
  have "Suc w + length schs \<le> ceil_div n N" using Cons.prems(4) by simp
  from Cons.IH [OF rest Cons.prems(2,3) this inv1]
  obtain ps' L' where run: "two_phase_batches work P B N names (Suc w) schs ps1 = Some ps'"
    and inv': "phases_inv P B N names n (Suc w + length schs) (cores + mset (batch_cores work N w)
      + mset (concat (map (batch_cores work N) [Suc w..<Suc w + length schs]))) ps' L'" by blast
  have "[w..<w + length (c # schs)] = w # [Suc w..<Suc w + length schs]"
    by (simp add: upt_conv_Cons del: upt_Suc)
  with run inv' step c show ?case by (auto simp: add.assoc)
qed

section \<open>Reading the result back\<close>

text \<open>
  The clients' rule for every primitive that writes blocks through the chunk writer: if its headers
  and requests are, up to order, those of placed blocks \<open>L\<close> with distinct keys, then the sequence
  reads back as their elements in key order.
\<close>

lemma written_blocks:
  assumes P: "pod_repr P" and env: "env_ok P A B N names"
    and wr: "chunk_writer_runs A ssds cfg P names fs rs fs'"
    and rs: "mset rs = mset (map (entry_request (B div pod_size P)) L)"
    and pl: "placed B (B div pod_size P) N offs L"
    and hs: "mset hs = mset (map (entry_header names (pod_size P)) L)"
    and cores: "mset (map entry_core L) = mset cs" and dist: "distinct (map fst cs)"
  shows "wf_seq P B fs' \<lparr>ordered_underlying_sequence = hs\<rparr> \<and>
    ReadOutput P fs' \<lparr>ordered_underlying_sequence = hs\<rparr> = Some (ordered_elems cs) \<and>
    mset (map h_index hs) = mset (map fst cs) \<and>
    mset (map (chunk_core P fs') hs) = mset cs \<and> blocks_apart B names hs"
proof -
  note cap = env_ok_cap [OF env P]
  have N: "length names = N" "distinct names" using env by (simp_all add: env_ok_def)
  have ix: "map fst (map entry_core L) = map e_index L" by (simp add: entry_core_def)
  have mi: "mset (map e_index L) = mset (map fst cs)"
    using cores by (metis ix mset_map)
  then have di: "distinct (map e_index L)" using dist mset_eq_imp_distinct_iff by blast
  have "mset (map h_index hs) = mset (map h_index (map (entry_header names (pod_size P)) L))"
    using hs by (metis mset_map)
  also have "map h_index (map (entry_header names (pod_size P)) L) = map e_index L"
    by (simp add: entry_header_def)
  finally have "mset (map h_index hs) = mset (map fst cs)" using mi by simp
  moreover have "mset (map (chunk_core P fs') hs) = mset cs"
    using chunk_writer.sink_cores [OF P wr rs pl conjunct1 [OF cap] conjunct2 [OF cap] N hs] cores by simp
  moreover have "ordered_elems (map entry_core L) = ordered_elems cs"
    using cores di by (intro ordered_elems_perm) (simp_all add: ix del: map_map)
  ultimately show ?thesis
    using chunk_writer.sink_ReadOutput [OF P wr rs pl conjunct1 [OF cap] conjunct2 [OF cap] N hs di] placed_apart [OF pl hs N] by simp
qed

lemma two_phase_written:
  assumes P: "pod_repr P" and env: "env_ok P A B N names"
    and inv: "phases_inv P B N names n w (mset cs) ps L" and all: "n \<le> w * N"
    and wr: "chunk_writer_runs A ssds cfg P names fs (ps_requests ps) fs'"
    and dist: "distinct (map fst cs)"
  shows "wf_seq P B fs' \<lparr>ordered_underlying_sequence = sort_key h_index (ps_headers ps)\<rparr> \<and>
    ReadOutput P fs' \<lparr>ordered_underlying_sequence = sort_key h_index (ps_headers ps)\<rparr> = Some (ordered_elems cs) \<and>
    map h_index (sort_key h_index (ps_headers ps)) = sort (map fst cs) \<and>
    mset (map (chunk_core P fs') (ps_headers ps)) = mset cs \<and>
    blocks_apart B names (sort_key h_index (ps_headers ps))"
proof -
  have hs: "mset (sort_key h_index (ps_headers ps)) = mset (map (entry_header names (pod_size P)) L)"
    using phases_done [OF inv all] by simp
  have rs: "mset (ps_requests ps) = mset (map (entry_request (B div pod_size P)) L)"
    and pl: "placed B (B div pod_size P) N (ps_offsets ps) L"
    and cores: "mset (map entry_core L) = mset cs"
    using inv unfolding phases_inv_def by simp_all
  note wb = written_blocks [OF P env wr rs pl hs cores dist]
  have "sorted (map h_index (sort_key h_index (ps_headers ps)))" by simp
  then have "map h_index (sort_key h_index (ps_headers ps)) = sort (map fst cs)"
    using wb properties_for_sort by metis
  moreover have "mset (map (chunk_core P fs') (ps_headers ps)) = mset cs"
    using wb by simp
  ultimately show ?thesis using wb by blast
qed

end
