(* ===== verification/PolledBatches.thy ===== *)
theory PolledBatches
  imports ChunkReader TwoPhase
begin

text \<open>
  Two-phase batches whose tasks get their input from the chunk reader, as in
  Plaidlay/externalFilter.h and Plaidlay/examples/external/primes.h: task \<open>i\<close> of a batch polls a
  block, turns it into one block of output in a buffer of its own, and the batch goes on as in
  TwoPhase. What the scheduler and the random generator decide in one batch is a \<open>batch_schedule\<close>;
  what a task computes from its block is \<open>body\<close>, and its contract is the locale \<open>block_work\<close>.
\<close>

record ('a, 'b) batch_schedule =
  bs_random :: "nat list"
  bs_polled :: "'a BufferData option list"
  bs_order :: "nat list"
  bs_fresh :: "'b list list"

text \<open>
  \<open>bs_polled ! i\<close>: what the \<open>Poll\<close> of task \<open>i\<close> returned (\<open>None\<close>: the null pointer);
  \<open>bs_order\<close>: the tasks in the order of their \<open>counter.fetch_add\<close>; \<open>bs_fresh ! i\<close>: the contents
  of the memory allocated for task \<open>i\<close>.
\<close>

type_synonym ('a, 'b) task_body = "'a BufferData \<Rightarrow> 'b list \<Rightarrow> 'b list \<times> nat \<times> nat"

definition poll_work :: "('a, 'b) task_body \<Rightarrow> ('a, 'b) batch_schedule \<Rightarrow> 'b work" where
  "poll_work body sch i =
     (case bs_polled sch ! i of None \<Rightarrow> None | Some d \<Rightarrow> Some (body d (bs_fresh sch ! i)))"

text \<open>
  A schedule fits the \<open>b\<close>-th batch when the reader's polls return \<open>ds\<close>: the tasks get the next
  \<open>N\<close> results in some order, nulls once the reader is drained, and exactly the tasks with data
  take slots.
\<close>

definition with_data :: "('a, 'b) batch_schedule \<Rightarrow> nat list" where
  "with_data sch = filter (\<lambda>i. bs_polled sch ! i \<noteq> None) [0..<length (bs_polled sch)]"

definition schedule_ok :: "nat \<Rightarrow> nat \<Rightarrow> 'a BufferData list \<Rightarrow> nat \<Rightarrow> ('a, 'b) batch_schedule \<Rightarrow> bool" where
  "schedule_ok N cap ds b sch \<longleftrightarrow>
     length (bs_random sch) = N \<and> (\<forall>r \<in> set (bs_random sch). r < N) \<and>
     mset (bs_polled sch) = mset (map Some (run_of N ds b)
        @ replicate (N - length (run_of N ds b)) None) \<and>
     mset (bs_order sch) = mset (with_data sch) \<and>
     length (bs_fresh sch) = N \<and> (\<forall>f \<in> set (bs_fresh sch). length f = cap)"

definition schedules_ok :: "nat \<Rightarrow> nat \<Rightarrow> 'a BufferData list \<Rightarrow> nat \<Rightarrow> ('a, 'b) batch_schedule list \<Rightarrow> bool" where
  "schedules_ok N cap ds m schs \<longleftrightarrow>
     length schs = m \<and> (\<forall>b < length schs. schedule_ok N cap ds b (schs ! b))"

definition batch_choices :: "('a, 'b) batch_schedule list \<Rightarrow> (nat list \<times> nat list) list" where
  "batch_choices schs = map (\<lambda>sch. (bs_random sch, bs_order sch)) schs"

text \<open>All batches over \<open>n\<close> blocks, from an empty header array of \<open>n\<close> slots.\<close>

definition polled_batches :: "('a, 'b) task_body \<Rightarrow> 'b pod \<Rightarrow> nat \<Rightarrow> nat \<Rightarrow> string list \<Rightarrow> nat \<Rightarrow>
    ('a, 'b) batch_schedule list \<Rightarrow> 'b push_state option" where
  "polled_batches body P B N names n schs =
     two_phase_batches (\<lambda>w. poll_work body (schs ! w)) P B N names 0 (batch_choices schs)
       (initial_push_state (ordered_underlying_sequence (new_sequence n)))"

section \<open>What the tasks of a batch get\<close>

lemma poll_work_None [simp]: "poll_work body sch i = None \<longleftrightarrow> bs_polled sch ! i = None"
  by (simp add: poll_work_def split: option.split)

lemma nth_filter_upt: "map (\<lambda>i. xs ! i) (filter (\<lambda>i. Q (xs ! i)) [0..<length xs]) = filter Q xs"
proof -
  have "filter Q xs = filter Q (map (\<lambda>i. xs ! i) [0..<length xs])" by (simp add: map_nth)
  then show ?thesis by (simp add: filter_map comp_def)
qed

lemma schedule_data:
  assumes "schedule_ok N ocap ds b sch"
  shows "length (bs_polled sch) = N \<and> with_data sch = with_work (poll_work body sch) N \<and>
    mset (map (\<lambda>i. the (bs_polled sch ! i)) (with_data sch)) = mset (run_of N ds b)"
proof -
  let ?bp = "run_of N ds b"
  have m: "mset (bs_polled sch) = mset (map Some ?bp @ replicate (N - length ?bp) None)"
    using assms by (simp add: schedule_ok_def)
  have "length (bs_polled sch) = length (map Some ?bp @ replicate (N - length ?bp) None)"
    using m by (rule mset_eq_length)
  then have len: "length (bs_polled sch) = N" using length_run_of_le [of N ds b] by simp
  have "mset (filter (\<lambda>x. x \<noteq> None) (bs_polled sch)) = mset (filter (\<lambda>x. x \<noteq> None) (map Some ?bp @ replicate (N - length ?bp) None))"
    by (simp only: mset_filter m)
  then have "mset (filter (\<lambda>x. x \<noteq> None) (bs_polled sch)) = mset (map Some ?bp)"
    by (simp add: filter_map comp_def)
  then have "image_mset the (mset (filter (\<lambda>x. x \<noteq> None) (bs_polled sch))) = image_mset the (mset (map Some ?bp))"
    by simp
  then have "mset (map the (filter (\<lambda>x. x \<noteq> None) (bs_polled sch))) = mset (map the (map Some ?bp))"
    by (simp only: mset_map)
  then have "mset (map the (map (\<lambda>i. bs_polled sch ! i) (with_data sch))) = mset ?bp"
    unfolding with_data_def nth_filter_upt [of "bs_polled sch" "\<lambda>x. x \<noteq> None"]
    by (simp add: comp_def)
  then show ?thesis using len by (simp add: comp_def with_data_def with_work_def)
qed

section \<open>The contract of a task\<close>

text \<open>On a \<open>good\<close> block the buffer is filled within its \<open>ocap\<close> elements; \<open>core d\<close> is the key and
the elements of the block written for \<open>d\<close>.\<close>

locale block_work =
  fixes body :: "('a, 'b) task_body" and good :: "'a BufferData \<Rightarrow> bool" and ocap :: nat
    and core :: "'a BufferData \<Rightarrow> nat \<times> 'b list"
  assumes body_result: "good d \<Longrightarrow> length fresh = ocap \<Longrightarrow> body d fresh = (buf, k, index) \<Longrightarrow>
      length buf = ocap \<and> k \<le> ocap \<and> (index, take k buf) = core d"
begin

lemma poll_work_Some:
  assumes d: "bs_polled sch ! i = Some d" and ok: "good d" and f: "length (bs_fresh sch ! i) = ocap"
  shows "\<exists>buf k index. poll_work body sch i = Some (buf, k, index) \<and> length buf = ocap \<and> k \<le> ocap \<and>
    work_core (poll_work body sch) i = core d"
proof -
  obtain buf k index where b: "body d (bs_fresh sch ! i) = (buf, k, index)" by (cases "body d (bs_fresh sch ! i)")
  then show ?thesis using body_result [OF ok f b] d by (simp add: poll_work_def work_core_def)
qed

lemma schedule_work:
  assumes sch: "schedule_ok N ocap ds b sch" and ds: "\<forall>d \<in> set ds. good d"
  shows "choice_ok (poll_work body sch) N (bs_random sch, bs_order sch) \<and> work_ok (poll_work body sch) N ocap \<and>
    length (with_work (poll_work body sch) N) = min N (length ds - b * N) \<and>
    mset (map (work_core (poll_work body sch)) (with_work (poll_work body sch) N)) = mset (map (core) (run_of N ds b))"
proof -
  note sd = schedule_data [OF sch, of body]
  have poll: "good d" if "i < N" "bs_polled sch ! i = Some d" for i d
  proof -
    have "i \<in> set (with_data sch)" using that sd by (simp add: with_data_def)
    then have "the (bs_polled sch ! i) \<in> set (map (\<lambda>i. the (bs_polled sch ! i)) (with_data sch))" by simp
    then have "d \<in> set (run_of N ds b)" using sd that mset_eq_setD by fastforce
    then show ?thesis using ds by (auto simp: run_of_def dest: in_set_takeD in_set_dropD)
  qed
  have fresh: "length (bs_fresh sch ! i) = ocap" if "i < N" for i
    using sch that by (simp add: schedule_ok_def)
  have wk: "\<exists>buf k index. poll_work body sch i = Some (buf, k, index) \<and> length buf = ocap \<and> k \<le> ocap \<and>
      work_core (poll_work body sch) i = core d" if "i < N" "bs_polled sch ! i = Some d" for i d
    using poll_work_Some [OF that(2) poll [OF that] fresh [OF that(1)]] .
  have "work_ok (poll_work body sch) N ocap"
    unfolding work_ok_def
  proof (intro allI impI)
    fix i buf k index assume i: "i < N" and w: "poll_work body sch i = Some (buf, k, index)"
    then obtain d where "bs_polled sch ! i = Some d" by (cases "bs_polled sch ! i") (auto simp: poll_work_def)
    with wk [OF i] w show "length buf = ocap \<and> k \<le> ocap" by fastforce
  qed
  moreover have "choice_ok (poll_work body sch) N (bs_random sch, bs_order sch)"
    using sch sd by (simp add: choice_ok_def schedule_ok_def)
  moreover have "length (with_work (poll_work body sch) N) = min N (length ds - b * N)"
    using mset_eq_length [OF conjunct2 [OF conjunct2 [OF sd]]] sd by (simp add: run_of_def min.commute)
  moreover have "mset (map (work_core (poll_work body sch)) (with_work (poll_work body sch) N))
      = mset (map (core) (run_of N ds b))"
  proof -
    have "map (work_core (poll_work body sch)) (with_data sch) = map (\<lambda>i. core (the (bs_polled sch ! i))) (with_data sch)"
    proof (rule map_cong [OF refl])
      fix i assume "i \<in> set (with_data sch)"
      then have i: "i < N" "bs_polled sch ! i \<noteq> None" using sd by (simp_all add: with_data_def)
      then obtain d where d: "bs_polled sch ! i = Some d" by blast
      show "work_core (poll_work body sch) i = core (the (bs_polled sch ! i))"
        using wk [OF i(1) d] d by auto
    qed
    then have "mset (map (work_core (poll_work body sch)) (with_data sch))
        = mset (map (\<lambda>i. core (the (bs_polled sch ! i))) (with_data sch))" by (rule arg_cong)
    also have "\<dots> = image_mset (core) (mset (map (\<lambda>i. the (bs_polled sch ! i)) (with_data sch)))"
      by (simp add: comp_def image_mset.compositionality)
    finally have X: "mset (map (work_core (poll_work body sch)) (with_data sch))
        = image_mset (core) (mset (map (\<lambda>i. the (bs_polled sch ! i)) (with_data sch)))" .
    have wd: "with_work (poll_work body sch) N = with_data sch"
      and md: "mset (map (\<lambda>i. the (bs_polled sch ! i)) (with_data sch)) = mset (run_of N ds b)"
      using sd by (elim conjE, simp only:)+
    show ?thesis unfolding wd X md by simp
  qed
  ultimately show ?thesis by blast
qed

lemma polled_phases:
  assumes sch: "schedules_ok N ocap ds (ceil_div n N) schs"
    and ds: "\<forall>d \<in> set ds. good d" "length ds = n"
    and N: "0 < N" and B: "0 < B" and ocap: "ocap = B div pod_size P"
  shows "\<exists>ps L. polled_batches body P B N names n schs = Some ps \<and>
    phases_inv P B N names n (ceil_div n N) (mset (map (core) ds)) ps L"
proof -
  let ?work = "\<lambda>w. poll_work body (schs ! w)"
  let ?cs = "map (\<lambda>sch. (bs_random sch, bs_order sch)) schs"
  have len: "length schs = ceil_div n N"
    using sch by (simp add: schedules_ok_def)
  have w: "choice_ok (?work j) N (?cs ! j) \<and> work_ok (?work j) N ocap \<and>
      length (with_work (?work j) N) = min N (n - j * N) \<and>
      mset (batch_cores ?work N j) = mset (map (core) (run_of N ds j))" if "j < length schs" for j
  proof -
    have "schedule_ok N ocap ds j (schs ! j)" using sch that by (simp add: schedules_ok_def)
    from schedule_work [OF this ds(1)] that ds(2) show ?thesis by (simp add: batch_cores_def)
  qed
  have cond: "\<forall>j < length ?cs. choice_ok (?work (0 + j)) N (?cs ! j) \<and> work_ok (?work (0 + j)) N ocap \<and>
      length (with_work (?work (0 + j)) N) = min N (n - (0 + j) * N)"
    using w by simp
  have init: "phases_inv P B N names n 0 {#} (initial_push_state (ordered_underlying_sequence (new_sequence n))) []"
    using phases_init [of P B N names "ordered_underlying_sequence (new_sequence n)"]
    by (simp add: new_sequence_def)
  have "0 + length ?cs \<le> ceil_div n N" using len by simp
  from two_phase_batches_result [OF cond [unfolded ocap] N B this init]
  obtain ps L where run: "two_phase_batches ?work P B N names 0 ?cs
        (initial_push_state (ordered_underlying_sequence (new_sequence n))) = Some ps"
    and inv: "phases_inv P B N names n (0 + length ?cs)
       ({#} + mset (concat (map (batch_cores ?work N) [0..<0 + length ?cs]))) ps L" by blast
  have "mset (concat (map (batch_cores ?work N) [0..<length schs]))
      = mset (concat (map (\<lambda>j. map (core) (run_of N ds j)) [0..<length schs]))"
    using w by (auto simp: mset_concat_map intro!: arg_cong [where f = sum_mset] image_mset_cong)
  also have "concat (map (\<lambda>j. map (core) (run_of N ds j)) [0..<length schs])
      = map (core) (concat (map (run_of N ds) [0..<length schs]))"
    by (simp add: map_concat comp_def)
  also have "\<dots> = map (core) ds"
    using concat_runs_ceil [OF N, of ds] by (simp add: len ds(2))
  finally show ?thesis unfolding polled_batches_def batch_choices_def using run inv len by (intro exI [of _ ps] exI [of _ L]) simp
qed

end

section \<open>Schedules exist\<close>

lemma schedule_exists:
  assumes "0 < N"
  shows "\<exists>sch :: ('a, 'b) batch_schedule. schedule_ok N cap ds b sch"
proof -
  let ?bp = "run_of N ds b"
  define sch :: "('a, 'b) batch_schedule" where "sch = \<lparr>bs_random = replicate N 0,
      bs_polled = map Some ?bp @ replicate (N - length ?bp) None, bs_order = [],
      bs_fresh = replicate N (replicate cap undefined)\<rparr>"
  have "schedule_ok N cap ds b (sch\<lparr>bs_order := with_data sch\<rparr>)"
    using assms by (simp add: schedule_ok_def sch_def with_data_def)
  then show ?thesis by blast
qed

lemma schedules_exist:
  assumes "0 < N"
  shows "\<exists>schs :: ('a, 'b) batch_schedule list. schedules_ok N cap ds m schs"
proof -
  have "\<forall>b. \<exists>sch :: ('a, 'b) batch_schedule. schedule_ok N cap ds b sch"
    using schedule_exists [OF assms] by blast
  then obtain f :: "nat \<Rightarrow> ('a, 'b) batch_schedule" where "\<forall>b. schedule_ok N cap ds b (f b)"
    by metis
  then have "schedules_ok N cap ds m (map f [0..<m])"
    by (simp add: schedules_ok_def)
  then show ?thesis by blast
qed

end
