(* ===== verification/ExternalFilter.thy ===== *)
theory ExternalFilter
  imports PolledBatches
begin

text \<open>
  Plaidlay/externalFilter.h: \<open>ExternalFilter\<close>. The input blocks are polled in batches of \<open>N\<close>
  (\<open>NUM_SSDS\<close>) parallel tasks; each task keeps the elements of its block that satisfy the
  predicate in a buffer of its own, which then goes through the two phases of TwoPhase.
\<close>

definition expected_batches :: "nat \<Rightarrow> nat \<Rightarrow> nat" where
  "expected_batches N n = (if n mod N = 0 then n div N else n div N + 1)"

fun filter_loop :: "('a \<Rightarrow> bool) \<Rightarrow> 'a list \<Rightarrow> 'a list \<Rightarrow> nat \<Rightarrow> 'a list \<times> nat" where
  "filter_loop p [] buf k = (buf, k)"
| "filter_loop p (x # xs) buf k =
     (if p x then filter_loop p xs (buf[k := x]) (k + 1) else filter_loop p xs buf k)"

definition filter_work :: "('a \<Rightarrow> bool) \<Rightarrow> ('a, 'a) task_body" where
  "filter_work p d fresh =
     (let (buf, k) = filter_loop p (take (bd_size d) (bd_data d)) fresh 0 in (buf, k, bd_index d))"

text \<open>\<open>total_valid\<close>, in \<open>size_t\<close> arithmetic: for no blocks the first product wraps around.\<close>

definition total_valid :: "nat \<Rightarrow> nat \<Rightarrow> nat" where
  "total_valid N n = unat ((of_nat (expected_batches N n) - 1) * of_nat N
     + (if n mod N = 0 then of_nat N else of_nat (n mod N)) :: u64)"

definition resize :: "nat \<Rightarrow> chunk_header list \<Rightarrow> chunk_header list" where
  "resize n hs = take n hs @ replicate (n - length hs) default_header"

definition filter_core :: "('a \<Rightarrow> bool) \<Rightarrow> 'a pod \<Rightarrow> nat \<Rightarrow> nat \<Rightarrow> string list \<Rightarrow> nat \<Rightarrow>
    ('a, 'a) batch_schedule list \<Rightarrow> (External_Sequence \<times> 'a write_request list) option" where
  "filter_core p P B N names n schs =
     map_option (\<lambda>ps. (\<lparr>ordered_underlying_sequence =
           sort_key h_index (resize (total_valid N n) (ps_headers ps))\<rparr>, ps_requests ps))
       (polled_batches (filter_work p) P B N names n schs)"

definition filter_writer_config :: UnorderedChunkWriterConfig where
  "filter_writer_config = default_writer_config\<lparr>wc_num_threads := 2\<rparr>"

text \<open>
  \<open>ExternalFilter\<close> over the store \<open>fs\<close> can return \<open>out\<close> and leave the store \<open>fs'\<close>. The reader
  works on the input files while the writer fills the new ones.
\<close>

definition ExternalFilter :: "('a \<Rightarrow> bool) \<Rightarrow> 'a pod \<Rightarrow> nat \<Rightarrow> nat \<Rightarrow> nat \<Rightarrow> string list \<Rightarrow> string list \<Rightarrow> fstore \<Rightarrow>
    External_Sequence \<Rightarrow> External_Sequence \<Rightarrow> fstore \<Rightarrow> bool" where
  "ExternalFilter p P A B N ssds names fs s out fs' \<longleftrightarrow>
     (\<exists>ds schs rs.
        reader_polls P A B default_reader_config fs (ordered_underlying_sequence s) ds \<and>
        schedules_ok N (B div pod_size P) ds (expected_batches N (seq_size s)) schs \<and>
        filter_core p P B N names (seq_size s) schs = Some (out, rs) \<and>
        chunk_writer_runs A ssds filter_writer_config P names fs rs fs')"

section \<open>The loop over one block\<close>

lemma filter_loop_result:
  "k + length (filter p xs) \<le> length buf \<Longrightarrow>
   length (fst (filter_loop p xs buf k)) = length buf \<and>
   snd (filter_loop p xs buf k) = k + length (filter p xs) \<and>
   take (k + length (filter p xs)) (fst (filter_loop p xs buf k)) = take k buf @ filter p xs"
proof (induction p xs buf k rule: filter_loop.induct)
  case (1 p buf k)
  then show ?case by simp
next
  case (2 p x xs buf k)
  show ?case
  proof (cases "p x")
    case True
    with 2 show ?thesis by (simp add: take_update_Suc)
  next
    case False
    with 2 show ?thesis by simp
  qed
qed

section \<open>The batches\<close>

definition kept_core :: "('a \<Rightarrow> bool) \<Rightarrow> 'a BufferData \<Rightarrow> nat \<times> 'a list" where
  "kept_core p d = (bd_index d, filter p (snd (bd_core d)))"

lemma expected_batches_ceil: "0 < N \<Longrightarrow> expected_batches N n = ceil_div n N"
  by (simp add: expected_batches_def ceil_div_eq_split)

interpretation filter_task: block_work "filter_work p" "bd_ok cap" cap "kept_core p" for p cap
proof
  fix d :: "'a BufferData" and fresh buf k index
  assume ok: "bd_ok cap d" and f: "length fresh = cap" and w: "filter_work p d fresh = (buf, k, index)"
  let ?xs = "take (bd_size d) (bd_data d)"
  have fl: "filter_loop p ?xs fresh 0 = (buf, k)" and ix: "index = bd_index d"
    using w by (auto simp: filter_work_def split: prod.splits)
  have "length (filter p ?xs) \<le> length ?xs" by (rule length_filter_le)
  also have "\<dots> \<le> cap" using ok by (simp add: bd_ok_def)
  finally have le: "length (filter p ?xs) \<le> cap" .
  with filter_loop_result [of 0 p ?xs fresh] f fl
  have "length buf = cap" "k = length (filter p ?xs)" "take k buf = filter p ?xs" by simp_all
  with ix le show "length buf = cap \<and> k \<le> cap \<and> (index, take k buf) = kept_core p d"
    by (simp add: kept_core_def bd_core_def)
qed

lemma total_valid_eq:
  assumes "0 < N" and "n < 2 ^ 64" and "N < 2 ^ 64"
  shows "total_valid N n = n"
proof (cases "n = 0")
  case True
  have "(of_nat (expected_batches N n) - 1) * of_nat N + of_nat N = (0 :: u64)"
    using True by (simp add: expected_batches_def)
  then show ?thesis using True by (simp add: total_valid_def)
next
  case False
  let ?q = "expected_batches N n"
  let ?r = "if n mod N = 0 then N else n mod N"
  have q: "0 < ?q" using False assms(1) by (auto simp: expected_batches_def)
  have "(?q - 1) * N + ?r = n"
  proof (cases "n mod N = 0")
    case True
    then obtain k where k: "n = N * k" by (metis mod_0_imp_dvd dvdE)
    with False have "0 < k" by (cases k) auto
    with k True assms(1) show ?thesis
      by (cases k) (simp_all add: expected_batches_def)
  next
    case False
    then have "?q - 1 = n div N" by (simp add: expected_batches_def)
    with False show ?thesis by simp
  qed
  then have "of_nat ((?q - 1) * N + ?r) = (of_nat n :: u64)" by simp
  moreover have "of_nat ((?q - 1) * N + ?r) = (of_nat ?q - 1) * of_nat N
      + (if n mod N = 0 then of_nat N else of_nat (n mod N) :: u64)"
    using q by (simp add: of_nat_diff)
  ultimately have "total_valid N n = unat (of_nat n :: u64)" by (simp only: total_valid_def)
  also have "\<dots> = n" using assms(2) by (simp add: unat_of_nat)
  finally show ?thesis .
qed

lemma filter_core_result:
  assumes sch: "schedules_ok N (B div pod_size P) ds (expected_batches N n) schs"
    and ds: "\<forall>d \<in> set ds. bd_ok (B div pod_size P) d" "length ds = n"
    and N: "0 < N" "N < 2 ^ 64" and B: "0 < B" and n: "n < 2 ^ 64"
  shows "\<exists>hs L. filter_core p P B N names n schs =
      Some (\<lparr>ordered_underlying_sequence = sort_key h_index hs\<rparr>, map (entry_request (B div pod_size P)) L) \<and>
    mset hs = mset (map (entry_header names (pod_size P)) L) \<and>
    (\<exists>offs. placed B (B div pod_size P) N offs L) \<and>
    mset (map entry_core L) = mset (map (kept_core p) ds)"
proof -
  obtain ps L where run: "polled_batches (filter_work p) P B N names n schs = Some ps"
    and inv: "phases_inv P B N names n (ceil_div n N) (mset (map (kept_core p) ds)) ps L"
    using filter_task.polled_phases [OF sch [unfolded expected_batches_ceil [OF N(1)]] ds N(1) B refl] by blast
  have "resize (total_valid N n) (ps_headers ps) = ps_headers ps"
    using total_valid_eq [OF N(1) n N(2)] inv by (simp add: resize_def phases_inv_def)
  moreover have "ps_requests ps = map (entry_request (B div pod_size P)) L"
    using inv by (simp add: phases_inv_def)
  ultimately have "filter_core p P B N names n schs = Some
      (\<lparr>ordered_underlying_sequence = sort_key h_index (ps_headers ps)\<rparr>, map (entry_request (B div pod_size P)) L)"
    by (simp only: filter_core_def run option.map)
  moreover have "mset (ps_headers ps) = mset (map (entry_header names (pod_size P)) L)"
    using inv ceil_div_ge [OF N(1)] by (rule phases_done)
  ultimately show ?thesis using inv by (auto simp: phases_inv_def)
qed

section \<open>The whole filter\<close>

lemma kept_core_bd: "kept_core p d = (fst (bd_core d), filter p (snd (bd_core d)))"
  by (simp add: kept_core_def bd_core_def)

lemma ordered_kept:
  assumes "mset cs = mset (map (kept_core p) ds)" and "distinct (map bd_index ds)"
  shows "ordered_elems cs = filter p (ordered_elems (map bd_core ds)) \<and> distinct (map fst cs)"
proof -
  have eq: "map (kept_core p) ds = map (\<lambda>b. (fst b, filter p (snd b))) (map bd_core ds)"
    by (simp add: kept_core_bd)
  have fm: "map fst (map (kept_core p) ds) = map bd_index ds" by (simp add: kept_core_def)
  have dist: "distinct (map fst (map (kept_core p) ds))" using assms(2) by (simp only: fm)
  then have dc: "distinct (map fst cs)" using mset_map_eq_distinct [OF assms(1) [symmetric]] by blast
  have "ordered_elems cs = ordered_elems (map (kept_core p) ds)"
    using assms(1) dc by (rule ordered_elems_perm)
  also have "\<dots> = filter p (ordered_elems (map bd_core ds))"
    unfolding eq by (rule ordered_elems_map_blocks) simp_all
  finally show ?thesis using dc by blast
qed

lemma ExternalFilter_entries:
  assumes run: "ExternalFilter p P A B N ssds names fs s out fs'"
    and P: "pod_repr P" and env: "env_ok P A B N names" and wf: "wf_seq P B fs s"
    and size: "seq_size s < 2 ^ 64" and xs: "ReadOutput P fs s = Some xs"
  shows "wf_seq P B fs' out \<and> ReadOutput P fs' out = Some (filter p xs) \<and>
    mset (map h_index (ordered_underlying_sequence out)) = mset (map h_index (ordered_underlying_sequence s)) \<and>
    blocks_apart B names (ordered_underlying_sequence out)"
proof -
  let ?cap = "B div pod_size P" and ?hs = "ordered_underlying_sequence s"
  note cap = env_ok_cap [OF env P]
  have e: "0 < A" "A dvd B" "0 < N" "N < 2 ^ 64" "0 < B" "length names = N" "distinct names"
    using env by (simp_all add: env_ok_def)
  have sz: "0 < pod_size P" using pod_repr.size_pos [OF P] .
  have blocks: "\<forall>h \<in> set ?hs. wf_block P B fs h" using wf by (simp add: wf_seq_def)
  from run obtain ds schs rs where polls: "reader_polls P A B default_reader_config fs ?hs ds"
    and sch: "schedules_ok N ?cap ds (expected_batches N (seq_size s)) schs"
    and core: "filter_core p P B N names (seq_size s) schs = Some (out, rs)"
    and wr: "chunk_writer_runs A ssds filter_writer_config P names fs rs fs'"
    by (auto simp: ExternalFilter_def)
  note pol = polls default_reader_config_ok sz e(1,2) blocks
  have ok: "\<forall>d \<in> set ds. bd_ok ?cap d" using chunk_reader.polls_ok [OF pol] .
  have len: "length ds = seq_size s" using chunk_reader.polls_length [OF pol] by (simp add: seq_size_def)
  have idx: "mset (map bd_index ds) = mset (map h_index ?hs)" using chunk_reader.polls_index [OF pol] .
  have dist: "distinct (map bd_index ds)"
    using wf idx by (metis mset_eq_imp_distinct_iff wf_seq_def)
  from filter_core_result [OF sch ok len e(3,4,5) size, of p names] core
  obtain hs L offs where out: "out = \<lparr>ordered_underlying_sequence = sort_key h_index hs\<rparr>"
    and rs: "rs = map (entry_request ?cap) L"
    and hs: "mset hs = mset (map (entry_header names (pod_size P)) L)"
    and pl: "placed B ?cap N offs L" and ec: "mset (map entry_core L) = mset (map (kept_core p) ds)"
    by auto
  note keep = ordered_kept [OF ec dist]
  have di: "distinct (map e_index L)" using keep by (simp add: comp_def entry_core_def)
  have hs': "mset (sort_key h_index hs) = mset (map (entry_header names (pod_size P)) L)" using hs by simp
  have rs': "mset rs = mset (map (entry_request ?cap) L)" using rs by simp
  from chunk_writer.sink_ReadOutput [OF P wr rs' pl conjunct1 [OF cap] conjunct2 [OF cap] e(6,7) hs' di]
  have "wf_seq P B fs' out" and "ReadOutput P fs' out = Some (ordered_elems (map entry_core L))"
    by (simp_all add: out)
  moreover have "ReadOutput P fs s = Some (ordered_elems (map bd_core ds))"
    using chunk_reader.polls_ordered [OF polls default_reader_config_ok sz e(1,2) wf] .
  moreover have "mset (map h_index (ordered_underlying_sequence out)) = mset (map h_index ?hs)"
  proof -
    have "mset (map h_index (ordered_underlying_sequence out)) = image_mset h_index (mset hs)"
      by (simp add: out)
    also have "\<dots> = mset (map e_index L)"
      using hs by (simp add: comp_def image_mset.compositionality entry_header_def)
    also have "\<dots> = mset (map fst (map entry_core L))" by (simp add: comp_def entry_core_def)
    also have "\<dots> = image_mset fst (mset (map (kept_core p) ds))" using ec by (metis mset_map)
    also have "\<dots> = mset (map bd_index ds)"
      by (simp add: comp_def image_mset.compositionality kept_core_def)
    finally show ?thesis using idx by simp
  qed
  moreover have "blocks_apart B names (ordered_underlying_sequence out)" using placed_apart [OF pl hs' e(6,7)] out by simp
  ultimately show ?thesis using keep xs by simp
qed

lemma ExternalFilter_exists:
  assumes P: "pod_repr P" and env: "env_ok P A B N names" and wf: "wf_seq P B fs s"
    and size: "seq_size s < 2 ^ 64"
  shows "\<exists>out fs'. ExternalFilter p P A B N ssds names fs s out fs'"
proof -
  let ?cap = "B div pod_size P" and ?hs = "ordered_underlying_sequence s"
  note cap = env_ok_cap [OF env P]
  have e: "0 < A" "A dvd B" "0 < N" "N < 2 ^ 64" "0 < B" "length names = N" "distinct names"
    using env by (simp_all add: env_ok_def)
  have sz: "0 < pod_size P" using pod_repr.size_pos [OF P] .
  have blocks: "\<forall>h \<in> set ?hs. wf_block P B fs h" using wf by (simp add: wf_seq_def)
  obtain ds where polls: "reader_polls P A B default_reader_config fs ?hs ds"
    using chunk_reader.polls_exist [OF default_reader_config_ok sz e(1,2) blocks] by blast
  note pol = polls default_reader_config_ok sz e(1,2) blocks
  have ok: "\<forall>d \<in> set ds. bd_ok ?cap d" using chunk_reader.polls_ok [OF pol] .
  have len: "length ds = seq_size s" using chunk_reader.polls_length [OF pol] by (simp add: seq_size_def)
  obtain schs :: "('a, 'a) batch_schedule list" where sch: "schedules_ok N ?cap ds (expected_batches N (seq_size s)) schs"
    using schedules_exist [OF e(3)] by blast
  from filter_core_result [OF sch ok len e(3,4,5) size, of p names]
  obtain hs L offs where core: "filter_core p P B N names (seq_size s) schs =
      Some (\<lparr>ordered_underlying_sequence = sort_key h_index hs\<rparr>, map (entry_request ?cap) L)"
    and pl: "placed B ?cap N offs L" by blast
  have "\<forall>r \<in> set (map (entry_request ?cap) L). valid_request P A (length names) r \<and> push_check P A r"
    using entry_requests_valid [OF pl env P] e(6) by simp
  then have "\<exists>fs'. chunk_writer_runs A ssds filter_writer_config P names fs (map (entry_request ?cap) L) fs'"
    using e by (intro writer_runs_exists) (auto simp: filter_writer_config_def default_writer_config_def)
  then show ?thesis unfolding ExternalFilter_def using polls sch core by blast
qed

section \<open>Properties\<close>

text \<open>C1: \<open>ExternalFilter\<close> is correct: whatever the order in which the reader delivers the blocks,
the scheduler runs the tasks, the random generator picks the files and the writer completes the
writes, reading the result back gives exactly the elements of the input that satisfy the
predicate, in their order; the result is well formed, its headers carry the ordering keys of the
input's blocks and are sorted by them, and no two blocks share a place in the files.\<close>

theorem ExternalFilter_correct:
  assumes "ExternalFilter p P A B N ssds names fs s out fs'"
    and "pod_repr P" and "env_ok P A B N names" and "wf_seq P B fs s" and "seq_size s < 2 ^ 64"
    and "ReadOutput P fs s = Some xs" and "fresh_seq s names"
  shows "ReadOutput P fs' out = Some (filter p xs) \<and> wf_seq P B fs' out \<and>
    map h_index (ordered_underlying_sequence out) = sort (map h_index (ordered_underlying_sequence s)) \<and>
    blocks_apart B names (ordered_underlying_sequence out)"
proof -
  note fe = ExternalFilter_entries [OF assms(1-6)]
  from assms(1) have "sorted (map h_index (ordered_underlying_sequence out))"
    by (auto simp: ExternalFilter_def filter_core_def)
  then have "map h_index (ordered_underlying_sequence out) = sort (map h_index (ordered_underlying_sequence s))"
    using fe by (metis properties_for_sort)
  with fe show ?thesis by blast
qed

lemma ExternalFilter_correct_witness:
  "\<exists>out fs'. ExternalFilter (\<lambda>x. x < 6) u8_pod 2 4 2 [] [''o0'', ''o1''] demo_fs demo_seq out fs' \<and>
     ReadOutput u8_pod fs' out = Some [5, 1, 2, 3, 4]"
proof -
  have n: "seq_size demo_seq < 2 ^ 64" by (simp add: demo_size)
  obtain out fs' where run: "ExternalFilter (\<lambda>x. x < 6) u8_pod 2 4 2 [] [''o0'', ''o1''] demo_fs demo_seq out fs'"
    using ExternalFilter_exists [OF u8_repr.pod_repr_axioms demo_env demo_wf n] by blast
  from ExternalFilter_correct [OF run u8_repr.pod_repr_axioms demo_env demo_wf n demo_output demo_fresh] run
  show ?thesis by auto
qed

text \<open>\<open>ExternalFilter\<close> returns: on every well-formed input there is a complete run of reader,
tasks and writer, in which no header is written outside the header array and no \<open>CHECK\<close> fails.\<close>

theorem ExternalFilter_returns:
  assumes P: "pod_repr P" and env: "env_ok P A B N names" and wf: "wf_seq P B fs s"
    and size: "seq_size s < 2 ^ 64" and "fresh_seq s names"
  shows "\<exists>out fs'. ExternalFilter p P A B N ssds names fs s out fs'"
  using assms(1-4) by (rule ExternalFilter_exists)

lemma ExternalFilter_returns_witness:
  "\<exists>out fs'. ExternalFilter (\<lambda>x. x < 6) u8_pod 2 4 2 [] [''o0'', ''o1''] demo_fs demo_seq out fs'"
  using ExternalFilter_returns [OF u8_repr.pod_repr_axioms demo_env demo_wf _ demo_fresh] by (simp add: demo_size)

end
