(* ===== verification/Generators.thy ===== *)
theory Generators
  imports TwoPhase
begin

text \<open>
  Plaidlay/ExternalIota.h and Plaidlay/ExternalBoolean.h: the primitives that create a sequence of
  \<open>n\<close> elements on disk. The task \<open>i\<close> of batch \<open>w\<close> produces the chunk \<open>w * N + i\<close>, if there is one;
  the chunks go through the two phases of TwoPhase. The numbers of chunks and of batches are
  \<open>size_t\<close>, and wrap around for an \<open>n\<close> close to \<open>2 ^ 64\<close>; the theorems assume that they do not.
\<close>

definition num_chunks :: "nat \<Rightarrow> nat \<Rightarrow> nat" where
  "num_chunks cap n = (n + cap - 1) mod 2 ^ 64 div cap"

definition expected_write_count :: "nat \<Rightarrow> nat \<Rightarrow> nat \<Rightarrow> nat" where
  "expected_write_count cap N n = (num_chunks cap n + N - 1) mod 2 ^ 64 div N"

text \<open>The body of the parallel loop; \<open>fill begin_val k\<close> is the \<open>k\<close>-th element of the buffer.\<close>

definition chunk_work :: "(nat \<Rightarrow> nat \<Rightarrow> 'b) \<Rightarrow> nat \<Rightarrow> nat \<Rightarrow> nat \<Rightarrow> nat \<Rightarrow> 'b work" where
  "chunk_work fill n cap N w i =
     (let global_chunk = w * N + i
      in if num_chunks cap n \<le> global_chunk then None
         else let begin_val = global_chunk * cap;
                  valid = (if begin_val < n then min cap (n - begin_val) else 0)
              in Some (map (fill begin_val) [0..<cap], valid, global_chunk))"

text \<open>Iota stores \<open>begin_val + k\<close>, converted to the element type; the other one stores \<open>val\<close>.\<close>

definition iota_work :: "(nat \<Rightarrow> 'b) \<Rightarrow> nat \<Rightarrow> nat \<Rightarrow> nat \<Rightarrow> nat \<Rightarrow> 'b work" where
  "iota_work conv = chunk_work (\<lambda>begin_val k. conv (begin_val + k))"

definition bool_work :: "'b \<Rightarrow> nat \<Rightarrow> nat \<Rightarrow> nat \<Rightarrow> nat \<Rightarrow> 'b work" where
  "bool_work val = chunk_work (\<lambda>begin_val k. val)"

definition generator_config :: UnorderedChunkWriterConfig where
  "generator_config = default_writer_config\<lparr>wc_num_threads := 2\<rparr>"

definition choices_ok :: "(nat \<Rightarrow> 'b work) \<Rightarrow> nat \<Rightarrow> (nat list \<times> nat list) list \<Rightarrow> bool" where
  "choices_ok work N choices \<longleftrightarrow> (\<forall>w < length choices. choice_ok (work w) N (choices ! w))"

text \<open>
  The batches over the given sequence \<open>s\<close>, whose header slots are overwritten, the final sort,
  and what the writer leaves on disk.
\<close>

definition generate :: "(nat \<Rightarrow> 'b work) \<Rightarrow> 'b pod \<Rightarrow> nat \<Rightarrow> nat \<Rightarrow> nat \<Rightarrow> string list \<Rightarrow> string list \<Rightarrow> fstore \<Rightarrow>
    nat \<Rightarrow> External_Sequence \<Rightarrow> External_Sequence \<Rightarrow> fstore \<Rightarrow> bool" where
  "generate work P A B N ssds names fs batches s out fs' \<longleftrightarrow>
     (\<exists>choices ps. length choices = batches \<and> choices_ok work N choices \<and>
        two_phase_batches work P B N names 0 choices
          (initial_push_state (ordered_underlying_sequence s)) = Some ps \<and>
        out = \<lparr>ordered_underlying_sequence = sort_key h_index (ps_headers ps)\<rparr> \<and>
        chunk_writer_runs A ssds generator_config P names fs (ps_requests ps) fs')"

definition ExternalIota :: "(nat \<Rightarrow> 'b) \<Rightarrow> 'b pod \<Rightarrow> nat \<Rightarrow> nat \<Rightarrow> nat \<Rightarrow> string list \<Rightarrow> nat \<Rightarrow> External_Sequence \<Rightarrow>
    string list \<Rightarrow> fstore \<Rightarrow> External_Sequence \<Rightarrow> fstore \<Rightarrow> bool" where
  "ExternalIota conv P A B N ssds n s names fs out fs' \<longleftrightarrow>
     generate (iota_work conv n (B div pod_size P) N) P A B N ssds names fs
       (expected_write_count (B div pod_size P) N n) s out fs'"

definition BoolCreate :: "'b \<Rightarrow> 'b pod \<Rightarrow> nat \<Rightarrow> nat \<Rightarrow> nat \<Rightarrow> string list \<Rightarrow> nat \<Rightarrow> External_Sequence \<Rightarrow>
    string list \<Rightarrow> fstore \<Rightarrow> External_Sequence \<Rightarrow> fstore \<Rightarrow> bool" where
  "BoolCreate val P A B N ssds n s names fs out fs' \<longleftrightarrow>
     generate (bool_work val n (B div pod_size P) N) P A B N ssds names fs
       (expected_write_count (B div pod_size P) N n) s out fs'"

section \<open>The chunks of all batches\<close>

text \<open>Neither of the two sums wraps around.\<close>

definition counts_fit :: "nat \<Rightarrow> nat \<Rightarrow> nat \<Rightarrow> bool" where
  "counts_fit cap N n \<longleftrightarrow> 0 < cap \<and> 0 < N \<and> n + cap + N \<le> 2 ^ 64"

lemma num_chunks_ceil: "0 < cap \<Longrightarrow> n + cap \<le> 2 ^ 64 \<Longrightarrow> num_chunks cap n = ceil_div n cap"
  by (simp add: num_chunks_def ceil_div_def)

lemma num_chunks_le: "num_chunks cap n \<le> ceil_div n cap"
  by (simp add: num_chunks_def ceil_div_def div_le_mono)

lemma counts_fit_chunks: "counts_fit cap N n \<Longrightarrow> num_chunks cap n = ceil_div n cap"
  by (simp add: counts_fit_def num_chunks_ceil)

lemma counts_fit_batches:
  assumes "counts_fit cap N n"
  shows "expected_write_count cap N n = ceil_div (num_chunks cap n) N"
proof -
  have "ceil_div n cap \<le> n"
  proof (rule ccontr)
    assume "\<not> ceil_div n cap \<le> n"
    then have "n * cap < n" using less_ceil_div_iff [of cap n n] assms by (simp add: counts_fit_def)
    then show False using assms by (simp add: counts_fit_def)
  qed
  then have "num_chunks cap n + N - 1 < 2 ^ 64"
    using assms unfolding counts_fit_chunks [OF assms] counts_fit_def by linarith
  then show ?thesis by (simp add: expected_write_count_def ceil_div_def)
qed

text \<open>The chunk with number \<open>g\<close> holds the elements \<open>elem (g * cap)\<close> and so on, below \<open>n\<close>.\<close>

definition chunk_of :: "(nat \<Rightarrow> 'b) \<Rightarrow> nat \<Rightarrow> nat \<Rightarrow> nat \<Rightarrow> nat \<times> 'b list" where
  "chunk_of elem n cap g = (g, run_of cap (map elem [0..<n]) g)"

definition fills :: "(nat \<Rightarrow> nat \<Rightarrow> 'b) \<Rightarrow> (nat \<Rightarrow> 'b) \<Rightarrow> bool" where
  "fills fill elem \<longleftrightarrow> (\<forall>b k. fill b k = elem (b + k))"

lemma chunk_work_Some:
  assumes "w * N + i < num_chunks cap n" and fill: "fills fill elem" and cap: "0 < cap"
  shows "\<exists>k. chunk_work fill n cap N w i = Some (map (fill ((w * N + i) * cap)) [0..<cap], k, w * N + i) \<and>
    k \<le> cap \<and> work_core (chunk_work fill n cap N w) i = chunk_of elem n cap (w * N + i)"
proof -
  let ?g = "w * N + i"
  have lt: "?g * cap < n" using assms(1) less_ceil_div_iff [OF cap] num_chunks_le [of cap n] by (meson less_le_trans)
  let ?k = "min cap (n - ?g * cap)"
  have cw: "chunk_work fill n cap N w i = Some (map (fill (?g * cap)) [0..<cap], ?k, ?g)"
    using assms(1) lt by (simp add: chunk_work_def Let_def)
  have "take ?k (map (fill (?g * cap)) [0..<cap]) = run_of cap (map elem [0..<n]) ?g"
  proof (rule nth_equalityI)
    show "length (take ?k (map (fill (?g * cap)) [0..<cap])) = length (run_of cap (map elem [0..<n]) ?g)"
      by (simp add: run_of_def min.commute)
    fix j assume "j < length (take ?k (map (fill (?g * cap)) [0..<cap]))"
    then have "j < cap" "j < n - ?g * cap" by simp_all
    then show "take ?k (map (fill (?g * cap)) [0..<cap]) ! j = run_of cap (map elem [0..<n]) ?g ! j"
      using fill by (simp add: run_of_def fills_def)
  qed
  then show ?thesis using cw by (simp add: work_core_def chunk_of_def)
qed

lemma chunk_work_None: "chunk_work fill n cap N w i = None \<longleftrightarrow> num_chunks cap n \<le> w * N + i"
  by (simp add: chunk_work_def Let_def)

lemma chunk_work_with: "with_work (chunk_work fill n cap N w) N = [0..<min N (num_chunks cap n - w * N)]"
proof -
  have "(\<lambda>i. chunk_work fill n cap N w i \<noteq> None) = (\<lambda>i. i < num_chunks cap n - w * N)"
    by (auto simp: chunk_work_None fun_eq_iff)
  then show ?thesis by (simp only: with_work_def filter_upt_less)
qed

lemma chunk_work_ok:
  assumes "fills fill elem" and "0 < cap"
  shows "work_ok (chunk_work fill n cap N w) N cap"
  unfolding work_ok_def
proof (intro allI impI)
  fix i buf k g assume cw: "chunk_work fill n cap N w i = Some (buf, k, g)"
  then have "w * N + i < num_chunks cap n" using chunk_work_None [of fill n cap N w i] by simp
  with chunk_work_Some [OF this assms] cw show "length buf = cap \<and> k \<le> cap" by auto
qed

lemma chunk_batch_cores:
  assumes "fills fill elem" and "0 < cap"
  shows "batch_cores (chunk_work fill n cap N) N w = map (chunk_of elem n cap) (run_of N [0..<num_chunks cap n] w)"
proof -
  let ?m = "min N (num_chunks cap n - w * N)"
  have "batch_cores (chunk_work fill n cap N) N w = map (\<lambda>i. chunk_of elem n cap (w * N + i)) [0..<?m]"
    unfolding batch_cores_def chunk_work_with
  proof (rule map_cong [OF refl])
    fix i assume "i \<in> set [0..<?m]"
    then have "w * N + i < num_chunks cap n" by (simp add: less_diff_conv add.commute)
    from chunk_work_Some [OF this assms]
    show "work_core (chunk_work fill n cap N w) i = chunk_of elem n cap (w * N + i)" by blast
  qed
  also have "\<dots> = map (chunk_of elem n cap) (map (\<lambda>i. w * N + i) [0..<?m])" by simp
  also have "map (\<lambda>i. w * N + i) [0..<?m] = run_of N [0..<num_chunks cap n] w"
    by (rule nth_equalityI) (auto simp: run_of_def less_diff_conv add.commute)
  finally show ?thesis .
qed

lemma chunk_all_cores:
  assumes fill: "fills fill elem" and fit: "counts_fit cap N n"
  shows "concat (map (batch_cores (chunk_work fill n cap N) N) [0..<expected_write_count cap N n])
    = map (chunk_of elem n cap) [0..<num_chunks cap n]"
proof -
  have e: "0 < cap" "0 < N" using fit by (simp_all add: counts_fit_def)
  have eq: "map (batch_cores (chunk_work fill n cap N) N) ws = map (\<lambda>w. map (chunk_of elem n cap) (run_of N [0..<num_chunks cap n] w)) ws"
    for ws by (intro map_cong refl chunk_batch_cores [OF fill e(1)])
  have "concat (map (batch_cores (chunk_work fill n cap N) N) [0..<expected_write_count cap N n])
      = map (chunk_of elem n cap) (concat (map (run_of N [0..<num_chunks cap n]) [0..<expected_write_count cap N n]))"
    unfolding eq by (simp add: map_concat comp_def)
  also have "concat (map (run_of N [0..<num_chunks cap n]) [0..<expected_write_count cap N n]) = [0..<num_chunks cap n]"
    using concat_runs_ceil [OF e(2), of "[0..<num_chunks cap n]"]
    by (simp add: counts_fit_batches [OF fit])
  finally show ?thesis .
qed

lemma chunks_ordered:
  assumes "0 < cap" and "num_chunks cap n = ceil_div n cap"
  shows "ordered_elems (map (chunk_of elem n cap) [0..<num_chunks cap n]) = map elem [0..<n]"
proof -
  have "sort_key fst (map (chunk_of elem n cap) [0..<num_chunks cap n]) = map (chunk_of elem n cap) [0..<num_chunks cap n]"
    by (rule sort_key_id_if_sorted) (simp add: chunk_of_def comp_def)
  then have "ordered_elems (map (chunk_of elem n cap) [0..<num_chunks cap n])
      = concat (map (run_of cap (map elem [0..<n])) [0..<num_chunks cap n])"
    by (simp add: ordered_elems_def chunk_of_def comp_def)
  also have "\<dots> = map elem [0..<n]"
    using concat_runs_ceil [OF assms(1), of "map elem [0..<n]"] by (simp add: assms(2))
  finally show ?thesis .
qed

section \<open>Generating is correct\<close>

lemma generate_phases:
  assumes fill: "fills fill elem" and fit: "counts_fit (B div pod_size P) N n" and B: "0 < B"
    and ch: "length choices = expected_write_count (B div pod_size P) N n"
      "choices_ok (chunk_work fill n (B div pod_size P) N) N choices"
    and s: "seq_size s = num_chunks (B div pod_size P) n"
  shows "\<exists>ps L. two_phase_batches (chunk_work fill n (B div pod_size P) N) P B N names 0 choices
      (initial_push_state (ordered_underlying_sequence s)) = Some ps \<and>
    phases_inv P B N names (seq_size s) (length choices)
      (mset (map (chunk_of elem n (B div pod_size P)) [0..<seq_size s])) ps L"
proof -
  let ?cap = "B div pod_size P"
  let ?work = "chunk_work fill n ?cap N"
  have cap: "0 < ?cap" and N: "0 < N" using fit by (simp_all add: counts_fit_def)
  have cond: "\<forall>j < length choices. choice_ok (?work (0 + j)) N (choices ! j) \<and> work_ok (?work (0 + j)) N ?cap \<and>
      length (with_work (?work (0 + j)) N) = min N (seq_size s - (0 + j) * N)"
    using ch(2) chunk_work_ok [OF fill cap] by (simp add: choices_ok_def chunk_work_with s)
  have init: "phases_inv P B N names (seq_size s) 0 {#} (initial_push_state (ordered_underlying_sequence s)) []"
    using phases_init [of P B N names "ordered_underlying_sequence s"] by (simp add: seq_size_def)
  have "0 + length choices \<le> ceil_div (seq_size s) N" using ch(1) by (simp add: counts_fit_batches [OF fit] s)
  from two_phase_batches_result [OF cond N B this init]
  show ?thesis using chunk_all_cores [OF fill fit] ch(1) s by auto
qed

lemma generate_correct:
  assumes gen: "generate (chunk_work fill n (B div pod_size P) N) P A B N ssds names fs
       (expected_write_count (B div pod_size P) N n) s out fs'"
    and fill: "fills fill elem"
    and P: "pod_repr P" and env: "env_ok P A B N names" and small: "n + B div pod_size P + N \<le> 2 ^ 64"
    and s: "seq_size s = num_chunks (B div pod_size P) n"
  shows "wf_seq P B fs' out \<and> ReadOutput P fs' out = Some (map elem [0..<n]) \<and>
    map h_index (ordered_underlying_sequence out) = [0..<num_chunks (B div pod_size P) n] \<and>
    mset (map (chunk_core P fs') (ordered_underlying_sequence out))
      = mset (map (chunk_of elem n (B div pod_size P)) [0..<num_chunks (B div pod_size P) n]) \<and>
    blocks_apart B names (ordered_underlying_sequence out)"
proof -
  let ?cap = "B div pod_size P"
  let ?cs = "map (chunk_of elem n ?cap) [0..<seq_size s]"
  have e: "0 < N" "0 < B" using env by (simp_all add: env_ok_def)
  have cap: "0 < ?cap" using env_ok_cap [OF env P] by blast
  have fit: "counts_fit ?cap N n" using cap e small by (simp add: counts_fit_def)
  from gen obtain choices ps where ch: "length choices = expected_write_count ?cap N n"
      "choices_ok (chunk_work fill n ?cap N) N choices"
    and run: "two_phase_batches (chunk_work fill n ?cap N) P B N names 0 choices
          (initial_push_state (ordered_underlying_sequence s)) = Some ps"
    and out: "out = \<lparr>ordered_underlying_sequence = sort_key h_index (ps_headers ps)\<rparr>"
    and wr: "chunk_writer_runs A ssds generator_config P names fs (ps_requests ps) fs'"
    by (auto simp: generate_def)
  obtain L where inv: "phases_inv P B N names (seq_size s) (length choices) (mset ?cs) ps L"
    using generate_phases [OF fill fit e(2) ch s, of names] run by auto
  have fst_cs: "map fst ?cs = [0..<seq_size s]" by (simp add: chunk_of_def comp_def)
  then have dist: "distinct (map fst ?cs)" by (simp only: distinct_upt)
  have "seq_size s \<le> length choices * N"
    using ceil_div_ge [OF e(1), of "seq_size s"] ch(1) by (simp add: counts_fit_batches [OF fit] s)
  note tw = two_phase_written [OF P env inv this wr dist]
  have "mset (map (chunk_core P fs') (sort_key h_index (ps_headers ps))) = mset ?cs"
    using tw by simp
  with tw show ?thesis
    using chunks_ordered [OF cap counts_fit_chunks [OF fit], of elem] unfolding out fst_cs by (simp add: s)
qed

lemma choices_exist: "0 < N \<Longrightarrow> \<exists>choices. length choices = m \<and> choices_ok work N choices"
  by (rule exI [of _ "map (\<lambda>w. (replicate N 0, with_work (work w) N)) [0..<m]"])
    (simp add: choices_ok_def choice_ok_def)

lemma generate_exists:
  assumes fill: "fills fill elem"
    and P: "pod_repr P" and env: "env_ok P A B N names" and small: "n + B div pod_size P + N \<le> 2 ^ 64"
    and s: "seq_size s = num_chunks (B div pod_size P) n"
  shows "\<exists>out fs'. generate (chunk_work fill n (B div pod_size P) N) P A B N ssds names fs
       (expected_write_count (B div pod_size P) N n) s out fs'"
proof -
  let ?cap = "B div pod_size P"
  have e: "0 < N" "0 < B" "length names = N" using env by (simp_all add: env_ok_def)
  have cap: "0 < ?cap" using env_ok_cap [OF env P] by blast
  have fit: "counts_fit ?cap N n" using cap e small by (simp add: counts_fit_def)
  obtain choices where ch: "length choices = expected_write_count ?cap N n"
      "choices_ok (chunk_work fill n ?cap N) N choices"
    using choices_exist [OF e(1)] by blast
  obtain ps L where run: "two_phase_batches (chunk_work fill n ?cap N) P B N names 0 choices
          (initial_push_state (ordered_underlying_sequence s)) = Some ps"
    and inv: "phases_inv P B N names (seq_size s) (length choices)
      (mset (map (chunk_of elem n ?cap) [0..<seq_size s])) ps L"
    using generate_phases [OF fill fit e(2) ch s] by blast
  have pl: "placed B ?cap N (ps_offsets ps) L" and rq: "ps_requests ps = map (entry_request ?cap) L"
    using inv unfolding phases_inv_def by simp_all
  have "\<forall>r \<in> set (ps_requests ps). valid_request P A (length names) r \<and> push_check P A r"
    unfolding rq using entry_requests_valid [OF pl env P] e(3) by simp
  then have "\<exists>fs'. chunk_writer_runs A ssds generator_config P names fs (ps_requests ps) fs'"
    using e by (intro writer_runs_exists) (auto simp: generator_config_def default_writer_config_def)
  then show ?thesis unfolding generate_def using ch run by blast
qed

section \<open>Properties\<close>

lemma demo_small: "7 + 4 div pod_size u8_pod + 2 \<le> 2 ^ 64"
  by (simp add: u8_pod_def)

lemma demo_blank: "seq_size (new_sequence 2) = num_chunks (4 div pod_size u8_pod) 7"
  by (simp add: seq_size_def new_sequence_def num_chunks_def u8_pod_def)

text \<open>\<open>ExternalIota\<close> is correct: given a sequence with one header per chunk, it returns a
well-formed sequence that reads back as the numbers from 0 to \<open>n - 1\<close> in order, with the ordering
keys 0, 1, 2 and so on and no two blocks in one place, for every choice of files and every
interleaving; and it always returns.\<close>

theorem ExternalIota_correct:
  assumes P: "pod_repr P" and env: "env_ok P A B N names" and small: "n + B div pod_size P + N \<le> 2 ^ 64"
    and s: "seq_size s = num_chunks (B div pod_size P) n"
  shows "(\<exists>out fs'. ExternalIota conv P A B N ssds n s names fs out fs') \<and>
    (\<forall>out fs'. ExternalIota conv P A B N ssds n s names fs out fs' \<longrightarrow>
       wf_seq P B fs' out \<and> ReadOutput P fs' out = Some (map conv [0..<n]) \<and>
       map h_index (ordered_underlying_sequence out) = [0..<num_chunks (B div pod_size P) n] \<and>
       blocks_apart B names (ordered_underlying_sequence out))"
proof -
  have f: "fills (\<lambda>b k. conv (b + k)) conv" by (simp add: fills_def)
  show ?thesis
    unfolding ExternalIota_def iota_work_def BoolCreate_def bool_work_def
    using generate_exists [OF f P env small s, of ssds fs] generate_correct [OF _ f P env small s, of ssds fs] by blast
qed

lemma ExternalIota_correct_witness:
  "\<exists>out fs'. ExternalIota of_nat u8_pod 2 4 2 [] 7 (new_sequence 2) [''o0'', ''o1''] Map.empty out fs' \<and>
     ReadOutput u8_pod fs' out = Some [0, 1, 2, 3, 4, 5, 6]"
  using ExternalIota_correct [OF u8_repr.pod_repr_axioms demo_env demo_small demo_blank, of of_nat "[]" Map.empty]
  by (auto simp: eval_nat_numeral)

text \<open>\<open>BoolCreate\<close> is correct: it always returns a well-formed sequence that reads back as \<open>n\<close>
copies of the value, with no two blocks in one place.\<close>

theorem BoolCreate_correct:
  assumes P: "pod_repr P" and env: "env_ok P A B N names" and small: "n + B div pod_size P + N \<le> 2 ^ 64"
    and s: "seq_size s = num_chunks (B div pod_size P) n"
  shows "(\<exists>out fs'. BoolCreate val P A B N ssds n s names fs out fs') \<and>
    (\<forall>out fs'. BoolCreate val P A B N ssds n s names fs out fs' \<longrightarrow>
       wf_seq P B fs' out \<and> ReadOutput P fs' out = Some (replicate n val) \<and>
       map h_index (ordered_underlying_sequence out) = [0..<num_chunks (B div pod_size P) n] \<and>
       blocks_apart B names (ordered_underlying_sequence out))"
proof -
  have f: "fills (\<lambda>b k. val) (\<lambda>_. val)" by (simp add: fills_def)
  have r: "map (\<lambda>_. val) [0..<n] = replicate n val" by (simp add: map_replicate_const)
  show ?thesis
    unfolding ExternalIota_def iota_work_def BoolCreate_def bool_work_def
    using generate_exists [OF f P env small s, of ssds fs]
    generate_correct [OF _ f P env small s, of ssds fs, unfolded r] by blast
qed

lemma BoolCreate_correct_witness:
  "\<exists>out fs'. BoolCreate True bool_pod 2 4 2 [] 3 (new_sequence 1) [''o0'', ''o1''] Map.empty out fs' \<and>
     ReadOutput bool_pod fs' out = Some [True, True, True]"
proof -
  have env: "env_ok bool_pod 2 4 2 [''o0'', ''o1'']" by (simp add: env_ok_def bool_pod_def)
  have small: "3 + 4 div pod_size bool_pod + 2 \<le> 2 ^ 64" by (simp add: bool_pod_def)
  have s: "seq_size (new_sequence 1) = num_chunks (4 div pod_size bool_pod) 3"
    by (simp add: seq_size_def new_sequence_def num_chunks_def bool_pod_def)
  show ?thesis
    using BoolCreate_correct [OF bool_repr.pod_repr_axioms env small s, of True "[]" Map.empty]
    by (auto simp: eval_nat_numeral)
qed

end
