(* ===== verification/Emitter.thy ===== *)
theory Emitter
  imports ChunkReader TwoPhase
begin

text \<open>
  The block emitter of Plaidlay/external_engine/external_engine.h (\<open>ChunkEmitter\<close>) and of the
  primitives that inline it. Concurrent tasks emit blocks one after the other; for each block a
  task draws a header slot (\<open>out_count.fetch_add\<close>) and a place in a file
  (\<open>file_offsets[ssd].fetch_add\<close>), then stores the header and pushes the buffer. The two draws of
  different tasks interleave arbitrarily. The engine draws the slot first and hashes it to choose
  the file; Plaidlay/ExternalMap.h hashes a number of the block and draws the place first.
  \<open>hash64\<close>, of the parlay library, is a parameter.
\<close>

text \<open>A block to be emitted: the number that is hashed, the ordering key, the valid elements, the buffer.\<close>

record 'b eblock =
  eb_key :: nat
  eb_index :: nat
  eb_count :: nat
  eb_buf :: "'b list"

record 'b etask =
  et_blocks :: "'b eblock list"
  et_slot :: "nat option"
  et_place :: "(nat \<times> nat) option"

record 'b emit_state =
  es_tasks :: "'b etask list"
  es_out_count :: nat
  es_offsets :: "nat \<Rightarrow> nat"
  es_headers :: "chunk_header list"
  es_requests :: "'b write_request list"
  es_fault :: bool

text \<open>What a primitive fixes: the order of the two draws and the number that is hashed.\<close>

record emit_policy =
  ep_slot_first :: bool
  ep_hash :: "nat \<Rightarrow> nat"

definition choose_ssd :: "emit_policy \<Rightarrow> nat \<Rightarrow> 'b etask \<Rightarrow> nat" where
  "choose_ssd pol N t =
     (if ep_slot_first pol then ep_hash pol (the (et_slot t)) else ep_hash pol (eb_key (hd (et_blocks t)))) mod N"

definition draw_slot :: "emit_policy \<Rightarrow> nat \<Rightarrow> 'b emit_state \<Rightarrow> 'b emit_state option" where
  "draw_slot pol i st =
     (let t = es_tasks st ! i in
      if i < length (es_tasks st) \<and> et_blocks t \<noteq> [] \<and> et_slot t = None \<and>
         (ep_slot_first pol \<or> et_place t \<noteq> None)
      then Some (st\<lparr>es_out_count := es_out_count st + 1,
             es_tasks := (es_tasks st)[i := t\<lparr>et_slot := Some (es_out_count st)\<rparr>]\<rparr>)
      else None)"

definition draw_place :: "emit_policy \<Rightarrow> nat \<Rightarrow> nat \<Rightarrow> nat \<Rightarrow> 'b emit_state \<Rightarrow> 'b emit_state option" where
  "draw_place pol N B i st =
     (let t = es_tasks st ! i; ssd = choose_ssd pol N t; base = es_offsets st ssd in
      if i < length (es_tasks st) \<and> et_blocks t \<noteq> [] \<and> et_place t = None \<and>
         (ep_slot_first pol \<longrightarrow> et_slot t \<noteq> None)
      then Some (st\<lparr>es_offsets := (es_offsets st)(ssd := base + B),
             es_tasks := (es_tasks st)[i := t\<lparr>et_place := Some (ssd, base)\<rparr>]\<rparr>)
      else None)"

definition block_header :: "string list \<Rightarrow> nat \<Rightarrow> 'b eblock \<Rightarrow> nat \<Rightarrow> nat \<Rightarrow> chunk_header" where
  "block_header names sz b ssd base =
     \<lparr>h_filename = names ! ssd, h_begin_address = base, h_used = eb_count b * sz, h_index = eb_index b\<rparr>"

text \<open>A header stored past the end of the array is a fault.\<close>

definition store_block :: "string list \<Rightarrow> nat \<Rightarrow> nat \<Rightarrow> nat \<Rightarrow> 'b emit_state \<Rightarrow> 'b emit_state option" where
  "store_block names sz cap i st =
     (let t = es_tasks st ! i in
      if i < length (es_tasks st) \<and> et_blocks t \<noteq> []
      then case (et_slot t, et_place t) of
          (Some slot, Some (ssd, base)) \<Rightarrow>
            let b = hd (et_blocks t);
                rest = t\<lparr>et_blocks := tl (et_blocks t), et_slot := None, et_place := None\<rparr>
            in (case put_header (es_headers st) slot (block_header names sz b ssd base) of
                  None \<Rightarrow> Some (st\<lparr>es_fault := True, es_tasks := (es_tasks st)[i := rest]\<rparr>)
                | Some arr \<Rightarrow> Some (st\<lparr>es_headers := arr, es_tasks := (es_tasks st)[i := rest],
                    es_requests := es_requests st @ [explicit_request (eb_buf b) cap ssd base]\<rparr>))
        | _ \<Rightarrow> None
      else None)"

inductive emit_step :: "emit_policy \<Rightarrow> nat \<Rightarrow> nat \<Rightarrow> string list \<Rightarrow> nat \<Rightarrow> nat \<Rightarrow>
    'b emit_state \<Rightarrow> 'b emit_state \<Rightarrow> bool"
  for pol N B names sz cap where
  estep_slot: "draw_slot pol i st = Some st' \<Longrightarrow> emit_step pol N B names sz cap st st'"
| estep_place: "draw_place pol N B i st = Some st' \<Longrightarrow> emit_step pol N B names sz cap st st'"
| estep_store: "store_block names sz cap i st = Some st' \<Longrightarrow> emit_step pol N B names sz cap st st'"

definition tasks_done :: "'b emit_state \<Rightarrow> bool" where
  "tasks_done st \<longleftrightarrow> (\<forall>t \<in> set (es_tasks st). et_blocks t = [])"

definition fresh_task :: "'b eblock list \<Rightarrow> 'b etask" where
  "fresh_task bs = \<lparr>et_blocks = bs, et_slot = None, et_place = None\<rparr>"

text \<open>The batches run one after the other; each starts its tasks and waits for all of them.\<close>

inductive emit_batches :: "emit_policy \<Rightarrow> nat \<Rightarrow> nat \<Rightarrow> string list \<Rightarrow> nat \<Rightarrow> nat \<Rightarrow>
    'b eblock list list list \<Rightarrow> 'b emit_state \<Rightarrow> 'b emit_state \<Rightarrow> bool"
  for pol N B names sz cap where
  batches_nil: "emit_batches pol N B names sz cap [] st st"
| batches_cons: "rtranclp (emit_step pol N B names sz cap) (st\<lparr>es_tasks := map fresh_task tasks\<rparr>) st1 \<Longrightarrow>
    tasks_done st1 \<Longrightarrow> emit_batches pol N B names sz cap bs st1 st2 \<Longrightarrow>
    emit_batches pol N B names sz cap (tasks # bs) st st2"

definition initial_emit_state :: "nat \<Rightarrow> 'b emit_state" where
  "initial_emit_state n = \<lparr>es_tasks = [], es_out_count = 0, es_offsets = (\<lambda>_. 0),
     es_headers = ordered_underlying_sequence (new_sequence n), es_requests = [], es_fault = False\<rparr>"

section \<open>The invariant\<close>

definition eb_ok :: "nat \<Rightarrow> 'b eblock \<Rightarrow> bool" where
  "eb_ok cap b \<longleftrightarrow> length (eb_buf b) = cap \<and> eb_count b \<le> cap"

definition eb_core :: "'b eblock \<Rightarrow> nat \<times> 'b list" where
  "eb_core b = (eb_index b, take (eb_count b) (eb_buf b))"

definition block_entry :: "'b eblock \<Rightarrow> nat \<Rightarrow> nat \<Rightarrow> 'b entry" where
  "block_entry b ssd base = \<lparr>e_index = eb_index b, e_ssd = ssd, e_base = base,
     e_data = take (eb_count b) (eb_buf b), e_buf = eb_buf b\<rparr>"

text \<open>The slots and places drawn by tasks that have not stored their block yet.\<close>

definition open_slots :: "'b etask \<Rightarrow> nat multiset" where
  "open_slots t = (case et_slot t of None \<Rightarrow> {#} | Some s \<Rightarrow> {#s#})"

definition open_entries :: "'b etask \<Rightarrow> 'b entry list" where
  "open_entries t = (case et_place t of None \<Rightarrow> [] | Some (ssd, base) \<Rightarrow> [block_entry (hd (et_blocks t)) ssd base])"

definition all_open :: "'b etask list \<Rightarrow> 'b entry multiset" where
  "all_open ts = (\<Sum>t\<leftarrow>ts. mset (open_entries t))"

definition left_cores :: "'b etask list \<Rightarrow> (nat \<times> 'b list) multiset" where
  "left_cores ts = (\<Sum>t\<leftarrow>ts. mset (map eb_core (et_blocks t)))"

definition etask_ok :: "nat \<Rightarrow> 'b etask \<Rightarrow> bool" where
  "etask_ok cap t \<longleftrightarrow> (\<forall>b \<in> set (et_blocks t). eb_ok cap b) \<and>
     (et_blocks t = [] \<longrightarrow> et_slot t = None \<and> et_place t = None)"

text \<open>\<open>D\<close>: the blocks stored so far, with their slots; \<open>cores\<close>: all blocks of the run.\<close>

definition emit_inv :: "nat \<Rightarrow> nat \<Rightarrow> nat \<Rightarrow> string list \<Rightarrow> nat \<Rightarrow> nat \<Rightarrow> (nat \<times> 'b list) multiset \<Rightarrow>
    'b emit_state \<Rightarrow> (nat \<times> 'b entry) list \<Rightarrow> bool" where
  "emit_inv N B cap names sz n cores st D \<longleftrightarrow>
     (\<forall>t \<in> set (es_tasks st). etask_ok cap t) \<and>
     mset (map fst D) + (\<Sum>t\<leftarrow>es_tasks st. open_slots t) = mset [0..<es_out_count st] \<and>
     (\<exists>L. mset L = mset (map snd D) + all_open (es_tasks st) \<and> placed B cap N (es_offsets st) L) \<and>
     length (es_headers st) = n \<and>
     (\<forall>(s, e) \<in> set D. es_headers st ! s = entry_header names sz e) \<and>
     mset (es_requests st) = mset (map (entry_request cap) (map snd D)) \<and>
     mset (map (entry_core \<circ> snd) D) + left_cores (es_tasks st) = cores \<and>
     size cores \<le> n \<and> \<not> es_fault st"

lemma open_slots_size: "etask_ok cap t \<Longrightarrow> size (open_slots t) \<le> length (et_blocks t)"
  by (cases "et_blocks t") (auto simp: etask_ok_def open_slots_def split: option.split)

lemma slots_bound:
  assumes "\<forall>t \<in> set ts. etask_ok cap t"
  shows "size (\<Sum>t\<leftarrow>ts. open_slots t) \<le> size (left_cores ts)"
  using assms
proof (induction ts)
  case Nil
  then show ?case by (simp add: left_cores_def)
next
  case (Cons t ts)
  then have "size (open_slots t) \<le> length (et_blocks t)" using open_slots_size by auto
  with Cons show ?case by (simp add: left_cores_def)
qed

lemma emit_count_bound:
  assumes "emit_inv N B cap names sz n cores st D"
  shows "es_out_count st \<le> n"
proof -
  have m: "mset (map fst D) + (\<Sum>t\<leftarrow>es_tasks st. open_slots t) = mset [0..<es_out_count st]"
    and c: "mset (map (entry_core \<circ> snd) D) + left_cores (es_tasks st) = cores"
    and ok: "\<forall>t \<in> set (es_tasks st). etask_ok cap t" and n: "size cores \<le> n"
    using assms unfolding emit_inv_def by blast+
  have "es_out_count st = length D + size (\<Sum>t\<leftarrow>es_tasks st. open_slots t)"
    using arg_cong [OF m, of size] by simp
  also have "\<dots> \<le> length D + size (left_cores (es_tasks st))" using slots_bound [OF ok] by simp
  also have "\<dots> = size cores" unfolding c [symmetric] by simp
  finally show ?thesis using n by simp
qed

lemma draw_slot_inv:
  assumes inv: "emit_inv N B cap names sz n cores st D" and st: "draw_slot pol i st = Some st'"
  shows "emit_inv N B cap names sz n cores st' D"
proof -
  let ?ts = "es_tasks st"
  let ?t = "?ts ! i"
  let ?t' = "?t\<lparr>et_slot := Some (es_out_count st)\<rparr>"
  from st have i: "i < length ?ts" and ne: "et_blocks ?t \<noteq> []" and no: "et_slot ?t = None"
    and st': "st' = st\<lparr>es_out_count := es_out_count st + 1, es_tasks := ?ts[i := ?t']\<rparr>"
    by (auto simp: draw_slot_def Let_def split: if_splits)
  obtain R where R: "(\<Sum>t\<leftarrow>?ts. open_slots t) = R + open_slots ?t"
    "\<forall>y. (\<Sum>t\<leftarrow>?ts[i := y]. open_slots t) = R + open_slots y"
    using sum_list_split [OF i] by metis
  obtain Q where Q: "all_open ?ts = Q + mset (open_entries ?t)"
    "\<forall>y. all_open (?ts[i := y]) = Q + mset (open_entries y)"
    using sum_list_split [OF i, of "\<lambda>t. mset (open_entries t)"] unfolding all_open_def by metis
  obtain S where S: "left_cores ?ts = S + mset (map eb_core (et_blocks ?t))"
    "\<forall>y. left_cores (?ts[i := y]) = S + mset (map eb_core (et_blocks y))"
    using sum_list_split [OF i, of "\<lambda>t. mset (map eb_core (et_blocks t))"] unfolding left_cores_def by metis
  have "etask_ok cap ?t" using inv i by (auto simp: emit_inv_def)
  then have "etask_ok cap ?t'" using ne by (simp add: etask_ok_def)
  then have ok: "\<forall>t \<in> set (?ts[i := ?t']). etask_ok cap t"
    using inv by (intro ball_set_update) (auto simp: emit_inv_def)
  have o1: "open_slots ?t = {#}" "open_slots ?t' = {#es_out_count st#}" "open_entries ?t' = open_entries ?t"
    using no by (simp_all add: open_slots_def open_entries_def split: option.split)
  have slots: "mset (map fst D) + (\<Sum>t\<leftarrow>?ts[i := ?t']. open_slots t) = mset [0..<es_out_count st + 1]"
  proof -
    have "mset (map fst D) + R = mset [0..<es_out_count st]"
      using inv R(1) o1(1) unfolding emit_inv_def by simp
    then show ?thesis using R(2) o1(2) by (simp add: add.assoc [symmetric])
  qed
  have opn: "all_open (?ts[i := ?t']) = all_open ?ts" using Q o1(3) by simp
  have left: "left_cores (?ts[i := ?t']) = left_cores ?ts" using S by simp
  show ?thesis using inv ok slots opn left unfolding emit_inv_def st' by simp
qed

lemma block_entry_placed:
  assumes "placed B cap N offs L" and "ssd < N" and "0 < B" and "eb_ok cap b"
  shows "placed B cap N (offs(ssd := offs ssd + B)) (L @ [block_entry b ssd (offs ssd)])"
  unfolding block_entry_def using assms by (intro placed_add) (auto simp: eb_ok_def)

lemma draw_place_inv:
  assumes inv: "emit_inv N B cap names sz n cores st D" and st: "draw_place pol N B i st = Some st'"
    and N: "0 < N" and B: "0 < B"
  shows "emit_inv N B cap names sz n cores st' D"
proof -
  let ?ts = "es_tasks st"
  let ?t = "?ts ! i"
  let ?ssd = "choose_ssd pol N ?t"
  let ?base = "es_offsets st ?ssd"
  let ?t' = "?t\<lparr>et_place := Some (?ssd, ?base)\<rparr>"
  from st have i: "i < length ?ts" and ne: "et_blocks ?t \<noteq> []" and no: "et_place ?t = None"
    and st': "st' = st\<lparr>es_offsets := (es_offsets st)(?ssd := ?base + B), es_tasks := ?ts[i := ?t']\<rparr>"
    by (auto simp: draw_place_def Let_def split: if_splits)
  have ssd: "?ssd < N" using N by (simp add: choose_ssd_def)
  obtain R where R: "(\<Sum>t\<leftarrow>?ts. open_slots t) = R + open_slots ?t"
    "\<forall>y. (\<Sum>t\<leftarrow>?ts[i := y]. open_slots t) = R + open_slots y"
    using sum_list_split [OF i] by metis
  obtain Q where Q: "all_open ?ts = Q + mset (open_entries ?t)"
    "\<forall>y. all_open (?ts[i := y]) = Q + mset (open_entries y)"
    using sum_list_split [OF i, of "\<lambda>t. mset (open_entries t)"] unfolding all_open_def by metis
  obtain S where S: "left_cores ?ts = S + mset (map eb_core (et_blocks ?t))"
    "\<forall>y. left_cores (?ts[i := y]) = S + mset (map eb_core (et_blocks y))"
    using sum_list_split [OF i, of "\<lambda>t. mset (map eb_core (et_blocks t))"] unfolding left_cores_def by metis
  have tok: "etask_ok cap ?t" using inv i by (auto simp: emit_inv_def)
  then have "etask_ok cap ?t'" using ne by (simp add: etask_ok_def)
  then have ok: "\<forall>t \<in> set (?ts[i := ?t']). etask_ok cap t"
    using inv by (intro ball_set_update) (auto simp: emit_inv_def)
  have hd_ok: "eb_ok cap (hd (et_blocks ?t))" using tok ne by (simp add: etask_ok_def)
  let ?e = "block_entry (hd (et_blocks ?t)) ?ssd ?base"
  have o1: "open_entries ?t = []" "open_entries ?t' = [?e]" "open_slots ?t' = open_slots ?t"
    using no by (simp_all add: open_slots_def open_entries_def split: option.split)
  have slots: "(\<Sum>t\<leftarrow>?ts[i := ?t']. open_slots t) = (\<Sum>t\<leftarrow>?ts. open_slots t)"
    using R o1(3) by simp
  have left: "left_cores (?ts[i := ?t']) = left_cores ?ts" using S by simp
  obtain L where L: "mset L = mset (map snd D) + all_open ?ts" "placed B cap N (es_offsets st) L"
    using inv unfolding emit_inv_def by blast
  have "mset (L @ [?e]) = mset (map snd D) + all_open (?ts[i := ?t'])"
    using L(1) Q o1 by (simp add: ac_simps)
  moreover have "placed B cap N ((es_offsets st)(?ssd := ?base + B)) (L @ [?e])"
    using L(2) ssd B hd_ok by (rule block_entry_placed)
  ultimately have pl: "\<exists>L. mset L = mset (map snd D) + all_open (?ts[i := ?t']) \<and>
      placed B cap N ((es_offsets st)(?ssd := ?base + B)) L" by blast
  show ?thesis using inv ok slots pl left unfolding emit_inv_def st' by simp
qed


lemma emit_inv_parts:
  assumes "emit_inv N B cap names sz n cores st D"
  shows "\<forall>t \<in> set (es_tasks st). etask_ok cap t"
    and "mset (map fst D) + (\<Sum>t\<leftarrow>es_tasks st. open_slots t) = mset [0..<es_out_count st]"
    and "\<exists>L. mset L = mset (map snd D) + all_open (es_tasks st) \<and> placed B cap N (es_offsets st) L"
    and "length (es_headers st) = n"
    and "\<forall>(s, e) \<in> set D. es_headers st ! s = entry_header names sz e"
    and "mset (es_requests st) = mset (map (entry_request cap) (map snd D))"
    and "mset (map (entry_core \<circ> snd) D) + left_cores (es_tasks st) = cores"
    and "size cores \<le> n" and "\<not> es_fault st"
  using assms unfolding emit_inv_def by blast+

lemma block_entry_simps:
  "eb_ok cap b \<Longrightarrow> entry_header names sz (block_entry b ssd base) = block_header names sz b ssd base"
  "entry_request cap (block_entry b ssd base) = explicit_request (eb_buf b) cap ssd base"
  "entry_core (block_entry b ssd base) = eb_core b"
  by (simp_all add: entry_header_def entry_request_def entry_core_def block_entry_def block_header_def
      eb_core_def eb_ok_def min_def)

text \<open>A slot that is still open is in range and belongs to no stored block.\<close>

lemma open_slot_new:
  assumes inv: "emit_inv N B cap names sz n cores st D" and i: "i < length (es_tasks st)"
    and slot: "et_slot (es_tasks st ! i) = Some slot"
  shows "slot < n \<and> slot \<notin> set (map fst D)"
proof -
  obtain R where R: "(\<Sum>t\<leftarrow>es_tasks st. open_slots t) = R + open_slots (es_tasks st ! i)"
    using sum_list_split [OF i, of open_slots] by metis
  have "open_slots (es_tasks st ! i) = {#slot#}" using slot by (simp add: open_slots_def)
  then have m: "mset (map fst D) + R + {#slot#} = mset [0..<es_out_count st]"
    using emit_inv_parts(2) [OF inv] R by (simp add: add.assoc)
  obtain r where r: "mset r = R" using ex_mset by blast
  have mm: "mset (map fst D @ r @ [slot]) = mset [0..<es_out_count st]"
    using m by (simp add: r [symmetric])
  then have "distinct (map fst D @ r @ [slot])" by (metis distinct_upt mset_eq_imp_distinct_iff)
  moreover have "slot < es_out_count st" using mset_eq_setD [OF mm] by (simp add: set_eq_iff) blast
  ultimately show ?thesis using emit_count_bound [OF inv] by auto
qed

lemma store_block_inv:
  assumes inv: "emit_inv N B cap names sz n cores st D" and st: "store_block names sz cap i st = Some st'"
  shows "\<exists>e. emit_inv N B cap names sz n cores st' (D @ [e])"
proof -
  let ?ts = "es_tasks st"
  let ?t = "?ts ! i"
  let ?b = "hd (et_blocks ?t)"
  let ?t' = "?t\<lparr>et_blocks := tl (et_blocks ?t), et_slot := None, et_place := None\<rparr>"
  note p = emit_inv_parts [OF inv]
  from st obtain slot ssd base where i: "i < length ?ts" and ne: "et_blocks ?t \<noteq> []"
    and slot: "et_slot ?t = Some slot" and place: "et_place ?t = Some (ssd, base)"
    by (auto simp: store_block_def Let_def split: if_splits option.splits)
  have new: "slot < n" "slot \<notin> set (map fst D)" using open_slot_new [OF inv i slot] by simp_all
  let ?e = "block_entry ?b ssd base"
  have tok: "etask_ok cap ?t" using p(1) i by simp
  then have bok: "eb_ok cap ?b" using ne by (simp add: etask_ok_def)
  have st': "st' = st\<lparr>es_headers := (es_headers st)[slot := entry_header names sz ?e],
      es_tasks := ?ts[i := ?t'], es_requests := es_requests st @ [entry_request cap ?e]\<rparr>"
    using st i ne slot place new(1) p(4) bok
    by (simp add: store_block_def Let_def put_header_def block_entry_simps)
  have blocks: "et_blocks ?t = ?b # tl (et_blocks ?t)" using ne by simp
  obtain R where R: "(\<Sum>t\<leftarrow>?ts. open_slots t) = R + open_slots ?t"
    "\<forall>y. (\<Sum>t\<leftarrow>?ts[i := y]. open_slots t) = R + open_slots y"
    using sum_list_split [OF i] by metis
  obtain Q where Q: "all_open ?ts = Q + mset (open_entries ?t)"
    "\<forall>y. all_open (?ts[i := y]) = Q + mset (open_entries y)"
    using sum_list_split [OF i, of "\<lambda>t. mset (open_entries t)"] unfolding all_open_def by metis
  obtain S where S: "left_cores ?ts = S + mset (map eb_core (et_blocks ?t))"
    "\<forall>y. left_cores (?ts[i := y]) = S + mset (map eb_core (et_blocks y))"
    using sum_list_split [OF i, of "\<lambda>t. mset (map eb_core (et_blocks t))"] unfolding left_cores_def by metis
  have "etask_ok cap ?t'" using tok ne by (cases "et_blocks ?t") (auto simp: etask_ok_def)
  then have ok: "\<forall>t \<in> set (?ts[i := ?t']). etask_ok cap t" by (rule ball_set_update [OF p(1)])
  have o1: "open_slots ?t = {#slot#}" "open_slots ?t' = {#}" "open_entries ?t = [?e]" "open_entries ?t' = []"
    using slot place by (simp_all add: open_slots_def open_entries_def)
  let ?D = "D @ [(slot, ?e)]"
  have slots: "mset (map fst ?D) + (\<Sum>t\<leftarrow>?ts[i := ?t']. open_slots t) = mset [0..<es_out_count st]"
    using p(2) R o1 by (simp add: ac_simps)
  have opn: "mset (map snd ?D) + all_open (?ts[i := ?t']) = mset (map snd D) + all_open ?ts"
    using Q o1 by (simp add: ac_simps)
  have cores: "mset (map (entry_core \<circ> snd) ?D) + left_cores (?ts[i := ?t']) = cores"
  proof -
    have "mset (map eb_core (et_blocks ?t)) = {#eb_core ?b#} + mset (map eb_core (tl (et_blocks ?t)))"
      by (subst blocks) simp
    then have "mset (map (entry_core \<circ> snd) D) + (S + ({#eb_core ?b#} + mset (map eb_core (tl (et_blocks ?t))))) = cores"
      using p(7) S(1) by simp
    then show ?thesis using S(2) by (simp add: block_entry_simps ac_simps)
  qed
  have hds: "\<forall>(s, e) \<in> set ?D. (es_headers st)[slot := entry_header names sz ?e] ! s = entry_header names sz e"
    using p(4,5) new by (force simp: nth_list_update)
  have pl: "\<exists>L. mset L = mset (map snd ?D) + all_open (?ts[i := ?t']) \<and> placed B cap N (es_offsets st) L"
    unfolding opn by (rule p(3))
  have rq: "mset (es_requests st @ [entry_request cap ?e]) = mset (map (entry_request cap) (map snd ?D))"
    using p(6) by simp
  have "emit_inv N B cap names sz n cores st' ?D"
    unfolding emit_inv_def st' using ok slots pl cores hds rq p by simp
  then show ?thesis by blast
qed

lemma emit_step_inv:
  assumes "emit_step pol N B names sz cap st st'" and "\<exists>D. emit_inv N B cap names sz n cores st D"
    and "0 < N" and "0 < B"
  shows "\<exists>D. emit_inv N B cap names sz n cores st' D"
  using assms
proof (induction rule: emit_step.induct)
  case (estep_slot i st st')
  then show ?case using draw_slot_inv by blast
next
  case (estep_place i st st')
  then show ?case using draw_place_inv by blast
next
  case (estep_store i st st')
  then show ?case using store_block_inv by blast
qed

section \<open>The emitter comes to an end\<close>

definition etask_work :: "'b etask \<Rightarrow> nat" where
  "etask_work t = 3 * length (et_blocks t) - (if et_slot t = None then 0 else 1) - (if et_place t = None then 0 else 1)"

definition emit_work :: "'b emit_state \<Rightarrow> nat" where
  "emit_work st = (\<Sum>t\<leftarrow>es_tasks st. etask_work t)"

lemma emit_work_update:
  assumes "i < length (es_tasks st)" and "etask_work t' < etask_work (es_tasks st ! i)"
    and "es_tasks st' = (es_tasks st)[i := t']"
  shows "emit_work st' < emit_work st"
  using sum_list_update_add [OF assms(1), of etask_work t'] assms by (simp add: emit_work_def)

lemma emit_step_work: "emit_step pol N B names sz cap st st' \<Longrightarrow> emit_work st' < emit_work st"
proof (induction rule: emit_step.induct)
  case (estep_slot i st st')
  let ?t = "es_tasks st ! i"
  from estep_slot have i: "i < length (es_tasks st)" and ne: "et_blocks ?t \<noteq> []" and no: "et_slot ?t = None"
    and st': "es_tasks st' = (es_tasks st)[i := ?t\<lparr>et_slot := Some (es_out_count st)\<rparr>]"
    by (auto simp: draw_slot_def Let_def split: if_splits)
  show ?case using i _ st' by (rule emit_work_update) (use ne no in \<open>cases "et_blocks ?t"; simp add: etask_work_def\<close>)
next
  case (estep_place i st st')
  let ?t = "es_tasks st ! i"
  from estep_place have i: "i < length (es_tasks st)" and ne: "et_blocks ?t \<noteq> []" and no: "et_place ?t = None"
    and st': "es_tasks st' = (es_tasks st)[i := ?t\<lparr>et_place := Some (choose_ssd pol N ?t, es_offsets st (choose_ssd pol N ?t))\<rparr>]"
    by (auto simp: draw_place_def Let_def split: if_splits)
  show ?case using i _ st' by (rule emit_work_update) (use ne no in \<open>cases "et_blocks ?t"; simp add: etask_work_def\<close>)
next
  case (estep_store i st st')
  let ?t = "es_tasks st ! i"
  from estep_store have i: "i < length (es_tasks st)" and ne: "et_blocks ?t \<noteq> []"
    and st': "es_tasks st' = (es_tasks st)[i := ?t\<lparr>et_blocks := tl (et_blocks ?t), et_slot := None, et_place := None\<rparr>]"
    by (auto simp: store_block_def Let_def split: if_splits option.splits)
  show ?case using i _ st' by (rule emit_work_update) (use ne in \<open>cases "et_blocks ?t"; simp add: etask_work_def\<close>)
qed

lemma emit_progress:
  assumes "\<not> tasks_done st"
  shows "\<exists>st'. emit_step pol N B names sz cap st st'"
proof -
  from assms obtain i where i: "i < length (es_tasks st)" and ne: "et_blocks (es_tasks st ! i) \<noteq> []"
    by (auto simp: tasks_done_def in_set_conv_nth)
  let ?t = "es_tasks st ! i"
  consider "et_slot ?t = None" "ep_slot_first pol \<or> et_place ?t \<noteq> None"
    | "et_place ?t = None" "ep_slot_first pol \<longrightarrow> et_slot ?t \<noteq> None"
    | slot ssd base where "et_slot ?t = Some slot" "et_place ?t = Some (ssd, base)"
    by (cases "et_slot ?t"; cases "et_place ?t") auto
  then show ?thesis
  proof cases
    case 1
    then have "draw_slot pol i st \<noteq> None" using i ne by (simp add: draw_slot_def)
    then show ?thesis using estep_slot by fast
  next
    case 2
    then have "draw_place pol N B i st \<noteq> None" using i ne by (simp add: draw_place_def Let_def)
    then show ?thesis using estep_place by fast
  next
    case 3
    then have "store_block names sz cap i st \<noteq> None"
      using i ne by (simp add: store_block_def Let_def split: option.split)
    then show ?thesis using estep_store by fast
  qed
qed

interpretation emit_machine: finite_machine "emit_step pol N B names sz cap"
    "\<lambda>st. (\<exists>D. emit_inv N B cap names sz n cores st D) \<and> 0 < N \<and> 0 < B" emit_work tasks_done
  for pol N B names sz cap n cores
  by unfold_locales (auto intro: emit_step_inv emit_step_work emit_progress)


section \<open>Several batches\<close>

lemma left_cores_fresh: "left_cores (map fresh_task tasks) = mset (map eb_core (concat tasks))"
  by (induction tasks) (simp_all add: left_cores_def fresh_task_def)

lemma open_fresh: "(\<Sum>t\<leftarrow>map fresh_task tasks. open_slots t) = {#}" "all_open (map fresh_task tasks) = {#}"
  by (induction tasks) (simp_all add: all_open_def fresh_task_def open_slots_def open_entries_def)

lemma done_open:
  assumes "\<forall>t \<in> set ts. etask_ok cap t \<and> et_blocks t = []"
  shows "(\<Sum>t\<leftarrow>ts. open_slots t) = {#}" "all_open ts = {#}" "left_cores ts = {#}"
  using assms
  by (induction ts) (simp_all add: all_open_def left_cores_def etask_ok_def open_slots_def open_entries_def)

lemma done_parts:
  assumes inv: "emit_inv N B cap names sz n cores st D" and fin: "tasks_done st"
  shows "mset (map fst D) = mset [0..<es_out_count st]"
    and "placed B cap N (es_offsets st) (map snd D)"
    and "mset (map (entry_core \<circ> snd) D) = cores"
proof -
  note p = emit_inv_parts [OF inv]
  have ts: "\<forall>t \<in> set (es_tasks st). etask_ok cap t \<and> et_blocks t = []"
    using p(1) fin by (simp add: tasks_done_def)
  note o = done_open [OF ts]
  show "mset (map fst D) = mset [0..<es_out_count st]" using p(2) o(1) by simp
  show "mset (map (entry_core \<circ> snd) D) = cores" using p(7) o(3) by simp
  obtain L where "mset L = mset (map snd D)" and "placed B cap N (es_offsets st) L"
    using p(3) o(2) by auto
  then show "placed B cap N (es_offsets st) (map snd D)" by (rule placed_mset)
qed

lemma emit_start:
  assumes inv: "emit_inv N B cap names sz n cores st D" and fin: "tasks_done st"
    and ok: "\<forall>b \<in> set (concat tasks). eb_ok cap b" and n: "size cores + length (concat tasks) \<le> n"
  shows "emit_inv N B cap names sz n (cores + mset (map eb_core (concat tasks)))
    (st\<lparr>es_tasks := map fresh_task tasks\<rparr>) D"
proof -
  note p = emit_inv_parts [OF inv] and d = done_parts [OF inv fin]
  have "\<forall>t \<in> set (map fresh_task tasks). etask_ok cap t"
    using ok by (auto simp: etask_ok_def fresh_task_def)
  moreover have "\<exists>L. mset L = mset (map snd D) + all_open (map fresh_task tasks) \<and>
      placed B cap N (es_offsets st) L"
    using d(2) open_fresh(2) [of tasks] by (intro exI [of _ "map snd D"]) simp
  moreover have "size (cores + mset (map eb_core (concat tasks))) \<le> n"
    using n by (simp only: size_union size_mset length_map)
  moreover note open_fresh(1) [of tasks] left_cores_fresh [of tasks]
  ultimately show ?thesis using p d unfolding emit_inv_def by simp
qed

lemma emit_batches_inv:
  assumes "emit_batches pol N B names sz cap bs st st'"
    and "\<exists>D. emit_inv N B cap names sz n cores st D" and "tasks_done st" and "0 < N" and "0 < B"
    and "\<forall>b \<in> set (concat (concat bs)). eb_ok cap b" and "size cores + length (concat (concat bs)) \<le> n"
  shows "(\<exists>D. emit_inv N B cap names sz n (cores + mset (map eb_core (concat (concat bs)))) st' D) \<and> tasks_done st'"
  using assms
proof (induction arbitrary: cores rule: emit_batches.induct)
  case (batches_nil st)
  then show ?case by simp
next
  case (batches_cons tasks st st1 bs st2)
  obtain D where D: "emit_inv N B cap names sz n cores st D" using batches_cons.prems by blast
  have "emit_inv N B cap names sz n (cores + mset (map eb_core (concat tasks)))
      (st\<lparr>es_tasks := map fresh_task tasks\<rparr>) D"
    using batches_cons.prems by (intro emit_start [OF D]) auto
  then have "\<exists>D. emit_inv N B cap names sz n (cores + mset (map eb_core (concat tasks))) st1 D"
    using emit_machine.reach_good [OF batches_cons.hyps(1)] batches_cons.prems by blast
  from batches_cons.IH [OF this batches_cons.hyps(2)] batches_cons.prems
  have "(\<exists>D. emit_inv N B cap names sz n (cores + mset (map eb_core (concat tasks)) +
      mset (map eb_core (concat (concat bs)))) st2 D) \<and> tasks_done st2" by simp
  then show ?case by (simp add: add.assoc)
qed

lemma emit_batches_exist:
  assumes "\<exists>D. emit_inv N B cap names sz n cores st D" and "tasks_done st" and "0 < N" and "0 < B"
    and "\<forall>b \<in> set (concat (concat bs)). eb_ok cap b" and "size cores + length (concat (concat bs)) \<le> n"
  shows "\<exists>st'. emit_batches pol N B names sz cap bs st st'"
  using assms
proof (induction bs arbitrary: cores st)
  case Nil
  then show ?case using batches_nil by blast
next
  case (Cons tasks bs)
  obtain D where D: "emit_inv N B cap names sz n cores st D" using Cons.prems by blast
  let ?st = "st\<lparr>es_tasks := map fresh_task tasks\<rparr>" and ?c = "cores + mset (map eb_core (concat tasks))"
  have "emit_inv N B cap names sz n ?c ?st D"
    using Cons.prems by (intro emit_start [OF D]) auto
  then have good: "(\<exists>D. emit_inv N B cap names sz n ?c ?st D) \<and> 0 < N \<and> 0 < B" using Cons.prems by blast
  from emit_machine.reach_halted [OF this] obtain st1
    where run: "rtranclp (emit_step pol N B names sz cap) ?st st1" and fin: "tasks_done st1" by blast
  have inv1: "\<exists>D. emit_inv N B cap names sz n ?c st1 D"
    using emit_machine.reach_good [OF run good] by blast
  have "\<exists>st'. emit_batches pol N B names sz cap bs st1 st'"
    using Cons.prems by (intro Cons.IH [OF inv1 fin]) (auto simp: add.assoc add.commute)
  then show ?case using batches_cons [OF run fin] by blast
qed

lemma emit_init:
  "emit_inv N B cap names sz n {#} (initial_emit_state n) [] \<and> tasks_done (initial_emit_state n)"
  by (simp add: emit_inv_def initial_emit_state_def tasks_done_def all_open_def left_cores_def new_sequence_def)

text \<open>What all batches together have done: blocks \<open>L\<close> placed, their requests pushed, their headers in
the first slots.\<close>

lemma emit_batches_result:
  assumes run: "emit_batches pol N B names sz cap bs (initial_emit_state n) st" and N: "0 < N" and B: "0 < B"
    and ok: "\<forall>b \<in> set (concat (concat bs)). eb_ok cap b" and n: "length (concat (concat bs)) \<le> n"
  shows "\<exists>L. \<not> es_fault st \<and> es_out_count st \<le> n \<and> length (es_headers st) = n \<and>
    mset (take (es_out_count st) (es_headers st)) = mset (map (entry_header names sz) L) \<and>
    mset (es_requests st) = mset (map (entry_request cap) L) \<and> placed B cap N (es_offsets st) L \<and>
    mset (map entry_core L) = mset (map eb_core (concat (concat bs)))"
proof -
  have "\<exists>D. emit_inv N B cap names sz n {#} (initial_emit_state n) D" using emit_init by blast
  from emit_batches_inv [OF run this _ N B ok] emit_init n
  obtain D where inv: "emit_inv N B cap names sz n (mset (map eb_core (concat (concat bs)))) st D"
    and fin: "tasks_done st" by (metis add.left_neutral size_empty)
  note p = emit_inv_parts [OF inv] and d = done_parts [OF inv fin]
  let ?c = "es_out_count st"
  have c: "?c \<le> n" by (rule emit_count_bound [OF inv])
  have "take ?c (es_headers st) = map (\<lambda>s. es_headers st ! s) [0..<?c]"
    using c p(4) by (intro nth_equalityI) auto
  moreover have "mset (map (\<lambda>s. es_headers st ! s) [0..<?c]) = mset (map (\<lambda>s. es_headers st ! s) (map fst D))"
    using d(1) by (metis mset_map)
  ultimately have "mset (take ?c (es_headers st)) = mset (map (\<lambda>x. es_headers st ! fst x) D)"
    by (simp add: comp_def)
  also have "map (\<lambda>x. es_headers st ! fst x) D = map (entry_header names sz) (map snd D)"
    using p(5) by auto
  finally have "mset (take ?c (es_headers st)) = mset (map (entry_header names sz) (map snd D))" .
  moreover have "mset (map entry_core (map snd D)) = mset (map eb_core (concat (concat bs)))"
    using d(3) by (simp add: comp_def)
  ultimately show ?thesis using p c d(2) by blast
qed

end
