(* ===== verification/Engine.thy ===== *)
theory Engine
  imports Emitter ExternalFilter
begin

text \<open>
  The streaming engine (\<open>ExternalTransform\<close>) of Plaidlay/external_engine and the primitives built
  on it, and Plaidlay/ExternalMap.h, which inlines the same loop. In each batch \<open>N\<close> parallel tasks
  poll one block each; a task turns its block into blocks of output by a body and emits them;
  at the end the headers are trimmed, sorted and, on request, renumbered.
  A body is a function of the batch, the task, the block that was polled and the contents of the
  buffers it allocates; its contract is the locale \<open>block_body\<close>.
\<close>

type_synonym ('a, 'b) body = "nat \<Rightarrow> nat \<Rightarrow> 'a BufferData \<Rightarrow> (nat \<Rightarrow> 'b list) \<Rightarrow> 'b eblock list"

definition run_body :: "('a, 'b) body \<Rightarrow> (nat \<Rightarrow> nat \<Rightarrow> nat \<Rightarrow> 'b list) \<Rightarrow> nat \<Rightarrow> nat \<Rightarrow> 'a BufferData option \<Rightarrow>
    'b eblock list" where
  "run_body body heap w i polled = (case polled of None \<Rightarrow> [] | Some d \<Rightarrow> body w i d (heap w i))"

text \<open>\<open>polls ! w ! i\<close> is what task \<open>i\<close> of batch \<open>w\<close> polls, \<open>None\<close> once the reader is drained.\<close>

definition transform_batches :: "('a, 'b) body \<Rightarrow> (nat \<Rightarrow> nat \<Rightarrow> nat \<Rightarrow> 'b list) \<Rightarrow> nat \<Rightarrow>
    'a BufferData option list list \<Rightarrow> 'b eblock list list list" where
  "transform_batches body heap N polls =
     map (\<lambda>w. map (\<lambda>i. run_body body heap w i (polls ! w ! i)) [0..<N]) [0..<length polls]"

definition polls_ok :: "nat \<Rightarrow> nat \<Rightarrow> 'a BufferData list \<Rightarrow> 'a BufferData option list list \<Rightarrow> bool" where
  "polls_ok N m ds polls \<longleftrightarrow> length polls = m \<and>
     (\<forall>w < length polls. mset (polls ! w) =
        mset (map Some (run_of N ds w) @ replicate (N - length (run_of N ds w)) None))"

definition heap_ok :: "nat \<Rightarrow> (nat \<Rightarrow> nat \<Rightarrow> nat \<Rightarrow> 'b list) \<Rightarrow> bool" where
  "heap_ok cap heap \<longleftrightarrow> (\<forall>w i s. length (heap w i s) = cap)"

text \<open>The end: \<open>resize\<close>, \<open>sort\<close> and \<open>out[k].index = k\<close>; a store outside the header array is an error.\<close>

definition reindex :: "chunk_header list \<Rightarrow> chunk_header list" where
  "reindex hs = map (\<lambda>(k, h). h\<lparr>h_index := k\<rparr>) (enumerate 0 hs)"

definition finish_blocks :: "bool \<Rightarrow> 'b emit_state \<Rightarrow> External_Sequence option" where
  "finish_blocks compact st =
     (if es_fault st then None
      else let sorted_headers = sort_key h_index (resize (es_out_count st) (es_headers st))
           in Some \<lparr>ordered_underlying_sequence = (if compact then reindex sorted_headers else sorted_headers)\<rparr>)"

text \<open>
  A complete run with outcome \<open>res\<close>, for a policy of drawing places and \<open>M\<close> header slots for each
  input block; the files left on disk are \<open>fs'\<close>.
\<close>

definition transform_config :: UnorderedChunkWriterConfig where
  "transform_config = default_writer_config\<lparr>wc_num_threads := 2\<rparr>"

definition run_transform :: "emit_policy \<Rightarrow> ('a, 'b) body \<Rightarrow> nat \<Rightarrow> bool \<Rightarrow> 'a pod \<Rightarrow> 'b pod \<Rightarrow> nat \<Rightarrow> nat \<Rightarrow> nat \<Rightarrow>
    string list \<Rightarrow> string list \<Rightarrow> fstore \<Rightarrow> External_Sequence \<Rightarrow> External_Sequence option \<Rightarrow> fstore \<Rightarrow> bool" where
  "run_transform pol body M compact P Q A B N ssds names fs s res fs' \<longleftrightarrow>
     (\<exists>ds polls heap st.
        reader_polls P A B default_reader_config fs (ordered_underlying_sequence s) ds \<and>
        polls_ok N (ceil_div (seq_size s) N) ds polls \<and> heap_ok (B div pod_size Q) heap \<and>
        emit_batches pol N B names (pod_size Q) (B div pod_size Q) (transform_batches body heap N polls)
          (initial_emit_state (seq_size s * M)) st \<and>
        res = finish_blocks compact st \<and>
        chunk_writer_runs A ssds transform_config Q names fs (es_requests st) fs')"

definition engine_policy :: "(nat \<Rightarrow> nat) \<Rightarrow> emit_policy" where
  "engine_policy hash64 = \<lparr>ep_slot_first = True, ep_hash = hash64\<rparr>"

definition ExternalTransform :: "(nat \<Rightarrow> nat) \<Rightarrow> ('a, 'b) body \<Rightarrow> nat \<Rightarrow> bool \<Rightarrow> 'a pod \<Rightarrow> 'b pod \<Rightarrow> nat \<Rightarrow> nat \<Rightarrow> nat \<Rightarrow>
    string list \<Rightarrow> string list \<Rightarrow> fstore \<Rightarrow> External_Sequence \<Rightarrow> External_Sequence option \<Rightarrow> fstore \<Rightarrow> bool" where
  "ExternalTransform hash64 = run_transform (engine_policy hash64)"

section \<open>The bodies\<close>

text \<open>The filter body emits one block, the map body one per run of \<open>cap\<close> elements. The key of an
output block, \<open>index * FANOUT + s\<close> with \<open>s < FANOUT\<close>, is a \<open>size_t\<close> in the code; it is the number
below when the keys of the input are small enough for it not to wrap around (\<open>keys_fit\<close>).\<close>

definition filter_body :: "('a \<Rightarrow> bool) \<Rightarrow> ('a, 'a) body" where
  "filter_body p w i d fresh =
     (let (buf, k) = filter_loop p (take (bd_size d) (bd_data d)) (fresh 0) 0
      in [\<lparr>eb_key = 0, eb_index = bd_index d, eb_count = k, eb_buf = buf\<rparr>])"

fun map_loop :: "('a \<Rightarrow> 'b) \<Rightarrow> 'a list \<Rightarrow> 'b list \<Rightarrow> nat \<Rightarrow> 'b list" where
  "map_loop f [] buf j = buf"
| "map_loop f (x # xs) buf j = map_loop f xs (buf[j := f x]) (j + 1)"

definition num_sub :: "nat \<Rightarrow> nat \<Rightarrow> nat" where
  "num_sub cap n = (if n = 0 then 1 else (n + cap - 1) div cap)"

definition FANOUT :: "'a pod \<Rightarrow> 'b pod \<Rightarrow> nat" where
  "FANOUT P Q = (pod_size Q + pod_size P - 1) div pod_size P"

definition map_block :: "('a \<Rightarrow> 'b) \<Rightarrow> nat \<Rightarrow> nat \<Rightarrow> 'a BufferData \<Rightarrow> (nat \<Rightarrow> 'b list) \<Rightarrow> nat \<Rightarrow> nat \<Rightarrow> 'b eblock" where
  "map_block f cap F d fresh key s =
     (let lo = s * cap; hi = min (bd_size d) ((s + 1) * cap)
      in \<lparr>eb_key = key, eb_index = bd_index d * F + s, eb_count = hi - lo,
          eb_buf = map_loop f (take (hi - lo) (drop lo (bd_data d))) (fresh s) 0\<rparr>)"

definition map_body :: "('a \<Rightarrow> 'b) \<Rightarrow> nat \<Rightarrow> nat \<Rightarrow> ('a, 'b) body" where
  "map_body f cap F w i d fresh = map (map_block f cap F d fresh 0) [0..<num_sub cap (bd_size d)]"

text \<open>Plaidlay/ExternalMap.h numbers the blocks by batch, task and run to choose the file.\<close>

definition direct_map_body :: "('a \<Rightarrow> 'b) \<Rightarrow> nat \<Rightarrow> nat \<Rightarrow> nat \<Rightarrow> ('a, 'b) body" where
  "direct_map_body f cap F N w i d fresh =
     map (\<lambda>s. map_block f cap F d fresh (w * N * F + i * F + s) s) [0..<num_sub cap (bd_size d)]"

definition direct_policy :: "(nat \<Rightarrow> nat) \<Rightarrow> emit_policy" where
  "direct_policy hash64 = \<lparr>ep_slot_first = False, ep_hash = hash64\<rparr>"

definition keys_fit :: "nat \<Rightarrow> External_Sequence \<Rightarrow> bool" where
  "keys_fit F s \<longleftrightarrow> (\<forall>h \<in> set (ordered_underlying_sequence s). h_index h * F + F \<le> 2 ^ 64)"

definition engine_ExternalFilter :: "(nat \<Rightarrow> nat) \<Rightarrow> ('a \<Rightarrow> bool) \<Rightarrow> 'a pod \<Rightarrow> nat \<Rightarrow> nat \<Rightarrow> nat \<Rightarrow> string list \<Rightarrow>
    string list \<Rightarrow> fstore \<Rightarrow> External_Sequence \<Rightarrow> External_Sequence option \<Rightarrow> fstore \<Rightarrow> bool" where
  "engine_ExternalFilter hash64 p P = ExternalTransform hash64 (filter_body p) 1 True P P"

definition engine_ExternalMap :: "(nat \<Rightarrow> nat) \<Rightarrow> ('a \<Rightarrow> 'b) \<Rightarrow> 'a pod \<Rightarrow> 'b pod \<Rightarrow> nat \<Rightarrow> nat \<Rightarrow> nat \<Rightarrow> string list \<Rightarrow>
    string list \<Rightarrow> fstore \<Rightarrow> External_Sequence \<Rightarrow> External_Sequence option \<Rightarrow> fstore \<Rightarrow> bool" where
  "engine_ExternalMap hash64 f P Q A B =
     ExternalTransform hash64 (map_body f (B div pod_size Q) (FANOUT P Q)) (FANOUT P Q) True P Q A B"

definition ExternalMap :: "(nat \<Rightarrow> nat) \<Rightarrow> ('a \<Rightarrow> 'b) \<Rightarrow> 'a pod \<Rightarrow> 'b pod \<Rightarrow> nat \<Rightarrow> nat \<Rightarrow> nat \<Rightarrow> string list \<Rightarrow>
    string list \<Rightarrow> fstore \<Rightarrow> External_Sequence \<Rightarrow> External_Sequence option \<Rightarrow> fstore \<Rightarrow> bool" where
  "ExternalMap hash64 f P Q A B N =
     run_transform (direct_policy hash64) (direct_map_body f (B div pod_size Q) (FANOUT P Q) N)
       (FANOUT P Q) True P Q A B N"

text \<open>The overloads that derive the file names from a prefix call the above with \<open>file_names prefix N\<close>.\<close>

section \<open>Renumbering\<close>

lemma read_blocks_map:
  "\<forall>h \<in> set hs. read_block P fs (g h) = read_block P fs h \<Longrightarrow> read_blocks P fs (map g hs) = read_blocks P fs hs"
  by (induction hs) (simp_all split: option.split)

lemma reindex_index: "map h_index (reindex hs) = [0..<length hs]"
  by (simp add: reindex_def comp_def case_prod_beta)

lemma reindex_blocks: "read_blocks P fs (reindex hs) = read_blocks P fs hs"
proof -
  have "read_blocks P fs (map (\<lambda>(k, h). h\<lparr>h_index := k\<rparr>) (enumerate n hs)) = read_blocks P fs hs" for n
  proof (induction hs arbitrary: n)
    case Nil
    then show ?case by simp
  next
    case (Cons h hs)
    have "read_block P fs (h\<lparr>h_index := n\<rparr>) = read_block P fs h"
      by (simp add: read_block_def chunk_elems_def)
    with Cons show ?case by (simp split: option.split)
  qed
  then show ?thesis by (simp add: reindex_def)
qed

lemma reindex_wf:
  assumes "\<forall>h \<in> set hs. wf_block P B fs h"
  shows "\<forall>h \<in> set (reindex hs). wf_block P B fs h"
  using assms by (auto simp: reindex_def wf_block_def in_set_enumerate_eq)

lemma reindex_apart: "blocks_apart B names (reindex hs) = blocks_apart B names hs"
proof -
  let ?place = "\<lambda>h. (h_filename h, h_begin_address h)"
  have "blocks_apart B names ks \<longleftrightarrow> distinct (map ?place ks) \<and> (\<forall>x \<in> set (map ?place ks). fst x \<in> set names \<and> B dvd snd x)" for ks
    by (simp add: blocks_apart_def)
  moreover have "map ?place (reindex hs) = map ?place hs"
    by (rule nth_equalityI) (simp_all add: reindex_def nth_enumerate_eq)
  ultimately show ?thesis by (simp only:)
qed

lemma reindex_seq:
  assumes "wf_seq P B fs \<lparr>ordered_underlying_sequence = sort_key h_index hs\<rparr>"
  shows "wf_seq P B fs \<lparr>ordered_underlying_sequence = reindex (sort_key h_index hs)\<rparr> \<and>
    ReadOutput P fs \<lparr>ordered_underlying_sequence = reindex (sort_key h_index hs)\<rparr>
      = ReadOutput P fs \<lparr>ordered_underlying_sequence = sort_key h_index hs\<rparr>"
proof -
  let ?hs = "sort_key h_index hs"
  have "distinct (map h_index (reindex ?hs))" by (simp only: reindex_index distinct_upt)
  then have "wf_seq P B fs \<lparr>ordered_underlying_sequence = reindex ?hs\<rparr>"
    using assms reindex_wf [of ?hs P B fs] by (simp add: wf_seq_def)
  moreover have "sort_key h_index (reindex ?hs) = reindex ?hs"
    by (rule sort_key_id_if_sorted) (simp only: reindex_index sorted_upt)
  moreover have "sort_key h_index ?hs = ?hs" by (rule sort_key_id_if_sorted) simp
  ultimately show ?thesis by (simp add: ReadOutput_def reindex_blocks)
qed


section \<open>The contract of a body\<close>

text \<open>
  \<open>cores d\<close>: the keys and elements of the blocks emitted for \<open>d\<close>. The body emits at most \<open>M\<close>
  blocks, numbered \<open>bd_index d * M\<close> and on, that together hold the elements of \<open>d\<close> under \<open>g\<close>.
\<close>

locale block_body =
  fixes body :: "('a, 'b) body" and cap :: nat and ocap :: nat and M :: nat
    and cores :: "'a BufferData \<Rightarrow> (nat \<times> 'b list) list" and g :: "'a list \<Rightarrow> 'b list"
  assumes body_blocks: "bd_ok cap d \<Longrightarrow> \<forall>s. length (fresh s) = ocap \<Longrightarrow>
      (\<forall>b \<in> set (body w i d fresh). eb_ok ocap b) \<and> map eb_core (body w i d fresh) = cores d"
    and cores_keys: "bd_ok cap d \<Longrightarrow> length (cores d) \<le> M \<and>
      map fst (cores d) = map (\<lambda>s. bd_index d * M + s) [0..<length (cores d)]"
    and cores_elems: "bd_ok cap d \<Longrightarrow> concat (map snd (cores d)) = g (snd (bd_core d))"
    and g_append: "g (xs @ ys) = g xs @ g ys"
    and M_pos: "0 < M"
begin

lemma g_Nil [simp]: "g [] = []"
  using g_append [of "[]" "[]"] by simp

lemma batch_blocks:
  assumes ds: "\<forall>d \<in> set ds. bd_ok cap d" and heap: "heap_ok ocap heap"
    and pw: "mset pw = mset (map Some (run_of N ds w) @ replicate (N - length (run_of N ds w)) None)"
  shows "mset (map eb_core (concat (map (\<lambda>i. run_body body heap w i (pw ! i)) [0..<N])))
      = mset (concat (map cores (run_of N ds w))) \<and>
    (\<forall>b \<in> set (concat (map (\<lambda>i. run_body body heap w i (pw ! i)) [0..<N])). eb_ok ocap b)"
proof -
  let ?k = "\<lambda>p. case p of None \<Rightarrow> [] | Some d \<Rightarrow> cores d"
  have len: "length pw = N" using mset_eq_length [OF pw] by (simp add: length_run_of_le)
  have sub: "bd_ok cap d" if "d \<in> set (run_of N ds w)" for d
    using that ds in_set_takeD [of d N] in_set_dropD [of d] unfolding run_of_def by blast
  have pd: "bd_ok cap d" if "pw ! i = Some d" "i < N" for i d
  proof -
    have "Some d \<in> set pw" using that len nth_mem [of i pw] by metis
    then have "Some d \<in> set (map Some (run_of N ds w) @ replicate (N - length (run_of N ds w)) None)"
      using mset_eq_setD [OF pw] by simp
    then show ?thesis using sub by (auto split: if_splits)
  qed
  have one: "map eb_core (run_body body heap w i (pw ! i)) = ?k (pw ! i) \<and>
      (\<forall>b \<in> set (run_body body heap w i (pw ! i)). eb_ok ocap b)" if "i < N" for i
    using body_blocks [of _ "heap w i" w i] pd [OF _ that] heap
    by (cases "pw ! i") (simp_all add: run_body_def heap_ok_def)
  have "map eb_core (concat (map (\<lambda>i. run_body body heap w i (pw ! i)) [0..<N]))
      = concat (map (\<lambda>i. ?k (pw ! i)) [0..<N])"
  proof -
    have "map (\<lambda>i. map eb_core (run_body body heap w i (pw ! i))) [0..<N] = map (\<lambda>i. ?k (pw ! i)) [0..<N]"
      using one by (intro map_cong refl) simp
    then show ?thesis by (simp only: map_concat map_map comp_def)
  qed
  also have "map (\<lambda>i. ?k (pw ! i)) [0..<N] = map ?k (map (\<lambda>i. pw ! i) [0..<N])" by simp
  also have "map (\<lambda>i. pw ! i) [0..<N] = pw" using len map_nth [of pw] by simp
  finally have "mset (map eb_core (concat (map (\<lambda>i. run_body body heap w i (pw ! i)) [0..<N])))
      = mset (concat (map ?k (map Some (run_of N ds w) @ replicate (N - length (run_of N ds w)) None)))"
    using mset_concat_map_cong [OF pw, of ?k] by simp
  also have "concat (map ?k (map Some (run_of N ds w) @ replicate (N - length (run_of N ds w)) None))
      = concat (map cores (run_of N ds w))" by (simp add: comp_def)
  finally show ?thesis using one by auto
qed

lemma all_blocks:
  assumes ds: "\<forall>d \<in> set ds. bd_ok cap d" and len: "length ds = n" and heap: "heap_ok ocap heap"
    and polls: "polls_ok N (ceil_div n N) ds polls" and N: "0 < N"
  shows "mset (map eb_core (concat (concat (transform_batches body heap N polls)))) = mset (concat (map cores ds))"
    and "\<forall>b \<in> set (concat (concat (transform_batches body heap N polls))). eb_ok ocap b"
    and "length (concat (map cores ds)) \<le> n * M"
proof -
  let ?tb = "\<lambda>w. map (\<lambda>i. run_body body heap w i (polls ! w ! i)) [0..<N]"
  have w: "\<forall>w \<in> set [0..<length polls]. mset (map eb_core (concat (?tb w))) = mset (concat (map cores (run_of N ds w))) \<and>
      (\<forall>b \<in> set (concat (?tb w)). eb_ok ocap b)"
  proof
    fix w assume "w \<in> set [0..<length polls]"
    then have "mset (polls ! w) = mset (map Some (run_of N ds w) @ replicate (N - length (run_of N ds w)) None)"
      using polls unfolding polls_ok_def by simp
    from batch_blocks [OF ds heap this]
    show "mset (map eb_core (concat (?tb w))) = mset (concat (map cores (run_of N ds w))) \<and>
      (\<forall>b \<in> set (concat (?tb w)). eb_ok ocap b)" .
  qed
  have "map eb_core (concat (concat (transform_batches body heap N polls)))
      = concat (map (\<lambda>w. map eb_core (concat (?tb w))) [0..<length polls])"
    unfolding transform_batches_def by (rule map_concat_concat)
  then have "mset (map eb_core (concat (concat (transform_batches body heap N polls))))
      = mset (concat (map (\<lambda>w. concat (map cores (run_of N ds w))) [0..<length polls]))"
    using mset_concat_cong2 [of "[0..<length polls]" "\<lambda>w. map eb_core (concat (?tb w))"
        "\<lambda>w. concat (map cores (run_of N ds w))"] w by simp
  also have "concat (map (\<lambda>w. concat (map cores (run_of N ds w))) [0..<length polls])
      = concat (map cores (concat (map (run_of N ds) [0..<length polls])))"
    by (rule concat_map_concat)
  also have "concat (map (run_of N ds) [0..<length polls]) = ds"
    using concat_runs_ceil [OF N, of ds] polls len by (simp add: polls_ok_def)
  finally show "mset (map eb_core (concat (concat (transform_batches body heap N polls)))) = mset (concat (map cores ds))" .
  show "\<forall>b \<in> set (concat (concat (transform_batches body heap N polls))). eb_ok ocap b"
    using w by (auto simp: transform_batches_def)
  have "\<forall>d \<in> set ds. length (cores d) \<le> M" using ds cores_keys by blast
  then have "length (concat (map cores ds)) \<le> length ds * M" by (induction ds) auto
  then show "length (concat (map cores ds)) \<le> n * M" using len by simp
qed

lemma sorted_cores:
  assumes "\<forall>d \<in> set ds. bd_ok cap d" and "sorted (map bd_index ds)" and "distinct (map bd_index ds)"
  shows "sorted (map fst (concat (map cores ds))) \<and> distinct (map fst (concat (map cores ds)))"
  using assms
proof (induction ds)
  case Nil
  then show ?case by simp
next
  case (Cons d ds)
  have key: "\<exists>s < M. x = bd_index e * M + s" if "x \<in> set (map fst (cores e))" and "bd_ok cap e" for x e
  proof -
    have "x \<in> set (map (\<lambda>s. bd_index e * M + s) [0..<length (cores e)])"
      using that cores_keys by metis
    then obtain s where "s \<in> set [0..<length (cores e)]" and "x = bd_index e * M + s"
      unfolding set_map by (elim imageE)
    then show ?thesis using cores_keys [OF that(2)] by (metis atLeastLessThan_iff less_le_trans set_upt)
  qed
  have ok: "bd_ok cap d" using Cons.prems(1) by simp
  have one: "sorted (map fst (cores d)) \<and> distinct (map fst (cores d))"
    using cores_keys [OF ok] by (simp add: distinct_map inj_on_def sorted_map)
  have less: "x < y" if x: "x \<in> set (map fst (cores d))" and y: "y \<in> set (map fst (concat (map cores ds)))" for x y
  proof -
    from y obtain e where e: "e \<in> set ds" and ye: "y \<in> set (map fst (cores e))" by auto
    have "bd_index d < bd_index e" using Cons.prems(2,3) e by (auto simp: order.order_iff_strict)
    then have "(bd_index d + 1) * M \<le> bd_index e * M" by (intro mult_le_mono1) simp
    with key [OF x ok] key [OF ye] Cons.prems(1) e show ?thesis by fastforce
  qed
  have "sorted (map fst (concat (map cores ds))) \<and> distinct (map fst (concat (map cores ds)))"
    using Cons by simp
  with one less show ?case
    by (simp add: sorted_append less_imp_le) (metis disjoint_iff less_irrefl)
qed

lemma concat_cores:
  "\<forall>d \<in> set ds. bd_ok cap d \<Longrightarrow>
   concat (map snd (concat (map cores ds))) = g (concat (map (snd \<circ> bd_core) ds))"
  by (induction ds) (simp_all add: cores_elems g_append)

lemma cores_ordered:
  assumes ds: "\<forall>d \<in> set ds. bd_ok cap d" and dist: "distinct (map bd_index ds)"
  shows "distinct (map fst (concat (map cores ds))) \<and>
    ordered_elems (concat (map cores ds)) = g (ordered_elems (map bd_core ds))"
proof -
  let ?es = "sort_key bd_index ds"
  have m: "mset (concat (map cores ds)) = mset (concat (map cores ?es))"
    by (rule mset_concat_map_cong) simp
  have es: "\<forall>d \<in> set ?es. bd_ok cap d" "sorted (map bd_index ?es)" using ds by simp_all
  have "distinct (map bd_index ?es)" by (rule mset_map_eq_distinct [OF _ dist]) simp
  note sc = sorted_cores [OF es this]
  have dc: "distinct (map fst (concat (map cores ds)))"
    using mset_map_eq_distinct [OF m [symmetric]] sc by blast
  have "ordered_elems (concat (map cores ds)) = ordered_elems (concat (map cores ?es))"
    using m dc by (rule ordered_elems_perm)
  also have "\<dots> = concat (map snd (concat (map cores ?es)))"
    using sc by (simp only: ordered_elems_def sort_key_id_if_sorted)
  also have "\<dots> = g (concat (map (snd \<circ> bd_core) ?es))" by (rule concat_cores [OF es(1)])
  also have "concat (map (snd \<circ> bd_core) ?es) = ordered_elems (map bd_core ds)"
  proof -
    have "(fst \<circ> bd_core :: 'a BufferData \<Rightarrow> nat) = bd_index" by (simp add: fun_eq_iff bd_core_def)
    then show ?thesis by (simp add: ordered_elems_def sort_key_map)
  qed
  finally show ?thesis using dc by simp
qed


lemma transform_result:
  assumes run: "run_transform pol body M compact P Q A B N ssds names fs s res fs'"
    and caps: "cap = B div pod_size P" "ocap = B div pod_size Q"
    and P: "pod_repr P" and Q: "pod_repr Q" and env: "env_ok Q A B N names" and wf: "wf_seq P B fs s"
    and xs: "ReadOutput P fs s = Some xs"
  shows "\<exists>out. res = Some out \<and> wf_seq Q B fs' out \<and> ReadOutput Q fs' out = Some (g xs) \<and>
    (compact \<longrightarrow> map h_index (ordered_underlying_sequence out) = [0..<seq_size out]) \<and>
    blocks_apart B names (ordered_underlying_sequence out)"
proof -
  let ?hs = "ordered_underlying_sequence s"
  have e: "0 < A" "A dvd B" "0 < N" "0 < B" using env by (simp_all add: env_ok_def)
  have sz: "0 < pod_size P" using pod_repr.size_pos [OF P] .
  have blocks: "\<forall>h \<in> set ?hs. wf_block P B fs h" using wf by (simp add: wf_seq_def)
  from run obtain ds polls heap st where rp: "reader_polls P A B default_reader_config fs ?hs ds"
    and po: "polls_ok N (ceil_div (seq_size s) N) ds polls" and heap: "heap_ok ocap heap"
    and em: "emit_batches pol N B names (pod_size Q) ocap (transform_batches body heap N polls)
          (initial_emit_state (seq_size s * M)) st"
    and res: "res = finish_blocks compact st"
    and wr: "chunk_writer_runs A ssds transform_config Q names fs (es_requests st) fs'"
    by (auto simp: run_transform_def caps)
  note pol = rp default_reader_config_ok sz e(1,2) blocks
  have ok: "\<forall>d \<in> set ds. bd_ok cap d" using chunk_reader.polls_ok [OF pol] caps(1) by simp
  have len: "length ds = seq_size s" using chunk_reader.polls_length [OF pol] by (simp add: seq_size_def)
  have dist: "distinct (map bd_index ds)"
    using wf chunk_reader.polls_index [OF pol] by (metis mset_eq_imp_distinct_iff wf_seq_def)
  note ab = all_blocks [OF ok len heap po e(3)]
  have "length (concat (concat (transform_batches body heap N polls))) \<le> seq_size s * M"
    using ab(3) mset_eq_length [OF ab(1)] by simp
  from emit_batches_result [OF em e(3,4) ab(2) this]
  obtain L where nf: "\<not> es_fault st" and c: "es_out_count st \<le> seq_size s * M" "length (es_headers st) = seq_size s * M"
    and hd: "mset (take (es_out_count st) (es_headers st)) = mset (map (entry_header names (pod_size Q)) L)"
    and rq: "mset (es_requests st) = mset (map (entry_request ocap) L)"
    and pl: "placed B ocap N (es_offsets st) L"
    and co: "mset (map entry_core L) = mset (map eb_core (concat (concat (transform_batches body heap N polls))))"
    by blast
  note ord = cores_ordered [OF ok dist]
  let ?sh = "sort_key h_index (take (es_out_count st) (es_headers st))"
  have rs: "resize (es_out_count st) (es_headers st) = take (es_out_count st) (es_headers st)"
    using c by (simp add: resize_def)
  have hs: "mset ?sh = mset (map (entry_header names (pod_size Q)) L)" using hd by simp
  have "mset (map entry_core L) = mset (concat (map cores ds))" using co ab(1) by simp
  from written_blocks [OF Q env wr rq [unfolded caps] pl [unfolded caps] hs this conjunct1 [OF ord]]
  have w: "wf_seq Q B fs' \<lparr>ordered_underlying_sequence = ?sh\<rparr>"
    "ReadOutput Q fs' \<lparr>ordered_underlying_sequence = ?sh\<rparr> = Some (ordered_elems (concat (map cores ds)))"
    "blocks_apart B names ?sh"
    by simp_all
  have "ReadOutput P fs s = Some (ordered_elems (map bd_core ds))"
    using chunk_reader.polls_ordered [OF rp default_reader_config_ok sz e(1,2) wf] .
  then have "ordered_elems (concat (map cores ds)) = g xs" using ord xs by simp
  moreover have "map h_index (reindex ?sh) = [0..<length (reindex ?sh)]"
    by (metis reindex_index length_map length_upt minus_nat.diff_0)
  ultimately show ?thesis
    using nf w reindex_seq [OF w(1)] reindex_apart [of B names ?sh] by (simp add: res finish_blocks_def rs seq_size_def Let_def)
qed

lemma transform_exists:
  assumes caps: "cap = B div pod_size P" "ocap = B div pod_size Q"
    and P: "pod_repr P" and Q: "pod_repr Q" and env: "env_ok Q A B N names" and wf: "wf_seq P B fs s"
  shows "\<exists>res fs'. run_transform pol body M compact P Q A B N ssds names fs s res fs'"
proof -
  let ?hs = "ordered_underlying_sequence s"
  have e: "0 < A" "A dvd B" "0 < N" "0 < B" "length names = N" using env by (simp_all add: env_ok_def)
  have sz: "0 < pod_size P" using pod_repr.size_pos [OF P] .
  have blocks: "\<forall>h \<in> set ?hs. wf_block P B fs h" using wf by (simp add: wf_seq_def)
  obtain ds where rp: "reader_polls P A B default_reader_config fs ?hs (ds :: 'a BufferData list)"
    using chunk_reader.polls_exist [OF default_reader_config_ok sz e(1,2) blocks] by blast
  note pol = rp default_reader_config_ok sz e(1,2) blocks
  have ok: "\<forall>d \<in> set ds. bd_ok cap d" using chunk_reader.polls_ok [OF pol] caps(1) by simp
  have len: "length ds = seq_size s" using chunk_reader.polls_length [OF pol] by (simp add: seq_size_def)
  define polls where "polls = map (\<lambda>w. map Some (run_of N ds w) @ replicate (N - length (run_of N ds w)) None)
    [0..<ceil_div (seq_size s) N]"
  have po: "polls_ok N (ceil_div (seq_size s) N) ds polls" by (simp add: polls_ok_def polls_def)
  define heap :: "nat \<Rightarrow> nat \<Rightarrow> nat \<Rightarrow> 'b list" where "heap = (\<lambda>_ _ _. replicate ocap undefined)"
  have heap: "heap_ok ocap heap" by (simp add: heap_ok_def heap_def)
  note ab = all_blocks [OF ok len heap po e(3)]
  have room: "length (concat (concat (transform_batches body heap N polls))) \<le> seq_size s * M"
    using ab(3) mset_eq_length [OF ab(1)] by simp
  have "\<exists>D. emit_inv N B ocap names (pod_size Q) (seq_size s * M) {#} (initial_emit_state (seq_size s * M)) D"
    using emit_init by blast
  from emit_batches_exist [OF this _ e(3,4) ab(2)] room emit_init
  obtain st where em: "emit_batches pol N B names (pod_size Q) ocap (transform_batches body heap N polls)
          (initial_emit_state (seq_size s * M)) st" by fastforce
  from emit_batches_result [OF em e(3,4) ab(2) room]
  obtain L where rq: "mset (es_requests st) = mset (map (entry_request ocap) L)"
    and pl: "placed B ocap N (es_offsets st) L" by blast
  have "\<forall>r \<in> set (es_requests st). valid_request Q A (length names) r \<and> push_check Q A r"
    using entry_requests_valid [OF pl [unfolded caps] env Q] mset_eq_setD [OF rq] e(5) caps by simp
  then have "\<exists>fs'. chunk_writer_runs A ssds transform_config Q names fs (es_requests st) fs'"
    using e by (intro writer_runs_exists) (auto simp: transform_config_def default_writer_config_def)
  then show ?thesis unfolding run_transform_def using rp po heap em caps by blast
qed

end

section \<open>The bodies keep the contract\<close>

interpretation filter_block: block_body "filter_body p" cap cap 1 "\<lambda>d. [kept_core p d]" "filter p" for p cap
proof unfold_locales
  fix d :: "'a BufferData" and fresh :: "nat \<Rightarrow> 'a list" and w i
  assume d: "bd_ok cap d" and f: "\<forall>s. length (fresh s) = cap"
  let ?xs = "take (bd_size d) (bd_data d)"
  have "length (filter p ?xs) \<le> length ?xs" by (rule length_filter_le)
  also have "\<dots> \<le> cap" using d by (simp add: bd_ok_def)
  finally have le: "length (filter p ?xs) \<le> cap" .
  obtain buf k where fl: "filter_loop p ?xs (fresh 0) 0 = (buf, k)" by force
  have "length buf = cap" "k = length (filter p ?xs)" "take k buf = filter p ?xs"
    using filter_loop_result [of 0 p ?xs "fresh 0"] fl le f by simp_all
  then show "(\<forall>b \<in> set (filter_body p w i d fresh). eb_ok cap b) \<and>
      map eb_core (filter_body p w i d fresh) = [kept_core p d]"
    using fl le by (simp add: filter_body_def eb_ok_def eb_core_def kept_core_def bd_core_def)
qed (simp_all add: kept_core_def)

lemma map_loop_result:
  "j + length xs \<le> length buf \<Longrightarrow>
   length (map_loop f xs buf j) = length buf \<and>
   take (j + length xs) (map_loop f xs buf j) = take j buf @ map f xs"
proof (induction f xs buf j rule: map_loop.induct)
  case (1 f buf j)
  then show ?case by simp
next
  case (2 f x xs buf j)
  then show ?case by (simp add: take_update_Suc)
qed

text \<open>The keys and elements of the blocks of a map.\<close>

definition mapped_cores :: "('a \<Rightarrow> 'b) \<Rightarrow> nat \<Rightarrow> nat \<Rightarrow> 'a BufferData \<Rightarrow> (nat \<times> 'b list) list" where
  "mapped_cores f ocap F d = map (\<lambda>s. (bd_index d * F + s, map f (run_of ocap (snd (bd_core d)) s)))
     [0..<num_sub ocap (bd_size d)]"

lemma map_block_result:
  assumes d: "bd_ok cap d" and fresh: "length (fresh s) = ocap"
  shows "eb_ok ocap (map_block f ocap F d fresh key s) \<and>
    eb_core (map_block f ocap F d fresh key s) = (bd_index d * F + s, map f (run_of ocap (snd (bd_core d)) s))"
proof -
  let ?lo = "s * ocap" and ?hi = "min (bd_size d) ((s + 1) * ocap)"
  let ?xs = "take (?hi - ?lo) (drop ?lo (bd_data d))"
  have xs: "?xs = run_of ocap (snd (bd_core d)) s"
  proof -
    have "?hi - ?lo = min ocap (bd_size d - ?lo)" by (simp add: min_diff)
    then show ?thesis by (simp add: run_of_def bd_core_def drop_take)
  qed
  have len: "length ?xs = ?hi - ?lo" using d by (auto simp: bd_ok_def min_def)
  have le: "?hi - ?lo \<le> ocap" by simp
  have mb: "map_block f ocap F d fresh key s = \<lparr>eb_key = key, eb_index = bd_index d * F + s,
      eb_count = ?hi - ?lo, eb_buf = map_loop f ?xs (fresh s) 0\<rparr>"
    by (simp only: map_block_def Let_def)
  have "length (map_loop f ?xs (fresh s) 0) = ocap \<and> take (?hi - ?lo) (map_loop f ?xs (fresh s) 0) = map f ?xs"
    using map_loop_result [of 0 ?xs "fresh s" f] len le fresh by (simp del: length_take)
  then show ?thesis
    unfolding mb eb_ok_def eb_core_def xs [symmetric] using le by (simp del: min_less_iff_disj)
qed


lemma num_sub_le:
  assumes cap: "cap * pod_size P = ocap * pod_size Q" and pos: "0 < pod_size P" "0 < pod_size Q" "0 < ocap"
    and k: "k \<le> cap"
  shows "num_sub ocap k \<le> FANOUT P Q \<and> k \<le> num_sub ocap k * ocap"
proof -
  have F: "FANOUT P Q = ceil_div (pod_size Q) (pod_size P)" by (simp add: FANOUT_def ceil_div_def)
  have "ocap * pod_size Q \<le> ocap * (FANOUT P Q * pod_size P)"
    unfolding F by (intro mult_le_mono2 ceil_div_ge pos)
  then have "cap * pod_size P \<le> FANOUT P Q * ocap * pod_size P" by (simp add: cap ac_simps)
  then have "k \<le> FANOUT P Q * ocap" using pos(1) k by simp
  then have "ceil_div k ocap \<le> FANOUT P Q" using less_ceil_div_iff [OF pos(3), of "FANOUT P Q" k] by simp
  moreover have "0 < FANOUT P Q" unfolding F using less_ceil_div_iff [OF pos(1), of 0 "pod_size Q"] pos(2) by simp
  ultimately show ?thesis
    using ceil_div_ge [OF pos(3), of k] by (simp add: num_sub_def ceil_div_def)
qed

lemma map_block_body:
  fixes P :: "'c pod" and Q :: "'d pod" and body :: "('a, 'b) body"
  assumes cap: "cap * pod_size P = ocap * pod_size Q" and pos: "0 < pod_size P" "0 < pod_size Q" "0 < ocap"
    and body: "\<And>w i d fresh. \<exists>key. body w i d fresh =
       map (\<lambda>s. map_block f ocap (FANOUT P Q) d fresh (key s) s) [0..<num_sub ocap (bd_size d)]"
  shows "block_body body cap ocap (FANOUT P Q) (mapped_cores f ocap (FANOUT P Q)) (map f)"
proof
  fix d :: "'a BufferData" and fresh :: "nat \<Rightarrow> 'b list" and w i
  assume d: "bd_ok cap d"
  then have k: "bd_size d \<le> cap" by (simp add: bd_ok_def)
  note ns = num_sub_le [OF cap pos k]
  {
    assume f: "\<forall>s. length (fresh s) = ocap"
    obtain key where key: "body w i d fresh =
       map (\<lambda>s. map_block f ocap (FANOUT P Q) d fresh (key s) s) [0..<num_sub ocap (bd_size d)]"
      using body by blast
    have "eb_ok ocap (map_block f ocap (FANOUT P Q) d fresh k s) \<and>
        eb_core (map_block f ocap (FANOUT P Q) d fresh k s) =
          (bd_index d * FANOUT P Q + s, map f (run_of ocap (snd (bd_core d)) s))" for k s
      using map_block_result [OF d] f by blast
    then show "(\<forall>b \<in> set (body w i d fresh). eb_ok ocap b) \<and>
        map eb_core (body w i d fresh) = mapped_cores f ocap (FANOUT P Q) d"
      by (simp add: key mapped_cores_def)
  }
  show "length (mapped_cores f ocap (FANOUT P Q) d) \<le> FANOUT P Q \<and>
      map fst (mapped_cores f ocap (FANOUT P Q) d) =
        map (\<lambda>s. bd_index d * FANOUT P Q + s) [0..<length (mapped_cores f ocap (FANOUT P Q) d)]"
    using ns by (simp add: mapped_cores_def)
  have "length (snd (bd_core d)) \<le> num_sub ocap (bd_size d) * ocap" using ns by (simp add: bd_core_def min.coboundedI2)
  from concat_runs [OF this]
  have "concat (map (run_of ocap (snd (bd_core d))) [0..<num_sub ocap (bd_size d)]) = snd (bd_core d)" .
  then have "map f (concat (map (run_of ocap (snd (bd_core d))) [0..<num_sub ocap (bd_size d)])) = map f (snd (bd_core d))"
    by simp
  then show "concat (map snd (mapped_cores f ocap (FANOUT P Q) d)) = map f (snd (bd_core d))"
    by (simp add: mapped_cores_def map_concat comp_def)
next
  show "0 < FANOUT P Q" using num_sub_le [OF cap pos, of 0] by (simp add: num_sub_def)
qed simp

text \<open>The static assertions of the maps: a block is a whole number of input and of output elements.\<close>

lemma block_elems:
  assumes "pod_size P dvd B" and "pod_size Q dvd B" and "0 < B" and "pod_repr P" and "pod_repr Q"
  shows "B div pod_size P * pod_size P = B div pod_size Q * pod_size Q" "0 < pod_size P" "0 < pod_size Q"
    "0 < B div pod_size Q"
  using assms pod_repr.size_pos by (auto simp: div_greater_zero_iff dvd_imp_le)

lemma ExternalMap_result:
  assumes P: "pod_repr P" and Q: "pod_repr Q" and div: "pod_size P dvd B" and env: "env_ok Q A B N names"
    and wf: "wf_seq P B fs s" and xs: "ReadOutput P fs s = Some xs"
  shows "\<exists>res fs'. ExternalMap hash64 f P Q A B N ssds names fs s res fs'"
    and "ExternalMap hash64 f P Q A B N ssds names fs s res fs' \<Longrightarrow>
      \<exists>out. res = Some out \<and> wf_seq Q B fs' out \<and> ReadOutput Q fs' out = Some (map f xs) \<and>
        map h_index (ordered_underlying_sequence out) = [0..<seq_size out] \<and>
        blocks_apart B names (ordered_underlying_sequence out)"
proof -
  have "pod_size Q dvd B" "0 < B" using env by (simp_all add: env_ok_def)
  note bb = map_block_body [OF block_elems [OF div this P Q], of "direct_map_body f (B div pod_size Q) (FANOUT P Q) N" f]
  have body: "block_body (direct_map_body f (B div pod_size Q) (FANOUT P Q) N) (B div pod_size P) (B div pod_size Q) (FANOUT P Q)
      (mapped_cores f (B div pod_size Q) (FANOUT P Q)) (map f)"
    by (rule bb) (auto simp: direct_map_body_def)
  show "\<exists>res fs'. ExternalMap hash64 f P Q A B N ssds names fs s res fs'"
    unfolding ExternalMap_def by (rule block_body.transform_exists [OF body refl refl P Q env wf])
  show "ExternalMap hash64 f P Q A B N ssds names fs s res fs' \<Longrightarrow>
      \<exists>out. res = Some out \<and> wf_seq Q B fs' out \<and> ReadOutput Q fs' out = Some (map f xs) \<and>
        map h_index (ordered_underlying_sequence out) = [0..<seq_size out] \<and>
        blocks_apart B names (ordered_underlying_sequence out)"
    unfolding ExternalMap_def using block_body.transform_result [OF body _ refl refl P Q env wf xs] by blast
qed

section \<open>Properties\<close>

text \<open>C7: The \<open>ExternalFilter\<close> of the engine is correct: it always returns, with no header stored
outside the array, for every interleaving of the tasks and of their draws, and whatever it returns
is a well-formed sequence that reads back as the elements satisfying the predicate, in order, with
keys 0, 1, 2 and so on.\<close>

theorem engine_ExternalFilter_correct:
  assumes P: "pod_repr P" and env: "env_ok P A B N names" and wf: "wf_seq P B fs s"
    and xs: "ReadOutput P fs s = Some xs" and "fresh_seq s names"
  shows "(\<exists>res fs'. engine_ExternalFilter hash64 p P A B N ssds names fs s res fs') \<and>
    (\<forall>res fs'. engine_ExternalFilter hash64 p P A B N ssds names fs s res fs' \<longrightarrow>
       (\<exists>out. res = Some out \<and> wf_seq P B fs' out \<and> ReadOutput P fs' out = Some (filter p xs) \<and>
          map h_index (ordered_underlying_sequence out) = [0..<seq_size out] \<and>
          blocks_apart B names (ordered_underlying_sequence out)))"
  unfolding engine_ExternalFilter_def ExternalTransform_def
  using filter_block.transform_exists [OF refl refl P P env wf]
    filter_block.transform_result [OF _ refl refl P P env wf xs] by blast

lemma engine_ExternalFilter_correct_witness:
  "\<exists>out fs'. engine_ExternalFilter id (\<lambda>x. x < 6) u8_pod 2 4 2 [] [''o0'', ''o1''] demo_fs demo_seq (Some out) fs' \<and>
     ReadOutput u8_pod fs' out = Some [5, 1, 2, 3, 4]"
  using engine_ExternalFilter_correct [OF u8_repr.pod_repr_axioms demo_env demo_wf demo_output demo_fresh, of id "\<lambda>x. x < 6" "[]"]
  by fastforce

text \<open>C8: The \<open>ExternalMap\<close> of the engine is correct for element types of any two sizes: if the keys
of the input are small enough for \<open>index * FANOUT + s\<close> not to wrap around, it always returns, and
the result reads back as the image of the input under \<open>f\<close>, element by element.\<close>

theorem engine_ExternalMap_correct:
  assumes P: "pod_repr P" and Q: "pod_repr Q" and div: "pod_size P dvd B" and env: "env_ok Q A B N names"
    and wf: "wf_seq P B fs s" and xs: "ReadOutput P fs s = Some xs" and "fresh_seq s names"
    and "keys_fit (FANOUT P Q) s"
  shows "(\<exists>res fs'. engine_ExternalMap hash64 f P Q A B N ssds names fs s res fs') \<and>
    (\<forall>res fs'. engine_ExternalMap hash64 f P Q A B N ssds names fs s res fs' \<longrightarrow>
       (\<exists>out. res = Some out \<and> wf_seq Q B fs' out \<and> ReadOutput Q fs' out = Some (map f xs) \<and>
          map h_index (ordered_underlying_sequence out) = [0..<seq_size out] \<and>
          blocks_apart B names (ordered_underlying_sequence out)))"
proof -
  have "pod_size Q dvd B" "0 < B" using env by (simp_all add: env_ok_def)
  note bb = map_block_body [OF block_elems [OF div this P Q], of "map_body f (B div pod_size Q) (FANOUT P Q)" f]
  have "block_body (map_body f (B div pod_size Q) (FANOUT P Q)) (B div pod_size P) (B div pod_size Q) (FANOUT P Q)
      (mapped_cores f (B div pod_size Q) (FANOUT P Q)) (map f)"
    by (rule bb) (auto simp: map_body_def)
  note body = this
  show ?thesis
    unfolding engine_ExternalMap_def ExternalTransform_def
    using block_body.transform_exists [OF body refl refl P Q env wf]
      block_body.transform_result [OF body _ refl refl P Q env wf xs] by blast
qed

lemma engine_ExternalMap_correct_witness:
  "\<exists>out fs'. engine_ExternalMap id (\<lambda>x. ucast x + 300) u8_pod u16_pod 2 4 2 [] [''o0'', ''o1''] demo_fs demo_seq (Some out) fs' \<and>
     ReadOutput u16_pod fs' out = Some [305, 306, 307, 301, 302, 303, 304]"
proof -
  have env: "env_ok u16_pod 2 4 2 [''o0'', ''o1'']" by (simp add: env_ok_def u16_pod_def)
  have div: "pod_size u8_pod dvd 4" by (simp add: u8_pod_def)
  have fit: "keys_fit (FANOUT u8_pod u16_pod) demo_seq"
    by (simp add: keys_fit_def FANOUT_def demo_seq_def u8_pod_def u16_pod_def)
  have im: "map (\<lambda>x. ucast x + 300) [5, 6, 7, 1, 2, 3, 4 :: byte] = [305, 306, 307, 301, 302, 303, 304 :: 16 word]"
    by simp
  show ?thesis
    using engine_ExternalMap_correct [OF u8_repr.pod_repr_axioms u16_repr.pod_repr_axioms div env demo_wf demo_output demo_fresh fit,
        of id "\<lambda>x. ucast x + 300" "[]"] unfolding im by blast
qed

text \<open>Plaidlay/ExternalMap.h keeps the same contract, although its tasks draw the place of a block
before its slot and choose the file by a hash of batch, task and run number.\<close>

theorem ExternalMap_correct:
  assumes P: "pod_repr P" and Q: "pod_repr Q" and div: "pod_size P dvd B" and env: "env_ok Q A B N names"
    and wf: "wf_seq P B fs s" and xs: "ReadOutput P fs s = Some xs" and "fresh_seq s names"
    and "keys_fit (FANOUT P Q) s"
  shows "(\<exists>res fs'. ExternalMap hash64 f P Q A B N ssds names fs s res fs') \<and>
    (\<forall>res fs'. ExternalMap hash64 f P Q A B N ssds names fs s res fs' \<longrightarrow>
       (\<exists>out. res = Some out \<and> wf_seq Q B fs' out \<and> ReadOutput Q fs' out = Some (map f xs) \<and>
          map h_index (ordered_underlying_sequence out) = [0..<seq_size out] \<and>
          blocks_apart B names (ordered_underlying_sequence out)))"
  using ExternalMap_result [OF P Q div env wf xs] by blast

lemma ExternalMap_correct_witness:
  "\<exists>out fs'. ExternalMap id (\<lambda>x. x + 1) u8_pod u8_pod 2 4 2 [] [''o0'', ''o1''] demo_fs demo_seq (Some out) fs' \<and>
     ReadOutput u8_pod fs' out = Some [6, 7, 8, 2, 3, 4, 5]"
proof -
  have div: "pod_size u8_pod dvd 4" by (simp add: u8_pod_def)
  have fit: "keys_fit (FANOUT u8_pod u8_pod) demo_seq"
    by (simp add: keys_fit_def FANOUT_def demo_seq_def u8_pod_def)
  have im: "map (\<lambda>x. x + 1) [5, 6, 7, 1, 2, 3, 4 :: byte] = [6, 7, 8, 2, 3, 4, 5]" by simp
  show ?thesis
    using ExternalMap_correct [OF u8_repr.pod_repr_axioms u8_repr.pod_repr_axioms div demo_env demo_wf demo_output demo_fresh fit,
        of id "\<lambda>x. x + 1" "[]"] unfolding im by blast
qed

end
