(* ===== verification/Consumers.thy ===== *)
theory Consumers
  imports Engine
begin

text \<open>
  The primitives that only read: \<open>ExternalReduce\<close> (Plaidlay/ExternalReduce.h) and \<open>find_if\<close>
  (Plaidlay/extern_find_if.h). The reduction drains the reader with \<open>W\<close> workers and combines their
  partial results by \<open>parlay::reduce\<close>, of which only the documented behaviour is used: some
  bracketing of the partial results in their order.
\<close>

section \<open>ExternalReduce\<close>

inductive bracketing :: "('r \<Rightarrow> 'r \<Rightarrow> 'r) \<Rightarrow> 'r list \<Rightarrow> 'r \<Rightarrow> bool"
  for f where
  bracket_one: "bracketing f [x] x"
| bracket_app: "bracketing f xs a \<Longrightarrow> bracketing f ys b \<Longrightarrow> bracketing f (xs @ ys) (f a b)"

text \<open>One worker: the elements of its blocks are folded into \<open>acc\<close>; \<open>conv\<close> converts an element.\<close>

fun acc_loop :: "('r \<Rightarrow> 'r \<Rightarrow> 'r) \<Rightarrow> ('a \<Rightarrow> 'r) \<Rightarrow> 'a list \<Rightarrow> 'r \<Rightarrow> 'r" where
  "acc_loop f conv [] acc = acc"
| "acc_loop f conv (x # xs) acc = acc_loop f conv xs (f acc (conv x))"

fun drain_loop :: "('r \<Rightarrow> 'r \<Rightarrow> 'r) \<Rightarrow> ('a \<Rightarrow> 'r) \<Rightarrow> 'a BufferData list \<Rightarrow> 'r \<Rightarrow> 'r" where
  "drain_loop f conv [] acc = acc"
| "drain_loop f conv (d # ds) acc = drain_loop f conv ds (acc_loop f conv (take (bd_size d) (bd_data d)) acc)"

text \<open>\<open>shares ! t\<close>: what worker \<open>t\<close> has polled before it saw the null pointer.\<close>

definition ExternalReduce :: "nat \<Rightarrow> ('r \<Rightarrow> 'r \<Rightarrow> 'r) \<Rightarrow> 'r \<Rightarrow> ('a \<Rightarrow> 'r) \<Rightarrow> 'a pod \<Rightarrow> nat \<Rightarrow> nat \<Rightarrow> fstore \<Rightarrow>
    External_Sequence \<Rightarrow> 'r \<Rightarrow> bool" where
  "ExternalReduce W f e conv P A B fs s r \<longleftrightarrow>
     (\<exists>ds shares. reader_polls P A B default_reader_config fs (ordered_underlying_sequence s) ds \<and>
        length shares = W \<and> mset (concat shares) = mset ds \<and>
        bracketing f (map (\<lambda>share. drain_loop f conv share e) shares) r)"

definition fold_of :: "('r \<Rightarrow> 'r \<Rightarrow> 'r) \<Rightarrow> 'r \<Rightarrow> 'r list \<Rightarrow> 'r" where
  "fold_of f e xs = foldr f xs e"

text \<open>What \<open>op\<close> and \<open>identity\<close> have to satisfy.\<close>

definition comm_op :: "('r \<Rightarrow> 'r \<Rightarrow> 'r) \<Rightarrow> 'r \<Rightarrow> bool" where
  "comm_op f e \<longleftrightarrow> (\<forall>a b c. f (f a b) c = f a (f b c)) \<and> (\<forall>a b. f a b = f b a) \<and> (\<forall>a. f e a = a)"

lemma comm_opD:
  assumes "comm_op f e"
  shows "f (f a b) c = f a (f b c)" and "f a b = f b a" and "f e a = a" and "f a e = a"
proof -
  show "f (f a b) c = f a (f b c)" and "f a b = f b a" and "f e a = a"
    using assms unfolding comm_op_def by blast+
  show "f a e = a" using assms unfolding comm_op_def by metis
qed

lemma fold_of_simps [simp]: "fold_of f e [] = e" "fold_of f e (x # xs) = f x (fold_of f e xs)"
  by (simp_all add: fold_of_def)

lemma fold_of_append: "comm_op f e \<Longrightarrow> fold_of f e (xs @ ys) = f (fold_of f e xs) (fold_of f e ys)"
  by (induction xs) (simp_all add: comm_opD(1,3))

lemma fold_of_perm:
  assumes f: "comm_op f e" and "mset xs = mset ys"
  shows "fold_of f e xs = fold_of f e ys"
proof -
  have "f y (f x a) = f x (f y a)" for x y a
    using comm_opD(1) [OF f, of x y a] comm_opD(1) [OF f, of y x a] comm_opD(2) [OF f, of x y] by simp
  then have "comp_fun_commute f" by (intro comp_fun_commute.intro) (simp add: fun_eq_iff)
  then have "fold_of f e zs = fold_mset f e (mset zs)" for zs
    by (induction zs) (simp_all add: comp_fun_commute.fold_mset_add_mset)
  then show ?thesis using assms(2) by simp
qed

lemma acc_loop_fold: "comm_op f e \<Longrightarrow> acc_loop f conv xs acc = f acc (fold_of f e (map conv xs))"
  by (induction xs arbitrary: acc) (simp_all add: comm_opD(1,4))

definition block_vals :: "('a \<Rightarrow> 'r) \<Rightarrow> 'a BufferData \<Rightarrow> 'r list" where
  "block_vals conv d = map conv (take (bd_size d) (bd_data d))"

lemma drain_loop_fold:
  "comm_op f e \<Longrightarrow> drain_loop f conv ds acc = f acc (fold_of f e (concat (map (block_vals conv) ds)))"
proof (induction ds arbitrary: acc)
  case Nil
  then show ?case by (simp add: comm_opD(4))
next
  case (Cons d ds)
  have "drain_loop f conv (d # ds) acc
      = f (f acc (fold_of f e (block_vals conv d))) (fold_of f e (concat (map (block_vals conv) ds)))"
    using Cons.IH [OF Cons.prems] acc_loop_fold [OF Cons.prems, of conv] unfolding block_vals_def by simp
  also have "\<dots> = f acc (fold_of f e (block_vals conv d @ concat (map (block_vals conv) ds)))"
    unfolding fold_of_append [OF Cons.prems] by (rule comm_opD(1) [OF Cons.prems])
  finally show ?case by simp
qed

lemma bracketing_fold: "bracketing f xs r \<Longrightarrow> comm_op f e \<Longrightarrow> r = fold_of f e xs"
proof (induction rule: bracketing.induct)
  case (bracket_one x)
  then show ?case by (simp add: comm_opD(4))
next
  case (bracket_app xs a ys b)
  then show ?case by (simp add: fold_of_append)
qed

lemma bracketing_exists: "xs \<noteq> [] \<Longrightarrow> \<exists>r. bracketing f xs r"
proof (induction xs)
  case Nil
  then show ?case by simp
next
  case (Cons x xs)
  show ?case
  proof (cases "xs = []")
    case True
    then show ?thesis using bracket_one [of f x] by auto
  next
    case False
    then obtain r where "bracketing f xs r" using Cons.IH by blast
    with bracket_app [OF bracket_one, of f xs r x] show ?thesis by auto
  qed
qed

lemma shares_fold:
  assumes f: "comm_op f e"
  shows "fold_of f e (map (\<lambda>share. drain_loop f conv share e) shares)
    = fold_of f e (concat (map (block_vals conv) (concat shares)))"
proof (induction shares)
  case Nil
  then show ?case by simp
next
  case (Cons x xs)
  have "drain_loop f conv x e = fold_of f e (concat (map (block_vals conv) x))"
    using drain_loop_fold [OF f, of conv x e] comm_opD(3) [OF f] by simp
  with Cons show ?case by (simp add: fold_of_append [OF f])
qed

lemma mset_block_vals:
  "mset (concat (map (block_vals conv) ds)) = mset (map conv (ordered_elems (map bd_core ds)))"
proof -
  have "mset (concat (map (block_vals conv) ds)) = image_mset conv (\<Sum>b\<leftarrow>map bd_core ds. mset (snd b))"
    by (induction ds) (simp_all add: block_vals_def bd_core_def)
  then show ?thesis by (simp only: mset_ordered_elems mset_map)
qed

lemma ExternalReduce_fold:
  assumes run: "ExternalReduce W f e conv P A B fs s r" and f: "comm_op f e"
    and sz: "0 < pod_size P" and A: "0 < A" "A dvd B" and wf: "wf_seq P B fs s"
    and xs: "ReadOutput P fs s = Some xs"
  shows "r = fold_of f e (map conv xs)"
proof -
  from run obtain ds shares where rp: "reader_polls P A B default_reader_config fs (ordered_underlying_sequence s) ds"
    and sh: "mset (concat shares) = mset ds"
    and br: "bracketing f (map (\<lambda>share. drain_loop f conv share e) shares) r"
    by (auto simp: ExternalReduce_def)
  have "xs = ordered_elems (map bd_core ds)"
    using chunk_reader.polls_ordered [OF rp default_reader_config_ok sz A wf] xs by simp
  then have "mset (concat (map (block_vals conv) (concat shares))) = mset (map conv xs)"
    using mset_block_vals [of conv ds] mset_concat_map_cong [OF sh, of "block_vals conv"] by simp
  then have "fold_of f e (concat (map (block_vals conv) (concat shares))) = fold_of f e (map conv xs)"
    by (rule fold_of_perm [OF f])
  then show ?thesis using bracketing_fold [OF br f] shares_fold [OF f, of conv shares] by simp
qed

lemma wf_blocks: "wf_seq P B fs s \<Longrightarrow> \<forall>h \<in> set (ordered_underlying_sequence s). wf_block P B fs h"
  by (simp add: wf_seq_def)

lemma ExternalReduce_exists:
  assumes W: "0 < W" and sz: "0 < pod_size P" and A: "0 < A" "A dvd B" and wf: "wf_seq P B fs s"
  shows "\<exists>r. ExternalReduce W f e conv P A B fs s r"
proof -
  obtain ds where rp: "reader_polls P A B default_reader_config fs (ordered_underlying_sequence s) ds"
    using chunk_reader.polls_exist [OF default_reader_config_ok sz A wf_blocks [OF wf]] by blast
  let ?shares = "ds # replicate (W - 1) []"
  have "length ?shares = W" "mset (concat ?shares) = mset ds" using W by simp_all
  moreover obtain r where "bracketing f (map (\<lambda>share. drain_loop f conv share e) ?shares) r"
    using bracketing_exists [of "map (\<lambda>share. drain_loop f conv share e) ?shares" f] by blast
  ultimately show ?thesis unfolding ExternalReduce_def using rp by blast
qed


section \<open>find_if\<close>

text \<open>The first hit in a block, as \<open>index * buffer_size + j\<close>.\<close>

fun hit_loop :: "('a \<Rightarrow> bool) \<Rightarrow> 'a list \<Rightarrow> nat \<Rightarrow> nat \<Rightarrow> nat option" where
  "hit_loop p [] base j = None"
| "hit_loop p (x # xs) base j = (if p x then Some (base + j) else hit_loop p xs base (j + 1))"

definition task_flag :: "('a \<Rightarrow> bool) \<Rightarrow> nat \<Rightarrow> 'a BufferData option \<Rightarrow> nat option" where
  "task_flag p cap polled =
     (case polled of
        None \<Rightarrow> None
      | Some d \<Rightarrow> hit_loop p (take (bd_size d) (bd_data d)) (bd_index d * cap) 0)"

fun min_flags :: "nat option list \<Rightarrow> nat \<Rightarrow> nat" where
  "min_flags [] a = a"
| "min_flags (None # flags) a = min_flags flags a"
| "min_flags (Some v # flags) a = min_flags flags (min a v)"

definition total_elems :: "'a pod \<Rightarrow> chunk_header list \<Rightarrow> nat" where
  "total_elems P hs = (\<Sum>h\<leftarrow>hs. h_used h div pod_size P)"

definition find_if :: "('a \<Rightarrow> bool) \<Rightarrow> 'a pod \<Rightarrow> nat \<Rightarrow> nat \<Rightarrow> nat \<Rightarrow> fstore \<Rightarrow> External_Sequence \<Rightarrow> nat \<Rightarrow> bool" where
  "find_if p P A B N fs s r \<longleftrightarrow>
     (\<exists>ds polls. reader_polls P A B default_reader_config fs (ordered_underlying_sequence s) ds \<and>
        polls_ok N (expected_batches N (seq_size s)) ds polls \<and>
        r = fold (\<lambda>polled a. min_flags (map (task_flag p (B div pod_size P)) polled) a) polls
              (total_elems P (ordered_underlying_sequence s)))"

text \<open>Every block but the last is full, and the ordering keys are 0, 1, 2 and so on.\<close>

definition packed :: "nat \<Rightarrow> External_Sequence \<Rightarrow> bool" where
  "packed B s \<longleftrightarrow>
     (let hs = sort_key h_index (ordered_underlying_sequence s)
      in map h_index hs = [0..<length hs] \<and> (\<forall>i. Suc i < length hs \<longrightarrow> h_used (hs ! i) = B))"

definition first_index :: "('a \<Rightarrow> bool) \<Rightarrow> 'a list \<Rightarrow> nat" where
  "first_index p xs = length (takeWhile (\<lambda>x. \<not> p x) xs)"

lemma hit_loop_eq:
  "hit_loop p xs base j = (if first_index p xs < length xs then Some (base + j + first_index p xs) else None)"
  by (induction xs arbitrary: j) (simp_all add: first_index_def)

text \<open>The minimum of all hits does not depend on the batches.\<close>

definition flag_values :: "nat option list \<Rightarrow> nat multiset" where
  "flag_values flags = mset (map the (filter (\<lambda>x. x \<noteq> None) flags))"

lemma min_flags_Min: "min_flags flags a = Min (insert a (set_mset (flag_values flags)))"
proof (induction flags a rule: min_flags.induct)
  case (3 v flags a)
  have "Min (insert (min a v) S) = Min (insert a (insert v S))" if "finite S" for S :: "nat set"
    using that by (cases "S = {}") (simp_all add: min.assoc)
  with 3 show ?case by (simp add: flag_values_def)
qed (simp_all add: flag_values_def)

lemma fold_min_flags: "fold (\<lambda>polled a. min_flags (map g polled) a) polls a = min_flags (map g (concat polls)) a"
proof (induction polls arbitrary: a)
  case Nil
  then show ?case by simp
next
  case (Cons pw polls)
  have "min_flags (xs @ ys) a = min_flags ys (min_flags xs a)" for xs ys a
    by (induction xs a rule: min_flags.induct) simp_all
  with Cons show ?case by simp
qed


lemma first_index_le: "first_index p xs \<le> length xs"
  by (simp add: first_index_def length_takeWhile_le)

lemma first_index_bound: "i < length xs \<Longrightarrow> p (xs ! i) \<Longrightarrow> first_index p xs \<le> i"
proof (rule ccontr)
  assume i: "i < length xs" and p: "p (xs ! i)" and "\<not> first_index p xs \<le> i"
  then have lt: "i < length (takeWhile (\<lambda>x. \<not> p x) xs)" by (simp add: first_index_def)
  then have "xs ! i \<in> set (takeWhile (\<lambda>x. \<not> p x) xs)" by (metis nth_mem takeWhile_nth)
  with p show False by (auto dest: set_takeWhileD)
qed

lemma first_index_holds: "first_index p xs < length xs \<Longrightarrow> p (xs ! first_index p xs)"
  using nth_length_takeWhile [of "\<lambda>x. \<not> p x" xs] by (simp add: first_index_def)

text \<open>The least hit over the runs of \<open>cap\<close> elements is the first hit of the list.\<close>

lemma runs_first_index:
  assumes cap: "0 < cap" and m: "length xs \<le> m * cap"
  shows "Min (insert (length xs) {k * cap + first_index p (run_of cap xs k) | k.
      k < m \<and> first_index p (run_of cap xs k) < length (run_of cap xs k)}) = first_index p xs"
    (is "Min ?S = ?t")
proof (rule Min_eqI)
  have "?S \<subseteq> insert (length xs) ((\<lambda>k. k * cap + first_index p (run_of cap xs k)) ` {..<m})" by auto
  then show "finite ?S" by (rule finite_subset) simp
  have low: "?t \<le> k * cap + j" if "j < length (run_of cap xs k)" "p (run_of cap xs k ! j)" for k j
    using that first_index_bound [of "k * cap + j" xs p] take_drop_nth_run [of j cap xs k]
    by (simp add: length_run_of)
  show "?t \<le> v" if "v \<in> ?S" for v
    using that low first_index_holds first_index_le by auto
  show "?t \<in> ?S"
  proof (cases "?t < length xs")
    case False
    then have "?t = length xs" using first_index_le [of p xs] by simp
    then show ?thesis by simp
  next
    case True
    obtain k j where t: "?t = k * cap + j" and j: "j < cap"
      using cap by (metis div_mult_mod_eq mod_less_divisor)
    have lt: "j < length (run_of cap xs k)"
      using True t j by (simp add: length_run_of)
    then have "run_of cap xs k ! j = xs ! ?t" using take_drop_nth_run [OF lt] t by simp
    then have p: "p (run_of cap xs k ! j)" using first_index_holds [OF True] by simp
    let ?f = "first_index p (run_of cap xs k)"
    have le: "?f \<le> j" by (rule first_index_bound [of j _ p, OF lt p])
    then have f: "?f < length (run_of cap xs k)" using lt by simp
    have "?t \<le> k * cap + ?f" using low [OF f] first_index_holds [OF f] by simp
    then have eq: "?t = k * cap + ?f" using t le by linarith
    have "k * cap < m * cap" using True m t by linarith
    then have "k < m" by simp
    with eq f show ?thesis by blast
  qed
qed

text \<open>Blocks of \<open>cap\<close> elements, the last one at most that long, are the runs of their concatenation.\<close>

lemma blocks_are_runs:
  assumes "\<forall>i. Suc i < length E \<longrightarrow> length (E ! i) = cap" and "\<forall>e \<in> set E. length e \<le> cap" and "k < length E"
  shows "E ! k = run_of cap (concat E) k"
  using assms
proof (induction E arbitrary: k)
  case Nil
  then show ?case by simp
next
  case (Cons e E)
  show ?case
  proof (cases "E = []")
    case True
    then show ?thesis using Cons.prems by (simp add: run_of_def)
  next
    case False
    then have e: "length e = cap" using Cons.prems(1)[rule_format, of 0] by simp
    show ?thesis
    proof (cases k)
      case 0
      then show ?thesis using e by (simp add: run_of_def)
    next
      case (Suc l)
      have "E ! l = run_of cap (concat E) l"
      proof (rule Cons.IH)
        show "\<forall>i. Suc i < length E \<longrightarrow> length (E ! i) = cap"
          using Cons.prems(1) by (metis Suc_less_eq length_Cons nth_Cons_Suc)
      qed (use Cons.prems Suc in simp_all)
      then show ?thesis using e Suc by (simp add: run_of_def)
    qed
  qed
qed

lemma polled_blocks:
  assumes polls: "polls_ok N (ceil_div n N) ds polls" and len: "length ds = n" and N: "0 < N"
  shows "mset (filter (\<lambda>x. x \<noteq> None) (concat polls)) = mset (map Some ds)"
proof -
  let ?pad = "\<lambda>w. map Some (run_of N ds w) @ replicate (N - length (run_of N ds w)) None"
  have m: "length polls = ceil_div n N" and pw: "\<forall>w < length polls. mset (polls ! w) = mset (?pad w)"
    using polls unfolding polls_ok_def by blast+
  have "concat polls = concat (map (\<lambda>w. polls ! w) [0..<length polls])" by (simp only: map_nth)
  then have "mset (concat polls) = mset (concat (map ?pad [0..<length polls]))"
    using mset_concat_cong2 [of "[0..<length polls]" "\<lambda>w. polls ! w" ?pad] pw by simp
  then have "mset (filter (\<lambda>x. x \<noteq> None) (concat polls)) = mset (filter (\<lambda>x. x \<noteq> None) (concat (map ?pad [0..<length polls])))"
    by (simp only: mset_filter)
  also have "filter (\<lambda>x. x \<noteq> None) (concat (map ?pad [0..<length polls]))
      = map Some (concat (map (run_of N ds) [0..<length polls]))"
    by (simp add: filter_concat map_concat comp_def filter_map)
  also have "concat (map (run_of N ds) [0..<length polls]) = ds"
    using concat_runs_ceil [OF N, of ds] m len by simp
  finally show ?thesis .
qed

lemma flag_values_polled:
  assumes "mset (filter (\<lambda>x. x \<noteq> None) ps) = mset (map Some ds)" and "g None = None"
  shows "flag_values (map g ps) = flag_values (map (g \<circ> Some) ds)"
proof -
  have none: "filter (\<lambda>x. x \<noteq> None) (map g qs) = filter (\<lambda>x. x \<noteq> None) (map g (filter (\<lambda>x. x \<noteq> None) qs))" for qs
    using assms(2) by (induction qs) auto
  have "mset (map g (filter (\<lambda>x. x \<noteq> None) ps)) = mset (map g (map Some ds))"
    using assms(1) by (metis mset_map)
  then have "mset (filter (\<lambda>x. x \<noteq> None) (map g ps)) = mset (filter (\<lambda>x. x \<noteq> None) (map g (map Some ds)))"
    unfolding none [of ps] by (simp only: mset_filter)
  then show ?thesis unfolding flag_values_def by (metis map_map mset_map)
qed

lemma set_flag_values: "set_mset (flag_values flags) = {v. Some v \<in> set flags}"
proof
  show "set_mset (flag_values flags) \<subseteq> {v. Some v \<in> set flags}" by (auto simp: flag_values_def)
  show "{v. Some v \<in> set flags} \<subseteq> set_mset (flag_values flags)"
  proof
    fix v assume "v \<in> {v. Some v \<in> set flags}"
    then have "Some v \<in> set (filter (\<lambda>x. x \<noteq> None) flags)" by simp
    then have "the (Some v) \<in> the ` set (filter (\<lambda>x. x \<noteq> None) flags)" by (rule imageI)
    then show "v \<in> set_mset (flag_values flags)" by (simp add: flag_values_def)
  qed
qed


lemma length_concat_le: "\<forall>e \<in> set E. length e \<le> c \<Longrightarrow> length (concat E) \<le> length E * c"
  by (induction E) auto

lemma total_elems_eq: "total_elems P hs = length (concat (map (chunk_elems P fs) hs))"
  by (induction hs) (simp_all add: total_elems_def)

lemma total_elems_sorted: "total_elems P (sort_key k hs) = total_elems P hs"
proof -
  have "mset (map (\<lambda>h. h_used h div pod_size P) (sort_key k hs)) = mset (map (\<lambda>h. h_used h div pod_size P) hs)"
    by simp
  then show ?thesis unfolding total_elems_def by (metis sum_mset_sum_list)
qed

text \<open>The outcome of \<open>find_if\<close> as a minimum over the blocks of the sequence.\<close>

lemma find_if_Min:
  assumes run: "find_if p P A B N fs s r" and sz: "0 < pod_size P" and A: "0 < A" "A dvd B" and N: "0 < N"
    and wf: "wf_seq P B fs s"
  shows "r = Min (insert (total_elems P (ordered_underlying_sequence s))
    {h_index h * (B div pod_size P) + first_index p (chunk_elems P fs h) | h.
      h \<in> set (ordered_underlying_sequence s) \<and> first_index p (chunk_elems P fs h) < length (chunk_elems P fs h)})"
proof -
  let ?cap = "B div pod_size P" and ?hs = "ordered_underlying_sequence s"
  from run obtain ds polls where rp: "reader_polls P A B default_reader_config fs ?hs ds"
    and po: "polls_ok N (ceil_div (seq_size s) N) ds polls"
    and r: "r = fold (\<lambda>polled a. min_flags (map (task_flag p ?cap) polled) a) polls (total_elems P ?hs)"
    by (auto simp: find_if_def expected_batches_ceil [OF N])
  note pol = rp default_reader_config_ok sz A wf_blocks [OF wf]
  have len: "length ds = seq_size s" using chunk_reader.polls_length [OF pol] by (simp add: seq_size_def)
  let ?g = "\<lambda>c. if first_index p (snd c) < length (snd c) then Some (fst c * ?cap + first_index p (snd c)) else None"
  have g: "(task_flag p ?cap \<circ> Some) = ?g \<circ> bd_core"
    by (rule ext) (simp add: task_flag_def hit_loop_eq bd_core_def)
  have "flag_values (map (task_flag p ?cap) (concat polls)) = flag_values (map (task_flag p ?cap \<circ> Some) ds)"
    by (rule flag_values_polled [OF polled_blocks [OF po len N]]) (simp add: task_flag_def)
  then have fv: "flag_values (map (task_flag p ?cap) (concat polls)) = flag_values (map (?g \<circ> bd_core) ds)"
    unfolding g .
  have "set_mset (flag_values (map (task_flag p ?cap) (concat polls))) = {v. Some v \<in> set (map (?g \<circ> bd_core) ds)}"
    unfolding fv set_flag_values ..
  also have "set (map (?g \<circ> bd_core) ds) = ?g ` set (map bd_core ds)" by (simp only: set_map image_comp)
  also have "set (map bd_core ds) = set (map (chunk_core P fs) ?hs)"
    using chunk_reader.polls_mset [OF pol] by (rule mset_eq_setD)
  also have "{v. Some v \<in> ?g ` set (map (chunk_core P fs) ?hs)} =
    {h_index h * ?cap + first_index p (chunk_elems P fs h) | h.
      h \<in> set ?hs \<and> first_index p (chunk_elems P fs h) < length (chunk_elems P fs h)}"
    by (auto simp: image_iff simp del: if_image_distrib length_chunk_elems split: if_splits)
  finally show ?thesis unfolding r fold_min_flags min_flags_Min by (rule arg_cong)
qed

lemma find_if_exists:
  assumes sz: "0 < pod_size P" and A: "0 < A" "A dvd B" and N: "0 < N" and wf: "wf_seq P B fs s"
  shows "\<exists>r. find_if p P A B N fs s r"
proof -
  obtain ds where rp: "reader_polls P A B default_reader_config fs (ordered_underlying_sequence s) (ds :: 'a BufferData list)"
    using chunk_reader.polls_exist [OF default_reader_config_ok sz A wf_blocks [OF wf]] by blast
  have "polls_ok N (expected_batches N (seq_size s)) ds
      (map (\<lambda>w. map Some (run_of N ds w) @ replicate (N - length (run_of N ds w)) None)
        [0..<expected_batches N (seq_size s)])"
    by (simp add: polls_ok_def)
  then show ?thesis unfolding find_if_def using rp by blast
qed

lemma find_if_packed:
  assumes run: "find_if p P A B N fs s r" and sz: "0 < pod_size P" and A: "0 < A" "A dvd B" and N: "0 < N"
    and B: "pod_size P dvd B" "0 < B"
    and wf: "wf_seq P B fs s" and pk: "packed B s" and xs: "ReadOutput P fs s = Some xs"
  shows "r = first_index p xs"
proof -
  let ?cap = "B div pod_size P" and ?hs = "sort_key h_index (ordered_underlying_sequence s)"
  let ?E = "map (chunk_elems P fs) ?hs"
  have xs: "xs = concat ?E" using ReadOutput_wf [OF wf] xs by simp
  have cap: "0 < ?cap" using B sz by (simp add: div_greater_zero_iff dvd_imp_le)
  have keys: "map h_index ?hs = [0..<length ?hs]" and full: "\<forall>i. Suc i < length ?hs \<longrightarrow> h_used (?hs ! i) = B"
    using pk by (simp_all add: packed_def Let_def)
  have k: "h_index (?hs ! i) = i" if "i < length ?hs" for i
    using arg_cong [OF keys, of "\<lambda>ks. ks ! i"] that by simp
  have "\<forall>h \<in> set ?hs. h_used h \<le> B" using wf by (simp add: wf_seq_def wf_block_def)
  then have small: "\<forall>e \<in> set ?E. length e \<le> ?cap" by (auto intro: div_le_mono)
  have big: "\<forall>i. Suc i < length ?E \<longrightarrow> length (?E ! i) = ?cap" using full by simp
  have runs: "chunk_elems P fs (?hs ! i) = run_of ?cap xs i" if "i < length ?hs" for i
    using blocks_are_runs [OF big small, of i] that by (simp add: xs)
  have "length xs \<le> length ?E * ?cap" unfolding xs using small by (rule length_concat_le)
  then have m: "length xs \<le> length ?hs * ?cap" by simp
  have "{h_index h * ?cap + first_index p (chunk_elems P fs h) | h.
      h \<in> set (ordered_underlying_sequence s) \<and> first_index p (chunk_elems P fs h) < length (chunk_elems P fs h)}
    = {h_index h * ?cap + first_index p (chunk_elems P fs h) | h.
      h \<in> set ?hs \<and> first_index p (chunk_elems P fs h) < length (chunk_elems P fs h)}" by simp
  also have "\<dots> = {i * ?cap + first_index p (run_of ?cap xs i) | i.
      i < length ?hs \<and> first_index p (run_of ?cap xs i) < length (run_of ?cap xs i)}"
    (is "?S = ?T")
  proof
    show "?S \<subseteq> ?T"
    proof
      fix v assume "v \<in> ?S"
      then obtain h where h: "h \<in> set ?hs" and v: "v = h_index h * ?cap + first_index p (chunk_elems P fs h)"
        "first_index p (chunk_elems P fs h) < length (chunk_elems P fs h)" by blast
      from h obtain i where "i < length ?hs" and "h = ?hs ! i" by (metis in_set_conv_nth)
      with v k runs show "v \<in> ?T" by (intro CollectI exI [of _ i]) (simp del: length_chunk_elems)
    qed
    show "?T \<subseteq> ?S"
    proof
      fix v assume "v \<in> ?T"
      then obtain i where i: "i < length ?hs" and v: "v = i * ?cap + first_index p (run_of ?cap xs i)"
        "first_index p (run_of ?cap xs i) < length (run_of ?cap xs i)" by blast
      have "?hs ! i \<in> set ?hs" using i by (rule nth_mem)
      with v k [OF i] runs [OF i] show "v \<in> ?S" by (intro CollectI exI [of _ "?hs ! i"]) (simp del: length_chunk_elems)
    qed
  qed
  finally have S: "{h_index h * ?cap + first_index p (chunk_elems P fs h) | h.
      h \<in> set (ordered_underlying_sequence s) \<and> first_index p (chunk_elems P fs h) < length (chunk_elems P fs h)} = ?T" .
  have "total_elems P (ordered_underlying_sequence s) = length xs"
    using total_elems_sorted [of P h_index "ordered_underlying_sequence s"] total_elems_eq [of P ?hs fs]
    by (simp add: xs)
  with find_if_Min [OF run sz A N wf] runs_first_index [OF cap m, of p] S show ?thesis by simp
qed


section \<open>Examples\<close>

lemma demo_cores: "map (chunk_core u8_pod demo_fs) (ordered_underlying_sequence demo_seq) = [(1, [1, 2, 3, 4]), (0, [5, 6, 7])]"
  by (simp add: chunk_core_def chunk_elems_def demo_seq_def demo_fs_def u8_pod_def file_of_def fs_read_def
      eval_nat_numeral)

definition demo_packed :: External_Sequence where
  "demo_packed = \<lparr>ordered_underlying_sequence =
     [\<lparr>h_filename = ''a'', h_begin_address = 0, h_used = 4, h_index = 0\<rparr>,
      \<lparr>h_filename = ''a'', h_begin_address = 4, h_used = 3, h_index = 1\<rparr>]\<rparr>"

lemma demo_packed_ok: "wf_seq u8_pod 4 demo_fs demo_packed \<and> packed 4 demo_packed \<and>
    ReadOutput u8_pod demo_fs demo_packed = Some [1, 2, 3, 4, 5, 6, 7]"
proof -
  have "wf_seq u8_pod 4 demo_fs demo_packed"
    by (simp add: wf_seq_def wf_block_def demo_packed_def demo_fs_def u8_pod_def file_of_def)
  moreover have "packed 4 demo_packed"
    by (simp add: packed_def demo_packed_def Let_def less_Suc_eq nth_Cons split: nat.split)
  moreover have "ReadOutput u8_pod demo_fs demo_packed = Some [1, 2, 3, 4, 5, 6, 7]"
    by (simp add: ReadOutput_def read_block_def chunk_elems_def demo_packed_def demo_fs_def u8_pod_def
        file_of_def fs_read_def eval_nat_numeral)
  ultimately show ?thesis by blast
qed

lemma pod_size_u8: "pod_size u8_pod = 1"
  by (simp add: u8_pod_def)

lemma u8_env: "0 < pod_size u8_pod" "0 < (2::nat)" "2 dvd (4::nat)"
  by (simp_all add: u8_pod_def)

section \<open>Properties\<close>

text \<open>C14: With an associative and commutative operation, \<open>ExternalReduce\<close> always returns, and returns
the fold of the elements of the sequence, however the workers share the blocks and in whatever order
the reader delivers them.\<close>

theorem ExternalReduce_correct:
  assumes "comm_op f e" and "0 < W" and "0 < pod_size P" and "0 < A" and "A dvd B" and "wf_seq P B fs s"
    and "ReadOutput P fs s = Some xs"
  shows "(\<exists>r. ExternalReduce W f e conv P A B fs s r) \<and>
    (\<forall>r. ExternalReduce W f e conv P A B fs s r \<longrightarrow> r = foldr f (map conv xs) e)"
proof -
  have "\<exists>r. ExternalReduce W f e conv P A B fs s r" using assms(2-6) by (rule ExternalReduce_exists)
  moreover have "r = foldr f (map conv xs) e" if "ExternalReduce W f e conv P A B fs s r" for r
    using ExternalReduce_fold [OF that assms(1,3-7)] by (simp only: fold_of_def)
  ultimately show ?thesis by blast
qed

lemma ExternalReduce_correct_witness:
  "\<exists>r. ExternalReduce 3 (+) 0 unat u8_pod 2 4 demo_fs demo_seq r \<and> r = 28"
proof -
  have op: "comm_op (+) (0::nat)" by (simp add: comm_op_def)
  have "foldr (+) (map unat [5, 6, 7, 1, 2, 3, 4 :: byte]) 0 = 28" by simp
  then show ?thesis
    using ExternalReduce_correct [OF op _ u8_env demo_wf demo_output, of 3 unat] by auto
qed

text \<open>C37: Associativity alone, which the comment of \<open>ExternalReduce\<close> asks for, is not enough: with
concatenation, an associative operation with a unit, two workers can return two different results on
the same sequence.\<close>

theorem ExternalReduce_order_matters:
  "\<exists>r1 r2. ExternalReduce 2 (@) [] (\<lambda>x. [x]) u8_pod 2 4 demo_fs demo_seq r1 \<and>
     ExternalReduce 2 (@) [] (\<lambda>x. [x]) u8_pod 2 4 demo_fs demo_seq r2 \<and> r1 \<noteq> r2"
proof -
  obtain ds where rp: "reader_polls u8_pod 2 4 default_reader_config demo_fs (ordered_underlying_sequence demo_seq) ds"
    using chunk_reader.polls_exist [OF default_reader_config_ok u8_env wf_blocks [OF demo_wf]] by blast
  have m: "mset (map bd_core ds) = {#(1, [1, 2, 3, 4]), (0, [5, 6, 7])#}"
    using chunk_reader.polls_mset [OF rp default_reader_config_ok u8_env wf_blocks [OF demo_wf]]
    unfolding demo_cores by simp
  have "size (mset (map bd_core ds)) = 2" unfolding m by simp
  then have "length ds = 2" by simp
  then obtain d1 d2 where ds: "ds = [d1, d2]" by (auto simp: length_Suc_conv eval_nat_numeral)
  let ?v = "\<lambda>d. take (bd_size d) (bd_data d)"
  have drain: "drain_loop (@) (\<lambda>x. [x]) [d] [] = ?v d" for d :: "byte BufferData"
  proof -
    have "acc_loop (@) (\<lambda>x. [x]) xs acc = acc @ xs" for xs acc :: "byte list" by (induction xs arbitrary: acc) simp_all
    then show ?thesis by simp
  qed
  have br: "bracketing (@) [a, b] (a @ b)" for a b :: "byte list"
    using bracket_app [OF bracket_one bracket_one, of "(@)" a b] by simp
  have runs: "ExternalReduce 2 (@) [] (\<lambda>x. [x]) u8_pod 2 4 demo_fs demo_seq (?v a @ ?v b)"
    if "mset [a, b] = mset ds" for a b
    unfolding ExternalReduce_def
    using rp that br [of "?v a" "?v b"] drain by (intro exI [of _ ds] exI [of _ "[[a], [b]]"]) simp
  have r1: "ExternalReduce 2 (@) [] (\<lambda>x. [x]) u8_pod 2 4 demo_fs demo_seq (?v d1 @ ?v d2)"
    by (rule runs) (simp add: ds)
  have r2: "ExternalReduce 2 (@) [] (\<lambda>x. [x]) u8_pod 2 4 demo_fs demo_seq (?v d2 @ ?v d1)"
    by (rule runs) (simp add: ds add_mset_commute)
  have "bd_core d1 = (1, [1, 2, 3, 4]) \<and> bd_core d2 = (0, [5, 6, 7]) \<or>
      bd_core d1 = (0, [5, 6, 7]) \<and> bd_core d2 = (1, [1, 2, 3, 4])"
    using arg_cong [OF m, of set_mset] by (auto simp: ds doubleton_eq_iff)
  then have "?v d1 @ ?v d2 \<noteq> ?v d2 @ ?v d1" by (auto simp: bd_core_def)
  with r1 r2 show ?thesis by blast
qed

text \<open>C15: On a sequence in which every block but the last is full and the keys are 0, 1, 2 and so on,
\<open>find_if\<close> always returns, and returns the position of the first element that satisfies the predicate,
or the number of elements when there is none.\<close>

theorem find_if_correct:
  assumes "0 < pod_size P" and "0 < A" and "A dvd B" and "0 < N" and "pod_size P dvd B" and "0 < B"
    and "wf_seq P B fs s" and "packed B s" and "ReadOutput P fs s = Some xs"
  shows "(\<exists>r. find_if p P A B N fs s r) \<and>
    (\<forall>r. find_if p P A B N fs s r \<longrightarrow> r = length (takeWhile (\<lambda>x. \<not> p x) xs))"
  using find_if_exists [OF assms(1-4,7)] find_if_packed [OF _ assms] unfolding first_index_def by blast

lemma find_if_correct_witness:
  "\<exists>r. find_if (\<lambda>x. x = 6) u8_pod 2 4 2 demo_fs demo_packed r \<and> r = 5"
proof -
  have t: "length (takeWhile (\<lambda>x. \<not> x = 6) [1, 2, 3, 4, 5, 6, 7 :: byte]) = 5" by simp
  have dvd: "pod_size u8_pod dvd 4" by (simp add: pod_size_u8)
  show ?thesis
    using find_if_correct [OF u8_env _ dvd _ conjunct1 [OF demo_packed_ok], of 2 "[1, 2, 3, 4, 5, 6, 7]" "\<lambda>x. x = 6"]
      demo_packed_ok unfolding t by auto
qed

text \<open>When a block other than the last is only partly filled, as the blocks of a filter are, the
position that \<open>find_if\<close> computes from the ordering key is wrong: on a sequence of seven elements whose
seventh element is 4, the search for 4 returns 7, which means that there is none.\<close>

theorem find_if_partial_blocks:
  "ReadOutput u8_pod demo_fs demo_seq = Some [5, 6, 7, 1, 2, 3, 4] \<and>
   {r. find_if (\<lambda>x. x = 4) u8_pod 2 4 2 demo_fs demo_seq r} = {7}"
proof -
  let ?hs = "ordered_underlying_sequence demo_seq" and ?f = "first_index (\<lambda>x :: byte. x = 4)"
  have N: "0 < (2 :: nat)" by simp
  have "{h_index h * (4 div pod_size u8_pod) + ?f (chunk_elems u8_pod demo_fs h) | h.
      h \<in> set ?hs \<and> ?f (chunk_elems u8_pod demo_fs h) < length (chunk_elems u8_pod demo_fs h)}
    = {fst c * (4 div pod_size u8_pod) + ?f (snd c) | c. c \<in> set (map (chunk_core u8_pod demo_fs) ?hs) \<and> ?f (snd c) < length (snd c)}"
  proof -
    have "c \<in> set (map (chunk_core u8_pod demo_fs) ?hs) \<longleftrightarrow>
        (\<exists>h \<in> set ?hs. c = (h_index h, chunk_elems u8_pod demo_fs h))" for c
      by (auto simp: chunk_core_def)
    then show ?thesis by (auto simp del: length_chunk_elems)
  qed
  also have "\<dots> = {7}"
  proof -
    have fl: "{g c | c. c \<in> set cs \<and> Q c} = g ` set (filter Q cs)" for g :: "nat \<times> byte list \<Rightarrow> nat" and Q cs
      by auto
    have "{fst c * 4 + ?f (snd c) | c. c \<in> set [(1, [1, 2, 3, 4]), (0, [5, 6, 7])] \<and> ?f (snd c) < length (snd c)} =
      (\<lambda>c. fst c * 4 + ?f (snd c)) ` set (filter (\<lambda>c. ?f (snd c) < length (snd c)) [(1, [1, 2, 3, 4]), (0, [5, 6, 7])])"
      by (rule fl)
    also have "\<dots> = {7}" by (simp add: first_index_def)
    finally show ?thesis unfolding demo_cores pod_size_u8 by simp
  qed
  finally have S: "{h_index h * (4 div pod_size u8_pod) + ?f (chunk_elems u8_pod demo_fs h) | h.
      h \<in> set ?hs \<and> ?f (chunk_elems u8_pod demo_fs h) < length (chunk_elems u8_pod demo_fs h)} = {7}" .
  have "total_elems u8_pod ?hs = 7" by (simp add: total_elems_def demo_seq_def u8_pod_def)
  then have "r = 7" if "find_if (\<lambda>x. x = 4) u8_pod 2 4 2 demo_fs demo_seq r" for r
    using find_if_Min [OF that u8_env N demo_wf] S by simp
  then show ?thesis using find_if_exists [OF u8_env N demo_wf, of "\<lambda>x. x = 4"] demo_output by auto
qed

end
