(* ===== verification/Sieve.thy ===== *)
theory Sieve
  imports Prelude
begin

text \<open>
  The computations of Plaidlay/examples/external/primes.h: \<open>base_sieve\<close>, the integer square root,
  and what a task does to one chunk of flags. The flag with number \<open>k\<close> of a chunk that starts at
  \<open>chunk_start\<close> stands for the number \<open>chunk_start + k\<close>. The loops that correct the square root
  compute modulo \<open>2 ^ 64\<close>, and may not end. The other numbers are natural numbers: with \<open>n < 2 ^ 62\<close>
  and chunks of at most \<open>2 ^ 61\<close> flags, which the theorems assume, the base primes are at most
  \<open>2 ^ 31\<close> and no other sum or product of the code reaches \<open>2 ^ 64\<close>.
\<close>

definition is_prime :: "nat \<Rightarrow> bool" where
  "is_prime n \<longleftrightarrow> 2 \<le> n \<and> (\<forall>d \<in> {2..<n}. \<not> d dvd n)"

lemma prime_ge_2: "is_prime x \<Longrightarrow> 2 \<le> x"
  by (simp add: is_prime_def)

section \<open>The code\<close>

text \<open>\<open>for (; k < n; k += step) xs[k] = false\<close>\<close>

function clear_from :: "nat \<Rightarrow> nat \<Rightarrow> nat \<Rightarrow> bool list \<Rightarrow> bool list" where
  "clear_from k step n xs =
     (if k < n \<and> 0 < step then clear_from (k + step) step n (xs[k := False]) else xs)"
  by pat_completeness auto
termination
  by (relation "measure (\<lambda>(k, step, n, xs). n - k)") auto

declare clear_from.simps [simp del]

function sieve_loop :: "nat \<Rightarrow> nat \<Rightarrow> bool list \<Rightarrow> bool list" where
  "sieve_loop p m xs =
     (if p * p \<le> m then sieve_loop (p + 1) m (if xs ! p then clear_from (p * p) p (m + 1) xs else xs) else xs)"
  by pat_completeness auto
termination
proof (relation "measure (\<lambda>(p, m, xs). m + 1 - p)")
  fix p m :: nat and xs :: "bool list"
  assume m: "p * p \<le> m"
  have "p \<le> p * p" by simp
  then have "p \<le> m" using m by (rule le_trans)
  then show "((p + 1, m, if xs ! p then clear_from (p * p) p (m + 1) xs else xs), p, m, xs)
      \<in> measure (\<lambda>(p, m, xs). m + 1 - p)" by simp
qed simp

declare sieve_loop.simps [simp del]

definition base_sieve :: "nat \<Rightarrow> nat list" where
  "base_sieve m =
     (if m < 2 then []
      else let flags = sieve_loop 2 m ((replicate (m + 1) True)[0 := False, 1 := False])
           in filter (\<lambda>i. flags ! i) [2..<m + 1])"

text \<open>The loops that correct the floating-point square root \<open>s\<close>; \<open>None\<close> is a loop that never ends.\<close>

partial_function (option) sqrt_up :: "nat \<Rightarrow> nat \<Rightarrow> nat option" where
  "sqrt_up n s = (if (s + 1) * (s + 1) mod 2 ^ 64 \<le> n then sqrt_up n (s + 1) else Some s)"

fun sqrt_down :: "nat \<Rightarrow> nat \<Rightarrow> nat" where
  "sqrt_down n 0 = 0"
| "sqrt_down n (Suc s) = (if n < Suc s * Suc s mod 2 ^ 64 then sqrt_down n s else Suc s)"

definition sqrt_n :: "nat \<Rightarrow> nat \<Rightarrow> nat option" where
  "sqrt_n s n = map_option (sqrt_down n) (sqrt_up n s)"

text \<open>One base prime on one chunk of flags: the odd multiples only, unless the prime is 2.\<close>

definition mark_start :: "nat \<Rightarrow> nat \<Rightarrow> nat" where
  "mark_start chunk_start p =
     (let start = max (p * p) ((chunk_start + p - 1) div p * p)
      in if p \<noteq> 2 \<and> even start then start + p else start)"

definition mark_prime :: "nat \<Rightarrow> nat \<Rightarrow> nat \<Rightarrow> bool list \<Rightarrow> bool list" where
  "mark_prime chunk_start n p flags =
     (let start = mark_start chunk_start p; step = (if p \<noteq> 2 then 2 * p else p)
      in if chunk_start + n \<le> start then flags else clear_from (start - chunk_start) step n flags)"

definition mark_chunk :: "nat list \<Rightarrow> nat \<Rightarrow> nat \<Rightarrow> bool list \<Rightarrow> bool list" where
  "mark_chunk base_primes chunk_start n flags =
     (let marked = fold (mark_prime chunk_start n) base_primes flags
      in if chunk_start = 0
         then let marked' = (if 0 < n then marked[0 := False] else marked)
              in if 1 < n then marked'[1 := False] else marked'
         else marked)"

text \<open>\<open>out[produced++] = x\<close>; a store past the buffer shows in the count.\<close>

definition emit_number :: "(nat \<Rightarrow> 'b) \<Rightarrow> nat \<Rightarrow> 'b list \<times> nat \<Rightarrow> 'b list \<times> nat" where
  "emit_number conv x out = (case out of (buf, produced) \<Rightarrow> (buf[produced := conv x], produced + 1))"

function emit_odds :: "(nat \<Rightarrow> 'b) \<Rightarrow> nat \<Rightarrow> nat \<Rightarrow> bool list \<Rightarrow> nat \<Rightarrow> 'b list \<times> nat \<Rightarrow> 'b list \<times> nat" where
  "emit_odds conv chunk_start n flags k out =
     (if k < n
      then emit_odds conv chunk_start n flags (k + 2)
             (if flags ! k then emit_number conv (chunk_start + k) out else out)
      else out)"
  by pat_completeness auto
termination
  by (relation "measure (\<lambda>(conv, cs, n, flags, k, out). n - k)") auto

declare emit_odds.simps [simp del]

definition emit_primes :: "(nat \<Rightarrow> 'b) \<Rightarrow> nat \<Rightarrow> nat \<Rightarrow> bool list \<Rightarrow> 'b list \<Rightarrow> 'b list \<times> nat" where
  "emit_primes conv chunk_start n flags buf =
     emit_odds conv chunk_start n flags 1
       (if chunk_start = 0 \<and> 2 < n \<and> flags ! 2 then emit_number conv 2 (buf, 0) else (buf, 0))"

section \<open>Clearing flags\<close>

lemma length_clear_from [simp]: "length (clear_from k step n xs) = length xs"
  by (induction k step n xs rule: clear_from.induct) (simp add: clear_from.simps)

lemma clear_from_nth:
  assumes "0 < step" and "n \<le> length xs" and "i < n"
  shows "clear_from k step n xs ! i \<longleftrightarrow> xs ! i \<and> \<not> (k \<le> i \<and> step dvd (i - k))"
  using assms
proof (induction k step n xs rule: clear_from.induct)
  case (1 k step n xs)
  show ?case
  proof (cases "k < n")
    case False
    then show ?thesis using 1 by (simp add: clear_from.simps)
  next
    case True
    have rec: "clear_from k step n xs = clear_from (k + step) step n (xs[k := False])"
      using True 1 by (simp add: clear_from.simps)
    have "k \<le> i \<and> step dvd (i - k) \<longleftrightarrow> i = k \<or> k + step \<le> i \<and> step dvd (i - (k + step))"
    proof (cases "k < i")
      case True
      show ?thesis
      proof (cases "k + step \<le> i")
        case True
        then have "i - k = (i - (k + step)) + step" by simp
        then have "step dvd (i - k) \<longleftrightarrow> step dvd (i - (k + step))" by (metis dvd_add_triv_right_iff)
        with True 1 show ?thesis by auto
      next
        case False
        with True have "\<not> step dvd (i - k)" by (auto dest!: dvd_imp_le)
        with False True show ?thesis by simp
      qed
    qed auto
    with 1 True rec show ?thesis by (auto simp: nth_list_update)
  qed
qed

section \<open>The base sieve\<close>

lemma prime_by_squares:
  "is_prime i \<longleftrightarrow> 2 \<le> i \<and> (\<forall>d. 2 \<le> d \<longrightarrow> d * d \<le> i \<longrightarrow> \<not> d dvd i)"
proof
  assume p: "is_prime i"
  show "2 \<le> i \<and> (\<forall>d. 2 \<le> d \<longrightarrow> d * d \<le> i \<longrightarrow> \<not> d dvd i)"
  proof (intro conjI allI impI)
    fix d :: nat assume d: "2 \<le> d" "d * d \<le> i"
    have "2 * d \<le> d * d" using d(1) by (rule mult_le_mono1)
    then have "d < i" using d by linarith
    with p d show "\<not> d dvd i" by (simp add: is_prime_def)
  qed (use p in \<open>simp add: is_prime_def\<close>)
next
  assume p: "2 \<le> i \<and> (\<forall>d. 2 \<le> d \<longrightarrow> d * d \<le> i \<longrightarrow> \<not> d dvd i)"
  have "\<not> d dvd i" if d: "2 \<le> d" "d < i" for d
  proof
    assume "d dvd i"
    then obtain e where i: "i = d * e" by (elim dvdE)
    have "e \<noteq> 0" using p i by (cases e) auto
    moreover have "e \<noteq> 1" using d i by auto
    ultimately have e: "2 \<le> e" by simp
    consider "d \<le> e" | "e \<le> d" by linarith
    then show False
    proof cases
      case 1
      then have "d * d \<le> i" unfolding i by (rule mult_le_mono2)
      then show False using p d(1) \<open>d dvd i\<close> by blast
    next
      case 2
      then have "e * e \<le> i" unfolding i by (rule mult_le_mono1)
      moreover have "e dvd i" unfolding i by simp
      ultimately show False using p e by blast
    qed
  qed
  then show "is_prime i" using p by (simp add: is_prime_def)
qed

text \<open>Before the step for \<open>p\<close>, the numbers with a divisor \<open>d < p\<close> of at most their root are cleared.\<close>

definition sieved :: "nat \<Rightarrow> nat \<Rightarrow> bool list \<Rightarrow> bool" where
  "sieved p m xs \<longleftrightarrow> length xs = m + 1 \<and>
     (\<forall>i \<le> m. xs ! i \<longleftrightarrow> 2 \<le> i \<and> (\<forall>d. 2 \<le> d \<longrightarrow> d < p \<longrightarrow> d * d \<le> i \<longrightarrow> \<not> d dvd i))"

lemma sieved_step:
  assumes s: "sieved p m xs" and p: "2 \<le> p" "p * p \<le> m"
  shows "sieved (p + 1) m (if xs ! p then clear_from (p * p) p (m + 1) xs else xs)"
proof -
  have len: "length xs = m + 1"
    and nth: "\<And>i. i \<le> m \<Longrightarrow> xs ! i \<longleftrightarrow> 2 \<le> i \<and> (\<forall>d. 2 \<le> d \<longrightarrow> d < p \<longrightarrow> d * d \<le> i \<longrightarrow> \<not> d dvd i)"
    using s by (simp_all add: sieved_def)
  have split: "(\<forall>d. 2 \<le> d \<longrightarrow> d < p + 1 \<longrightarrow> d * d \<le> i \<longrightarrow> \<not> d dvd i) \<longleftrightarrow>
      (\<forall>d. 2 \<le> d \<longrightarrow> d < p \<longrightarrow> d * d \<le> i \<longrightarrow> \<not> d dvd i) \<and> (p * p \<le> i \<longrightarrow> \<not> p dvd i)" for i
    using p(1) less_Suc_eq by auto
  have "p \<le> p * p" by simp
  then have pm: "p \<le> m" using p(2) by (rule le_trans)
  show ?thesis
  proof (cases "xs ! p")
    case True
    have "clear_from (p * p) p (m + 1) xs ! i \<longleftrightarrow> xs ! i \<and> \<not> (p * p \<le> i \<and> p dvd i)" if "i \<le> m" for i
    proof -
      have "p * p \<le> i \<Longrightarrow> p dvd (i - p * p) \<longleftrightarrow> p dvd i"
        by (metis dvd_diffD dvd_diff_nat dvd_triv_left)
      then show ?thesis
        using clear_from_nth [of p "m + 1" xs i "p * p"] p(1) len that by auto
    qed
    with True nth split len show ?thesis by (simp add: sieved_def)
  next
    case False
    then obtain d where d: "2 \<le> d" "d < p" "d * d \<le> p" "d dvd p" using nth [OF pm] p(1) by blast
    have "xs ! i \<longleftrightarrow> 2 \<le> i \<and> (\<forall>d. 2 \<le> d \<longrightarrow> d < p + 1 \<longrightarrow> d * d \<le> i \<longrightarrow> \<not> d dvd i)" if i: "i \<le> m" for i
    proof -
      have "\<not> xs ! i" if "p * p \<le> i" "p dvd i"
      proof -
        have "d * d \<le> i" using d(3) that(1) \<open>p \<le> p * p\<close> by linarith
        moreover have "d dvd i" using d(4) that(2) by (rule dvd_trans)
        ultimately show ?thesis using nth [OF i] d by blast
      qed
      then show ?thesis using nth [OF i] split by blast
    qed
    with False len show ?thesis by (simp add: sieved_def)
  qed
qed

lemma sieve_loop_sieved:
  "sieved p m xs \<Longrightarrow> 2 \<le> p \<Longrightarrow> \<exists>q. sieved q m (sieve_loop p m xs) \<and> m < q * q"
proof (induction p m xs rule: sieve_loop.induct)
  case (1 p m xs)
  show ?case
  proof (cases "p * p \<le> m")
    case True
    with 1 sieved_step [OF 1(2,3) True] show ?thesis by (subst sieve_loop.simps) simp
  next
    case False
    with 1 show ?thesis by (subst sieve_loop.simps) auto
  qed
qed

lemma initial_flags:
  "i < n \<Longrightarrow> 2 \<le> n \<Longrightarrow> (replicate n True)[0 := False, 1 := False] ! i \<longleftrightarrow> 2 \<le> i"
  by (auto simp: nth_list_update)

lemma base_sieve_primes: "base_sieve m = filter is_prime [2..<m + 1]"
proof (cases "m < 2")
  case True
  then have "[2..<m + 1] = []" by simp
  with True show ?thesis by (simp only: base_sieve_def filter.simps if_True)
next
  case False
  let ?xs = "(replicate (m + 1) True)[0 := False, 1 := False]"
  have "sieved 2 m ?xs"
    unfolding sieved_def
  proof (intro conjI allI impI)
    fix i assume "i \<le> m"
    then show "?xs ! i \<longleftrightarrow> 2 \<le> i \<and> (\<forall>d. 2 \<le> d \<longrightarrow> d < 2 \<longrightarrow> d * d \<le> i \<longrightarrow> \<not> d dvd i)"
      using False by (subst initial_flags) auto
  qed simp
  then obtain q where s: "sieved q m (sieve_loop 2 m ?xs)" and q: "m < q * q"
    using sieve_loop_sieved by blast
  have "sieve_loop 2 m ?xs ! i \<longleftrightarrow> is_prime i" if "i \<le> m" for i
  proof -
    have "d < q" if "d * d \<le> i" for d
    proof (rule ccontr)
      assume "\<not> d < q"
      then have "q * q \<le> d * d" by (intro mult_le_mono) simp_all
      with that \<open>i \<le> m\<close> q show False by linarith
    qed
    then show ?thesis using s that unfolding sieved_def prime_by_squares by blast
  qed
  then have "filter (\<lambda>i. sieve_loop 2 m ?xs ! i) [2..<m + 1] = filter is_prime [2..<m + 1]"
    by (intro filter_cong) auto
  then show ?thesis using False by (simp only: base_sieve_def Let_def if_False)
qed


section \<open>The square root\<close>

lemma square_fits: "s \<le> 2 ^ 31 \<Longrightarrow> (s + 1) * (s + 1) mod 2 ^ 64 = (s + 1) * (s + 1)"
  for s :: nat
proof -
  assume "s \<le> 2 ^ 31"
  then have "(s + 1) * (s + 1) \<le> (2 ^ 31 + 1) * (2 ^ 31 + 1)" by (intro mult_le_mono) simp_all
  also have "(2 ^ 31 + 1) * (2 ^ 31 + 1) < (2 ^ 64 :: nat)" by simp
  finally show ?thesis by simp
qed

lemma root_small: "(s + 1) * (s + 1) < (2 ^ 62 :: nat) \<Longrightarrow> s + 1 \<le> 2 ^ 31"
proof (rule ccontr)
  assume "(s + 1) * (s + 1) < 2 ^ 62" and "\<not> s + 1 \<le> 2 ^ 31"
  moreover from this have "2 ^ 31 * 2 ^ 31 \<le> (s + 1) * (s + 1)" by (intro mult_le_mono) simp_all
  ultimately show False by simp
qed

lemma sqrt_up_result:
  assumes "n < 2 ^ 62" and "s \<le> 2 ^ 31"
  shows "\<exists>r. sqrt_up n s = Some r \<and> r \<le> 2 ^ 31 \<and> n < (r + 1) * (r + 1)"
  using assms(2)
proof (induction "2 ^ 31 - s" arbitrary: s rule: less_induct)
  case less
  note step = sqrt_up.simps [of n s, unfolded square_fits [OF less.prems]]
  show ?case
  proof (cases "(s + 1) * (s + 1) \<le> n")
    case True
    then have "s + 1 \<le> 2 ^ 31" using assms(1) by (intro root_small) linarith
    with less.hyps [of "s + 1"] True show ?thesis unfolding step by simp
  next
    case False
    with less.prems show ?thesis unfolding step by simp
  qed
qed

lemma sqrt_down_bound:
  "s \<le> 2 ^ 31 \<Longrightarrow> n < (s + 1) * (s + 1) \<Longrightarrow>
    n < (sqrt_down n s + 1) * (sqrt_down n s + 1) \<and> sqrt_down n s * sqrt_down n s \<le> n"
proof (induction s)
  case (Suc s)
  then show ?case using square_fits [of s] by (auto simp del: mult_Suc mult_Suc_right)
qed simp

lemma sqrt_n_result:
  assumes "n < 2 ^ 62" and "s \<le> 2 ^ 31"
  shows "\<exists>r. sqrt_n s n = Some r \<and> n < (r + 1) * (r + 1) \<and> r * r \<le> n"
proof -
  from sqrt_up_result [OF assms] obtain r where "sqrt_up n s = Some r" "r \<le> 2 ^ 31" "n < (r + 1) * (r + 1)" by blast
  with sqrt_down_bound [of r n] show ?thesis by (simp add: sqrt_n_def)
qed

text \<open>The bound matters: at the largest \<open>size_t\<close> the first loop never ends.\<close>

lemma sqrt_up_stops:
  assumes "sqrt_up n s = Some r"
  shows "n < (r + 1) * (r + 1) mod 2 ^ 64"
proof (rule sqrt_up.raw_induct [where P = "\<lambda>n s r. n < (r + 1) * (r + 1) mod 2 ^ 64", OF _ assms])
  fix up :: "nat \<Rightarrow> nat \<Rightarrow> nat option" and n s r
  assume IH: "\<And>n s r. up n s = Some r \<Longrightarrow> n < (r + 1) * (r + 1) mod 2 ^ 64"
    and r: "(if (s + 1) * (s + 1) mod 2 ^ 64 \<le> n then up n (s + 1) else Some s) = Some r"
  show "n < (r + 1) * (r + 1) mod 2 ^ 64"
  proof (cases "(s + 1) * (s + 1) mod 2 ^ 64 \<le> n")
    case True
    with r show ?thesis by (intro IH) (simp only: if_True)
  next
    case False
    with r show ?thesis by (simp only: if_False option.inject not_le)
  qed
qed

lemma sqrt_up_endless: "sqrt_up (2 ^ 64 - 1) s = None"
proof (cases "sqrt_up (2 ^ 64 - 1) s")
  case (Some r)
  then have "(2 ^ 64 - 1 :: nat) < (r + 1) * (r + 1) mod 2 ^ 64" by (rule sqrt_up_stops)
  moreover have "(r + 1) * (r + 1) mod 2 ^ 64 < (2 ^ 64 :: nat)" by (rule mod_less_divisor) simp
  ultimately show ?thesis by linarith
qed

section \<open>One chunk\<close>

lemma length_mark_prime [simp]: "length (mark_prime cs n p flags) = length flags"
  by (simp add: mark_prime_def Let_def)

lemma mark_start_ge: "0 < p \<Longrightarrow> p * p \<le> mark_start cs p \<and> cs \<le> mark_start cs p"
proof -
  assume "0 < p"
  then have "cs \<le> max (p * p) (round_up p cs)" using round_up_ge [of p cs] by (simp add: le_max_iff_disj)
  moreover have "max (p * p) (round_up p cs) \<le> mark_start cs p"
    by (simp add: mark_start_def round_up_def Let_def del: max.bounded_iff)
  moreover have "p * p \<le> max (p * p) (round_up p cs)" by simp
  ultimately show ?thesis by linarith
qed

lemma mark_start_odd:
  assumes p: "odd p" "2 \<le> p" and x: "odd x" "cs \<le> x"
  shows "mark_start cs p \<le> x \<and> 2 * p dvd (x - mark_start cs p) \<longleftrightarrow> p * p \<le> x \<and> p dvd x"
proof -
  let ?m = "max (p * p) (round_up p cs)"
  have m: "p dvd ?m" "p * p \<le> ?m" "cs \<le> ?m"
    using p(2) round_up_ge [of p cs] by (auto simp: max_def)
  have st: "mark_start cs p = (if even ?m then ?m + p else ?m)"
    using p by (auto simp: mark_start_def round_up_def Let_def)
  have s: "odd (mark_start cs p)" "p dvd mark_start cs p" "?m \<le> mark_start cs p"
    using m p unfolding st by auto
  show ?thesis
  proof
    assume a: "mark_start cs p \<le> x \<and> 2 * p dvd (x - mark_start cs p)"
    then have "p dvd (x - mark_start cs p)" by (meson dvd_mult_right)
    then have "p dvd x" using a s(2) by (metis dvd_diffD)
    moreover have "p * p \<le> x" using a m(2) s(3) by linarith
    ultimately show "p * p \<le> x \<and> p dvd x" by blast
  next
    assume a: "p * p \<le> x \<and> p dvd x"
    have "round_up p cs \<le> x" using a x(2) p(2) by (intro round_up_le) auto
    then have mx: "?m \<le> x" using a by simp
    have le: "mark_start cs p \<le> x"
    proof (cases "even ?m")
      case True
      then have "0 < x - ?m" using mx x(1) by (metis diff_is_0_eq gr0I le_antisym)
      moreover have "p dvd (x - ?m)" using a m(1) by (simp add: dvd_diff_nat)
      ultimately have "p \<le> x - ?m" by (simp add: dvd_imp_le)
      then have "?m + p \<le> x" using mx by linarith
      then show ?thesis using True unfolding st by simp
    next
      case False
      then show ?thesis using mx unfolding st by simp
    qed
    have "p dvd (x - mark_start cs p)" using a s(2) by (simp add: dvd_diff_nat)
    then obtain k where k: "x - mark_start cs p = p * k" by (elim dvdE)
    have "even (x - mark_start cs p)" using x(1) s(1) le by simp
    then have "even k" using k p(1) by simp
    then obtain j where "k = 2 * j" by (elim evenE)
    then have "x - mark_start cs p = 2 * p * j" using k by simp
    then show "mark_start cs p \<le> x \<and> 2 * p dvd (x - mark_start cs p)" using le by simp
  qed
qed

lemma mark_prime_odd:
  assumes p: "2 \<le> p" "p = 2 \<or> odd p" and i: "i < n" "n \<le> length flags" and x: "odd (cs + i)"
  shows "mark_prime cs n p flags ! i \<longleftrightarrow> flags ! i \<and> \<not> (p \<noteq> 2 \<and> p * p \<le> cs + i \<and> p dvd (cs + i))"
proof -
  let ?s = "mark_start cs p" and ?st = "if p \<noteq> 2 then 2 * p else p"
  have cs: "cs \<le> ?s" using mark_start_ge [of p cs] p(1) by simp
  have eq: "mark_prime cs n p flags ! i \<longleftrightarrow> flags ! i \<and> \<not> (?s \<le> cs + i \<and> ?st dvd (cs + i - ?s))"
  proof (cases "cs + n \<le> ?s")
    case True
    then show ?thesis using i by (auto simp: mark_prime_def Let_def)
  next
    case False
    have "?s - cs \<le> i \<longleftrightarrow> ?s \<le> cs + i" using cs by linarith
    moreover have "i - (?s - cs) = cs + i - ?s" using cs by simp
    ultimately show ?thesis
      using False clear_from_nth [of ?st n flags i "?s - cs"] p(1) i
      by (simp add: mark_prime_def Let_def)
  qed
  show ?thesis
  proof (cases "p = 2")
    case True
    then have "even ?s" using p(1) by (auto simp: mark_start_def Let_def max_def)
    then have "\<not> (?s \<le> cs + i \<and> 2 dvd (cs + i - ?s))" using x by auto
    then show ?thesis using eq True by simp
  next
    case False
    then show ?thesis using eq mark_start_odd [of p "cs + i" cs] p x by auto
  qed
qed

lemma mark_prime_two:
  assumes "2 \<le> p" "2 < n" "n \<le> length flags"
  shows "mark_prime 0 n p flags ! 2 = flags ! 2"
proof -
  have "2 * 2 \<le> p * p" using assms(1) by (intro mult_le_mono)
  then have s: "4 \<le> mark_start 0 p" using mark_start_ge [of p 0] assms(1) by simp
  then have "clear_from (mark_start 0 p) k n flags ! 2 = flags ! 2" if "0 < k" for k
    using clear_from_nth [OF that assms(3,2)] by auto
  moreover have "0 < p" using assms(1) by simp
  ultimately show ?thesis using assms by (simp add: mark_prime_def Let_def)
qed

lemma fold_mark_odd:
  assumes "\<forall>p \<in> set ps. 2 \<le> p \<and> (p = 2 \<or> odd p)" and "i < n" and "n \<le> length flags" and "odd (cs + i)"
  shows "length (fold (mark_prime cs n) ps flags) = length flags \<and>
    (fold (mark_prime cs n) ps flags ! i \<longleftrightarrow>
      flags ! i \<and> (\<forall>p \<in> set ps. \<not> (p \<noteq> 2 \<and> p * p \<le> cs + i \<and> p dvd (cs + i))))"
  using assms
proof (induction ps arbitrary: flags)
  case Nil
  then show ?case by simp
next
  case (Cons p ps)
  then have "mark_prime cs n p flags ! i \<longleftrightarrow> flags ! i \<and> \<not> (p \<noteq> 2 \<and> p * p \<le> cs + i \<and> p dvd (cs + i))"
    by (intro mark_prime_odd) auto
  moreover note Cons.IH [of "mark_prime cs n p flags"] Cons.prems
  ultimately show ?case by auto
qed

lemma fold_mark_two:
  assumes "\<forall>p \<in> set ps. 2 \<le> p" and "2 < n" and "n \<le> length flags"
  shows "length (fold (mark_prime 0 n) ps flags) = length flags \<and> fold (mark_prime 0 n) ps flags ! 2 = flags ! 2"
  using assms
proof (induction ps arbitrary: flags)
  case Nil
  then show ?case by simp
next
  case (Cons p ps)
  then show ?case using Cons.IH [of "mark_prime 0 n p flags"] mark_prime_two [of p n flags] by simp
qed

text \<open>A number above 1 that is not prime has a prime divisor of at most its root.\<close>

lemma composite_divisor:
  assumes "2 \<le> x" and "\<not> is_prime x"
  shows "\<exists>d. is_prime d \<and> d * d \<le> x \<and> d dvd x"
proof -
  define d where "d = (LEAST d. 2 \<le> d \<and> d dvd x)"
  have d: "2 \<le> d \<and> d dvd x" unfolding d_def by (rule LeastI [of _ x]) (use assms(1) in simp)
  have least: "d \<le> e" if "2 \<le> e" "e dvd x" for e
    unfolding d_def using that by (intro Least_le) simp
  have "is_prime d"
    unfolding is_prime_def
  proof (intro conjI ballI notI)
    fix e assume e: "e \<in> {2..<d}" "e dvd d"
    then have "e dvd x" using d dvd_trans by blast
    with least [of e] e show False by simp
  qed (use d in simp)
  moreover obtain c where c: "2 \<le> c" "c * c \<le> x" "c dvd x"
    using assms unfolding prime_by_squares by blast
  have "d * d \<le> c * c" using least [OF c(1,3)] by (intro mult_le_mono)
  then have "d * d \<le> x" using c(2) by linarith
  ultimately show ?thesis using d by blast
qed

lemma odd_prime: "is_prime p \<Longrightarrow> p = 2 \<or> odd p"
proof (rule ccontr)
  assume p: "is_prime p" and "\<not> (p = 2 \<or> odd p)"
  then have "2 < p" "even p" by (auto simp: is_prime_def)
  with p show False by (simp add: is_prime_def)
qed

lemma mark_chunk_result:
  assumes cs: "even cs" and n: "n \<le> length flags" and all: "\<forall>i < n. flags ! i"
    and base: "base = filter is_prime [2..<r + 1]" and r: "\<forall>i < n. cs + i < (r + 1) * (r + 1)"
  shows "length (mark_chunk base cs n flags) = length flags"
    and "i < n \<Longrightarrow> odd i \<Longrightarrow> mark_chunk base cs n flags ! i \<longleftrightarrow> is_prime (cs + i)"
    and "cs = 0 \<Longrightarrow> 2 < n \<Longrightarrow> mark_chunk base cs n flags ! 2"
proof -
  have ps: "\<forall>p \<in> set base. 2 \<le> p \<and> (p = 2 \<or> odd p)" using base odd_prime by auto
  have "length (fold (mark_prime c k) ps flags) = length flags" for c k ps
    by (induction ps arbitrary: flags) simp_all
  then show "length (mark_chunk base cs n flags) = length flags" by (simp add: mark_chunk_def Let_def)
  show "mark_chunk base cs n flags ! i \<longleftrightarrow> is_prime (cs + i)" if i: "i < n" "odd i"
  proof (cases "cs + i = 1")
    case True
    then show ?thesis using cs i n fold_mark_odd [OF ps i(1) n, of cs]
      by (auto simp: mark_chunk_def Let_def is_prime_def)
  next
    case False
    have x: "odd (cs + i)" using cs i by simp
    with False have x3: "3 \<le> cs + i" by (cases "cs + i") (auto simp: numeral_3_eq_3 elim: oddE)
    have "i \<noteq> 0 \<and> (cs = 0 \<longrightarrow> i \<noteq> 1)" using i False by (auto elim: oddE)
    then have "mark_chunk base cs n flags ! i \<longleftrightarrow> (\<forall>p \<in> set base. \<not> (p \<noteq> 2 \<and> p * p \<le> cs + i \<and> p dvd (cs + i)))"
      using fold_mark_odd [OF ps i(1) n x] all i
      by (cases "cs = 0") (simp_all add: mark_chunk_def Let_def nth_list_update)
    also have "\<dots> \<longleftrightarrow> is_prime (cs + i)"
    proof
      assume none: "\<forall>p \<in> set base. \<not> (p \<noteq> 2 \<and> p * p \<le> cs + i \<and> p dvd (cs + i))"
      show "is_prime (cs + i)"
      proof (rule ccontr)
        assume "\<not> is_prime (cs + i)"
        then obtain d where d: "is_prime d" "d * d \<le> cs + i" "d dvd cs + i"
          using composite_divisor [of "cs + i"] x3 by auto
        have "d < r + 1"
        proof (rule ccontr)
          assume "\<not> d < r + 1"
          then have "(r + 1) * (r + 1) \<le> d * d" by (intro mult_le_mono) simp_all
          with d(2) r i show False using leD by fastforce
        qed
        then have "d \<in> set [2..<r + 1]"
          using prime_ge_2 [OF d(1)] by (simp only: set_upt atLeastLessThan_iff)
        then have "d \<in> set base" using d(1) unfolding base by (simp only: set_filter mem_Collect_eq simp_thms)
        moreover have "d \<noteq> 2" using d(3) x by auto
        ultimately show False using none d by blast
      qed
    next
      assume pr: "is_prime (cs + i)"
      show "\<forall>p \<in> set base. \<not> (p \<noteq> 2 \<and> p * p \<le> cs + i \<and> p dvd (cs + i))"
        using pr ps unfolding prime_by_squares by blast
    qed
    finally show ?thesis .
  qed
  show "mark_chunk base cs n flags ! 2" if "cs = 0" "2 < n"
    using fold_mark_two [of base n flags] ps that n all by (simp add: mark_chunk_def Let_def)
qed


section \<open>What a task emits\<close>

definition odds_from :: "nat \<Rightarrow> nat \<Rightarrow> bool list \<Rightarrow> nat list" where
  "odds_from k n flags = filter (\<lambda>j. odd j \<and> flags ! j) [k..<n]"

lemma odds_from_step:
  assumes "odd k" and "k < n"
  shows "odds_from k n flags = (if flags ! k then [k] else []) @ odds_from (k + 2) n flags"
proof -
  have "odds_from (k + 1) n flags = odds_from (k + 2) n flags"
    using assms by (cases "k + 1 < n") (simp_all add: odds_from_def upt_conv_Cons)
  then show ?thesis using assms by (simp add: odds_from_def upt_conv_Cons)
qed

lemma emit_odds_result:
  assumes "odd k" and "c + length (odds_from k n flags) \<le> length buf"
  shows "\<exists>buf'. emit_odds conv cs n flags k (buf, c) = (buf', c + length (odds_from k n flags)) \<and>
    length buf' = length buf \<and>
    take (c + length (odds_from k n flags)) buf' = take c buf @ map (\<lambda>j. conv (cs + j)) (odds_from k n flags)"
  using assms
proof (induction "n - k" arbitrary: k buf c rule: less_induct)
  case less
  show ?case
  proof (cases "k < n")
    case False
    then have "odds_from k n flags = []" by (simp add: odds_from_def)
    with False show ?thesis by (simp add: emit_odds.simps)
  next
    case True
    note st = odds_from_step [OF less.prems(1) True, of flags]
    have dec: "n - (k + 2) < n - k" "odd (k + 2)" using True less.prems(1) by auto
    show ?thesis
    proof (cases "flags ! k")
      case False
      have rec: "emit_odds conv cs n flags k (buf, c) = emit_odds conv cs n flags (k + 2) (buf, c)"
        using False True by (simp add: emit_odds.simps [of conv cs n flags k])
      have "odds_from k n flags = odds_from (k + 2) n flags" using False st by simp
      then show ?thesis using less.hyps [OF dec, of c buf] less.prems(2) rec by simp
    next
      case True
      let ?buf = "buf[c := conv (cs + k)]"
      have rec: "emit_odds conv cs n flags k (buf, c) = emit_odds conv cs n flags (k + 2) (?buf, c + 1)"
        using True \<open>k < n\<close> by (simp add: emit_odds.simps [of conv cs n flags k] emit_number_def)
      have od: "odds_from k n flags = k # odds_from (k + 2) n flags" using True st by simp
      have "c + 1 + length (odds_from (k + 2) n flags) \<le> length ?buf" using less.prems(2) od by simp
      from less.hyps [OF dec this] obtain buf' where
        b: "emit_odds conv cs n flags (k + 2) (?buf, c + 1) = (buf', c + 1 + length (odds_from (k + 2) n flags))"
        "length buf' = length ?buf"
        "take (c + 1 + length (odds_from (k + 2) n flags)) buf' = take (c + 1) ?buf @ map (\<lambda>j. conv (cs + j)) (odds_from (k + 2) n flags)"
        by blast
      have "c < length buf" using less.prems(2) od by simp
      then have "take (c + 1) ?buf = take c buf @ [conv (cs + k)]" by (simp add: take_update_Suc)
      with b rec od show ?thesis by simp
    qed
  qed
qed

lemma small_primes [simp]: "\<not> is_prime 0" "\<not> is_prime (Suc 0)" "is_prime 2"
  by (auto simp: is_prime_def)

lemma primes_in_chunk:
  assumes cs: "even cs" "cs = 0 \<or> 2 < cs"
    and odds: "\<forall>i < n. odd i \<longrightarrow> (flags ! i \<longleftrightarrow> is_prime (cs + i))" and two: "cs = 0 \<Longrightarrow> 2 < n \<Longrightarrow> flags ! 2"
  shows "(if cs = 0 \<and> 2 < n \<and> flags ! 2 then [2] else []) @ map (\<lambda>j. cs + j) (odds_from 1 n flags)
    = filter is_prime [cs..<cs + n]"
proof -
  have odd_ge: "filter (\<lambda>j. is_prime (cs + j)) [k..<n] = odds_from k n flags" if "cs = 0 \<Longrightarrow> 3 \<le> k" for k
    unfolding odds_from_def
  proof (rule filter_cong [OF refl])
    fix j assume "j \<in> set [k..<n]"
    then have j: "k \<le> j" "j < n" by auto
    show "is_prime (cs + j) \<longleftrightarrow> odd j \<and> flags ! j"
    proof (cases "odd j")
      case True
      then show ?thesis using odds j(2) by simp
    next
      case False
      have "cs + j \<noteq> 2" using that j(1) cs(2) by (cases "cs = 0") auto
      then show ?thesis using odd_prime [of "cs + j"] cs(1) False by auto
    qed
  qed
  show ?thesis
  proof (cases "cs = 0")
    case False
    have "odds_from 1 n flags = odds_from 0 n flags"
      by (cases "0 < n") (simp_all add: odds_from_def upt_conv_Cons)
    then have "map (\<lambda>j. cs + j) (odds_from 1 n flags) = map (\<lambda>j. cs + j) (filter (\<lambda>j. is_prime (cs + j)) [0..<n])"
      using odd_ge [of 0] False by simp
    also have "\<dots> = filter is_prime (map (\<lambda>j. cs + j) [0..<n])" by (simp add: filter_map comp_def)
    also have "map (\<lambda>j. cs + j) [0..<n] = [cs..<cs + n]" by (rule nth_equalityI) simp_all
    finally show ?thesis using False by simp
  next
    case True
    show ?thesis
    proof (cases "2 < n")
      case False
      then have "odds_from 1 n flags = []" "filter is_prime [0..<n] = []"
        using odds True prime_ge_2 by (fastforce simp: odds_from_def filter_empty_conv)+
      with False True show ?thesis by simp
    next
      case n: True
      have e: "[0..<n] = [0, 1, 2] @ [3..<n]" using n by (simp add: upt_conv_Cons numeral_3_eq_3 eval_nat_numeral)
      have "odds_from 1 n flags = odds_from 3 n flags"
        using n odds_from_step [of 1 n flags] odds True by (simp add: numeral_3_eq_3)
      also have "\<dots> = filter is_prime [3..<n]" using odd_ge [of 3] True by simp
      finally show ?thesis using True n two by (simp add: e)
    qed
  qed
qed

lemma emit_primes_result:
  assumes "even cs" "cs = 0 \<or> 2 < cs"
    and "\<forall>i < n. odd i \<longrightarrow> (flags ! i \<longleftrightarrow> is_prime (cs + i))" and "cs = 0 \<Longrightarrow> 2 < n \<Longrightarrow> flags ! 2"
    and fit: "length (filter is_prime [cs..<cs + n]) \<le> length buf"
  shows "\<exists>buf'. emit_primes conv cs n flags buf = (buf', length (filter is_prime [cs..<cs + n])) \<and>
    length buf' = length buf \<and>
    take (length (filter is_prime [cs..<cs + n])) buf' = map conv (filter is_prime [cs..<cs + n])"
proof -
  note pc = primes_in_chunk [OF assms(1-4)]
  let ?od = "odds_from 1 n flags"
  have od1: "odd (1 :: nat)" by simp
  show ?thesis
  proof (cases "cs = 0 \<and> 2 < n \<and> flags ! 2")
    case True
    then have pc': "filter is_prime [cs..<cs + n] = 2 # map (\<lambda>j. cs + j) ?od" using pc by simp
    then have "1 + length ?od \<le> length (buf[0 := conv 2])" "0 < length buf" using fit by auto
    with emit_odds_result [OF od1, of 1 n flags "buf[0 := conv 2]" conv cs] True pc' show ?thesis
      using take_update_Suc [of 0 buf "conv 2"] by (auto simp: emit_primes_def emit_number_def comp_def)
  next
    case False
    then have pc': "filter is_prime [cs..<cs + n] = map (\<lambda>j. cs + j) ?od"
      using pc by (simp only: if_False append_Nil)
    then have "0 + length ?od \<le> length buf" using fit by simp
    with emit_odds_result [OF od1, of 0 n flags buf conv cs] False pc' show ?thesis
      by (auto simp: emit_primes_def comp_def)
  qed
qed

end
