(* ===== verification/Primes.thy ===== *)
theory Primes
  imports Sieve Generators PolledBatches
begin

text \<open>
  Plaidlay/examples/external/primes.h: the primes up to \<open>n\<close> on disk. \<open>BoolCreate\<close> writes one flag
  for every number up to \<open>n\<close>; then the flags are polled block by block, each task crosses off the
  multiples of the primes up to the root of \<open>n\<close> and writes the numbers that are left, as a block of
  its own, through the two phases of TwoPhase.
\<close>

definition primes_work :: "nat list \<Rightarrow> nat \<Rightarrow> (bool, u64) task_body" where
  "primes_work base_primes flags_per_chunk d buf =
     (let chunk_start = bd_index d * flags_per_chunk;
          flags = mark_chunk base_primes chunk_start (bd_size d) (bd_data d);
          (out, produced) = emit_primes of_nat chunk_start (bd_size d) flags buf
      in (out, produced, bd_index d))"

text \<open>\<open>s\<close> is the floating-point square root of \<open>n\<close> before its correction; a correction that never ends
leaves no result.\<close>

definition primes :: "nat \<Rightarrow> nat \<Rightarrow> nat \<Rightarrow> nat \<Rightarrow> string list \<Rightarrow> nat \<Rightarrow> string list \<Rightarrow> string list \<Rightarrow> fstore \<Rightarrow>
    External_Sequence \<Rightarrow> fstore \<Rightarrow> bool" where
  "primes s A B N ssds n new_filenames out_files fs res fs' \<longleftrightarrow>
     (if n < 2 then res = new_sequence 0 \<and> fs' = fs
      else \<exists>r seq fs1 ds schs ps.
        sqrt_n s n = Some r \<and>
        BoolCreate True bool_pod A B N ssds ((n + 1) mod 2 ^ 64)
          (new_sequence ((n + 1 + B div pod_size bool_pod - 1) mod 2 ^ 64 div (B div pod_size bool_pod)))
          new_filenames fs seq fs1 \<and>
        reader_polls bool_pod A B default_reader_config fs1 (ordered_underlying_sequence seq) ds \<and>
        schedules_ok N (B div pod_size u64_pod) ds (ceil_div (seq_size seq) N) schs \<and>
        polled_batches (primes_work (base_sieve r) (B div pod_size bool_pod)) u64_pod B N out_files
          (seq_size seq) schs = Some ps \<and>
        res = \<lparr>ordered_underlying_sequence = sort_key h_index (ps_headers ps)\<rparr> \<and>
        chunk_writer_runs A ssds generator_config u64_pod out_files fs1 (ps_requests ps) fs')"

section \<open>One chunk\<close>

definition chunk_primes :: "nat \<Rightarrow> nat \<Rightarrow> nat \<Rightarrow> nat list" where
  "chunk_primes n B g = filter is_prime [g * B..<min ((g + 1) * B) (n + 1)]"

definition flags_block :: "nat \<Rightarrow> nat \<Rightarrow> bool BufferData \<Rightarrow> bool" where
  "flags_block n B d \<longleftrightarrow> bd_ok B d \<and> bd_index d * B < n + 1 \<and>
     take (bd_size d) (bd_data d) = run_of B (replicate (n + 1) True) (bd_index d)"

definition primes_core :: "nat \<Rightarrow> nat \<Rightarrow> nat \<Rightarrow> nat \<times> u64 list" where
  "primes_core n B g = (g, map of_nat (chunk_primes n B g))"

lemma primes_work_block:
  assumes B: "8 dvd B" "0 < B" and r: "n < (r + 1) * (r + 1)"
    and fit: "\<forall>g. length (chunk_primes n B g) \<le> B div 8"
  shows "block_work (primes_work (base_sieve r) B) (flags_block n B) (B div 8) (\<lambda>d. primes_core n B (bd_index d))"
proof
  fix d :: "bool BufferData" and fresh :: "u64 list" and buf k index
  assume d: "flags_block n B d" and f: "length fresh = B div 8"
    and w: "primes_work (base_sieve r) B d fresh = (buf, k, index)"
  let ?cs = "bd_index d * B" and ?n = "bd_size d"
  let ?flags = "mark_chunk (base_sieve r) ?cs ?n (bd_data d)"
  have blk: "bd_ok B d" "?cs < n + 1" "take ?n (bd_data d) = run_of B (replicate (n + 1) True) (bd_index d)"
    using d by (simp_all add: flags_block_def)
  have len: "?n \<le> length (bd_data d)" using blk(1) by (simp add: bd_ok_def)
  have "?n = length (take ?n (bd_data d))" using len by simp
  also have "\<dots> = min (n + 1) ((bd_index d + 1) * B) - ?cs" unfolding blk(3) by (simp add: length_run_of)
  finally have n': "?cs + ?n = min ((bd_index d + 1) * B) (n + 1)" using blk(2) by (simp add: min.commute)
  have "set (take ?n (bd_data d)) \<subseteq> {True}"
    unfolding blk(3) run_of_def using set_drop_subset set_take_subset by fastforce
  then have all: "\<forall>i < ?n. bd_data d ! i"
    using len by (metis length_take min.absorb2 nth_mem nth_take singletonD subsetD)
  have even: "even ?cs" using B(1) by (auto intro: dvd_mult dvd_trans)
  have "8 \<le> B" using B by (simp add: dvd_imp_le)
  then have cs2: "?cs = 0 \<or> 2 < ?cs" by (cases "bd_index d") auto
  have root: "\<forall>i < ?n. ?cs + i < (r + 1) * (r + 1)"
    using n' r by (auto simp: min_def split: if_splits)
  note mc = mark_chunk_result [OF even len all base_sieve_primes root]
  have cp: "chunk_primes n B (bd_index d) = filter is_prime [?cs..<?cs + ?n]"
    unfolding n' chunk_primes_def ..
  have "length (filter is_prime [?cs..<?cs + ?n]) \<le> length fresh"
    using fit f by (simp flip: cp)
  from emit_primes_result [OF even cs2 _ mc(3) this, of of_nat] mc(2)
  obtain out where "emit_primes of_nat ?cs ?n ?flags fresh = (out, length (chunk_primes n B (bd_index d)))"
    and "length out = length fresh"
    and "take (length (chunk_primes n B (bd_index d))) out = (map of_nat (chunk_primes n B (bd_index d)) :: u64 list)"
    unfolding cp by blast
  with w f fit show "length buf = B div 8 \<and> k \<le> B div 8 \<and> (index, take k buf) = primes_core n B (bd_index d)"
    by (auto simp: primes_work_def primes_core_def Let_def)
qed


section \<open>All chunks\<close>

lemma chunk_primes_run: "chunk_primes n B g = filter is_prime (run_of B [0..<n + 1] g)"
proof -
  have "run_of B [0..<n + 1] g = [g * B..<min ((g + 1) * B) (n + 1)]"
    by (rule nth_equalityI) (auto simp: run_of_def min_def algebra_simps simp del: upt_Suc)
  then show ?thesis by (simp only: chunk_primes_def)
qed

lemma all_primes:
  assumes "0 < B"
  shows "ordered_elems (map (primes_core n B) [0..<ceil_div (n + 1) B]) = map of_nat (filter is_prime [0..<n + 1])"
proof -
  let ?M = "ceil_div (n + 1) B"
  have "sort_key fst (map (primes_core n B) [0..<?M]) = map (primes_core n B) [0..<?M]"
    by (rule sort_key_id_if_sorted) (simp add: primes_core_def comp_def)
  then have "ordered_elems (map (primes_core n B) [0..<?M]) = concat (map (\<lambda>g. map of_nat (chunk_primes n B g)) [0..<?M])"
    by (simp add: ordered_elems_def primes_core_def comp_def)
  also have "\<dots> = map of_nat (filter is_prime (concat (map (run_of B [0..<n + 1]) [0..<?M])))"
    unfolding chunk_primes_run by (simp add: map_concat filter_concat comp_def)
  also have "concat (map (run_of B [0..<n + 1]) [0..<?M]) = [0..<n + 1]"
    using concat_runs_ceil [OF assms, of "[0..<n + 1]"] by (simp del: upt_Suc)
  finally show ?thesis .
qed

text \<open>The blocks the reader delivers from the flags that \<open>BoolCreate\<close> has written.\<close>

lemma flag_blocks:
  assumes B: "0 < B"
    and rp: "reader_polls bool_pod A B default_reader_config fs hs ds"
    and A: "0 < A" "A dvd B" and wf: "\<forall>h \<in> set hs. wf_block bool_pod B fs h"
    and co: "mset (map (chunk_core bool_pod fs) hs) = mset (map (chunk_of (\<lambda>_. True) (n + 1) B) [0..<ceil_div (n + 1) B])"
  shows "(\<forall>d \<in> set ds. flags_block n B d) \<and> length ds = ceil_div (n + 1) B \<and>
    mset (map (\<lambda>d. primes_core n B (bd_index d)) ds) = mset (map (primes_core n B) [0..<ceil_div (n + 1) B])"
proof -
  let ?M = "ceil_div (n + 1) B"
  have sz: "0 < pod_size bool_pod" "B div pod_size bool_pod = B" by (simp_all add: bool_pod_def)
  note pol = rp default_reader_config_ok sz(1) A wf
  have ok: "\<forall>d \<in> set ds. bd_ok B d" using chunk_reader.polls_ok [OF pol] sz(2) by simp
  have m: "mset (map bd_core ds) = mset (map (chunk_of (\<lambda>_. True) (n + 1) B) [0..<?M])"
    using chunk_reader.polls_mset [OF pol] co by simp
  have flags: "map (\<lambda>_. True) [0..<n + 1] = replicate (n + 1) True"
    by (rule nth_equalityI) (simp_all del: upt_Suc replicate_Suc)
  have "flags_block n B d" if d: "d \<in> set ds" for d
  proof -
    have "bd_core d \<in> set (map bd_core ds)" using d by simp
    then have "bd_core d \<in> set (map (chunk_of (\<lambda>_. True) (n + 1) B) [0..<?M])" using mset_eq_setD [OF m] by blast
    then obtain g where g: "g < ?M" and "bd_core d = chunk_of (\<lambda>_. True) (n + 1) B g" by auto
    then have "bd_index d = g" "take (bd_size d) (bd_data d) = run_of B (replicate (n + 1) True) g"
      unfolding bd_core_def chunk_of_def flags by simp_all
    moreover have "g * B < n + 1" using g less_ceil_div_iff [OF B] by blast
    ultimately show ?thesis using ok d by (simp add: flags_block_def)
  qed
  moreover have "length ds = ?M" using mset_eq_length [OF m] by simp
  moreover have "mset (map bd_index ds) = mset [0..<?M]"
  proof -
    have "mset (map fst (map bd_core ds)) = mset (map fst (map (chunk_of (\<lambda>_. True) (n + 1) B) [0..<?M]))"
      using m by (metis mset_map)
    moreover have "map fst (map bd_core ds) = map bd_index ds" by (simp add: bd_core_def)
    moreover have "map fst (map (chunk_of (\<lambda>_. True) (n + 1) B) [0..<?M]) = [0..<?M]"
      by (simp add: chunk_of_def comp_def)
    ultimately show ?thesis by metis
  qed
  then have "mset (map (primes_core n B) (map bd_index ds)) = mset (map (primes_core n B) [0..<?M])"
    by (metis mset_map)
  ultimately show ?thesis by (simp add: comp_def)
qed

lemma fills_const: "fills (\<lambda>b k. v) (\<lambda>_. v)"
  by (simp add: fills_def)

lemma bool_chunks: "(n + 1 + B div pod_size bool_pod - 1) mod 2 ^ 64 div (B div pod_size bool_pod) = num_chunks (B div pod_size bool_pod) (n + 1)"
  by (simp add: num_chunks_def)

lemma bool_size: "B div pod_size bool_pod = B" "pod_size u64_pod = 8"
  by (simp_all add: bool_pod_def u64_pod_def)

text \<open>The hypotheses on the environment: an \<open>n\<close> and a block size for which no sum or product wraps
around, a floating-point root of at most \<open>2 ^ 31\<close>, which rounding to the nearest gives for such an
\<open>n\<close>, two sets of files, and room for the primes of a chunk in a block.\<close>

definition primes_env :: "nat \<Rightarrow> nat \<Rightarrow> nat \<Rightarrow> nat \<Rightarrow> nat \<Rightarrow> string list \<Rightarrow> string list \<Rightarrow> bool" where
  "primes_env s A B N n flag_files prime_files \<longleftrightarrow>
     n < 2 ^ 62 \<and> s \<le> 2 ^ 31 \<and> B \<le> 2 ^ 61 \<and> N \<le> 2 ^ 31 \<and>
     env_ok bool_pod A B N flag_files \<and> env_ok u64_pod A B N prime_files \<and>
     set flag_files \<inter> set prime_files = {} \<and>
     (\<forall>g < ceil_div (n + 1) B. length (chunk_primes n B g) \<le> B div 8)"

lemma primes_env_fit:
  assumes "primes_env s A B N n flag_files prime_files"
  shows "\<forall>g. length (chunk_primes n B g) \<le> B div 8"
proof
  fix g
  have B: "0 < B" using assms by (simp add: primes_env_def env_ok_def)
  show "length (chunk_primes n B g) \<le> B div 8"
  proof (cases "g < ceil_div (n + 1) B")
    case True
    then show ?thesis using assms by (simp add: primes_env_def)
  next
    case False
    then have "n + 1 \<le> g * B" using less_ceil_div_iff [OF B, of g "n + 1"] by simp
    then have "chunk_primes n B g = []" by (simp add: chunk_primes_def)
    then show ?thesis by simp
  qed
qed

lemma primes_env_root:
  assumes "primes_env s A B N n flag_files prime_files"
  shows "\<exists>r. sqrt_n s n = Some r \<and> n < (r + 1) * (r + 1)"
  using assms sqrt_n_result [of n s] by (auto simp: primes_env_def)

lemma primes_env_chunks:
  assumes "primes_env s A B N n flag_files prime_files"
  shows "(n + 1) mod 2 ^ 64 = n + 1" "n + 1 + B div pod_size bool_pod + N \<le> 2 ^ 64"
    "num_chunks (B div pod_size bool_pod) (n + 1) = ceil_div (n + 1) B"
  using assms num_chunks_ceil [of B "n + 1"] by (simp_all add: primes_env_def env_ok_def bool_size)

lemma primes_batches:
  assumes env: "primes_env s A B N n flag_files prime_files"
    and ds: "\<forall>d \<in> set ds. flags_block n B d" "length ds = ceil_div (n + 1) B"
      "mset (map (\<lambda>d. primes_core n B (bd_index d)) ds) = mset (map (primes_core n B) [0..<ceil_div (n + 1) B])"
    and sch: "schedules_ok N (B div pod_size u64_pod) ds (ceil_div (ceil_div (n + 1) B) N) schs"
    and root: "sqrt_n s n = Some r"
  shows "\<exists>ps L. polled_batches (primes_work (base_sieve r) B) u64_pod B N prime_files
      (ceil_div (n + 1) B) schs = Some ps \<and>
    phases_inv u64_pod B N prime_files (ceil_div (n + 1) B) (ceil_div (ceil_div (n + 1) B) N)
      (mset (map (primes_core n B) [0..<ceil_div (n + 1) B])) ps L"
proof -
  have e: "8 dvd B" "0 < B" "0 < N"
    using env by (simp_all add: primes_env_def env_ok_def bool_size)
  have "n < (r + 1) * (r + 1)" using primes_env_root [OF env] root by auto
  note bw = primes_work_block [OF e(1,2) this primes_env_fit [OF env]]
  have o: "B div 8 = B div pod_size u64_pod" by (simp only: bool_size)
  from block_work.polled_phases [OF bw sch [folded o] ds(1,2) e(3,2) o, of prime_files]
  show ?thesis unfolding ds(3) .
qed

lemma primes_entries:
  assumes inv: "phases_inv u64_pod B N prime_files (ceil_div (n + 1) B) (ceil_div (ceil_div (n + 1) B) N)
      (mset (map (primes_core n B) [0..<ceil_div (n + 1) B])) ps L"
    and env: "primes_env s A B N n flag_files prime_files"
    and wr: "chunk_writer_runs A ssds cfg u64_pod prime_files fs1 (ps_requests ps) fs'"
  shows "wf_seq u64_pod B fs' \<lparr>ordered_underlying_sequence = sort_key h_index (ps_headers ps)\<rparr> \<and>
    ReadOutput u64_pod fs' \<lparr>ordered_underlying_sequence = sort_key h_index (ps_headers ps)\<rparr>
      = Some (map of_nat (filter is_prime [0..<n + 1]))"
proof -
  have e: "env_ok u64_pod A B N prime_files" "0 < N" "0 < B" using env by (simp_all add: primes_env_def env_ok_def)
  have fst_cs: "map fst (map (primes_core n B) [0..<ceil_div (n + 1) B]) = [0..<ceil_div (n + 1) B]"
    by (simp add: primes_core_def comp_def)
  then have dist: "distinct (map fst (map (primes_core n B) [0..<ceil_div (n + 1) B]))" by (simp only: distinct_upt)
  show ?thesis
    using two_phase_written [OF u64_repr.pod_repr_axioms e(1) inv ceil_div_ge [OF e(2)] wr dist] all_primes [OF e(3)]
    by simp
qed

lemma primes_small: "n < 2 \<Longrightarrow> filter is_prime [0..<n + 1] = []"
  using prime_ge_2 by (fastforce simp: filter_empty_conv)

lemma new_chunks: "seq_size (new_sequence k) = k"
  by (simp add: seq_size_def new_sequence_def)

lemma bool_created:
  assumes bc: "BoolCreate True bool_pod A B N ssds (n + 1) (new_sequence (num_chunks (B div pod_size bool_pod) (n + 1)))
          flag_files fs seq fs1"
    and e: "env_ok bool_pod A B N flag_files" and small: "n + 1 + B div pod_size bool_pod + N \<le> 2 ^ 64"
    and M: "num_chunks (B div pod_size bool_pod) (n + 1) = ceil_div (n + 1) B"
  shows "seq_size seq = ceil_div (n + 1) B \<and>
    (\<forall>h \<in> set (ordered_underlying_sequence seq). wf_block bool_pod B fs1 h) \<and>
    mset (map (chunk_core bool_pod fs1) (ordered_underlying_sequence seq))
      = mset (map (chunk_of (\<lambda>_. True) (n + 1) B) [0..<ceil_div (n + 1) B])"
proof -
  note gc = generate_correct [OF bc [unfolded BoolCreate_def bool_work_def] fills_const bool_repr.pod_repr_axioms e small new_chunks]
  have "length (map h_index (ordered_underlying_sequence seq)) = ceil_div (n + 1) B"
    using gc unfolding M by (metis diff_zero length_upt)
  moreover have "\<forall>h \<in> set (ordered_underlying_sequence seq). wf_block bool_pod B fs1 h"
    using gc by (simp add: wf_seq_def)
  moreover have "mset (map (chunk_core bool_pod fs1) (ordered_underlying_sequence seq))
      = mset (map (chunk_of (\<lambda>_. True) (n + 1) B) [0..<ceil_div (n + 1) B])"
    using conjunct2 [OF conjunct2 [OF conjunct2 [OF gc]]] unfolding M by (simp only: bool_size)
  ultimately show ?thesis by (simp only: seq_size_def length_map simp_thms)
qed

lemma primes_read:
  assumes run: "primes s A B N ssds n flag_files prime_files fs out fs'"
    and env: "primes_env s A B N n flag_files prime_files"
  shows "wf_seq u64_pod B fs' out \<and> ReadOutput u64_pod fs' out = Some (map of_nat (filter is_prime [0..<n + 1]))"
proof (cases "n < 2")
  case True
  then have "out = \<lparr>ordered_underlying_sequence = []\<rparr>" using run by (simp add: primes_def new_sequence_def)
  then show ?thesis using primes_small [OF True] by (simp add: wf_seq_def ReadOutput_def)
next
  case False
  let ?M = "ceil_div (n + 1) B"
  have e: "env_ok bool_pod A B N flag_files" "0 < A" "A dvd B" "0 < N" "0 < B"
    using env by (simp_all add: primes_env_def env_ok_def)
  note ch = primes_env_chunks [OF env]
  from run False obtain r seq fs1 ds schs ps where
    root: "sqrt_n s n = Some r"
    and bc: "BoolCreate True bool_pod A B N ssds (n + 1) (new_sequence (num_chunks (B div pod_size bool_pod) (n + 1)))
          flag_files fs seq fs1"
    and rp: "reader_polls bool_pod A B default_reader_config fs1 (ordered_underlying_sequence seq) ds"
    and sch: "schedules_ok N (B div pod_size u64_pod) ds (ceil_div (seq_size seq) N) schs"
    and pb: "polled_batches (primes_work (base_sieve r) (B div pod_size bool_pod)) u64_pod B N prime_files
          (seq_size seq) schs = Some ps"
    and out: "out = \<lparr>ordered_underlying_sequence = sort_key h_index (ps_headers ps)\<rparr>"
    and wr: "chunk_writer_runs A ssds generator_config u64_pod prime_files fs1 (ps_requests ps) fs'"
    unfolding primes_def bool_chunks ch(1) by (simp only: if_False) blast
  note created = bool_created [OF bc e(1) ch(2,3)]
  note sz = conjunct1 [OF created] and wf = conjunct1 [OF conjunct2 [OF created]] and co = conjunct2 [OF conjunct2 [OF created]]
  note fb = flag_blocks [OF e(5) rp e(2,3) wf co]
  have "schedules_ok N (B div pod_size u64_pod) ds (ceil_div ?M N) schs" using sch sz by simp
  from primes_batches [OF env conjunct1 [OF fb] conjunct1 [OF conjunct2 [OF fb]] conjunct2 [OF conjunct2 [OF fb]] this root]
  obtain L where "phases_inv u64_pod B N prime_files ?M (ceil_div ?M N) (mset (map (primes_core n B) [0..<?M])) ps L"
    using pb unfolding bool_size sz by auto
  from primes_entries [OF this env wr] show ?thesis unfolding out .
qed

lemma primes_exist:
  assumes env: "primes_env s A B N n flag_files prime_files"
  shows "\<exists>out fs'. primes s A B N ssds n flag_files prime_files fs out fs'"
proof (cases "n < 2")
  case True
  then show ?thesis by (simp add: primes_def)
next
  case False
  let ?M = "ceil_div (n + 1) B"
  have e: "env_ok bool_pod A B N flag_files" "0 < A" "A dvd B" "0 < N" "0 < B"
    and pe: "env_ok u64_pod A B N prime_files" "prime_files \<noteq> []"
    using env by (auto simp: primes_env_def env_ok_def)
  note ch = primes_env_chunks [OF env]
  obtain r where root: "sqrt_n s n = Some r" using primes_env_root [OF env] by blast
  have gs: "seq_size (new_sequence (num_chunks (B div pod_size bool_pod) (n + 1))) = num_chunks (B div pod_size bool_pod) (n + 1)"
    by (simp add: seq_size_def new_sequence_def)
  obtain seq fs1 where bc: "BoolCreate True bool_pod A B N ssds (n + 1)
      (new_sequence (num_chunks (B div pod_size bool_pod) (n + 1))) flag_files fs seq fs1"
    using generate_exists [OF fills_const bool_repr.pod_repr_axioms e(1) ch(2) new_chunks]
    unfolding BoolCreate_def bool_work_def by blast
  note created = bool_created [OF bc e(1) ch(2,3)]
  note sz = conjunct1 [OF created] and wf = conjunct1 [OF conjunct2 [OF created]] and co = conjunct2 [OF conjunct2 [OF created]]
  have "0 < pod_size bool_pod" by (simp add: bool_pod_def)
  then obtain ds where rp: "reader_polls bool_pod A B default_reader_config fs1 (ordered_underlying_sequence seq) ds"
    using chunk_reader.polls_exist [OF default_reader_config_ok _ e(2,3) wf] by blast
  note fb = flag_blocks [OF e(5) rp e(2,3) wf co]
  obtain schs :: "(bool, u64) batch_schedule list"
    where sch: "schedules_ok N (B div pod_size u64_pod) ds (ceil_div ?M N) schs"
    using schedules_exist [OF e(4)] by blast
  from primes_batches [OF env conjunct1 [OF fb] conjunct1 [OF conjunct2 [OF fb]] conjunct2 [OF conjunct2 [OF fb]] this root]
  obtain ps L where pb: "polled_batches (primes_work (base_sieve r) B) u64_pod B N prime_files ?M schs = Some ps"
    and inv: "phases_inv u64_pod B N prime_files ?M (ceil_div ?M N) (mset (map (primes_core n B) [0..<?M])) ps L" by blast
  have pl: "placed B (B div pod_size u64_pod) N (ps_offsets ps) L"
    and rq: "ps_requests ps = map (entry_request (B div pod_size u64_pod)) L"
    using inv unfolding phases_inv_def by simp_all
  have "length prime_files = N" using pe by (simp add: env_ok_def)
  then have "\<forall>r \<in> set (ps_requests ps). valid_request u64_pod A (length prime_files) r \<and> push_check u64_pod A r"
    unfolding rq using entry_requests_valid [OF pl pe(1) u64_repr.pod_repr_axioms] by simp
  then have "\<exists>fs'. chunk_writer_runs A ssds generator_config u64_pod prime_files fs1 (ps_requests ps) fs'"
    using pe by (intro writer_runs_exists) (auto simp: generator_config_def default_writer_config_def)
  then obtain fs' where "chunk_writer_runs A ssds generator_config u64_pod prime_files fs1 (ps_requests ps) fs'" ..
  moreover have "schedules_ok N (B div pod_size u64_pod) ds (ceil_div (seq_size seq) N) schs"
    unfolding sz by (rule sch)
  moreover have "polled_batches (primes_work (base_sieve r) (B div pod_size bool_pod)) u64_pod B N
      prime_files (seq_size seq) schs = Some ps"
    unfolding sz bool_size by (rule pb)
  ultimately show ?thesis
    unfolding primes_def bool_chunks ch(1) if_not_P [OF False] using root bc rp by blast
qed

section \<open>Properties\<close>

text \<open>C5: \<open>primes\<close> is correct: for every \<open>n < 2 ^ 62\<close> and every value of at most \<open>2 ^ 31\<close> of the
floating-point square root, with two disjoint sets of files, blocks of at most \<open>2 ^ 61\<close> bytes and
the primes of every chunk of flags fitting into one block, it always returns, and the sequence it
returns reads back as the primes up to and including \<open>n\<close> in increasing order, for every
interleaving of the two passes.\<close>

theorem primes_correct:
  assumes env: "primes_env s A B N n flag_files prime_files"
  shows "(\<exists>out fs'. primes s A B N ssds n flag_files prime_files fs out fs') \<and>
    (\<forall>out fs'. primes s A B N ssds n flag_files prime_files fs out fs' \<longrightarrow>
       wf_seq u64_pod B fs' out \<and>
       ReadOutput u64_pod fs' out = Some (map of_nat (filter is_prime [0..<n + 1])))"
  using primes_exist [OF env] primes_read [OF _ env] by blast

lemma primes_correct_witness:
  "\<exists>out fs'. primes 3 16 48 2 [] 14 [''f0'', ''f1''] [''p0'', ''p1''] Map.empty out fs' \<and>
     ReadOutput u64_pod fs' out = Some [2, 3, 5, 7, 11, 13]"
proof -
  have ps: "filter is_prime [0..<14 + 1] = [2, 3, 5, 7, 11, 13]"
    by code_simp
  have "chunk_primes 14 48 0 = [2, 3, 5, 7, 11, 13]"
    unfolding chunk_primes_def using ps by simp
  then have env: "primes_env 3 16 48 2 14 [''f0'', ''f1''] [''p0'', ''p1'']"
    by (simp add: primes_env_def env_ok_def bool_pod_def u64_pod_def ceil_div_def)
  have "map of_nat (filter is_prime [0..<14 + 1]) = [2, 3, 5, 7, 11, 13 :: u64]" unfolding ps by simp
  then show ?thesis using primes_correct [OF env, of "[]" Map.empty] by auto
qed

end
