(* ===== verification/Interleaving.thy ===== *)
theory Interleaving
  imports ChunkWriter
begin

text \<open>
  Workers that each produce a fixed list of blocks, and draw the places of their blocks from the
  shared \<open>file_offsets\<close> by atomic \<open>fetch_add\<close>s. The draws of different workers interleave in any
  way, those of one worker happen in its own order.
\<close>

inductive interleave :: "'c list list \<Rightarrow> 'c list \<Rightarrow> bool" where
  interleave_done: "\<forall>xs \<in> set xss. xs = [] \<Longrightarrow> interleave xss []"
| interleave_step: "i < length xss \<Longrightarrow> xss ! i = x # xs \<Longrightarrow> interleave (xss[i := xs]) zs \<Longrightarrow>
    interleave xss (x # zs)"

lemma concat_update:
  "i < length xss \<Longrightarrow> xss ! i = x # xs \<Longrightarrow> mset (concat xss) = add_mset x (mset (concat (xss[i := xs])))"
proof (induction xss arbitrary: i)
  case Nil
  then show ?case by simp
next
  case (Cons ys xss)
  then show ?case by (cases i) simp_all
qed

lemma interleave_mset: "interleave xss zs \<Longrightarrow> mset zs = mset (concat xss)"
proof (induction rule: interleave.induct)
  case (interleave_done xss)
  then have "concat xss = []" by simp
  then show ?case by simp
next
  case (interleave_step i xss x xs zs)
  then show ?case using concat_update by fastforce
qed

lemma interleave_exists: "\<exists>zs. interleave xss zs"
proof (induction "length (concat xss)" arbitrary: xss)
  case 0
  then show ?case using interleave_done [of xss] by auto
next
  case (Suc k)
  have "\<exists>xs \<in> set xss. xs \<noteq> []"
  proof (rule ccontr)
    assume "\<not> (\<exists>xs \<in> set xss. xs \<noteq> [])"
    then have "concat xss = []" by simp
    with Suc.hyps(2) show False by simp
  qed
  then obtain i where i: "i < length xss" "xss ! i \<noteq> []" by (metis in_set_conv_nth)
  then obtain x xs where x: "xss ! i = x # xs" by (cases "xss ! i") auto
  have "k = length (concat (xss[i := xs]))"
    using Suc.hyps(2) mset_eq_length concat_update [OF i(1) x]
    by (metis Suc_inject size_add_mset size_mset)
  then obtain zs where "interleave (xss[i := xs]) zs" using Suc.hyps(1) by blast
  then show ?case using interleave_step [OF i(1) x] by blast
qed

lemma interleave_first: "interleave (xs # replicate k []) xs"
proof (induction xs)
  case Nil
  show ?case by (rule interleave_done) auto
next
  case (Cons x xs)
  then have "interleave (((x # xs) # replicate k [])[0 := xs]) xs" by simp
  then show ?case by (rule interleave_step [rotated 2]) simp_all
qed

text \<open>Each worker's own order survives.\<close>

lemma interleave_filter:
  assumes "interleave xss zs" and "\<forall>i < length xss. \<forall>x \<in> set (xss ! i). tag x = i"
  shows "\<forall>i < length xss. filter (\<lambda>x. tag x = i) zs = xss ! i"
  using assms
proof (induction rule: interleave.induct)
  case (interleave_done xss)
  then show ?case by (auto simp: all_set_conv_all_nth)
next
  case (interleave_step i xss x xs zs)
  have "\<forall>j < length (xss[i := xs]). \<forall>y \<in> set (xss[i := xs] ! j). tag y = j"
    using interleave_step by (auto simp: nth_list_update)
  with interleave_step.IH have IH: "\<forall>j < length xss. filter (\<lambda>x. tag x = j) zs = xss[i := xs] ! j" by simp
  show ?case
  proof (intro allI impI)
    fix j assume j: "j < length xss"
    have "tag x = i" using interleave_step by simp
    with IH j interleave_step(2) show "filter (\<lambda>x. tag x = j) (x # zs) = xss ! j" by auto
  qed
qed

section \<open>Drawing places\<close>

text \<open>A block that has been pushed: who pushed it, the chosen file, key, count and buffer.\<close>

record 'b pushed =
  pu_owner :: nat
  pu_ssd :: nat
  pu_index :: nat
  pu_count :: nat
  pu_buf :: "'b list"

definition pushed_entry :: "'b pushed \<Rightarrow> nat \<Rightarrow> 'b entry" where
  "pushed_entry x base = \<lparr>e_index = pu_index x, e_ssd = pu_ssd x, e_base = base,
     e_data = take (pu_count x) (pu_buf x), e_buf = pu_buf x\<rparr>"

fun draw_places :: "nat \<Rightarrow> (nat \<Rightarrow> nat) \<Rightarrow> 'b pushed list \<Rightarrow> ('b pushed \<times> 'b entry) list" where
  "draw_places B offs [] = []"
| "draw_places B offs (x # xs) =
     (x, pushed_entry x (offs (pu_ssd x))) # draw_places B (offs(pu_ssd x := offs (pu_ssd x) + B)) xs"

definition pushed_ok :: "nat \<Rightarrow> nat \<Rightarrow> 'b pushed \<Rightarrow> bool" where
  "pushed_ok cap N x \<longleftrightarrow> pu_ssd x < N \<and> length (pu_buf x) = cap \<and> pu_count x \<le> cap"

lemma map_fst_draw [simp]: "map fst (draw_places B offs xs) = xs"
  by (induction xs arbitrary: offs) simp_all

lemma draw_places_placed:
  assumes "placed B cap N offs L" and "\<forall>x \<in> set xs. pushed_ok cap N x" and "0 < B"
  shows "\<exists>offs'. placed B cap N offs' (L @ map snd (draw_places B offs xs))"
  using assms
proof (induction xs arbitrary: offs L)
  case Nil
  then show ?case by auto
next
  case (Cons x xs)
  have "placed B cap N (offs(pu_ssd x := offs (pu_ssd x) + B)) (L @ [pushed_entry x (offs (pu_ssd x))])"
    unfolding pushed_entry_def using Cons.prems by (intro placed_add) (auto simp: pushed_ok_def)
  from Cons.IH [OF this] Cons.prems(2,3)
  have "\<exists>offs'. placed B cap N offs' ((L @ [pushed_entry x (offs (pu_ssd x))]) @
      map snd (draw_places B (offs(pu_ssd x := offs (pu_ssd x) + B)) xs))" by (simp del: fun_upd_apply)
  then show ?case by (simp only: draw_places.simps list.map snd_conv append_assoc append_Cons append_Nil)
qed

lemma draw_places_entry:
  "(x, e) \<in> set (draw_places B offs xs) \<Longrightarrow> \<exists>base. e = pushed_entry x base"
  by (induction xs arbitrary: offs) auto

lemma draw_places_core:
  "map (\<lambda>p. g (e_index (snd p)) (e_data (snd p))) (draw_places B offs xs)
     = map (\<lambda>x. g (pu_index x) (take (pu_count x) (pu_buf x))) xs"
  by (induction xs arbitrary: offs) (simp_all add: pushed_entry_def)

end
