(* ===== verification/Shuffle.thy ===== *)
theory Shuffle
  imports Interleaving TwoPhase ChunkReader FileUtils
begin

text \<open>
  Plaidlay/examples/Extern_random_shuffle.h: the external shuffle. Phase 1 scatters every element to
  a bucket picked at random and writes the buckets as blocks of temporary files; phase 2 loads each
  bucket, shuffles it in memory and writes it to its range of the output. Parameters of the model are
  the library's \<open>hash64\<close>, the bucket \<open>pick m g\<close> that \<open>uniform_int_distribution(0, m - 1)\<close> draws for
  the element with number \<open>g\<close>, the numbers \<open>rnd b i\<close> of \<open>ith_rand(i)\<close> for bucket \<open>b\<close>, and the
  number \<open>W\<close> of workers.
\<close>

section \<open>The number of buckets\<close>

definition MAIN_MEMORY_SIZE :: nat where
  "MAIN_MEMORY_SIZE = 400 * 2 ^ 30"

definition SHUFFLE_SCATTER_BUDGET :: nat where
  "SHUFFLE_SCATTER_BUDGET = 16 * 2 ^ 30"

definition ShuffleBucketCount :: "nat \<Rightarrow> nat \<Rightarrow> nat \<Rightarrow> nat \<Rightarrow> nat" where
  "ShuffleBucketCount W B sz total_bytes =
     (if total_bytes = 0 then 1
      else let min_buckets = max 1 (4 * W * total_bytes div MAIN_MEMORY_SIZE);
               max_buckets = max 1 (min (total_bytes div sz) (total_bytes div O_DIRECT_MULTIPLE));
               desired = max (min (total_bytes div 2 ^ 27) max_buckets) min_buckets;
               mem_cap = max 1 (SHUFFLE_SCATTER_BUDGET div (W * B))
           in max 1 (min desired mem_cap))"

section \<open>Phase 1\<close>

text \<open>\<open>elems[h.index] = h.used / sizeof(T)\<close>; a key that is not below the number of blocks aborts.\<close>

fun count_elems :: "nat \<Rightarrow> chunk_header list \<Rightarrow> nat list \<Rightarrow> nat list option" where
  "count_elems sz [] elems = Some elems"
| "count_elems sz (h # hs) elems =
     (if h_index h < length elems
      then count_elems sz hs (elems[h_index h := h_used h div sz])
      else None)"

fun prefix_sums :: "nat \<Rightarrow> nat list \<Rightarrow> nat list" where
  "prefix_sums t [] = []"
| "prefix_sums t (x # xs) = t # prefix_sums (t + x) xs"

text \<open>One worker: a buffer with its fill count for every bucket, and the blocks flushed so far.\<close>

record 'a scatter =
  sc_buf :: "'a list list"
  sc_idx :: "nat list"
  sc_seq :: nat
  sc_out :: "'a pushed list"

text \<open>\<open>heap b k\<close>: the memory allocated for bucket \<open>b\<close> after \<open>k\<close> flushes.\<close>

definition flush :: "(nat \<Rightarrow> nat) \<Rightarrow> nat \<Rightarrow> nat \<Rightarrow> (nat \<Rightarrow> nat \<Rightarrow> 'a list) \<Rightarrow> nat \<Rightarrow> nat \<Rightarrow> bool \<Rightarrow>
    'a scatter \<Rightarrow> 'a scatter" where
  "flush hash64 N tid heap b k reuse st =
     (let x = \<lparr>pu_owner = tid, pu_ssd = hash64 (tid * 1000003 + sc_seq st) mod N, pu_index = b,
               pu_count = k, pu_buf = sc_buf st ! b\<rparr>;
          st' = st\<lparr>sc_seq := sc_seq st + 1, sc_out := sc_out st @ [x]\<rparr>
      in if reuse
         then st'\<lparr>sc_buf := (sc_buf st)[b := heap b (sc_seq st + 1)], sc_idx := (sc_idx st)[b := 0]\<rparr>
         else st')"

definition scatter_elem :: "(nat \<Rightarrow> nat) \<Rightarrow> nat \<Rightarrow> nat \<Rightarrow> (nat \<Rightarrow> nat \<Rightarrow> 'a list) \<Rightarrow> nat \<Rightarrow> nat \<Rightarrow> 'a \<Rightarrow>
    'a scatter \<Rightarrow> 'a scatter" where
  "scatter_elem hash64 N tid heap block_elems b x st =
     (let k = sc_idx st ! b;
          st' = st\<lparr>sc_buf := (sc_buf st)[b := (sc_buf st ! b)[k := x]], sc_idx := (sc_idx st)[b := k + 1]\<rparr>
      in if sc_idx st' ! b = block_elems then flush hash64 N tid heap b block_elems True st' else st')"

fun scatter_loop :: "(nat \<Rightarrow> nat) \<Rightarrow> nat \<Rightarrow> nat \<Rightarrow> (nat \<Rightarrow> nat \<Rightarrow> 'a list) \<Rightarrow> nat \<Rightarrow> (nat \<Rightarrow> nat) \<Rightarrow> nat \<Rightarrow>
    'a list \<Rightarrow> 'a scatter \<Rightarrow> 'a scatter" where
  "scatter_loop hash64 N tid heap block_elems pick g [] st = st"
| "scatter_loop hash64 N tid heap block_elems pick g (x # xs) st =
     scatter_loop hash64 N tid heap block_elems pick (g + 1) xs
       (scatter_elem hash64 N tid heap block_elems (pick g) x st)"

fun scatter_polls :: "(nat \<Rightarrow> nat) \<Rightarrow> nat \<Rightarrow> nat \<Rightarrow> (nat \<Rightarrow> nat \<Rightarrow> 'a list) \<Rightarrow> nat \<Rightarrow> (nat \<Rightarrow> nat) \<Rightarrow> nat list \<Rightarrow>
    'a BufferData list \<Rightarrow> 'a scatter \<Rightarrow> 'a scatter" where
  "scatter_polls hash64 N tid heap block_elems pick before [] st = st"
| "scatter_polls hash64 N tid heap block_elems pick before (d # ds) st =
     scatter_polls hash64 N tid heap block_elems pick before ds
       (scatter_loop hash64 N tid heap block_elems pick (before ! bd_index d) (take (bd_size d) (bd_data d)) st)"

fun scatter_drain :: "(nat \<Rightarrow> nat) \<Rightarrow> nat \<Rightarrow> nat \<Rightarrow> (nat \<Rightarrow> nat \<Rightarrow> 'a list) \<Rightarrow> nat list \<Rightarrow> 'a scatter \<Rightarrow> 'a scatter" where
  "scatter_drain hash64 N tid heap [] st = st"
| "scatter_drain hash64 N tid heap (b # bs) st =
     scatter_drain hash64 N tid heap bs
       (if 0 < sc_idx st ! b then flush hash64 N tid heap b (sc_idx st ! b) False st else st)"

definition scatter_worker :: "(nat \<Rightarrow> nat) \<Rightarrow> nat \<Rightarrow> (nat \<Rightarrow> nat \<Rightarrow> nat \<Rightarrow> 'a list) \<Rightarrow> nat \<Rightarrow> nat \<Rightarrow> (nat \<Rightarrow> nat) \<Rightarrow>
    nat list \<Rightarrow> nat \<Rightarrow> 'a BufferData list \<Rightarrow> 'a pushed list" where
  "scatter_worker hash64 N heap num_buckets block_elems pick before tid share =
     sc_out (scatter_drain hash64 N tid (heap tid) [0..<num_buckets]
       (scatter_polls hash64 N tid (heap tid) block_elems pick before share
          \<lparr>sc_buf = map (\<lambda>b. heap tid b 0) [0..<num_buckets], sc_idx = replicate num_buckets 0,
           sc_seq = 0, sc_out = []\<rparr>))"

section \<open>Writing the blocks of concurrent workers\<close>

definition shuffle_config :: UnorderedChunkWriterConfig where
  "shuffle_config = default_writer_config\<lparr>wc_num_threads := 2\<rparr>"

text \<open>The places are drawn in an interleaved order; the pushes may reach the writer in any order.\<close>

definition run_pushes :: "nat \<Rightarrow> string list \<Rightarrow> 'a pod \<Rightarrow> nat \<Rightarrow> string list \<Rightarrow> fstore \<Rightarrow> 'a pushed list list \<Rightarrow>
    ('a pushed \<times> 'a entry) list \<Rightarrow> fstore \<Rightarrow> bool" where
  "run_pushes A ssds P B names fs streams drawn fs' \<longleftrightarrow>
     (\<exists>zs rs. interleave streams zs \<and> drawn = draw_places B (\<lambda>_. 0) zs \<and>
        mset rs = mset (map (\<lambda>p. entry_request (B div pod_size P) (snd p)) drawn) \<and>
        chunk_writer_runs A ssds shuffle_config P names fs rs fs')"

section \<open>Phase 2\<close>

definition bucket_chunks :: "nat \<Rightarrow> string list \<Rightarrow> nat \<Rightarrow> ('a pushed \<times> 'a entry) list \<Rightarrow> nat \<Rightarrow> chunk_header list" where
  "bucket_chunks W tmp sz drawn b =
     concat (map (\<lambda>tid. filter (\<lambda>h. h_index h = b)
        (map (\<lambda>p. entry_header tmp sz (snd p)) (filter (\<lambda>p. pu_owner (fst p) = tid) drawn))) [0..<W])"

definition swap_at :: "'a list \<Rightarrow> nat \<Rightarrow> nat \<Rightarrow> 'a list" where
  "swap_at xs i j = xs[i := xs ! j, j := xs ! i]"

text \<open>\<open>for (i = n; i > 1; i--) swap(data[i - 1], data[ith_rand(i) % i])\<close>\<close>

fun fisher_yates :: "(nat \<Rightarrow> nat) \<Rightarrow> nat \<Rightarrow> 'a list \<Rightarrow> 'a list" where
  "fisher_yates rnd 0 xs = xs"
| "fisher_yates rnd (Suc i) xs =
     (if 1 < Suc i then fisher_yates rnd i (swap_at xs i (rnd (Suc i) mod Suc i)) else xs)"

definition bucket_blocks :: "(nat \<Rightarrow> nat) \<Rightarrow> nat \<Rightarrow> (nat \<Rightarrow> nat \<Rightarrow> 'a list) \<Rightarrow> nat \<Rightarrow> nat \<Rightarrow> nat \<Rightarrow> 'a list \<Rightarrow>
    'a pushed list" where
  "bucket_blocks hash64 N heap block_elems b start xs =
     map (\<lambda>j. let lo = j * block_elems; hi = min (length xs) ((j + 1) * block_elems); k = hi - lo
         in \<lparr>pu_owner = b, pu_ssd = hash64 (start + j) mod N, pu_index = start + j, pu_count = k,
             pu_buf = take k (drop lo xs) @ drop k (heap b j)\<rparr>)
       [0..<(length xs + block_elems - 1) div block_elems]"

text \<open>\<open>out_headers[start[b] + j] = h\<close>\<close>

fun put_headers :: "string list \<Rightarrow> nat \<Rightarrow> ('a pushed \<times> 'a entry) list \<Rightarrow> chunk_header list \<Rightarrow>
    chunk_header list option" where
  "put_headers names sz [] arr = Some arr"
| "put_headers names sz ((x, e) # ps) arr =
     (case put_header arr (pu_index x) (entry_header names sz e) of
        None \<Rightarrow> None
      | Some arr' \<Rightarrow> put_headers names sz ps arr')"

text \<open>The temporary files, and their removal at the end.\<close>

definition tmp_filenames :: "string list \<Rightarrow> string list" where
  "tmp_filenames names = map (\<lambda>f. f @ ''_shuf_tmp'') names"

definition unlink_all :: "string list \<Rightarrow> fstore \<Rightarrow> fstore" where
  "unlink_all names fs = (\<lambda>f. if f \<in> set names then None else fs f)"

text \<open>Shuffling the loaded buckets and writing them to the output; \<open>nb\<close> are their sizes.\<close>

definition write_buckets :: "(nat \<Rightarrow> nat) \<Rightarrow> (nat \<Rightarrow> nat \<Rightarrow> nat) \<Rightarrow> 'a pod \<Rightarrow> nat \<Rightarrow> nat \<Rightarrow> nat \<Rightarrow>
    string list \<Rightarrow> string list \<Rightarrow> fstore \<Rightarrow> nat list \<Rightarrow> 'a list list \<Rightarrow> External_Sequence option \<Rightarrow> fstore \<Rightarrow> bool" where
  "write_buckets hash64 rnd P A B N ssds names fs1 nb data res fs' \<longleftrightarrow>
     (let sz = pod_size P; block_elems = B div sz;
          ocount = map (\<lambda>n. (n + block_elems - 1) div block_elems) nb;
          start = prefix_sums 0 ocount
      in \<exists>heap drawn fs2.
           (\<forall>b j. length (heap b j) = block_elems) \<and>
           run_pushes A ssds P B names fs1
             (map (\<lambda>b. bucket_blocks hash64 N heap block_elems b (start ! b)
                         (fisher_yates (rnd b) (nb ! b) (data ! b))) [0..<length nb]) drawn fs2 \<and>
           res = map_option (\<lambda>arr. \<lparr>ordered_underlying_sequence = arr\<rparr>)
             (put_headers names sz drawn (ordered_underlying_sequence (new_sequence (sum_list ocount)))) \<and>
           fs' = unlink_all (tmp_filenames names) fs2)"

text \<open>
  What phase 2 does after phase 1 has left the store \<open>fs1\<close>; \<open>None\<close> where a \<open>CHECK\<close> aborts (the
  store is then left open).
\<close>

definition bucket_size :: "nat \<Rightarrow> chunk_header list \<Rightarrow> nat" where
  "bucket_size sz hs = (\<Sum>h\<leftarrow>hs. h_used h) div sz"

definition load_bucket :: "'a pod \<Rightarrow> fstore \<Rightarrow> chunk_header list \<Rightarrow> 'a list option" where
  "load_bucket P fs hs = (if bucket_size (pod_size P) hs = 0 then Some [] else read_blocks P fs hs)"

definition shuffle_phase2 :: "(nat \<Rightarrow> nat) \<Rightarrow> (nat \<Rightarrow> nat \<Rightarrow> nat) \<Rightarrow> nat \<Rightarrow> nat \<Rightarrow> 'a pod \<Rightarrow> nat \<Rightarrow> nat \<Rightarrow> nat \<Rightarrow>
    string list \<Rightarrow> string list \<Rightarrow> fstore \<Rightarrow> ('a pushed \<times> 'a entry) list \<Rightarrow> External_Sequence option \<Rightarrow> fstore \<Rightarrow> bool" where
  "shuffle_phase2 hash64 rnd W m P A B N ssds names fs1 drawn res fs' \<longleftrightarrow>
     (let sz = pod_size P;
          chunks = map (bucket_chunks W (tmp_filenames names) sz drawn) [0..<m];
          loaded = map (load_bucket P fs1) chunks
      in if None \<in> set loaded then res = None
         else write_buckets hash64 rnd P A B N ssds names fs1 (map (bucket_size sz) chunks) (map the loaded) res fs')"

definition ExternalShuffle :: "(nat \<Rightarrow> nat) \<Rightarrow> (nat \<Rightarrow> nat \<Rightarrow> nat) \<Rightarrow> (nat \<Rightarrow> nat \<Rightarrow> nat) \<Rightarrow> nat \<Rightarrow> 'a pod \<Rightarrow>
    nat \<Rightarrow> nat \<Rightarrow> nat \<Rightarrow> string list \<Rightarrow> string list \<Rightarrow> fstore \<Rightarrow> External_Sequence \<Rightarrow> External_Sequence option \<Rightarrow> fstore \<Rightarrow> bool" where
  "ExternalShuffle hash64 pick rnd W P A B N ssds names fs s res fs' \<longleftrightarrow>
     (let hs = ordered_underlying_sequence s; sz = pod_size P
      in case count_elems sz hs (replicate (length hs) 0) of
          None \<Rightarrow> res = None \<and> fs' = fs
        | Some elems \<Rightarrow>
            if sum_list elems = 0 then res = Some (new_sequence 0) \<and> fs' = fs
            else let m = ShuffleBucketCount W B sz (sum_list elems * sz)
              in \<exists>ds shares heap drawn fs1.
                reader_polls P A B default_reader_config fs hs ds \<and>
                length shares = W \<and> mset (concat shares) = mset ds \<and>
                (\<forall>t b k. length (heap t b k) = B div sz) \<and>
                run_pushes A ssds P B (tmp_filenames names) fs
                  (map (\<lambda>t. scatter_worker hash64 N heap m (B div sz) (pick m) (prefix_sums 0 elems) t (shares ! t)) [0..<W])
                  drawn fs1 \<and>
                shuffle_phase2 hash64 rnd W m P A B N ssds names fs1 drawn res fs')"

section \<open>One worker of phase 1\<close>

definition pending_of :: "'a scatter \<Rightarrow> 'a multiset" where
  "pending_of st = (\<Sum>p\<leftarrow>zip (sc_buf st) (sc_idx st). mset (take (snd p) (fst p)))"

definition flushed_of :: "'a pushed list \<Rightarrow> 'a multiset" where
  "flushed_of xs = (\<Sum>x\<leftarrow>xs. mset (take (pu_count x) (pu_buf x)))"

definition push_ok :: "nat \<Rightarrow> nat \<Rightarrow> nat \<Rightarrow> nat \<Rightarrow> 'a pushed \<Rightarrow> bool" where
  "push_ok E N m tid x \<longleftrightarrow> pushed_ok E N x \<and> pu_owner x = tid \<and> pu_index x < m \<and> 0 < pu_count x"

definition scatter_inv :: "nat \<Rightarrow> nat \<Rightarrow> nat \<Rightarrow> nat \<Rightarrow> 'a multiset \<Rightarrow> 'a scatter \<Rightarrow> bool" where
  "scatter_inv E N m tid seen st \<longleftrightarrow>
     length (sc_buf st) = m \<and> length (sc_idx st) = m \<and>
     (\<forall>b < m. length (sc_buf st ! b) = E \<and> sc_idx st ! b < E) \<and>
     (\<forall>x \<in> set (sc_out st). push_ok E N m tid x) \<and>
     flushed_of (sc_out st) + pending_of st = seen"

lemma pending_update:
  assumes "b < length (sc_buf st)" and "length (sc_idx st) = length (sc_buf st)"
  shows "\<exists>R. pending_of st = R + mset (take (sc_idx st ! b) (sc_buf st ! b)) \<and>
    (\<forall>buf k. pending_of (st\<lparr>sc_buf := (sc_buf st)[b := buf], sc_idx := (sc_idx st)[b := k]\<rparr>)
       = R + mset (take k buf))"
proof -
  have b: "b < length (zip (sc_buf st) (sc_idx st))" using assms by simp
  from sum_list_split [OF b, of "\<lambda>p. mset (take (snd p) (fst p))"]
  obtain R where R: "pending_of st = R + mset (take (sc_idx st ! b) (sc_buf st ! b))"
    "\<forall>y. (\<Sum>p\<leftarrow>(zip (sc_buf st) (sc_idx st))[b := y]. mset (take (snd p) (fst p))) = R + mset (take (snd y) (fst y))"
    using assms by (auto simp: pending_of_def)
  have "pending_of (st\<lparr>sc_buf := (sc_buf st)[b := buf], sc_idx := (sc_idx st)[b := k]\<rparr>) = R + mset (take k buf)" for buf k
    using R(2)[rule_format, of "(buf, k)"] by (simp add: pending_of_def update_zip)
  with R(1) show ?thesis by blast
qed


lemma flushed_append [simp]: "flushed_of (xs @ ys) = flushed_of xs + flushed_of ys"
  by (simp add: flushed_of_def)

lemma flushed_Cons [simp]: "flushed_of (x # xs) = mset (take (pu_count x) (pu_buf x)) + flushed_of xs"
  by (simp add: flushed_of_def)

lemma flushed_Nil [simp]: "flushed_of [] = {#}"
  by (simp add: flushed_of_def)

lemma scatter_elem_inv:
  assumes inv: "scatter_inv E N m tid seen st" and b: "b < m" and N: "0 < N" and E: "0 < E"
    and heap: "\<forall>b k. length (heap b k) = E"
  shows "scatter_inv E N m tid (add_mset x seen) (scatter_elem hash64 N tid heap E b x st)"
proof -
  have st: "length (sc_buf st) = m" "length (sc_idx st) = m" "length (sc_buf st ! b) = E" "sc_idx st ! b < E"
    "flushed_of (sc_out st) + pending_of st = seen"
    using inv b by (simp_all add: scatter_inv_def)
  let ?k = "sc_idx st ! b" and ?buf = "(sc_buf st ! b)[sc_idx st ! b := x]"
  obtain R where R: "pending_of st = R + mset (take ?k (sc_buf st ! b))"
    "\<And>buf k. pending_of (st\<lparr>sc_buf := (sc_buf st)[b := buf], sc_idx := (sc_idx st)[b := k]\<rparr>) = R + mset (take k buf)"
    using pending_update [of b st] b st(1,2) by auto
  have tk: "take (Suc ?k) ?buf = take ?k (sc_buf st ! b) @ [x]" using st(3,4) by (simp add: take_update_Suc)
  show ?thesis
  proof (cases "?k + 1 = E")
    case False
    then have eq: "scatter_elem hash64 N tid heap E b x st =
        st\<lparr>sc_buf := (sc_buf st)[b := ?buf], sc_idx := (sc_idx st)[b := ?k + 1]\<rparr>"
      using b st(2) by (simp add: scatter_elem_def Let_def)
    have p: "pending_of (scatter_elem hash64 N tid heap E b x st) = add_mset x (pending_of st)"
      unfolding eq R using tk R(1) by simp
    have k: "?k + 1 < E" using False st(4) by simp
    have "length ((sc_buf st)[b := ?buf] ! b') = E \<and> (sc_idx st)[b := ?k + 1] ! b' < E" if "b' < m" for b'
      using inv that k st by (cases "b' = b") (simp_all add: scatter_inv_def)
    then show ?thesis
      using inv p st(1,2,5) unfolding eq scatter_inv_def by simp
  next
    case True
    let ?x = "\<lparr>pu_owner = tid, pu_ssd = hash64 (tid * 1000003 + sc_seq st) mod N, pu_index = b,
               pu_count = E, pu_buf = ?buf\<rparr>"
    have eq: "scatter_elem hash64 N tid heap E b x st =
        st\<lparr>sc_seq := sc_seq st + 1, sc_out := sc_out st @ [?x],
           sc_buf := (sc_buf st)[b := heap b (sc_seq st + 1)], sc_idx := (sc_idx st)[b := 0]\<rparr>"
      using True b st(1,2) by (simp add: scatter_elem_def flush_def Let_def)
    have "pending_of (scatter_elem hash64 N tid heap E b x st) = R"
      using R(2) [where buf = "heap b (sc_seq st + 1)" and k = 0] unfolding eq pending_of_def by simp
    moreover have "mset (take E ?buf) = mset (take ?k (sc_buf st ! b)) + {#x#}" using tk True by simp
    ultimately have "flushed_of (sc_out (scatter_elem hash64 N tid heap E b x st)) +
        pending_of (scatter_elem hash64 N tid heap E b x st) = add_mset x seen"
      using st(5) R(1) unfolding eq by (simp add: ac_simps)
    moreover have "push_ok E N m tid ?x" using b N E st(3) by (simp add: push_ok_def pushed_ok_def)
    moreover have "length ((sc_buf st)[b := heap b (sc_seq st + 1)] ! b') = E \<and> (sc_idx st)[b := 0] ! b' < E" if "b' < m" for b'
      using inv that heap b st(1,2) by (cases "b' = b") (simp_all add: scatter_inv_def E)
    ultimately show ?thesis
      using inv st(1,2) unfolding eq scatter_inv_def by simp
  qed
qed

lemma pending_init:
  "pending_of \<lparr>sc_buf = bufs, sc_idx = replicate (length bufs) 0, sc_seq = 0, sc_out = []\<rparr> = {#}"
  unfolding pending_of_def by (induction bufs) simp_all

lemma scatter_loop_inv:
  assumes "scatter_inv E N m tid seen st" and "\<forall>g. pick g < m" and "0 < N" and "0 < E" and "\<forall>b k. length (heap b k) = E"
  shows "scatter_inv E N m tid (seen + mset xs) (scatter_loop hash64 N tid heap E pick g xs st)"
  using assms
proof (induction xs arbitrary: g st seen)
  case Nil
  then show ?case by simp
next
  case (Cons x xs)
  have "scatter_inv E N m tid (add_mset x seen) (scatter_elem hash64 N tid heap E (pick g) x st)"
    using Cons.prems by (intro scatter_elem_inv) auto
  from Cons.IH [OF this Cons.prems(2-5)] show ?case by simp
qed

definition polled_elems :: "'a BufferData list \<Rightarrow> 'a multiset" where
  "polled_elems ds = (\<Sum>d\<leftarrow>ds. mset (snd (bd_core d)))"

lemma scatter_polls_inv:
  assumes "scatter_inv E N m tid seen st" and "\<forall>g. pick g < m" and "0 < N" and "0 < E" and "\<forall>b k. length (heap b k) = E"
  shows "scatter_inv E N m tid (seen + polled_elems ds) (scatter_polls hash64 N tid heap E pick before ds st)"
  using assms
proof (induction ds arbitrary: st seen)
  case Nil
  then show ?case by (simp add: polled_elems_def)
next
  case (Cons d ds)
  have "scatter_inv E N m tid (seen + mset (snd (bd_core d)))
      (scatter_loop hash64 N tid heap E pick (before ! bd_index d) (take (bd_size d) (bd_data d)) st)"
    using scatter_loop_inv [OF Cons.prems, where xs = "take (bd_size d) (bd_data d)"] by (simp add: bd_core_def)
  from Cons.IH [OF this Cons.prems(2-5)] show ?case by (simp add: polled_elems_def ac_simps)
qed

lemma scatter_drain_out:
  assumes "\<forall>b \<in> set bs. b < m \<and> length (sc_buf st ! b) = E \<and> sc_idx st ! b < E"
    and "\<forall>x \<in> set (sc_out st). push_ok E N m tid x" and "0 < N"
  shows "(\<forall>x \<in> set (sc_out (scatter_drain hash64 N tid heap bs st)). push_ok E N m tid x) \<and>
    flushed_of (sc_out (scatter_drain hash64 N tid heap bs st))
      = flushed_of (sc_out st) + (\<Sum>b\<leftarrow>bs. mset (take (sc_idx st ! b) (sc_buf st ! b)))"
  using assms
proof (induction bs arbitrary: st)
  case Nil
  then show ?case by simp
next
  case (Cons b bs)
  let ?st = "if 0 < sc_idx st ! b then flush hash64 N tid heap b (sc_idx st ! b) False st else st"
  have same: "sc_buf ?st = sc_buf st" "sc_idx ?st = sc_idx st" by (simp_all add: flush_def Let_def)
  have out: "flushed_of (sc_out ?st) = flushed_of (sc_out st) + mset (take (sc_idx st ! b) (sc_buf st ! b))"
    by (simp add: flush_def Let_def)
  have ok: "\<forall>x \<in> set (sc_out ?st). push_ok E N m tid x"
    using Cons.prems by (auto simp: flush_def Let_def push_ok_def pushed_ok_def)
  have "\<forall>b \<in> set bs. b < m \<and> length (sc_buf ?st ! b) = E \<and> sc_idx ?st ! b < E"
    using Cons.prems(1) unfolding same by simp
  from Cons.IH [OF this ok Cons.prems(3)] show ?case unfolding same out by (simp add: add.assoc)
qed

lemma pending_list:
  assumes "length (sc_buf st) = m" and "length (sc_idx st) = m"
  shows "pending_of st = (\<Sum>b\<leftarrow>[0..<m]. mset (take (sc_idx st ! b) (sc_buf st ! b)))"
proof -
  have "zip (sc_buf st) (sc_idx st) = map (\<lambda>b. (sc_buf st ! b, sc_idx st ! b)) [0..<m]"
    using assms by (intro nth_equalityI) simp_all
  then show ?thesis by (simp add: pending_of_def comp_def)
qed

lemma scatter_worker_result:
  assumes "\<forall>g. pick g < m" and "0 < N" and "0 < E" and "\<forall>t b k. length (heap t b k) = E"
  shows "(\<forall>x \<in> set (scatter_worker hash64 N heap m E pick before tid share). push_ok E N m tid x) \<and>
    flushed_of (scatter_worker hash64 N heap m E pick before tid share) = polled_elems share"
proof -
  let ?init = "\<lparr>sc_buf = map (\<lambda>b. heap tid b 0) [0..<m], sc_idx = replicate m 0, sc_seq = 0, sc_out = []\<rparr>"
  let ?st = "scatter_polls hash64 N tid (heap tid) E pick before share ?init"
  have "pending_of ?init = {#}" using pending_init [of "map (\<lambda>b. heap tid b 0) [0..<m]"] by simp
  then have "scatter_inv E N m tid {#} ?init" using assms(3,4) by (simp add: scatter_inv_def)
  from scatter_polls_inv [OF this assms(1-3), of "heap tid" share hash64 before] assms(4)
  have inv: "scatter_inv E N m tid (polled_elems share) ?st" by simp
  then have i: "length (sc_buf ?st) = m" "length (sc_idx ?st) = m"
      "\<forall>b \<in> set [0..<m]. b < m \<and> length (sc_buf ?st ! b) = E \<and> sc_idx ?st ! b < E"
      "\<forall>x \<in> set (sc_out ?st). push_ok E N m tid x" "flushed_of (sc_out ?st) + pending_of ?st = polled_elems share"
    by (simp_all add: scatter_inv_def)
  from scatter_drain_out [OF i(3,4) assms(2), of hash64 "heap tid"] i(5) pending_list [OF i(1,2)]
  show ?thesis by (simp add: scatter_worker_def)
qed

end
