(* ===== verification/ShuffleCorrect.thy ===== *)
theory ShuffleCorrect
  imports Shuffle
begin

text \<open>
  The correctness of the external shuffle (Shuffle.thy): every run returns, its output is a
  well-formed sequence with dense keys, and the elements are exactly those of the input. Nothing is
  assumed of the random choices but their range.
\<close>

section \<open>The blocks that concurrent workers write\<close>

definition push_header :: "string list \<Rightarrow> nat \<Rightarrow> ('a pushed \<times> 'a entry) \<Rightarrow> chunk_header" where
  "push_header names sz p = entry_header names sz (snd p)"

definition push_data :: "'a pushed \<Rightarrow> 'a list" where
  "push_data x = take (pu_count x) (pu_buf x)"

definition stored_ok :: "'a pod \<Rightarrow> nat \<Rightarrow> string list \<Rightarrow> fstore \<Rightarrow> ('a pushed \<times> 'a entry) \<Rightarrow> bool" where
  "stored_ok P B names fs p \<longleftrightarrow>
     (let h = push_header names (pod_size P) p; x = fst p in
        wf_block P B fs h \<and> chunk_elems P fs h = push_data x \<and> h_index h = pu_index x \<and>
        h_used h = length (push_data x) * pod_size P \<and> h_filename h \<in> set names)"

lemma run_pushes_result:
  assumes run: "run_pushes A ssds P B names fs streams drawn fs'"
    and ok: "\<forall>xs \<in> set streams. \<forall>x \<in> set xs. pushed_ok (B div pod_size P) N x"
    and env: "env_ok P A B N names" and P: "pod_repr P"
  shows "mset (map fst drawn) = mset (concat streams) \<and> (\<forall>p \<in> set drawn. stored_ok P B names fs' p)"
proof -
  let ?cap = "B div pod_size P"
  obtain zs rs where il: "interleave streams zs" and dr: "drawn = draw_places B (\<lambda>_. 0) zs"
    and rs: "mset rs = mset (map (\<lambda>p. entry_request ?cap (snd p)) drawn)"
    and wr: "chunk_writer_runs A ssds shuffle_config P names fs rs fs'"
    using run unfolding run_pushes_def by blast
  note mz = interleave_mset [OF il]
  have zs: "\<forall>x \<in> set zs. pushed_ok ?cap N x" using ok mset_eq_setD [OF mz] by auto
  have B: "0 < B" and N: "length names = N" "distinct names" using env by (simp_all add: env_ok_def)
  obtain offs where pl: "placed B ?cap N offs (map snd drawn)"
    using draw_places_placed [OF placed_Nil zs B] dr by auto
  note cap = env_ok_cap [OF env P]
  have rs': "mset rs = mset (map (entry_request ?cap) (map snd drawn))" using rs by (simp add: comp_def)
  have "stored_ok P B names fs' p" if p: "p \<in> set drawn" for p
  proof -
    obtain x e where pe: "p = (x, e)" by (cases p)
    obtain base where e: "e = pushed_entry x base" using draw_places_entry p dr pe by blast
    have "x \<in> set (map fst drawn)" using p pe by force
    then have x: "pushed_ok ?cap N x" using zs dr by simp
    have "e \<in> set (map snd drawn)" using p pe by force
    from chunk_writer.final_elems [OF P wr rs' pl conjunct1 [OF cap] conjunct2 [OF cap] N this]
    have "wf_block P B fs' (entry_header names (pod_size P) e)"
      and c: "chunk_core P fs' (entry_header names (pod_size P) e) = entry_core e" by simp_all
    moreover have "chunk_elems P fs' (entry_header names (pod_size P) e) = push_data x"
      using c e by (simp add: chunk_core_def entry_core_def pushed_entry_def push_data_def)
    moreover have "pu_ssd x < length names" using x N by (simp add: pushed_ok_def)
    ultimately show ?thesis
      using e pe by (simp add: stored_ok_def push_header_def entry_header_def pushed_entry_def push_data_def Let_def)
  qed
  moreover have "mset (map fst drawn) = mset (concat streams)" using dr mz by simp
  ultimately show ?thesis by blast
qed

lemma run_pushes_exists:
  assumes ok: "\<forall>xs \<in> set streams. \<forall>x \<in> set xs. pushed_ok (B div pod_size P) N x"
    and env: "env_ok P A B N names" and P: "pod_repr P"
  shows "\<exists>drawn fs'. run_pushes A ssds P B names fs streams drawn fs'"
proof -
  let ?cap = "B div pod_size P"
  obtain zs where il: "interleave streams zs" using interleave_exists by blast
  have zs: "\<forall>x \<in> set zs. pushed_ok ?cap N x" using ok mset_eq_setD [OF interleave_mset [OF il]] by auto
  have B: "0 < B" and N: "length names = N" "names \<noteq> []" using env by (auto simp: env_ok_def)
  let ?drawn = "draw_places B (\<lambda>_. 0) zs"
  obtain offs where pl: "placed B ?cap N offs (map snd ?drawn)"
    using draw_places_placed [OF placed_Nil zs B] by auto
  have val: "\<forall>r \<in> set (map (entry_request ?cap) (map snd ?drawn)). valid_request P A (length names) r \<and> push_check P A r"
    using entry_requests_valid [OF pl env P] N(1) by simp
  have cfg: "0 < wc_io_uring_size shuffle_config" "0 < wc_num_threads shuffle_config"
    by (simp_all add: shuffle_config_def default_writer_config_def)
  from writer_runs_exists [OF honest_chunk cfg N(2) val]
  obtain fs' where "chunk_writer_runs A ssds shuffle_config P names fs (map (entry_request ?cap) (map snd ?drawn)) fs'" by blast
  then have "run_pushes A ssds P B names fs streams ?drawn fs'"
    using il unfolding run_pushes_def
    by (intro exI [of _ zs] exI [of _ "map (entry_request ?cap) (map snd ?drawn)"]) (simp add: comp_def)
  then show ?thesis by blast
qed

lemma size_sum_mset: "size (\<Sum>x\<leftarrow>xs. mset (f x)) = (\<Sum>x\<leftarrow>xs. length (f x))"
  by (induction xs) simp_all

lemma flushed_mset: "flushed_of xs = \<Sum>\<^sub># (image_mset (\<lambda>x. mset (push_data x)) (mset xs))"
  by (induction xs) (simp_all add: push_data_def)

lemma flushed_perm: "mset xs = mset ys \<Longrightarrow> flushed_of xs = flushed_of ys"
  by (simp add: flushed_mset)

lemma size_flushed: "size (flushed_of xs) = (\<Sum>x\<leftarrow>xs. length (push_data x))"
  by (induction xs) (simp_all add: push_data_def)

lemma flushed_concat: "flushed_of (concat xss) = (\<Sum>xs\<leftarrow>xss. flushed_of xs)"
  by (induction xss) simp_all

section \<open>Counting the elements\<close>

lemma count_elems_result:
  assumes "\<forall>h \<in> set hs. h_index h < length elems" and "distinct (map h_index hs)"
    and "\<forall>h \<in> set hs. elems ! h_index h = 0"
  shows "\<exists>elems'. count_elems sz hs elems = Some elems' \<and>
    sum_list elems' = sum_list elems + (\<Sum>h\<leftarrow>hs. h_used h div sz)"
  using assms
proof (induction hs arbitrary: elems)
  case Nil
  then show ?case by simp
next
  case (Cons h hs)
  let ?elems = "elems[h_index h := h_used h div sz]"
  have "\<forall>g \<in> set hs. ?elems ! h_index g = 0"
    using Cons.prems by (auto simp: nth_list_update)
  with Cons.IH [of ?elems] Cons.prems obtain elems' where
    "count_elems sz hs ?elems = Some elems'" "sum_list elems' = sum_list ?elems + (\<Sum>h\<leftarrow>hs. h_used h div sz)"
    by auto
  moreover have "sum_list ?elems = sum_list elems + h_used h div sz"
    using sum_list_update_add [of "h_index h" elems "\<lambda>x. x" "h_used h div sz"] Cons.prems by simp
  ultimately show ?case using Cons.prems by simp
qed

section \<open>The buckets after phase 1\<close>

definition in_bucket :: "nat \<Rightarrow> ('a pushed \<times> 'a entry) list \<Rightarrow> ('a pushed \<times> 'a entry) list" where
  "in_bucket b drawn = filter (\<lambda>p. pu_index (fst p) = b) drawn"

lemma mset_filter_groups:
  assumes "\<forall>x \<in> set xs. g x < W"
  shows "mset (concat (map (\<lambda>t. filter (\<lambda>x. g x = t) xs) [0..<W])) = mset xs"
  using assms
proof (induction xs)
  case Nil
  then show ?case by (simp add: concat_eq_Nil_conv)
next
  case (Cons x xs)
  have "mset (concat (map (\<lambda>t. filter (\<lambda>y. g y = t) (x # xs)) [0..<n])) =
      mset (concat (map (\<lambda>t. filter (\<lambda>y. g y = t) xs) [0..<n])) + (if g x < n then {#x#} else {#})" for n
    by (induction n) auto
  with Cons show ?case by simp
qed

lemma bucket_chunks_mset:
  assumes "\<forall>p \<in> set drawn. pu_owner (fst p) < W \<and> h_index (push_header tmp sz p) = pu_index (fst p)"
  shows "mset (bucket_chunks W tmp sz drawn b) = mset (map (push_header tmp sz) (in_bucket b drawn))"
proof -
  have "filter (\<lambda>h. h_index h = b) (map (\<lambda>p. entry_header tmp sz (snd p)) (filter (\<lambda>p. pu_owner (fst p) = t) drawn))
      = map (push_header tmp sz) (filter (\<lambda>p. pu_owner (fst p) = t) (in_bucket b drawn))" for t
    using assms by (induction drawn) (auto simp: in_bucket_def push_header_def)
  then have "bucket_chunks W tmp sz drawn b =
      map (push_header tmp sz) (concat (map (\<lambda>t. filter (\<lambda>p. pu_owner (fst p) = t) (in_bucket b drawn)) [0..<W]))"
    by (simp add: bucket_chunks_def map_concat comp_def)
  moreover have "mset (concat (map (\<lambda>t. filter (\<lambda>p. pu_owner (fst p) = t) (in_bucket b drawn)) [0..<W]))
      = mset (in_bucket b drawn)"
    using assms by (intro mset_filter_groups) (auto simp: in_bucket_def)
  ultimately show ?thesis by simp
qed

text \<open>What one bucket holds: its loaded elements are those of the blocks that were pushed for it.\<close>

lemma bucket_loaded:
  assumes st: "\<forall>p \<in> set drawn. stored_ok P B tmp fs p \<and> pu_owner (fst p) < W" and P: "pod_repr P"
    and hs_def: "hs = bucket_chunks W tmp (pod_size P) drawn b"
  shows "\<exists>xs. read_blocks P fs hs = Some xs \<and> length xs = (\<Sum>h\<leftarrow>hs. h_used h) div pod_size P \<and>
    mset xs = flushed_of (map fst (in_bucket b drawn))"
proof -
  have m: "mset hs = mset (map (push_header tmp (pod_size P)) (in_bucket b drawn))"
    unfolding hs_def using st by (intro bucket_chunks_mset) (auto simp: stored_ok_def Let_def)
  have sub: "\<forall>p \<in> set (in_bucket b drawn). stored_ok P B tmp fs p" using st by (simp add: in_bucket_def)
  have "\<forall>h \<in> set hs. wf_block P B fs h"
    using mset_eq_setD [OF m] sub by (auto simp: stored_ok_def Let_def)
  then have rd: "read_blocks P fs hs = Some (concat (map (chunk_elems P fs) hs))" by (rule read_blocks_wf)
  have "mset (concat (map (chunk_elems P fs) hs)) =
      mset (concat (map (chunk_elems P fs) (map (push_header tmp (pod_size P)) (in_bucket b drawn))))"
    using m by (rule mset_concat_map_cong)
  also have "map (chunk_elems P fs) (map (push_header tmp (pod_size P)) (in_bucket b drawn))
      = map (\<lambda>p. push_data (fst p)) (in_bucket b drawn)"
    using sub by (simp add: stored_ok_def Let_def)
  also have "mset (concat \<dots>) = flushed_of (map fst (in_bucket b drawn))"
    by (simp add: flushed_of_def push_data_def mset_concat comp_def)
  finally have ms: "mset (concat (map (chunk_elems P fs) hs)) = flushed_of (map fst (in_bucket b drawn))" .
  have "(\<Sum>h\<leftarrow>hs. h_used h) = (\<Sum>h\<leftarrow>map (push_header tmp (pod_size P)) (in_bucket b drawn). h_used h)"
    using m by (rule sum_list_perm)
  also have "\<dots> = (\<Sum>p\<leftarrow>in_bucket b drawn. length (push_data (fst p)) * pod_size P)"
    using sub by (simp add: stored_ok_def Let_def comp_def cong: map_cong)
  also have "\<dots> = (\<Sum>p\<leftarrow>in_bucket b drawn. length (push_data (fst p))) * pod_size P"
    by (simp add: sum_list_mult_const)
  also have "(\<Sum>p\<leftarrow>in_bucket b drawn. length (push_data (fst p))) = size (flushed_of (map fst (in_bucket b drawn)))"
    by (simp add: size_flushed comp_def)
  finally have "(\<Sum>h\<leftarrow>hs. h_used h) div pod_size P = length (concat (map (chunk_elems P fs) hs))"
    using pod_repr.size_pos [OF P] ms by (metis nonzero_mult_div_cancel_right not_gr_zero size_mset)
  with rd ms show ?thesis by simp
qed

lemma flushed_buckets:
  assumes "\<forall>p \<in> set drawn. pu_index (fst p) < m"
  shows "(\<Sum>b\<leftarrow>[0..<m]. flushed_of (map fst (in_bucket b drawn))) = flushed_of (map fst drawn)"
proof -
  have "mset (concat (map (\<lambda>b. in_bucket b drawn) [0..<m])) = mset drawn"
    unfolding in_bucket_def using assms by (rule mset_filter_groups)
  then have "mset (map fst (concat (map (\<lambda>b. in_bucket b drawn) [0..<m]))) = mset (map fst drawn)" by simp
  from flushed_perm [OF this] show ?thesis by (simp add: map_concat flushed_concat comp_def)
qed

section \<open>Shuffling a bucket and cutting it into blocks\<close>

lemma mset_swap_at:
  assumes "i < length xs" and "j < length xs"
  shows "mset (swap_at xs i j) = mset xs"
  using mset_swap [OF assms(2,1)] by (simp add: swap_at_def)

lemma length_swap_at [simp]: "length (swap_at xs i j) = length xs"
  by (simp add: swap_at_def)

lemma mset_fisher_yates: "n \<le> length xs \<Longrightarrow> mset (fisher_yates rnd n xs) = mset xs"
proof (induction n arbitrary: xs)
  case 0
  then show ?case by simp
next
  case (Suc i)
  have "rnd (Suc i) mod Suc i < Suc i" by simp
  with Suc.prems have "rnd (Suc i) mod Suc i < length xs" by linarith
  with Suc show ?case by (simp add: mset_swap_at)
qed

lemma bucket_blocks_ok:
  assumes heap: "\<forall>b j. length (heap b j) = E" and E: "0 < E" and N: "0 < N"
    and x: "x \<in> set (bucket_blocks hash64 N heap E b start xs)"
  shows "pushed_ok E N x"
proof -
  obtain j where j: "j < ceil_div (length xs) E"
    and x: "x = (let lo = j * E; hi = min (length xs) ((j + 1) * E); k = hi - lo
         in \<lparr>pu_owner = b, pu_ssd = hash64 (start + j) mod N, pu_index = start + j, pu_count = k,
             pu_buf = take k (drop lo xs) @ drop k (heap b j)\<rparr>)"
    using x by (auto simp: bucket_blocks_def ceil_div_def)
  have "min (length xs) ((j + 1) * E) - j * E \<le> E" by simp
  moreover have "length (take (min (length xs) ((j + 1) * E) - j * E) (drop (j * E) xs)) = min (length xs) ((j + 1) * E) - j * E"
    by simp
  ultimately show ?thesis
    using heap N by (simp add: pushed_ok_def x Let_def)
qed

lemma bucket_blocks_data:
  assumes E: "0 < E"
  shows "flushed_of (bucket_blocks hash64 N heap E b start xs) = mset xs"
proof -
  have eq: "take k (take k ys @ zs) = take k ys" if "k \<le> length ys" for k and ys zs :: "'a list"
    using that by simp
  have "map push_data (bucket_blocks hash64 N heap E b start xs)
      = map (run_of E xs) [0..<ceil_div (length xs) E]"
    unfolding bucket_blocks_def ceil_div_def
    by (auto simp: push_data_def Let_def run_of_def min_def take_all_iff)
  moreover have "flushed_of ys = mset (concat (map push_data ys))" for ys :: "'a pushed list"
    by (induction ys) (simp_all add: push_data_def)
  ultimately show ?thesis using concat_runs_ceil [OF E] by metis
qed

lemma length_prefix_sums [simp]: "length (prefix_sums t xs) = length xs"
  by (induction xs arbitrary: t) simp_all

lemma prefix_ranges:
  "concat (map (\<lambda>p. map ((+) (fst p)) [0..<snd p]) (zip (prefix_sums t oc) oc)) = [t..<t + sum_list oc]"
proof (induction oc arbitrary: t)
  case Nil
  then show ?case by simp
next
  case (Cons n oc)
  have "map ((+) t) [0..<n] = [t..<t + n]" by (simp add: map_add_upt [symmetric] add.commute)
  moreover have "[t..<t + (n + sum_list oc)] = [t..<t + n] @ [t + n..<t + n + sum_list oc]"
    by (metis add.assoc le_add1 upt_add_eq_append)
  ultimately show ?case using Cons by simp
qed

lemma bucket_keys:
  assumes "length ys = length oc" and "\<forall>b < length oc. oc ! b = (length (ys ! b) + E - 1) div E"
  shows "map pu_index (concat (map (\<lambda>b. bucket_blocks hash64 N heap E b (prefix_sums 0 oc ! b) (ys ! b)) [0..<length oc]))
    = [0..<sum_list oc]"
proof -
  have "map pu_index (bucket_blocks hash64 N heap E b (prefix_sums 0 oc ! b) (ys ! b))
      = map ((+) (prefix_sums 0 oc ! b)) [0..<oc ! b]" if "b < length oc" for b
    using assms that by (simp add: bucket_blocks_def Let_def comp_def)
  then have "map (\<lambda>b. map pu_index (bucket_blocks hash64 N heap E b (prefix_sums 0 oc ! b) (ys ! b))) [0..<length oc]
      = map (\<lambda>b. map ((+) (prefix_sums 0 oc ! b)) [0..<oc ! b]) [0..<length oc]" by simp
  also have "\<dots> = map (\<lambda>p. map ((+) (fst p)) [0..<snd p]) (zip (prefix_sums 0 oc) oc)"
    by (intro nth_equalityI) simp_all
  finally show ?thesis using prefix_ranges [of 0 oc] by (simp add: map_concat comp_def)
qed

section \<open>The header array of the output\<close>

lemma put_headers_result:
  assumes "distinct (map (\<lambda>p. pu_index (fst p)) ps)" and "\<forall>p \<in> set ps. pu_index (fst p) < length arr"
  shows "\<exists>arr'. put_headers names sz ps arr = Some arr' \<and> length arr' = length arr \<and>
    (\<forall>p \<in> set ps. arr' ! pu_index (fst p) = push_header names sz p) \<and>
    (\<forall>i. i \<notin> (\<lambda>p. pu_index (fst p)) ` set ps \<longrightarrow> arr' ! i = arr ! i)"
  using assms
proof (induction ps arbitrary: arr)
  case Nil
  then show ?case by simp
next
  case (Cons p ps)
  obtain x e where p: "p = (x, e)" by (cases p)
  let ?arr = "arr[pu_index x := entry_header names sz e]"
  have d: "distinct (map (\<lambda>p. pu_index (fst p)) ps)" and new: "pu_index x \<notin> (\<lambda>p. pu_index (fst p)) ` set ps"
    using Cons.prems(1) p by auto
  have b: "\<forall>p \<in> set ps. pu_index (fst p) < length ?arr" and x: "pu_index x < length arr"
    using Cons.prems(2) p by auto
  from Cons.IH [OF d b] obtain arr' where r: "put_headers names sz ps ?arr = Some arr'" "length arr' = length ?arr"
    "\<forall>p \<in> set ps. arr' ! pu_index (fst p) = push_header names sz p"
    "\<forall>i. i \<notin> (\<lambda>p. pu_index (fst p)) ` set ps \<longrightarrow> arr' ! i = ?arr ! i" by blast
  have "arr' ! pu_index x = push_header names sz p"
    using r(4) new x p by (simp add: push_header_def)
  then show ?case using r x p by (auto simp: put_header_def)
qed

lemma put_headers_full:
  assumes "mset (map (\<lambda>p. pu_index (fst p)) ps) = mset [0..<n]" and "length arr = n"
    and hi: "\<forall>p \<in> set ps. h_index (push_header names sz p) = pu_index (fst p)"
  shows "\<exists>arr'. put_headers names sz ps arr = Some arr' \<and> map h_index arr' = [0..<n] \<and>
    mset arr' = mset (map (push_header names sz) ps)"
proof -
  let ?k = "\<lambda>p :: 'a pushed \<times> 'a entry. pu_index (fst p)"
  have set: "?k ` set ps = {0..<n}" using mset_eq_setD [OF assms(1)] by auto
  have "distinct (map ?k ps)" using assms(1) mset_eq_imp_distinct_iff by (metis distinct_upt)
  moreover have "\<forall>p \<in> set ps. ?k p < length arr"
    using set assms(2) by (metis atLeastLessThan_iff imageI)
  ultimately obtain arr' where r: "put_headers names sz ps arr = Some arr'" "length arr' = length arr"
    "\<forall>p \<in> set ps. arr' ! ?k p = push_header names sz p"
    using put_headers_result by metis
  have arr': "arr' = map ((!) arr') [0..<n]" using r(2) assms(2) by (metis map_nth)
  have "mset arr' = image_mset ((!) arr') (mset [0..<n])" using arr' by (metis mset_map)
  also have "\<dots> = mset (map (\<lambda>p. arr' ! ?k p) ps)"
    unfolding assms(1) [symmetric] by (simp add: image_mset.compositionality comp_def)
  also have "map (\<lambda>p. arr' ! ?k p) ps = map (push_header names sz) ps" using r(3) by simp
  finally have m: "mset arr' = mset (map (push_header names sz) ps)" .
  have "h_index (arr' ! i) = i" if i: "i < n" for i
  proof -
    obtain p where "p \<in> set ps" "?k p = i" using set i by (metis atLeastLessThan_iff imageE le0)
    then show ?thesis using r(3) hi by metis
  qed
  then have "map h_index arr' = [0..<n]" using r(2) assms(2) by (intro nth_equalityI) simp_all
  with r(1) m show ?thesis by blast
qed

section \<open>Removing the temporary files\<close>

lemma chunk_elems_cong: "fs (h_filename h) = fs' (h_filename h) \<Longrightarrow> chunk_elems P fs h = chunk_elems P fs' h"
  by (simp add: chunk_elems_def fs_read_def file_of_def)

lemma wf_block_cong: "fs (h_filename h) = fs' (h_filename h) \<Longrightarrow> wf_block P B fs h \<Longrightarrow> wf_block P B fs' h"
  by (simp add: wf_block_def file_of_def)

lemma stored_ok_unlink:
  assumes "stored_ok P B names fs p" and "set names \<inter> set tmp = {}"
  shows "stored_ok P B names (unlink_all tmp fs) p"
proof -
  let ?h = "push_header names (pod_size P) p"
  have "h_filename ?h \<in> set names" using assms(1) by (simp add: stored_ok_def Let_def)
  then have same: "fs (h_filename ?h) = unlink_all tmp fs (h_filename ?h)"
    using assms(2) by (auto simp: unlink_all_def)
  show ?thesis
    using assms(1) wf_block_cong [of fs ?h "unlink_all tmp fs" P B] chunk_elems_cong [of fs ?h "unlink_all tmp fs" P] same
    unfolding stored_ok_def Let_def by metis
qed

section \<open>Reading the output back\<close>

lemma stored_output:
  assumes st: "\<forall>p \<in> set ps. stored_ok P B names fs p"
    and keys: "mset (map pu_index (map fst ps)) = mset [0..<n]"
    and m: "mset arr = mset (map (push_header names (pod_size P)) ps)" and arr: "map h_index arr = [0..<n]"
  shows "wf_seq P B fs \<lparr>ordered_underlying_sequence = arr\<rparr> \<and>
    (\<exists>ys. ReadOutput P fs \<lparr>ordered_underlying_sequence = arr\<rparr> = Some ys \<and> mset ys = flushed_of (map fst ps))"
proof -
  have "\<forall>h \<in> set arr. wf_block P B fs h"
    using mset_eq_setD [OF m] st by (auto simp: stored_ok_def Let_def)
  then have wf: "wf_seq P B fs \<lparr>ordered_underlying_sequence = arr\<rparr>" using arr by (simp add: wf_seq_def)
  have "mset (ordered_elems (map (chunk_core P fs) arr)) = (\<Sum>h\<leftarrow>arr. mset (chunk_elems P fs h))"
    by (simp add: mset_ordered_elems comp_def)
  also have "\<dots> = (\<Sum>h\<leftarrow>map (push_header names (pod_size P)) ps. mset (chunk_elems P fs h))"
    using m by (rule sum_list_perm)
  also have "\<dots> = flushed_of (map fst ps)"
  proof -
    have "map (\<lambda>h. mset (chunk_elems P fs h)) (map (push_header names (pod_size P)) ps)
        = map (\<lambda>x. mset (push_data x)) (map fst ps)"
      using st by (simp add: stored_ok_def Let_def)
    then show ?thesis by (simp only: flushed_of_def push_data_def)
  qed
  finally show ?thesis using wf ReadOutput_ordered [OF wf] by simp
qed

section \<open>Phase 2\<close>

text \<open>What phase 1 leaves behind.\<close>

definition scattered :: "'a pod \<Rightarrow> nat \<Rightarrow> nat \<Rightarrow> nat \<Rightarrow> string list \<Rightarrow> fstore \<Rightarrow> ('a pushed \<times> 'a entry) list \<Rightarrow> bool" where
  "scattered P B W m tmp fs drawn \<longleftrightarrow>
     (\<forall>p \<in> set drawn. stored_ok P B tmp fs p \<and> pu_owner (fst p) < W \<and> pu_index (fst p) < m)"

lemma phase2_loads:
  assumes sc: "scattered P B W m (tmp_filenames names) fs1 drawn" and P: "pod_repr P"
  shows "\<exists>data. length data = m \<and> (\<forall>b < m. mset (data ! b) = flushed_of (map fst (in_bucket b drawn))) \<and>
    (\<forall>res fs'. shuffle_phase2 hash64 rnd W m P A B N ssds names fs1 drawn res fs' \<longleftrightarrow>
       write_buckets hash64 rnd P A B N ssds names fs1 (map length data) data res fs')"
proof -
  let ?sz = "pod_size P" and ?ch = "bucket_chunks W (tmp_filenames names) (pod_size P) drawn"
  define L where "L = (\<lambda>b. the (read_blocks P fs1 (?ch b)))"
  have st: "\<forall>p \<in> set drawn. stored_ok P B (tmp_filenames names) fs1 p \<and> pu_owner (fst p) < W"
    using sc by (simp add: scattered_def)
  have L: "read_blocks P fs1 (?ch b) = Some (L b)" "bucket_size ?sz (?ch b) = length (L b)"
    "mset (L b) = flushed_of (map fst (in_bucket b drawn))" for b
    using bucket_loaded [OF st P refl, of b] by (auto simp: L_def bucket_size_def)
  have loaded: "map (load_bucket P fs1) (map ?ch [0..<m]) = map Some (map L [0..<m])"
    using L(1,2) by (simp add: load_bucket_def)
  have nb: "map (bucket_size ?sz) (map ?ch [0..<m]) = map length (map L [0..<m])" by (simp add: L(2))
  have "None \<notin> set (map Some (map L [0..<m]))" by auto
  then have "shuffle_phase2 hash64 rnd W m P A B N ssds names fs1 drawn res fs' \<longleftrightarrow>
       write_buckets hash64 rnd P A B N ssds names fs1 (map length (map L [0..<m])) (map L [0..<m]) res fs'" for res fs'
    unfolding shuffle_phase2_def Let_def loaded nb by (simp add: comp_def)
  moreover have "length (map L [0..<m]) = m" "\<forall>b < m. mset (map L [0..<m] ! b) = flushed_of (map fst (in_bucket b drawn))"
    using L(3) by simp_all
  ultimately show ?thesis by blast
qed

lemma write_buckets_result:
  assumes wr: "write_buckets hash64 rnd P A B N ssds names fs1 (map length data) data res fs'"
    and env: "env_ok P A B N names" and P: "pod_repr P"
    and disj: "set names \<inter> set (tmp_filenames names) = {}"
  shows "\<exists>out ys. res = Some out \<and> wf_seq P B fs' out \<and>
    map h_index (ordered_underlying_sequence out) = [0..<seq_size out] \<and>
    ReadOutput P fs' out = Some ys \<and> mset ys = mset (concat data) \<and> (\<forall>f \<in> set (tmp_filenames names). fs' f = None)"
proof -
  let ?E = "B div pod_size P"
  define oc where "oc = map (\<lambda>n. (n + ?E - 1) div ?E) (map length data)"
  define Y where "Y = map (\<lambda>b. fisher_yates (rnd b) (length (data ! b)) (data ! b)) [0..<length data]"
  have loc: "length oc = length data" "length Y = length data" by (simp_all add: oc_def Y_def)
  obtain heap drawn fs2 where heap: "\<forall>b j. length (heap b j) = ?E"
    and run: "run_pushes A ssds P B names fs1 (map (\<lambda>b. bucket_blocks hash64 N heap ?E b (prefix_sums 0 oc ! b)
        (fisher_yates (rnd b) (map length data ! b) (data ! b))) [0..<length (map length data)]) drawn fs2"
    and res: "res = map_option (\<lambda>arr. \<lparr>ordered_underlying_sequence = arr\<rparr>)
        (put_headers names (pod_size P) drawn (ordered_underlying_sequence (new_sequence (sum_list oc))))"
    and fs': "fs' = unlink_all (tmp_filenames names) fs2"
    using wr unfolding write_buckets_def Let_def oc_def by blast
  define streams where "streams = map (\<lambda>b. bucket_blocks hash64 N heap ?E b (prefix_sums 0 oc ! b) (Y ! b)) [0..<length oc]"
  have "map (\<lambda>b. bucket_blocks hash64 N heap ?E b (prefix_sums 0 oc ! b)
        (fisher_yates (rnd b) (map length data ! b) (data ! b))) [0..<length (map length data)] = streams"
    unfolding streams_def loc Y_def by simp
  with run have run: "run_pushes A ssds P B names fs1 streams drawn fs2" by simp
  have E: "0 < ?E" using env_ok_cap [OF env P] by blast
  have N: "0 < N" using env by (simp add: env_ok_def)
  have "\<forall>xs \<in> set streams. \<forall>x \<in> set xs. pushed_ok ?E N x"
    using bucket_blocks_ok [OF heap E N] by (auto simp: streams_def)
  from run_pushes_result [OF run this env P]
  have dr: "mset (map fst drawn) = mset (concat streams)" and st: "\<forall>p \<in> set drawn. stored_ok P B names fs' p"
    using stored_ok_unlink [OF _ disj] unfolding fs' by blast+
  have "\<forall>b < length oc. oc ! b = (length (Y ! b) + ?E - 1) div ?E"
    using size_mset mset_fisher_yates [OF order_refl] by (metis (no_types, lifting) Y_def add.left_neutral diff_zero
        length_map length_upt loc(1) nth_map nth_upt oc_def)
  from bucket_keys [OF _ this] loc have keys: "map pu_index (concat streams) = [0..<sum_list oc]"
    by (simp add: streams_def)
  have kd: "mset (map pu_index (map fst drawn)) = mset [0..<sum_list oc]"
    using dr keys by (metis mset_map)
  obtain arr where arr: "put_headers names (pod_size P) drawn (replicate (sum_list oc) default_header) = Some arr"
      "map h_index arr = [0..<sum_list oc]" "mset arr = mset (map (push_header names (pod_size P)) drawn)"
    using put_headers_full [of drawn "sum_list oc" "replicate (sum_list oc) default_header" names "pod_size P"] kd st
    by (auto simp: stored_ok_def Let_def comp_def)
  have "length arr = sum_list oc" using arr(2) by (metis length_map length_upt minus_nat.diff_0)
  moreover have "flushed_of (map fst drawn) = mset (concat data)"
  proof -
    have "flushed_of (map fst drawn) = flushed_of (concat streams)" using dr by (rule flushed_perm)
    also have "\<dots> = (\<Sum>b\<leftarrow>[0..<length data]. mset (Y ! b))"
      by (simp add: flushed_concat streams_def bucket_blocks_data [OF E] loc comp_def)
    also have "\<dots> = (\<Sum>b\<leftarrow>[0..<length data]. mset (data ! b))"
      by (intro arg_cong [of _ _ sum_list] map_cong refl) (simp add: Y_def mset_fisher_yates)
    also have "\<dots> = mset (concat (map ((!) data) [0..<length data]))" by (simp add: mset_concat comp_def)
    finally show ?thesis by (simp add: map_nth)
  qed
  moreover note stored_output [OF st kd arr(3,2)]
  moreover have "\<forall>f \<in> set (tmp_filenames names). fs' f = None" by (simp add: fs' unlink_all_def)
  ultimately show ?thesis
    using res arr(1,2) by (auto simp: new_sequence_def seq_size_def)
qed

lemma write_buckets_exists:
  assumes env: "env_ok P A B N names" and P: "pod_repr P"
  shows "\<exists>res fs'. write_buckets hash64 rnd P A B N ssds names fs1 nb data res fs'"
proof -
  let ?E = "B div pod_size P" and ?heap = "\<lambda>b j. replicate (B div pod_size P) undefined"
  have E: "0 < ?E" using env_ok_cap [OF env P] by blast
  have N: "0 < N" using env by (simp add: env_ok_def)
  have heap: "\<forall>b j. length (?heap b j) = ?E" by simp
  let ?streams = "map (\<lambda>b. bucket_blocks hash64 N ?heap ?E b
      (prefix_sums 0 (map (\<lambda>n. (n + ?E - 1) div ?E) nb) ! b) (fisher_yates (rnd b) (nb ! b) (data ! b))) [0..<length nb]"
  have "\<forall>xs \<in> set ?streams. \<forall>x \<in> set xs. pushed_ok ?E N x"
    using bucket_blocks_ok [OF heap E N] by auto
  then obtain drawn fs2 where run: "run_pushes A ssds P B names fs1 ?streams drawn fs2"
    using run_pushes_exists [OF _ env P] by blast
  show ?thesis
    unfolding write_buckets_def Let_def
    by (intro exI conjI) (rule heap, rule run, rule refl, rule refl)
qed

section \<open>The whole shuffle\<close>

lemma tmp_env: "env_ok P A B N names \<Longrightarrow> env_ok P A B N (tmp_filenames names)"
  by (simp add: env_ok_def tmp_filenames_def distinct_map inj_on_def)

lemma scatter_worker_ok:
  assumes "\<forall>g. pick g < m" and "0 < N" and "0 < E" and "\<forall>t b k. length (heap t b k) = E"
    and "x \<in> set (scatter_worker hash64 N heap m E pick before tid share)"
  shows "pushed_ok E N x"
  using scatter_worker_result [OF assms(1-4), of hash64 before tid share] assms(5) unfolding push_ok_def by blast

lemma phase1_result:
  assumes run: "run_pushes A ssds P B (tmp_filenames names) fs
      (map (\<lambda>t. scatter_worker hash64 N heap m (B div pod_size P) pick before t (shares ! t)) [0..<W]) drawn fs1"
    and env: "env_ok P A B N names" and P: "pod_repr P" and W: "length shares = W"
    and pick: "\<forall>g. pick g < m" and heap: "\<forall>t b k. length (heap t b k) = B div pod_size P"
  shows "scattered P B W m (tmp_filenames names) fs1 drawn \<and>
    flushed_of (map fst drawn) = polled_elems (concat shares)"
proof -
  let ?E = "B div pod_size P"
  let ?streams = "map (\<lambda>t. scatter_worker hash64 N heap m ?E pick before t (shares ! t)) [0..<W]"
  have E: "0 < ?E" using env_ok_cap [OF env P] by blast
  have N: "0 < N" using env by (simp add: env_ok_def)
  note w = scatter_worker_result [OF pick N E heap, of hash64 before]
  have own: "\<forall>x \<in> set (concat ?streams). pushed_ok ?E N x \<and> pu_owner x < W \<and> pu_index x < m"
    using w by (auto simp: push_ok_def)
  then have ok: "\<forall>xs \<in> set ?streams. \<forall>x \<in> set xs. pushed_ok ?E N x" by auto
  note r = run_pushes_result [OF run ok tmp_env [OF env] P]
  have "set (map fst drawn) = set (concat ?streams)" using r mset_eq_setD by blast
  with own r have sc: "scattered P B W m (tmp_filenames names) fs1 drawn"
    unfolding scattered_def by (metis imageI list.set_map)
  have "flushed_of (map fst drawn) = flushed_of (concat ?streams)" using r flushed_perm by blast
  also have "\<dots> = (\<Sum>t\<leftarrow>[0..<W]. polled_elems (shares ! t))"
    using w by (simp add: flushed_concat comp_def)
  also have "\<dots> = (\<Sum>ds\<leftarrow>map ((!) shares) [0..<W]. polled_elems ds)" by (simp add: comp_def)
  also have "map ((!) shares) [0..<W] = shares" using W map_nth by blast
  also have "(\<Sum>ds\<leftarrow>shares. polled_elems ds) = polled_elems (concat shares)"
    by (induction shares) (simp_all add: polled_elems_def)
  finally show ?thesis using sc by blast
qed

lemma ShuffleBucketCount_pos: "0 < ShuffleBucketCount W B sz bytes"
  by (auto simp: ShuffleBucketCount_def Let_def less_max_iff_disj)

lemma polled_elems_input:
  assumes "reader_polls P A B default_reader_config fs (ordered_underlying_sequence s) ds"
    and "env_ok P A B N names" and "pod_repr P" and wf: "wf_seq P B fs s" and "ReadOutput P fs s = Some xs"
  shows "polled_elems ds = mset xs"
proof -
  have A: "0 < A" "A dvd B" using assms(2) by (simp_all add: env_ok_def)
  have "xs = ordered_elems (map bd_core ds)"
    using chunk_reader.polls_ordered [OF assms(1) default_reader_config_ok pod_repr.size_pos [OF assms(3)] A wf] assms(5)
    by simp
  then show ?thesis by (simp add: mset_ordered_elems polled_elems_def comp_def)
qed

lemma count_elems_seq:
  assumes wf: "wf_seq P B fs s" and dense: "\<forall>h \<in> set (ordered_underlying_sequence s). h_index h < seq_size s"
    and xs: "ReadOutput P fs s = Some xs"
  shows "\<exists>elems. count_elems (pod_size P) (ordered_underlying_sequence s) (replicate (seq_size s) 0) = Some elems \<and>
    sum_list elems = length xs"
proof -
  let ?hs = "ordered_underlying_sequence s"
  have "distinct (map h_index ?hs)" using wf by (simp add: wf_seq_def)
  with count_elems_result [of ?hs "replicate (seq_size s) 0" "pod_size P"] dense
  obtain elems where e: "count_elems (pod_size P) ?hs (replicate (seq_size s) 0) = Some elems"
    "sum_list elems = (\<Sum>h\<leftarrow>?hs. h_used h div pod_size P)" by (auto simp: sum_list_replicate)
  have "length xs = size (mset (ordered_elems (map (chunk_core P fs) ?hs)))"
    using xs ReadOutput_ordered [OF wf] by simp
  also have "\<dots> = (\<Sum>h\<leftarrow>?hs. h_used h div pod_size P)"
    by (simp add: mset_ordered_elems size_sum_mset comp_def)
  finally show ?thesis using e by simp
qed

section \<open>Properties\<close>

text \<open>The hypotheses of the shuffle: dense keys, and temporary files that are neither inputs nor outputs.\<close>

definition shuffle_env :: "'a pod \<Rightarrow> nat \<Rightarrow> nat \<Rightarrow> nat \<Rightarrow> string list \<Rightarrow> fstore \<Rightarrow> External_Sequence \<Rightarrow> bool" where
  "shuffle_env P A B N names fs s \<longleftrightarrow>
     env_ok P A B N names \<and> wf_seq P B fs s \<and>
     (\<forall>h \<in> set (ordered_underlying_sequence s). h_index h < seq_size s \<and> h_filename h \<notin> set (tmp_filenames names)) \<and>
     set names \<inter> set (tmp_filenames names) = {}"

lemma shuffle_result:
  assumes run: "ExternalShuffle hash64 pick rnd W P A B N ssds names fs s res fs'"
    and P: "pod_repr P" and se: "shuffle_env P A B N names fs s" and xs: "ReadOutput P fs s = Some xs"
    and pick: "\<forall>m g. 0 < m \<longrightarrow> pick m g < m"
  shows "\<exists>out ys. res = Some out \<and> wf_seq P B fs' out \<and>
    map h_index (ordered_underlying_sequence out) = [0..<seq_size out] \<and>
    ReadOutput P fs' out = Some ys \<and> mset ys = mset xs \<and>
    (xs \<noteq> [] \<longrightarrow> (\<forall>f \<in> set (tmp_filenames names). fs' f = None))"
proof -
  have env: "env_ok P A B N names" and wf: "wf_seq P B fs s"
    and dense: "\<forall>h \<in> set (ordered_underlying_sequence s). h_index h < seq_size s"
    and disj: "set names \<inter> set (tmp_filenames names) = {}" using se by (simp_all add: shuffle_env_def)
  obtain elems where ce: "count_elems (pod_size P) (ordered_underlying_sequence s) (replicate (seq_size s) 0) = Some elems"
    and sum: "sum_list elems = length xs" using count_elems_seq [OF wf dense xs] by blast
  show ?thesis
  proof (cases "xs = []")
    case True
    then show ?thesis
      using run ce sum unfolding ExternalShuffle_def Let_def
      by (simp add: seq_size_def new_sequence_def wf_seq_def ReadOutput_def)
  next
    case False
    let ?m = "ShuffleBucketCount W B (pod_size P) (length xs * pod_size P)"
    obtain ds shares heap drawn fs1 where
      rp: "reader_polls P A B default_reader_config fs (ordered_underlying_sequence s) ds"
      and sh: "length shares = W" "mset (concat shares) = mset ds"
      and heap: "\<forall>t b k. length (heap t b k) = B div pod_size P"
      and run1: "run_pushes A ssds P B (tmp_filenames names) fs
          (map (\<lambda>t. scatter_worker hash64 N heap ?m (B div pod_size P) (pick ?m) (prefix_sums 0 elems) t (shares ! t)) [0..<W]) drawn fs1"
      and run2: "shuffle_phase2 hash64 rnd W ?m P A B N ssds names fs1 drawn res fs'"
      using run ce sum False unfolding ExternalShuffle_def Let_def by (auto simp: seq_size_def)
    have "\<forall>g. pick ?m g < ?m" using pick ShuffleBucketCount_pos by blast
    from phase1_result [OF run1 env P sh(1) this heap]
    have sc: "scattered P B W ?m (tmp_filenames names) fs1 drawn"
      and fl: "flushed_of (map fst drawn) = polled_elems (concat shares)" by blast+
    have "polled_elems (concat shares) = polled_elems ds"
      unfolding polled_elems_def using sh(2) by (rule sum_list_perm)
    then have pe: "polled_elems (concat shares) = mset xs" using polled_elems_input [OF rp env P wf xs] by simp
    obtain data where data: "length data = ?m" "\<forall>b < ?m. mset (data ! b) = flushed_of (map fst (in_bucket b drawn))"
      and wr: "write_buckets hash64 rnd P A B N ssds names fs1 (map length data) data res fs'"
      using phase2_loads [OF sc P, of hash64 rnd A N ssds] run2 by blast
    have "mset (concat data) = (\<Sum>b\<leftarrow>[0..<?m]. mset (data ! b))"
      by (simp add: mset_concat data(1) [symmetric] map_nth flip: map_map [of mset "(!) data", unfolded comp_def])
    also have "\<dots> = (\<Sum>b\<leftarrow>[0..<?m]. flushed_of (map fst (in_bucket b drawn)))"
      using data(2) by (intro arg_cong [of _ _ sum_list] map_cong) simp_all
    also have "\<dots> = mset xs"
      using sc fl pe by (subst flushed_buckets) (simp_all add: scattered_def)
    finally show ?thesis using write_buckets_result [OF wr env P disj] by fastforce
  qed
qed

lemma shuffle_exists:
  assumes P: "pod_repr P" and se: "shuffle_env P A B N names fs s" and xs: "ReadOutput P fs s = Some xs"
    and pick: "\<forall>m g. 0 < m \<longrightarrow> pick m g < m" and W: "0 < W"
  shows "\<exists>res fs'. ExternalShuffle hash64 pick rnd W P A B N ssds names fs s res fs'"
proof -
  have env: "env_ok P A B N names" and wf: "wf_seq P B fs s"
    and dense: "\<forall>h \<in> set (ordered_underlying_sequence s). h_index h < seq_size s"
    using se by (simp_all add: shuffle_env_def)
  obtain elems where ce: "count_elems (pod_size P) (ordered_underlying_sequence s) (replicate (seq_size s) 0) = Some elems"
    and sum: "sum_list elems = length xs" using count_elems_seq [OF wf dense xs] by blast
  let ?E = "B div pod_size P" and ?m = "ShuffleBucketCount W B (pod_size P) (sum_list elems * pod_size P)"
  have A: "0 < A" "A dvd B" and N: "0 < N" using env by (simp_all add: env_ok_def)
  have E: "0 < ?E" using env_ok_cap [OF env P] by blast
  have wfb: "\<forall>h \<in> set (ordered_underlying_sequence s). wf_block P B fs h" using wf by (simp add: wf_seq_def)
  obtain ds where rp: "reader_polls P A B default_reader_config fs (ordered_underlying_sequence s) ds"
    using chunk_reader.polls_exist [OF default_reader_config_ok pod_repr.size_pos [OF P] A wfb] by blast
  let ?shares = "ds # replicate (W - 1) []" and ?heap = "\<lambda>t b k. replicate ?E undefined"
  have pm: "\<forall>g. pick ?m g < ?m" using pick ShuffleBucketCount_pos by blast
  have heap: "\<forall>t b k. length (?heap t b k) = ?E" by simp
  let ?streams = "map (\<lambda>t. scatter_worker hash64 N ?heap ?m ?E (pick ?m) (prefix_sums 0 elems) t (?shares ! t)) [0..<W]"
  have "\<forall>ys \<in> set ?streams. \<forall>x \<in> set ys. pushed_ok ?E N x"
    using scatter_worker_ok [OF pm N E heap] by (simp only: set_map ball_simps) blast
  then obtain drawn fs1 where run1: "run_pushes A ssds P B (tmp_filenames names) fs ?streams drawn fs1"
    using run_pushes_exists [OF _ tmp_env [OF env] P] by blast
  have sh: "length ?shares = W" "mset (concat ?shares) = mset ds" using W by simp_all
  from phase1_result [OF run1 env P sh(1) pm heap]
  have sc: "scattered P B W ?m (tmp_filenames names) fs1 drawn" by blast
  obtain data where "\<forall>res fs'. shuffle_phase2 hash64 rnd W ?m P A B N ssds names fs1 drawn res fs' \<longleftrightarrow>
       write_buckets hash64 rnd P A B N ssds names fs1 (map length data) data res fs'"
    using phase2_loads [OF sc P, of hash64 rnd A N ssds] by blast
  then obtain res fs' where run2: "shuffle_phase2 hash64 rnd W ?m P A B N ssds names fs1 drawn res fs'"
    using write_buckets_exists [OF env P] by blast
  show ?thesis
  proof (cases "sum_list elems = 0")
    case True
    then show ?thesis using ce by (simp add: ExternalShuffle_def seq_size_def)
  next
    case False
    have "ExternalShuffle hash64 pick rnd W P A B N ssds names fs s res fs'"
      unfolding ExternalShuffle_def Let_def using ce False rp sh heap run1 run2
      by (simp only: seq_size_def option.case if_False) (intro exI conjI; assumption)
    then show ?thesis by blast
  qed
qed

text \<open>C6: \<open>ExternalShuffle\<close> returns and permutes. Its input is well-formed, with the keys \<open>0..M-1\<close> the
code checks for, and no temporary file is an input or an output. Then some outcome exists, and in
every outcome, for every draw of the buckets, every share of the workers and every interleaving of
the placements, the result is a well-formed sequence with dense keys in order, whose elements are
those of the input with their multiplicities; and after a non-empty input the temporary files are
gone.\<close>

theorem ExternalShuffle_correct:
  assumes "pod_repr P" and "shuffle_env P A B N names fs s" and "ReadOutput P fs s = Some xs"
    and "\<forall>m g. 0 < m \<longrightarrow> pick m g < m" and "0 < W"
  shows "(\<exists>res fs'. ExternalShuffle hash64 pick rnd W P A B N ssds names fs s res fs') \<and>
    (\<forall>res fs'. ExternalShuffle hash64 pick rnd W P A B N ssds names fs s res fs' \<longrightarrow>
      (\<exists>out ys. res = Some out \<and> wf_seq P B fs' out \<and>
         map h_index (ordered_underlying_sequence out) = [0..<seq_size out] \<and>
         ReadOutput P fs' out = Some ys \<and> mset ys = mset xs \<and>
         (xs \<noteq> [] \<longrightarrow> (\<forall>f \<in> set (tmp_filenames names). fs' f = None))))"
  using shuffle_exists [OF assms] shuffle_result [OF _ assms(1-4)] by blast

lemma ExternalShuffle_correct_witness:
  "\<exists>out fs' ys. ExternalShuffle (\<lambda>x. x) (\<lambda>m g. g mod m) (\<lambda>b i. i) 2 u8_pod 2 4 2 [] [''o0'', ''o1''] demo_fs demo_seq (Some out) fs' \<and>
     ReadOutput u8_pod fs' out = Some ys \<and> mset ys = {#5, 6, 7, 1, 2, 3, 4#} \<and> fs' ''o0_shuf_tmp'' = None"
proof -
  have env: "shuffle_env u8_pod 2 4 2 [''o0'', ''o1''] demo_fs demo_seq"
    using demo_env demo_wf by (simp add: shuffle_env_def tmp_filenames_def demo_seq_def seq_size_def)
  have pick: "\<forall>m g. 0 < m \<longrightarrow> g mod m < (m::nat)" and W: "0 < (2::nat)" by simp_all
  from ExternalShuffle_correct [OF u8_repr.pod_repr_axioms env demo_output pick W, of "\<lambda>x. x" "\<lambda>b i. i" "[]"]
  obtain out fs' ys where
    "ExternalShuffle (\<lambda>x. x) (\<lambda>m g. g mod m) (\<lambda>b i. i) 2 u8_pod 2 4 2 [] [''o0'', ''o1''] demo_fs demo_seq (Some out) fs'"
    "ReadOutput u8_pod fs' out = Some ys" "mset ys = mset [5, 6, 7, 1, 2, 3, 4]"
    "\<forall>f \<in> set (tmp_filenames [''o0'', ''o1'']). fs' f = None" by blast
  moreover have "mset [5, 6, 7, 1, 2, 3, 4 :: byte] = {#5, 6, 7, 1, 2, 3, 4#}" by simp
  moreover have "fs' ''o0_shuf_tmp'' = None" using calculation(4) by (simp add: tmp_filenames_def)
  ultimately show ?thesis by metis
qed

text \<open>The scatter buffers fit in memory: with the chosen number of buckets the \<open>W\<close> workers
together hold at most \<open>SHUFFLE_SCATTER_BUDGET\<close> bytes, or one block each where that is more; and
there is always at least one bucket.\<close>

theorem ShuffleBucketCount_budget:
  "1 \<le> ShuffleBucketCount W B sz total_bytes \<and>
   ShuffleBucketCount W B sz total_bytes * (W * B) \<le> max (W * B) SHUFFLE_SCATTER_BUDGET"
proof -
  let ?n = "ShuffleBucketCount W B sz total_bytes" and ?c = "SHUFFLE_SCATTER_BUDGET div (W * B)"
  have "?n \<le> 1 \<or> ?n \<le> ?c" by (auto simp: ShuffleBucketCount_def Let_def max_def min_def)
  moreover have "?c * (W * B) \<le> SHUFFLE_SCATTER_BUDGET" by (rule div_times_less_eq_dividend)
  moreover have "?n * (W * B) \<le> ?c * (W * B)" if "?n \<le> ?c" using that by (rule mult_le_mono1)
  moreover have "?n * (W * B) \<le> W * B" if "?n \<le> 1" using mult_le_mono1 [OF that, of "W * B"] by simp
  ultimately have "?n * (W * B) \<le> max (W * B) SHUFFLE_SCATTER_BUDGET" by linarith
  then show ?thesis using ShuffleBucketCount_pos [of W B sz total_bytes] by simp
qed

end
