(* ===== verification/NaiveSeq.thy ===== *)
theory NaiveSeq
  imports Prelude
begin

text \<open>
  The in-memory sequences of Plaidlay: plaidlay.h (\<open>naiveSeq\<close> and the sequential primitives), the
  parallel filters and ranges of filter.h, the scans of NaiveExternalScan.h and the block-parallel
  flatten of flatten.h. A \<open>naiveSeq\<close> is a list. Reading or writing out of range, a failing
  \<open>assert\<close> and an uninitialised result are \<open>None\<close>. The blocks of a \<open>parallel_for\<close> run in an order
  that is an argument of the model. Positions of a \<open>naiveSeq\<close> are \<open>int\<close>; away from the filters, where
  the conversion is written out, they are natural numbers, and the theorems assume that there are
  fewer than \<open>2 ^ 31\<close>. \<open>naive_parallel_dram_filter_lock\<close> is not modelled: it calls \<open>filter\<close> without a
  predicate for the last block, so no instance of it compiles.
\<close>

section \<open>The sequential primitives\<close>

definition tabulate :: "int \<Rightarrow> (int \<Rightarrow> 'a) \<Rightarrow> 'a list" where
  "tabulate n f = fold (\<lambda>i data. data @ [f i]) [0..n - 1] []"

definition seq_map :: "('a \<Rightarrow> 'b) \<Rightarrow> 'a list \<Rightarrow> 'b list" where
  "seq_map f xs = fold (\<lambda>x out. out @ [f x]) xs []"

definition seq_reduce :: "('u \<Rightarrow> 'a \<Rightarrow> 'u) \<Rightarrow> 'u \<Rightarrow> 'a list \<Rightarrow> 'u" where
  "seq_reduce f identity xs = fold (\<lambda>x out. f out x) xs identity"

definition seq_filter :: "('a \<Rightarrow> bool) \<Rightarrow> 'a list \<Rightarrow> 'a list" where
  "seq_filter f xs = fold (\<lambda>x out. if f x then out @ [x] else out) xs []"

text \<open>\<open>scan\<close> writes \<open>out[0]\<close> whatever the length, and never calls its function argument.\<close>

definition plaid_scan :: "'a::monoid_add list \<Rightarrow> ('a \<Rightarrow> 'a \<Rightarrow> 'a) \<Rightarrow> 'a \<Rightarrow> ('a list \<times> 'a) option" where
  "plaid_scan xs f identity =
     (let n = length xs
      in if n = 0 then None
         else let out = fold (\<lambda>i out. out[i := out ! (i - 1) + xs ! (i - 1)]) [1..<n] ((replicate n 0)[0 := identity])
              in Some (out, out ! (n - 1) + xs ! (n - 1)))"


definition read_at :: "'a list \<Rightarrow> int \<Rightarrow> 'a option" where
  "read_at xs i = (if 0 \<le> i \<and> i < int (length xs) then Some (xs ! nat i) else None)"

definition cut :: "'a list \<Rightarrow> int \<Rightarrow> int \<Rightarrow> 'a list option" where
  "cut xs start end =
     (if 0 \<le> start \<and> 0 \<le> end \<and> start \<le> end
      then fold (\<lambda>i res. case res of None \<Rightarrow> None | Some r \<Rightarrow> map_option (\<lambda>x. r @ [x]) (read_at xs i))
             [start..end - 1] (Some [])
      else None)"

section \<open>filter.h\<close>

text \<open>The \<open>long\<close> block bounds are converted to the \<open>int\<close> parameters of \<open>cut\<close>.\<close>

definition to_int32 :: "int \<Rightarrow> int" where
  "to_int32 x = (x + 2 ^ 31) mod 2 ^ 32 - 2 ^ 31"

definition BLOCKSIZE :: nat where
  "BLOCKSIZE = 512"

definition filter_range :: "'a list \<Rightarrow> ('a \<Rightarrow> bool) \<Rightarrow> int \<Rightarrow> int \<Rightarrow> 'a list option" where
  "filter_range xs f start end = map_option (seq_filter f) (cut xs (to_int32 start) (to_int32 end))"

fun flatten_range :: "'a list list \<Rightarrow> nat \<Rightarrow> nat \<Rightarrow> 'a list option" where
  "flatten_range xss start 0 = Some []"
| "flatten_range xss start (Suc n) =
     (if start < length xss then map_option (\<lambda>r. xss ! start @ r) (flatten_range xss (start + 1) n) else None)"






section \<open>NaiveExternalScan.h\<close>

definition scan_inclusive :: "'a::monoid_add list \<Rightarrow> 'a list option" where
  "scan_inclusive xs =
     (if xs = [] then None
      else let ret = (replicate (length xs) 0)[0 := xs ! 0]
           in if length xs = 1 then Some ret
              else Some (fold (\<lambda>i ret. ret[i := xs ! i + ret ! (i - 1)]) [1..<length xs] ret))"

definition naive_scan :: "'a::monoid_add list \<Rightarrow> 'a list option" where
  "naive_scan xs =
     (let ret = replicate (length xs) 0
      in if xs = [] then None
         else if length xs = 1 then Some (ret[0 := 0])
         else if length xs = 2 then Some (ret[0 := 0, 1 := xs ! 0])
         else Some (fold (\<lambda>i ret. ret[i := xs ! (i - 1) + ret ! (i - 1)]) [2..<length xs] (ret[0 := 0, 1 := xs ! 0])))"

definition block_bounds :: "'a list \<Rightarrow> nat \<Rightarrow> nat \<times> nat" where
  "block_bounds xs i = (i * BLOCKSIZE, min ((i + 1) * BLOCKSIZE) (length xs))"

definition blocks_of :: "'a list \<Rightarrow> nat" where
  "blocks_of xs = (if length xs mod BLOCKSIZE \<noteq> 0 then length xs div BLOCKSIZE + 1 else length xs div BLOCKSIZE)"

text \<open>
  The first pass: block \<open>i\<close> writes its own scan and its total. The totals are kept as \<open>long\<close> whatever
  the element type is; \<open>to_long\<close> is the conversion.
\<close>

definition scan_block :: "('a \<Rightarrow> 'l) \<Rightarrow> 'a::monoid_add list \<Rightarrow> nat \<Rightarrow> 'a list \<times> 'l list \<Rightarrow> 'a list \<times> 'l list" where
  "scan_block to_long xs i st =
     (case block_bounds xs i of (a, b) \<Rightarrow>
        let output = fold (\<lambda>r out. out[r := out ! (r - 1) + xs ! (r - 1)]) [a + 1..<b] ((fst st)[a := 0])
        in (output, (snd st)[i := to_long (output ! (b - 1) + xs ! (b - 1))]))"

text \<open>\<open>std::exclusive_scan\<close> on \<open>long\<close>, from \<open>0L\<close>; a sum out of range is undefined.\<close>

fun exclusive_scan :: "int \<Rightarrow> int list \<Rightarrow> int list option" where
  "exclusive_scan t [] = Some []"
| "exclusive_scan t (x # xs) =
     (if - (2 ^ 63) \<le> t + x \<and> t + x < 2 ^ 63 then map_option ((#) t) (exclusive_scan (t + x) xs) else None)"

text \<open>The second pass: block \<open>i\<close> adds its offset.\<close>

definition shift_block :: "('a \<Rightarrow> 'l \<Rightarrow> 'a) \<Rightarrow> 'a list \<Rightarrow> 'l list \<Rightarrow> nat \<Rightarrow> 'a list \<Rightarrow> 'a list" where
  "shift_block add_long xs offsets i output =
     (case block_bounds xs i of (a, b) \<Rightarrow> fold (\<lambda>r out. out[r := add_long (out ! r) (offsets ! i)]) [a..<b] output)"

text \<open>The instance for \<open>size_t\<close> elements.\<close>

definition block_scan :: "nat list \<Rightarrow> nat list \<Rightarrow> u64 list \<Rightarrow> u64 list option" where
  "block_scan order1 order2 xs =
     (let (output, offsets) = fold (scan_block sint xs) order1 (replicate (length xs) 0, replicate (blocks_of xs) 0)
      in map_option (\<lambda>offsets. fold (shift_block (\<lambda>x l. x + of_int l) xs offsets) order2 output)
           (exclusive_scan 0 offsets))"

section \<open>flatten.h\<close>

text \<open>
  \<open>predecessor_search\<close>: with \<open>mid = 0\<close> the assignment \<open>high = mid - 1\<close> wraps to \<open>2 ^ 64 - 1\<close> and the
  next read is out of range. \<open>answer\<close> is uninitialised until the first hit.
\<close>

function predecessor_loop :: "nat list \<Rightarrow> nat \<Rightarrow> nat \<Rightarrow> nat \<Rightarrow> nat option \<Rightarrow> nat option" where
  "predecessor_loop xs y low high answer =
     (if low \<le> high
      then let mid = low + (high - low) div 2
           in if length xs \<le> mid then None
              else if xs ! mid \<le> y then predecessor_loop xs y (mid + 1) high (Some mid)
              else if mid = 0 then None
              else predecessor_loop xs y low (mid - 1) answer
      else answer)"
  by pat_completeness auto
termination
  by (relation "measure (\<lambda>(xs, y, low, high, answer). Suc high - low)") auto

declare predecessor_loop.simps [simp del]

definition predecessor_search :: "nat list \<Rightarrow> nat \<Rightarrow> nat option" where
  "predecessor_search xs y = (if xs = [] then None else predecessor_loop xs y 0 (length xs - 1) None)"

text \<open>The copy loop of one block: position \<open>k\<close> up to \<open>end\<close>, reading the inner sequence \<open>s\<close>.\<close>

function copy_block :: "'a list list \<Rightarrow> nat list \<Rightarrow> nat \<Rightarrow> nat \<Rightarrow> nat \<Rightarrow> 'a list \<Rightarrow> 'a list option" where
  "copy_block input over k fin s out =
     (if k < fin
      then if length input \<le> s then None
           else let offset = k - over ! s
                in if offset = length (input ! s) then copy_block input over k fin (s + 1) out
                   else if offset < length (input ! s)
                   then copy_block input over (k + 1) fin s (out[k := input ! s ! offset])
                   else None
      else Some out)"
  by pat_completeness auto
termination
  by (relation "measures [\<lambda>(input, over, k, fin, s, out). fin - k, \<lambda>(input, over, k, fin, s, out). length input - s]") auto

declare copy_block.simps [simp del]

definition over_sizes :: "'a list list \<Rightarrow> nat list" where
  "over_sizes input =
     fold (\<lambda>i over. over[i := length (input ! (i - 1)) + over ! (i - 1)]) [2..<length input]
       ((replicate (length input) 0)[0 := 0, 1 := length (input ! 0)])"

definition flatten_block :: "'a list list \<Rightarrow> nat list \<Rightarrow> nat \<Rightarrow> nat \<Rightarrow> 'a list \<Rightarrow> 'a list option" where
  "flatten_block input over a b out =
     (case predecessor_search over a of None \<Rightarrow> None | Some s \<Rightarrow> copy_block input over a b s out)"

text \<open>\<open>over_seq[1]\<close> is written although \<open>over_seq\<close> has the size of the input. \<open>x0\<close> fills the result.\<close>

definition block_flatten_in_dram :: "nat list \<Rightarrow> 'a \<Rightarrow> 'a list list \<Rightarrow> 'a list option" where
  "block_flatten_in_dram order x0 input =
     (if length input < 2 then None
      else let over = over_sizes input; total = (\<Sum>xs\<leftarrow>input. length xs); n = total div BLOCKSIZE;
               step = (\<lambda>i res. case res of None \<Rightarrow> None
                 | Some out \<Rightarrow> flatten_block input over (i * BLOCKSIZE) (min ((i + 1) * BLOCKSIZE) total) out);
               done = fold step order (Some (replicate total x0))
           in if total mod BLOCKSIZE \<noteq> 0
              then (case done of None \<Rightarrow> None | Some out \<Rightarrow> flatten_block input over (n * BLOCKSIZE) total out)
              else done)"

section \<open>What the sequential primitives compute\<close>

lemma fold_push: "fold (\<lambda>x out. out @ g x) xs acc = acc @ concat (map g xs)"
  by (induction xs arbitrary: acc) simp_all

lemma tabulate_eq: "tabulate n f = map f [0..n - 1]"
  using fold_push [of "\<lambda>i. [f i]" "[0..n - 1]" "[]"] by (simp add: tabulate_def concat_map_singleton)

lemma seq_map_eq: "seq_map f xs = map f xs"
  using fold_push [of "\<lambda>x. [f x]" xs "[]"] by (simp add: seq_map_def concat_map_singleton)



lemma seq_reduce_eq: "seq_reduce f e xs = foldl f e xs"
  by (simp add: seq_reduce_def foldl_conv_fold)




section \<open>Loops over disjoint positions\<close>

text \<open>A loop that writes position \<open>r\<close> from what is below it.\<close>

lemma fold_write_nth:
  assumes "\<forall>r out. a \<le> r \<longrightarrow> r < b \<longrightarrow> (\<forall>q. lo \<le> q \<longrightarrow> q < r \<longrightarrow> out ! q = F q) \<longrightarrow> out ! r = init ! r \<longrightarrow> g r out = F r"
    and "b \<le> length init" and "\<forall>q. lo \<le> q \<longrightarrow> q < a \<longrightarrow> init ! q = F q" and "lo \<le> a"
  shows "length (fold (\<lambda>r out. out[r := g r out]) [a..<b] init) = length init \<and>
    (\<forall>q. fold (\<lambda>r out. out[r := g r out]) [a..<b] init ! q = (if a \<le> q \<and> q < b then F q else init ! q))"
  using assms
proof (induction b)
  case 0
  then show ?case by simp
next
  case (Suc b)
  show ?case
  proof (cases "a \<le> b")
    case False
    then show ?thesis by auto
  next
    case True
    let ?out = "fold (\<lambda>r out. out[r := g r out]) [a..<b] init"
    have IH: "length ?out = length init" "\<forall>q. ?out ! q = (if a \<le> q \<and> q < b then F q else init ! q)"
      using Suc by simp_all
    have "g b ?out = F b" using Suc.prems True IH(2) by simp
    then show ?thesis using IH Suc.prems(2) True by (auto simp: nth_list_update)
  qed
qed

text \<open>
  Blocks of \<open>k\<close> positions that each update their own part: the order in which they run does not
  matter.
\<close>

lemma par_blocks:
  assumes step: "\<forall>i < n. \<forall>st. length st = L \<longrightarrow> length (step i st) = L \<and>
      (\<forall>r < L. step i st ! r = (if r div k = i then F r (st ! r) else st ! r))"
    and order: "distinct order" "set order \<subseteq> {..<n}" and len: "length st = L"
  shows "length (fold step order st) = L \<and>
    (\<forall>r < L. fold step order st ! r = (if r div k \<in> set order then F r (st ! r) else st ! r))"
  using order len
proof (induction order rule: rev_induct)
  case Nil
  then show ?case by simp
next
  case (snoc i order)
  then have IH: "length (fold step order st) = L"
    "\<forall>r < L. fold step order st ! r = (if r div k \<in> set order then F r (st ! r) else st ! r)" and i: "i < n" "i \<notin> set order"
    by auto
  show ?case using step [rule_format, OF i(1) IH(1)] IH(2) i(2) by auto
qed

section \<open>Scans\<close>

text \<open>The reference: position \<open>i\<close> holds the sum of the elements before it.\<close>

definition prefix_scan :: "'a::monoid_add \<Rightarrow> 'a list \<Rightarrow> 'a list" where
  "prefix_scan e xs = map (\<lambda>i. e + sum_list (take i xs)) [0..<length xs]"

lemma length_prefix_scan [simp]: "length (prefix_scan e xs) = length xs"
  by (simp add: prefix_scan_def)

lemma prefix_scan_nth [simp]: "i < length xs \<Longrightarrow> prefix_scan e xs ! i = e + sum_list (take i xs)"
  by (simp add: prefix_scan_def)

lemma sum_take_Suc:
  fixes xs :: "'a::monoid_add list"
  shows "i < length xs \<Longrightarrow> sum_list (take (Suc i) xs) = sum_list (take i xs) + xs ! i"
  by (simp add: take_Suc_conv_app_nth)

lemma plaid_scan_result:
  fixes xs :: "'a::monoid_add list"
  assumes "xs \<noteq> []"
  shows "plaid_scan xs f e = Some (prefix_scan e xs, e + sum_list xs)"
proof -
  let ?n = "length xs" and ?init = "(replicate (length xs) 0)[0 := e]"
  let ?F = "\<lambda>i. e + sum_list (take i xs)"
  let ?out = "fold (\<lambda>r out. out[r := out ! (r - 1) + xs ! (r - 1)]) [1..<?n] ?init"
  have stepF: "?F (r - Suc 0) + xs ! (r - Suc 0) = ?F r" if "Suc 0 \<le> r" "r < ?n" for r
    using sum_take_Suc [of "r - 1" xs] that by (simp add: add.assoc)
  have "length ?out = length ?init \<and> (\<forall>q. ?out ! q = (if 1 \<le> q \<and> q < ?n then ?F q else ?init ! q))"
    using assms by (intro fold_write_nth [where lo = 0]) (auto simp: stepF)
  then have l: "length ?out = ?n" and v: "?out ! q = (if 1 \<le> q \<and> q < ?n then ?F q else ?init ! q)" for q by simp_all
  have "?out ! i = ?F i" if "i < ?n" for i
    using v [of i] assms that by (cases i) simp_all
  then have out: "?out = prefix_scan e xs" using l by (intro nth_equalityI) simp_all
  have "?F (?n - 1) + xs ! (?n - 1) = e + sum_list xs"
    using sum_take_Suc [of "?n - 1" xs] assms by (simp add: add.assoc)
  then show ?thesis using assms by (simp add: plaid_scan_def Let_def out [unfolded One_nat_def])
qed

lemma scan_inclusive_result:
  fixes xs :: "'a::comm_monoid_add list"
  assumes "xs \<noteq> []"
  shows "scan_inclusive xs = Some (map (\<lambda>i. sum_list (take (Suc i) xs)) [0..<length xs])"
proof (cases "length xs = 1")
  case True
  then obtain x where "xs = [x]" by (metis One_nat_def length_0_conv length_Suc_conv)
  then show ?thesis by (simp add: scan_inclusive_def)
next
  case False
  let ?n = "length xs" and ?init = "(replicate (length xs) 0)[0 := xs ! 0]"
  let ?F = "\<lambda>i. sum_list (take (Suc i) xs)"
  let ?out = "fold (\<lambda>r out. out[r := xs ! r + out ! (r - 1)]) [1..<?n] ?init"
  have stepF: "xs ! r + sum_list (take r xs) = ?F r" if "r < ?n" for r
    using sum_take_Suc [of r xs] that by (simp add: add.commute)
  have first: "xs ! 0 = ?F 0" using sum_take_Suc [of 0 xs] assms by simp
  have "length ?out = length ?init \<and> (\<forall>q. ?out ! q = (if 1 \<le> q \<and> q < ?n then ?F q else ?init ! q))"
    using assms first by (intro fold_write_nth [where lo = 0]) (auto simp: stepF simp del: take_Suc)
  then have l: "length ?out = ?n" and v: "?out ! q = (if 1 \<le> q \<and> q < ?n then ?F q else ?init ! q)" for q by simp_all
  have "?out ! i = ?F i" if "i < ?n" for i
    using v [of i] assms that first by (cases i) simp_all
  then have "?out = map ?F [0..<?n]" using l by (intro nth_equalityI) simp_all
  then show ?thesis using assms False by (simp add: scan_inclusive_def Let_def)
qed

lemma naive_scan_result:
  fixes xs :: "'a::comm_monoid_add list"
  assumes "xs \<noteq> []"
  shows "naive_scan xs = Some (prefix_scan 0 xs)"
proof -
  let ?n = "length xs" and ?init = "(replicate (length xs) 0)[0 := 0, 1 := xs ! 0]"
  let ?F = "\<lambda>i. sum_list (take i xs)"
  let ?out = "fold (\<lambda>r out. out[r := xs ! (r - 1) + out ! (r - 1)]) [2..<?n] ?init"
  have stepF: "xs ! (r - Suc 0) + ?F (r - Suc 0) = ?F r" if "2 \<le> r" "r < ?n" for r
    using sum_take_Suc [of "r - 1" xs] that by (simp add: add.commute)
  have first: "?F 1 = xs ! 0" using sum_take_Suc [of 0 xs] assms by simp
  have below: "?init ! q = ?F q" if "q < 2" "q < ?n" for q
    using that first by (cases q) (simp_all add: less_Suc_eq numeral_2_eq_2)
  have "length ?out = length ?init \<and> (\<forall>q. ?out ! q = (if 2 \<le> q \<and> q < ?n then ?F q else ?init ! q))"
  proof (cases "2 \<le> ?n")
    case True
    then show ?thesis using below by (intro fold_write_nth [where lo = 0]) (auto simp: stepF)
  next
    case False
    then show ?thesis by auto
  qed
  then have l: "length ?out = ?n" and v: "?out ! q = (if 2 \<le> q \<and> q < ?n then ?F q else ?init ! q)" for q by simp_all
  have "?out ! i = ?F i" if "i < ?n" for i
    using v [of i] below that by (cases "2 \<le> i") simp_all
  then have out: "?out = prefix_scan 0 xs" using l by (intro nth_equalityI) simp_all
  moreover have "naive_scan xs = Some ?out"
  proof (cases "?n = 1")
    case True
    then show ?thesis using assms by (simp add: naive_scan_def Let_def)
  next
    case False
    then show ?thesis using assms by (auto simp: naive_scan_def Let_def)
  qed
  ultimately show ?thesis by simp
qed

section \<open>The block-parallel scan\<close>

lemma BLOCKSIZE_pos [simp]: "0 < BLOCKSIZE"
  by (simp add: BLOCKSIZE_def)

lemma blocks_of_eq: "blocks_of xs = ceil_div (length xs) BLOCKSIZE"
  by (simp add: blocks_of_def ceil_div_eq_split)

lemma block_div: "r div k = i \<longleftrightarrow> i * k \<le> r \<and> r < (i + 1) * k" if "0 < k" for r k i :: nat
  using that by (metis add.commute div_less_iff_less_mult less_eq_div_iff_mult_less_eq less_Suc_eq_le nle_le
      order_antisym plus_1_eq_Suc)

lemma block_of_less:
  assumes "r < length xs"
  shows "r div BLOCKSIZE < blocks_of xs"
proof -
  have "r div BLOCKSIZE * BLOCKSIZE \<le> r" by (rule div_times_less_eq_dividend)
  with assms show ?thesis unfolding blocks_of_eq less_ceil_div_iff [OF BLOCKSIZE_pos] by linarith
qed

lemma block_in_range:
  assumes "i < blocks_of xs"
  shows "i * BLOCKSIZE < length xs"
  using assms unfolding blocks_of_eq less_ceil_div_iff [OF BLOCKSIZE_pos] .

text \<open>What the first pass leaves at position \<open>r\<close>, and the total of block \<open>i\<close>.\<close>

definition local_scan :: "'a::monoid_add list \<Rightarrow> nat \<Rightarrow> 'a" where
  "local_scan xs r = (let a = r div BLOCKSIZE * BLOCKSIZE in sum_list (take (r - a) (drop a xs)))"

definition block_total :: "'a::monoid_add list \<Rightarrow> nat \<Rightarrow> 'a" where
  "block_total xs i = sum_list (run_of BLOCKSIZE xs i)"

lemma scan_block_result:
  fixes xs :: "'a::monoid_add list"
  assumes i: "i < blocks_of xs" and len: "length (fst st) = length xs" "length (snd st) = blocks_of xs"
  shows "length (fst (scan_block conv xs i st)) = length xs \<and> snd (scan_block conv xs i st) = (snd st)[i := conv (block_total xs i)] \<and>
    (\<forall>r < length xs. fst (scan_block conv xs i st) ! r = (if r div BLOCKSIZE = i then local_scan xs r else fst st ! r))"
proof -
  define a b where a_def: "a = i * BLOCKSIZE" and b_def: "b = min ((i + 1) * BLOCKSIZE) (length xs)"
  let ?init = "(fst st)[a := 0]" and ?F = "\<lambda>r. sum_list (take (r - a) (drop a xs))"
  let ?out = "fold (\<lambda>r out. out[r := out ! (r - 1) + xs ! (r - 1)]) [a + 1..<b] ?init"
  have a: "a < length xs" unfolding a_def using i by (rule block_in_range)
  then have ab: "a < b" "b \<le> length xs" by (simp_all add: a_def b_def)
  have stepF: "?F (r - 1) + xs ! (r - 1) = ?F r" if "a + 1 \<le> r" "r \<le> length xs" for r
    using sum_take_Suc [of "r - 1 - a" "drop a xs"] that by (simp add: Suc_diff_le [symmetric])
  have "length ?out = length ?init \<and> (\<forall>q. ?out ! q = (if a + 1 \<le> q \<and> q < b then ?F q else ?init ! q))"
  proof (intro fold_write_nth [where lo = a] allI impI)
    fix r out assume r: "a + 1 \<le> r" "r < b" and below: "\<forall>q. a \<le> q \<longrightarrow> q < r \<longrightarrow> out ! q = ?F q"
    have "out ! (r - 1) = ?F (r - 1)" using below r by simp
    then show "out ! (r - 1) + xs ! (r - 1) = ?F r" using stepF [of r] r ab(2) by simp
  next
    fix q assume "a \<le> q" "q < a + 1"
    then have "q = a" by simp
    then show "?init ! q = ?F q" using a len(1) by simp
  qed (use ab len(1) in simp_all)
  then have l: "length ?out = length xs" and v: "?out ! q = (if a + 1 \<le> q \<and> q < b then ?F q else ?init ! q)" for q
    using len(1) by simp_all
  have eq: "scan_block conv xs i st = (?out, (snd st)[i := conv (?out ! (b - 1) + xs ! (b - 1))])"
    by (simp add: scan_block_def block_bounds_def Let_def a_def b_def)
  have inb: "?out ! r = ?F r" if "a \<le> r" "r < b" for r
    using v [of r] that a len(1) by (cases "r = a") simp_all
  have "?out ! (b - 1) + xs ! (b - 1) = ?F b"
    using inb [of "b - 1"] stepF [of b] ab by simp
  also have "?F b = block_total xs i"
  proof -
    have "take (b - a) (drop a xs) = run_of BLOCKSIZE xs i" by (auto simp: run_of_def min_def a_def b_def)
    then show ?thesis by (simp add: block_total_def)
  qed
  finally have "snd (scan_block conv xs i st) = (snd st)[i := conv (block_total xs i)]" by (simp add: eq)
  moreover have "fst (scan_block conv xs i st) ! r = (if r div BLOCKSIZE = i then local_scan xs r else fst st ! r)"
    if r: "r < length xs" for r
  proof (cases "r div BLOCKSIZE = i")
    case True
    then have "a \<le> r" "r < b" using block_div [OF BLOCKSIZE_pos, of r i] r by (simp_all add: a_def b_def)
    then show ?thesis using True inb by (simp add: eq local_scan_def Let_def a_def)
  next
    case False
    then have "\<not> (a \<le> r \<and> r < b)" using block_div [OF BLOCKSIZE_pos, of r i] r by (simp add: a_def b_def)
    then have "\<not> (a + 1 \<le> r \<and> r < b)" "r \<noteq> a" using ab by auto
    with v [of r] have "?out ! r = ?init ! r" by (simp only: if_False)
    then show ?thesis using False \<open>r \<noteq> a\<close> by (simp add: eq)
  qed
  ultimately show ?thesis using l by (simp add: eq)
qed

lemma first_pass:
  fixes xs :: "'a::monoid_add list"
  assumes "distinct order" "set order \<subseteq> {..<blocks_of xs}" and "length output = length xs" "length offs = blocks_of xs"
  shows "length (fst (fold (scan_block conv xs) order (output, offs))) = length xs \<and>
    length (snd (fold (scan_block conv xs) order (output, offs))) = blocks_of xs \<and>
    (\<forall>r < length xs. fst (fold (scan_block conv xs) order (output, offs)) ! r =
       (if r div BLOCKSIZE \<in> set order then local_scan xs r else output ! r)) \<and>
    (\<forall>i < blocks_of xs. snd (fold (scan_block conv xs) order (output, offs)) ! i =
       (if i \<in> set order then conv (block_total xs i) else offs ! i))"
  using assms(1,2)
proof (induction order rule: rev_induct)
  case Nil
  then show ?case using assms(3,4) by simp
next
  case (snoc i order)
  let ?st = "fold (scan_block conv xs) order (output, offs)"
  have IH: "length (fst ?st) = length xs" "length (snd ?st) = blocks_of xs"
    "\<forall>r < length xs. fst ?st ! r = (if r div BLOCKSIZE \<in> set order then local_scan xs r else output ! r)"
    "\<forall>i < blocks_of xs. snd ?st ! i = (if i \<in> set order then conv (block_total xs i) else offs ! i)"
    using snoc by auto
  have i: "i < blocks_of xs" using snoc.prems by simp
  show ?case using scan_block_result [OF i IH(1,2)] IH i by (auto simp: nth_list_update)
qed

lemma exclusive_scan_eq:
  assumes "\<forall>x \<in> set xs. 0 \<le> x" and "0 \<le> t" and "t + sum_list xs < 2 ^ 63"
  shows "exclusive_scan t xs = Some (prefix_scan t xs)"
  using assms
proof (induction xs arbitrary: t)
  case Nil
  then show ?case by (simp add: prefix_scan_def)
next
  case (Cons x xs)
  have "[0..<length (x # xs)] = 0 # map Suc [0..<length xs]"
    by (simp add: upt_conv_Cons map_Suc_upt del: upt_Suc)
  then have scan: "prefix_scan t (x # xs) = t # prefix_scan (t + x) xs"
    by (simp add: prefix_scan_def comp_def add.assoc del: upt_Suc)
  have "0 \<le> sum_list xs" using Cons.prems(1) by (intro sum_list_nonneg) simp
  then show ?case using Cons unfolding scan by simp
qed

text \<open>The sum of the totals of the earlier blocks is the sum of the elements before the block.\<close>

lemma block_totals:
  fixes xs :: "'a::monoid_add list"
  shows "sum_list (map (block_total xs) [0..<i]) = sum_list (take (i * BLOCKSIZE) xs)"
proof -
  have "sum_list (concat xss) = sum_list (map sum_list xss)" for xss :: "'a list list"
    by (induction xss) simp_all
  then have "sum_list (map (block_total xs) [0..<i]) = sum_list (concat (map (run_of BLOCKSIZE xs) [0..<i]))"
    by (simp add: block_total_def [abs_def] comp_def)
  then show ?thesis by (simp only: concat_runs_take)
qed

lemma local_scan_shift:
  fixes xs :: "'a::monoid_add list"
  shows "sum_list (take (r div BLOCKSIZE * BLOCKSIZE) xs) + local_scan xs r = sum_list (take r xs)"
proof -
  let ?a = "r div BLOCKSIZE * BLOCKSIZE"
  have "r = ?a + (r - ?a)" using div_times_less_eq_dividend [of r BLOCKSIZE] by simp
  then have "take r xs = take ?a xs @ take (r - ?a) (drop ?a xs)" by (metis take_add)
  then show ?thesis by (simp add: local_scan_def Let_def)
qed

lemma shift_block_result:
  assumes len: "length st = length xs"
  shows "length (shift_block add xs offsets i st) = length xs \<and>
    (\<forall>r < length xs. shift_block add xs offsets i st ! r = (if r div BLOCKSIZE = i then add (st ! r) (offsets ! i) else st ! r))"
proof -
  define a b where a_def: "a = i * BLOCKSIZE" and b_def: "b = min ((i + 1) * BLOCKSIZE) (length xs)"
  let ?F = "\<lambda>r. add (st ! r) (offsets ! i)"
  let ?out = "fold (\<lambda>r out. out[r := add (out ! r) (offsets ! i)]) [a..<b] st"
  have "length ?out = length st \<and> (\<forall>q. ?out ! q = (if a \<le> q \<and> q < b then ?F q else st ! q))"
    using len by (intro fold_write_nth [where lo = a]) (auto simp: b_def)
  moreover have "shift_block add xs offsets i st = ?out"
    by (simp add: shift_block_def block_bounds_def a_def b_def)
  moreover have "(a \<le> r \<and> r < b) = (r div BLOCKSIZE = i)" if "r < length xs" for r
    using block_div [OF BLOCKSIZE_pos, of r i] that by (auto simp: a_def b_def)
  ultimately show ?thesis using len by simp
qed

lemma uint_sum_le: "uint (sum_list ws) \<le> (\<Sum>w\<leftarrow>ws. uint w)" for ws :: "'a::len word list"
proof (induction ws)
  case (Cons w ws)
  then show ?case using uint_add_le [of w "sum_list ws"] by simp
qed simp

lemma of_int_sint_sum: "of_int (\<Sum>w\<leftarrow>ws. sint w) = sum_list ws" for ws :: "'a::len word list"
  by (induction ws) simp_all

text \<open>If the elements add up to less than \<open>2 ^ 63\<close>, no total changes when it becomes a \<open>long\<close>.\<close>

lemma block_totals_long:
  fixes xs :: "u64 list"
  assumes "(\<Sum>x\<leftarrow>xs. uint x) < 2 ^ 63"
  shows "(\<forall>i < blocks_of xs. 0 \<le> sint (block_total xs i)) \<and> (\<Sum>i\<leftarrow>[0..<blocks_of xs]. sint (block_total xs i)) < 2 ^ 63"
proof -
  let ?n = "blocks_of xs" and ?run = "run_of BLOCKSIZE xs"
  have le: "uint (block_total xs i) \<le> (\<Sum>x\<leftarrow>?run i. uint x)" for i
    unfolding block_total_def by (rule uint_sum_le)
  have parts: "(\<Sum>i\<leftarrow>[0..<?n]. \<Sum>x\<leftarrow>?run i. uint x) = (\<Sum>x\<leftarrow>xs. uint x)"
  proof -
    have "concat (map ?run [0..<?n]) = xs"
      using concat_runs_ceil [OF BLOCKSIZE_pos, of xs] by (simp add: blocks_of_eq)
    moreover have "(\<Sum>i\<leftarrow>is. \<Sum>x\<leftarrow>?run i. uint x) = (\<Sum>x\<leftarrow>concat (map ?run is). uint x)" for "is"
      by (induction "is") simp_all
    ultimately show ?thesis by simp
  qed
  have nonneg: "0 \<le> (\<Sum>x\<leftarrow>?run i. uint x)" for i by (intro sum_list_nonneg) auto
  have small: "uint (block_total xs i) < 2 ^ 63" if "i < ?n" for i
  proof -
    have "(\<Sum>x\<leftarrow>?run i. uint x) \<le> (\<Sum>i\<leftarrow>[0..<?n]. \<Sum>x\<leftarrow>?run i. uint x)"
      using nonneg that by (intro member_le_sum_list) auto
    then show ?thesis using le [of i] parts assms by linarith
  qed
  then have same: "sint (block_total xs i) = uint (block_total xs i)" if "i < ?n" for i
  proof -
    have "0 \<le> uint (block_total xs i)" by simp
    then have "- (2 ^ 63) \<le> uint (block_total xs i)" by (rule order_trans [rotated]) simp
    then show ?thesis using small [OF that] by (simp add: sint_uint signed_take_bit_int_eq_self)
  qed
  have "(\<Sum>i\<leftarrow>[0..<?n]. sint (block_total xs i)) = (\<Sum>i\<leftarrow>[0..<?n]. uint (block_total xs i))"
    using same by (intro arg_cong [of _ _ sum_list] map_cong refl) simp
  also have "\<dots> \<le> (\<Sum>i\<leftarrow>[0..<?n]. \<Sum>x\<leftarrow>?run i. uint x)" using le by (intro sum_list_mono) simp
  finally show ?thesis using same parts assms by simp
qed

lemma block_scan_result:
  fixes xs :: "u64 list"
  assumes o1: "mset order1 = mset [0..<blocks_of xs]" and o2: "mset order2 = mset [0..<blocks_of xs]"
    and small: "(\<Sum>x\<leftarrow>xs. uint x) < 2 ^ 63"
  shows "block_scan order1 order2 xs = Some (prefix_scan 0 xs)"
proof -
  let ?n = "blocks_of xs" and ?add = "\<lambda>(x :: u64) l. x + of_int l"
  have ord: "distinct order1" "set order1 = {..<?n}" "distinct order2" "set order2 = {..<?n}"
    using mset_eq_imp_distinct_iff [OF o1] mset_eq_setD [OF o1] mset_eq_imp_distinct_iff [OF o2] mset_eq_setD [OF o2]
    by (simp_all add: atLeast0LessThan)
  obtain outp offsets where st: "fold (scan_block sint xs) order1 (replicate (length xs) 0, replicate ?n 0) = (outp, offsets)"
    by (rule prod.exhaust)
  have o: "length outp = length xs" "length offsets = ?n"
      "\<forall>r < length xs. outp ! r = local_scan xs r" "\<forall>i < ?n. offsets ! i = sint (block_total xs i)"
    using first_pass [of order1 xs "replicate (length xs) 0" "replicate ?n 0" sint] ord st block_of_less by auto
  have offs: "offsets = map (\<lambda>i. sint (block_total xs i)) [0..<?n]" using o(2,4) by (intro nth_equalityI) simp_all
  have ex: "exclusive_scan 0 offsets = Some (prefix_scan 0 offsets)"
    using block_totals_long [OF small] by (intro exclusive_scan_eq) (auto simp: offs)
  have off: "of_int (prefix_scan 0 offsets ! i) = sum_list (take (i * BLOCKSIZE) xs)" if "i < ?n" for i
    using that block_totals [of xs i] of_int_sint_sum [of "map (block_total xs) [0..<i]"]
    by (simp add: offs take_map comp_def)
  let ?res = "fold (shift_block ?add xs (prefix_scan 0 offsets)) order2 outp"
  have "length ?res = length xs \<and> (\<forall>r < length xs. ?res ! r =
      (if r div BLOCKSIZE \<in> set order2 then ?add (outp ! r) (prefix_scan 0 offsets ! (r div BLOCKSIZE)) else outp ! r))"
    using shift_block_result [where xs = xs and add = ?add and offsets = "prefix_scan 0 offsets"] ord(3,4) o(1)
    by (intro par_blocks [where n = ?n]) auto
  then have l: "length ?res = length xs"
    and v: "?res ! r = outp ! r + sum_list (take (r div BLOCKSIZE * BLOCKSIZE) xs)" if "r < length xs" for r
    using that ord(4) block_of_less [OF that] off by simp_all
  have "?res ! r = prefix_scan 0 xs ! r" if r: "r < length xs" for r
    using v [OF r] o(3) local_scan_shift [of r xs] r by (simp add: add.commute)
  then have "?res = prefix_scan 0 xs" using \<open>length ?res = length xs \<and> _\<close> by (intro nth_equalityI) simp_all
  then show ?thesis using st ex by (simp add: block_scan_def)
qed

section \<open>The parallel filters\<close>










section \<open>The block-parallel flatten\<close>

lemma predecessor_loop_result:
  assumes "low \<le> Suc high" and "high < length xs" and "\<forall>i < low. xs ! i \<le> y"
    and "\<forall>i. high < i \<longrightarrow> i < length xs \<longrightarrow> y < xs ! i" and "answer = (if low = 0 then None else Some (low - 1))"
    and "xs ! 0 \<le> y" and "sorted xs"
  shows "\<exists>k < length xs. predecessor_loop xs y low high answer = Some k \<and> xs ! k \<le> y \<and>
    (\<forall>j. k < j \<longrightarrow> j < length xs \<longrightarrow> y < xs ! j)"
  using assms
proof (induction xs y low high answer rule: predecessor_loop.induct)
  case (1 xs y low high answer)
  show ?case
  proof (cases "low \<le> high")
    case False
    then have "low = Suc high" using "1.prems"(1) by simp
    then have "predecessor_loop xs y low high answer = Some high" "xs ! high \<le> y"
      using "1.prems"(3,5) by (simp_all add: predecessor_loop.simps)
    then show ?thesis using "1.prems"(2,4) by blast
  next
    case True
    define mid where "mid = low + (high - low) div 2"
    have m: "low \<le> mid" "mid \<le> high" using True by (simp_all add: mid_def)
    then have ml: "mid < length xs" using "1.prems"(2) by simp
    show ?thesis
    proof (cases "xs ! mid \<le> y")
      case le: True
      have "\<forall>i < mid + 1. xs ! i \<le> y"
        using le "1.prems"(7) ml by (metis add.commute le_trans less_Suc_eq_le plus_1_eq_Suc sorted_nth_mono)
      with 1(1) [OF True mid_def _ le] "1.prems" m ml
      have "\<exists>k < length xs. predecessor_loop xs y (mid + 1) high (Some mid) = Some k \<and> xs ! k \<le> y \<and>
          (\<forall>j. k < j \<longrightarrow> j < length xs \<longrightarrow> y < xs ! j)" by simp
      moreover have "predecessor_loop xs y low high answer = predecessor_loop xs y (mid + 1) high (Some mid)"
        using True ml le by (subst predecessor_loop.simps) (simp add: mid_def Let_def)
      ultimately show ?thesis by simp
    next
      case False
      then have m0: "mid \<noteq> 0" using "1.prems"(6) by (metis)
      have above: "\<forall>i. mid - 1 < i \<longrightarrow> i < length xs \<longrightarrow> y < xs ! i"
      proof (intro allI impI)
        fix i assume "mid - 1 < i" "i < length xs"
        then have "xs ! mid \<le> xs ! i" using "1.prems"(7) by (intro sorted_nth_mono) auto
        with False show "y < xs ! i" by simp
      qed
      have pre: "low \<le> Suc (mid - 1)" "mid - 1 < length xs" using m ml m0 by simp_all
      have nl: "\<not> length xs \<le> mid" using ml by simp
      note IH = 1(2) [OF True mid_def nl False m0 pre "1.prems"(3) above "1.prems"(5-7)]
      moreover have "predecessor_loop xs y low high answer = predecessor_loop xs y low (mid - 1) answer"
        by (simp only: predecessor_loop.simps [of xs y low high answer] Let_def mid_def [symmetric] True nl False m0
            if_True if_False)
      ultimately show ?thesis by simp
    qed
  qed
qed

lemma predecessor_search_result:
  assumes "xs \<noteq> []" and "xs ! 0 \<le> y" and "sorted xs"
  shows "\<exists>k < length xs. predecessor_search xs y = Some k \<and> xs ! k \<le> y \<and> (\<forall>j. k < j \<longrightarrow> j < length xs \<longrightarrow> y < xs ! j)"
proof -
  have "0 \<le> Suc (length xs - 1)" "length xs - 1 < length xs" "\<forall>i < 0. xs ! i \<le> y"
    "\<forall>i. length xs - 1 < i \<longrightarrow> i < length xs \<longrightarrow> y < xs ! i" using assms(1) by auto
  from predecessor_loop_result [OF this _ assms(2,3)] show ?thesis using assms(1) by (simp add: predecessor_search_def)
qed

definition starts :: "'a list list \<Rightarrow> nat \<Rightarrow> nat" where
  "starts input i = sum_list (map length (take i input))"

lemma starts_0 [simp]: "starts input 0 = 0"
  by (simp add: starts_def)

lemma starts_Suc: "i < length input \<Longrightarrow> starts input (Suc i) = starts input i + length (input ! i)"
  by (simp add: starts_def take_Suc_conv_app_nth)

lemma starts_all: "length input \<le> i \<Longrightarrow> starts input i = length (concat input)"
  by (simp add: starts_def length_concat)

lemma starts_mono: "i \<le> j \<Longrightarrow> starts input i \<le> starts input j"
proof (induction j)
  case 0
  then show ?case by simp
next
  case (Suc j)
  show ?case
  proof (cases "i = Suc j")
    case True
    then show ?thesis by simp
  next
    case False
    then have "starts input i \<le> starts input j" using Suc by simp
    also have "\<dots> \<le> starts input (Suc j)"
      using starts_Suc [of j input] starts_all [of input j] starts_all [of input "Suc j"] by (cases "j < length input") simp_all
    finally show ?thesis .
  qed
qed

lemma concat_starts_nth:
  "s < length input \<Longrightarrow> j < length (input ! s) \<Longrightarrow> concat input ! (starts input s + j) = input ! s ! j"
proof (induction input arbitrary: s)
  case Nil
  then show ?case by simp
next
  case (Cons xs input)
  then show ?case by (cases s) (simp_all add: starts_def nth_append add.assoc)
qed

lemma over_sizes_result:
  assumes "2 \<le> length input"
  shows "over_sizes input = map (starts input) [0..<length input]"
proof -
  let ?n = "length input" and ?init = "(replicate (length input) 0)[0 := 0, 1 := length (input ! 0)]"
  let ?out = "fold (\<lambda>r out. out[r := length (input ! (r - 1)) + out ! (r - 1)]) [2..<?n] ?init"
  have stepF: "length (input ! (r - Suc 0)) + starts input (r - Suc 0) = starts input r" if "2 \<le> r" "r < ?n" for r
    using starts_Suc [of "r - 1" input] that by simp
  have n: "0 < ?n" "1 < ?n" using assms by linarith+
  have first: "starts input 1 = length (input ! 0)" using starts_Suc [OF n(1)] by simp
  have below: "?init ! q = starts input q" if "q < 2" for q
  proof -
    consider "q = 0" | "q = 1" using \<open>q < 2\<close> by linarith
    then show ?thesis using n first by cases simp_all
  qed
  have "length ?out = length ?init \<and> (\<forall>q. ?out ! q = (if 2 \<le> q \<and> q < ?n then starts input q else ?init ! q))"
    using below by (intro fold_write_nth [where lo = 0]) (auto simp: stepF)
  then have l: "length ?out = ?n" and v: "?out ! q = (if 2 \<le> q \<and> q < ?n then starts input q else ?init ! q)" for q by simp_all
  have "?out ! i = starts input i" if "i < ?n" for i
    using v [of i] below that by (cases "2 \<le> i") simp_all
  then have "?out = map (starts input) [0..<?n]" using l by (intro nth_equalityI) simp_all
  then show ?thesis by (simp only: over_sizes_def)
qed

lemma copy_block_result:
  assumes "over = map (starts input) [0..<length input]" and "fin \<le> length (concat input)"
    and "k < fin \<longrightarrow> s < length input \<and> starts input s \<le> k \<and> k \<le> starts input (Suc s)"
    and "length out = length (concat input)"
  shows "\<exists>out'. copy_block input over k fin s out = Some out' \<and> length out' = length out \<and>
    (\<forall>r < length out. out' ! r = (if k \<le> r \<and> r < fin then concat input ! r else out ! r))"
  using assms
proof (induction input over k fin s out rule: copy_block.induct)
  case (1 input over k fin s out)
  show ?case
  proof (cases "k < fin")
    case False
    then show ?thesis by (auto simp: copy_block.simps)
  next
    case True
    have s: "s < length input" "starts input s \<le> k" "k \<le> starts input (Suc s)" using "1.prems"(3) True by simp_all
    define off where "off = k - over ! s"
    have off: "off = k - starts input s" using s(1) "1.prems"(1) by (simp add: off_def)
    have ns: "\<not> length input \<le> s" using s(1) by simp
    show ?thesis
    proof (cases "off = length (input ! s)")
      case eq: True
      then have k: "k = starts input (Suc s)" using off s starts_Suc [OF s(1)] by simp
      have "Suc s < length input"
      proof (rule ccontr)
        assume "\<not> Suc s < length input"
        then have "k = length (concat input)" using k starts_all [of input "Suc s"] by simp
        with True "1.prems"(2) show False by simp
      qed
      then have "k < fin \<longrightarrow> s + 1 < length input \<and> starts input (s + 1) \<le> k \<and> k \<le> starts input (Suc (s + 1))"
        using k starts_mono [of "Suc s" "Suc (Suc s)" input] by simp
      note IH = 1(1) [OF True ns off_def eq "1.prems"(1,2) this "1.prems"(4)]
      moreover have "copy_block input over k fin s out = copy_block input over k fin (s + 1) out"
        using True ns eq by (subst copy_block.simps) (simp add: off_def Let_def)
      ultimately show ?thesis by simp
    next
      case ne: False
      then have lt: "off < length (input ! s)" using off s starts_Suc [OF s(1)] by simp
      let ?out = "out[k := input ! s ! off]"
      have ks: "k + 1 \<le> starts input (Suc s)" using lt off s starts_Suc [OF s(1)] by simp
      have kl: "k < length out" using True "1.prems"(2,4) by simp
      have "k + 1 < fin \<longrightarrow> s < length input \<and> starts input s \<le> k + 1 \<and> k + 1 \<le> starts input (Suc s)"
        using s ks by simp
      moreover have "length ?out = length (concat input)" using "1.prems"(4) by simp
      ultimately obtain out' where r: "copy_block input over (k + 1) fin s ?out = Some out'" "length out' = length ?out"
        "\<forall>r < length ?out. out' ! r = (if k + 1 \<le> r \<and> r < fin then concat input ! r else ?out ! r)"
        using 1(2) [OF True ns off_def ne lt "1.prems"(1,2)] by blast
      have "concat input ! k = input ! s ! off"
        using concat_starts_nth [OF s(1) lt] s off by simp
      then have "\<forall>r < length out. out' ! r = (if k \<le> r \<and> r < fin then concat input ! r else out ! r)"
        using r(3) True kl by (auto simp: nth_list_update)
      moreover have "copy_block input over k fin s out = Some out'"
        using True ns ne lt r(1) by (subst copy_block.simps) (simp add: off_def Let_def)
      ultimately show ?thesis using r(2) by simp
    qed
  qed
qed

lemma flatten_block_result:
  assumes n: "2 \<le> length input" and ab: "a < b" "b \<le> length (concat input)" and out: "length out = length (concat input)"
  shows "\<exists>out'. flatten_block input (over_sizes input) a b out = Some out' \<and> length out' = length out \<and>
    (\<forall>r < length out. out' ! r = (if a \<le> r \<and> r < b then concat input ! r else out ! r))"
proof -
  note over = over_sizes_result [OF n]
  have pos: "0 < length input" using n by linarith
  then have ne: "over_sizes input \<noteq> []" "over_sizes input ! 0 \<le> a" unfolding over by simp_all
  have "sorted (over_sizes input)"
    unfolding over sorted_iff_nth_mono by (simp add: starts_mono)
  from predecessor_search_result [OF ne this] obtain s where
    s: "s < length input" "predecessor_search (over_sizes input) a = Some s" "starts input s \<le> a"
      "\<forall>j. s < j \<longrightarrow> j < length input \<longrightarrow> a < starts input j"
    unfolding over by auto
  have "a \<le> starts input (Suc s)"
  proof (cases "Suc s < length input")
    case True
    then show ?thesis using s(4) by (simp add: less_imp_le)
  next
    case False
    then show ?thesis using starts_all [of input "Suc s"] ab by simp
  qed
  with s have "a < b \<longrightarrow> s < length input \<and> starts input s \<le> a \<and> a \<le> starts input (Suc s)" by simp
  from copy_block_result [OF over ab(2) this out] show ?thesis using s(2) by (simp add: flatten_block_def)
qed

lemma fold_option_Some:
  assumes "\<forall>i \<in> set is. \<forall>st. length st = L \<longrightarrow> (\<exists>st'. step i st = Some st' \<and> length st' = L)" and "length st = L"
  shows "fold (\<lambda>i res. case res of None \<Rightarrow> None | Some out \<Rightarrow> step i out) is (Some st)
      = Some (fold (\<lambda>i st. the (step i st)) is st) \<and> length (fold (\<lambda>i st. the (step i st)) is st) = L"
  using assms
proof (induction "is" arbitrary: st)
  case Nil
  then show ?case by simp
next
  case (Cons i "is")
  then obtain st' where "step i st = Some st'" "length st' = L" by auto
  with Cons show ?case by simp
qed

lemma block_flatten_result:
  assumes n: "2 \<le> length input" and order: "mset order = mset [0..<length (concat input) div BLOCKSIZE]"
  shows "block_flatten_in_dram order x0 input = Some (concat input)"
proof -
  define total where "total = length (concat input)"
  define m where "m = total div BLOCKSIZE"
  let ?step = "\<lambda>i. flatten_block input (over_sizes input) (i * BLOCKSIZE) (min ((i + 1) * BLOCKSIZE) total)"
  let ?step' = "\<lambda>i st. the (?step i st)"
  have ord: "distinct order" "set order = {..<m}"
    using mset_eq_imp_distinct_iff [OF order] mset_eq_setD [OF order] by (simp_all add: atLeast0LessThan m_def total_def)
  have mt: "m * BLOCKSIZE \<le> total" unfolding m_def by (rule div_times_less_eq_dividend)
  have one: "\<exists>st'. ?step i st = Some st' \<and> length st' = total \<and>
      (\<forall>r < total. st' ! r = (if r div BLOCKSIZE = i then concat input ! r else st ! r))"
    if "i < m" "length st = total" for i st
  proof -
    have "(i + 1) * BLOCKSIZE \<le> m * BLOCKSIZE" using \<open>i < m\<close> by (intro mult_le_mono1) simp
    then have e: "min ((i + 1) * BLOCKSIZE) total = (i + 1) * BLOCKSIZE" and le: "(i + 1) * BLOCKSIZE \<le> total" using mt by simp_all
    have "i * BLOCKSIZE < (i + 1) * BLOCKSIZE" by simp
    from flatten_block_result [OF n this _ that(2) [unfolded total_def]] le
    show ?thesis unfolding e block_div [OF BLOCKSIZE_pos] total_def [symmetric] that(2) by blast
  qed
  have l0: "length (replicate total x0) = total" by simp
  have "\<forall>i \<in> set order. \<forall>st. length st = total \<longrightarrow> (\<exists>st'. ?step i st = Some st' \<and> length st' = total)"
    using one ord(2) by blast
  from fold_option_Some [OF this l0]
  have f: "fold (\<lambda>i res. case res of None \<Rightarrow> None | Some out \<Rightarrow> ?step i out) order (Some (replicate total x0))
      = Some (fold ?step' order (replicate total x0))" by blast
  let ?res = "fold ?step' order (replicate total x0)"
  have "length ?res = total \<and> (\<forall>r < total. ?res ! r =
      (if r div BLOCKSIZE \<in> set order then concat input ! r else replicate total x0 ! r))"
  proof (rule par_blocks)
    show "\<forall>i < m. \<forall>st. length st = total \<longrightarrow> length (?step' i st) = total \<and>
        (\<forall>r < total. ?step' i st ! r = (if r div BLOCKSIZE = i then concat input ! r else st ! r))"
      using one by fastforce
  qed (use ord l0 in auto)
  then have l: "length ?res = total" and v: "\<forall>r < total. r < m * BLOCKSIZE \<longrightarrow> ?res ! r = concat input ! r"
    using ord(2) by (simp_all add: div_less_iff_less_mult)
  have sum: "(\<Sum>xs\<leftarrow>input. length xs) = total" by (simp add: total_def length_concat)
  have nl: "\<not> length input < 2" using n by simp
  show ?thesis
  proof (cases "total mod BLOCKSIZE = 0")
    case True
    then have "m * BLOCKSIZE = total" unfolding m_def by (metis add.right_neutral div_mult_mod_eq)
    then have "?res = concat input" using l v by (intro nth_equalityI) (simp_all add: total_def)
    moreover have c: "\<not> total mod BLOCKSIZE \<noteq> 0" using True by simp
    ultimately show ?thesis
      unfolding block_flatten_in_dram_def Let_def sum m_def [symmetric] by (simp only: if_not_P [OF nl] if_not_P [OF c] f if_False)
  next
    case False
    then have "m * BLOCKSIZE < total" unfolding m_def by (metis div_times_less_eq_dividend le_neq_implies_less mod_mult_self2_is_0 mult.commute)
    from flatten_block_result [OF n this _ l [unfolded total_def]]
    obtain out' where o: "flatten_block input (over_sizes input) (m * BLOCKSIZE) total ?res = Some out'" "length out' = total"
      "\<forall>r < total. out' ! r = (if m * BLOCKSIZE \<le> r \<and> r < total then concat input ! r else ?res ! r)"
      unfolding total_def [symmetric] l by blast
    have "out' = concat input" using o(2,3) v by (intro nth_equalityI) (auto simp: total_def not_le)
    then show ?thesis
      unfolding block_flatten_in_dram_def Let_def sum m_def [symmetric]
      by (simp only: if_not_P [OF nl] if_P [OF False] f option.case o(1))
  qed
qed

section \<open>Properties\<close>

lemma plaid_scan_ignores_function: "plaid_scan xs f e = plaid_scan xs g e"
  by (simp add: plaid_scan_def)

lemma plaid_scan_empty: "plaid_scan [] f e = None"
  by (simp add: plaid_scan_def)

text \<open>C33: The block-parallel scan is the sequential one on \<open>size_t\<close> elements. For fewer than \<open>2 ^ 31\<close>
elements, which add up to less than \<open>2 ^ 63\<close>, and all orders in which the blocks of its two passes run,
\<open>block_scan\<close> gives at every position the sum of the elements before it, although it keeps the block
totals as \<open>long\<close>; \<open>scan\<close> of the same header gives the same on every non-empty input, and on the empty
one it writes out of range.\<close>

theorem block_scan_correct:
  assumes "mset order1 = mset [0..<blocks_of xs]" and "mset order2 = mset [0..<blocks_of xs]"
    and "length xs < 2 ^ 31" and "(\<Sum>x\<leftarrow>xs. uint x) < 2 ^ 63"
  shows "block_scan order1 order2 xs = Some (prefix_scan 0 xs) \<and>
    naive_scan xs = (if xs = [] then None else block_scan order1 order2 xs)"
  using block_scan_result [OF assms(1,2,4)] naive_scan_result [of xs] by (auto simp: naive_scan_def)

lemma block_scan_correct_witness:
  "block_scan [0] [0] [3, 1, 4] = Some [0, 3, 4] \<and> naive_scan [3, 1, 4 :: u64] = Some [0, 3, 4]"
proof -
  have "blocks_of [3, 1, 4 :: u64] = 1" by (simp add: blocks_of_def BLOCKSIZE_def)
  then have o: "mset [0] = mset [0..<blocks_of [3, 1, 4 :: u64]]" by simp
  have "length [3, 1, 4 :: u64] < 2 ^ 31" "(\<Sum>x\<leftarrow>[3, 1, 4 :: u64]. uint x) < 2 ^ 63" by simp_all
  from block_scan_correct [OF o o this] show ?thesis
    by (simp add: prefix_scan_def upt_rec)
qed



text \<open>C35: The block-parallel flatten is concatenation, for fewer than \<open>2 ^ 31\<close> inner sequences and
elements, the positions of an \<open>int\<close>: for two or more inner sequences, empty ones included, every order
of the blocks gives all elements in order, with every search and every read in range; with fewer than
two it writes past the end of its offsets.\<close>

theorem block_flatten_correct:
  assumes "mset order = mset [0..<length (concat input) div BLOCKSIZE]"
    and "length input < 2 ^ 31" and "length (concat input) < 2 ^ 31"
  shows "block_flatten_in_dram order x0 input = (if length input < 2 then None else Some (concat input))"
proof (cases "length input < 2")
  case True
  then show ?thesis by (simp add: block_flatten_in_dram_def)
next
  case False
  then have "2 \<le> length input" by simp
  from block_flatten_result [OF this assms(1)] show ?thesis by (simp only: if_not_P [OF False])
qed

lemma block_flatten_correct_witness:
  "block_flatten_in_dram [] 0 [[1, 2], [], [3 :: nat]] = Some [1, 2, 3] \<and> block_flatten_in_dram [] 0 [[1 :: nat]] = None"
  using block_flatten_correct [of "[]" "[[1, 2], [], [3 :: nat]]" 0] block_flatten_correct [of "[]" "[[1 :: nat]]" 0]
  by (simp add: BLOCKSIZE_def)

end
