(* ===== verification/FileReader.thy ===== *)
theory FileReader
  imports ChunkReader FileUtils
begin

text \<open>
  utils/unordered_file_reader.h: \<open>UnorderedFileReader\<close>, which reads whole files in pieces of
  \<open>R = READ_SIZE\<close> bytes, in no particular order, optionally only the chunks that a bitmap marks as
  active. A step is one iteration of a worker's reap or issue loop, the end of a worker, or a
  successful \<open>Poll\<close>. Every read is submitted at once, so a submission entry is always free. A buffer
  of the allocator lies at a multiple of \<open>R\<close> from an aligned address (see ReaderAllocator); the
  program stops when \<open>Push\<close> is given one that is not aligned itself. As the comment in the code
  demands, the sizes of the files are multiples of \<open>O_DIRECT_MULTIPLE\<close>, so that every read can be done.
\<close>

definition O_DIRECT_MEMORY_ALIGNMENT :: nat where "O_DIRECT_MEMORY_ALIGNMENT = O_DIRECT_MULTIPLE"

record UnorderedReaderConfig =
  uc_num_threads :: nat
  uc_max_requests :: nat
  uc_queue_depth :: nat
  uc_buffer_queue_size :: nat
  uc_active_chunks :: "u64 list list option"

definition default_file_reader_config :: UnorderedReaderConfig where
  "default_file_reader_config =
     \<lparr>uc_num_threads = 2, uc_max_requests = 64, uc_queue_depth = 32, uc_buffer_queue_size = 1024,
      uc_active_chunks = None\<rparr>"

record 'a FileBuffer =
  fb_data :: "'a list"
  fb_size :: nat
  fb_file_index :: nat
  fb_index :: nat

record opened_read =
  or_name :: string
  or_size :: nat
  or_index :: nat
  or_issued :: nat
  or_active :: nat
  or_completed :: nat
  or_bits :: "u64 list option"

record read_request =
  rr_file :: nat
  rr_offset :: nat
  rr_size :: nat

record file_worker =
  fw_files :: "opened_read list"
  fw_available :: "nat list"
  fw_completed :: "nat list"
  fw_inflight :: "read_request list"
  fw_free :: nat
  fw_done :: bool

record 'a file_reader =
  fr_files :: "FileInfo list"
  fr_workers :: "file_worker list"
  fr_active :: nat
  fr_queue :: "'a FileBuffer simple_queue"
  fr_is_open :: bool
  fr_failed :: bool

section \<open>One file\<close>

definition file_num_chunks :: "nat \<Rightarrow> opened_read \<Rightarrow> nat" where
  "file_num_chunks R f = (or_size f + R - 1) div R"

definition chunk_active :: "opened_read \<Rightarrow> nat \<Rightarrow> bool" where
  "chunk_active f idx =
     (case or_bits f of
        None \<Rightarrow> True
      | Some ws \<Rightarrow> let w = idx div 64 in if length ws \<le> w then False else bit (ws ! w) (idx mod 64))"

text \<open>Whether a chunk is left to issue, with \<open>bytes_issued\<close> moved past the inactive ones.\<close>

function advance_to_active :: "nat \<Rightarrow> opened_read \<Rightarrow> bool \<times> opened_read" where
  "advance_to_active R f =
     (if or_issued f < or_size f \<and> 0 < R
      then if chunk_active f (or_issued f div R) then (True, f)
           else advance_to_active R (f\<lparr>or_issued := or_issued f + min R (or_size f - or_issued f)\<rparr>)
      else (False, f))"
  by pat_completeness auto
termination
  by (relation "measure (\<lambda>(R, f). or_size f - or_issued f)") auto

declare advance_to_active.simps [simp del]

text \<open>The bitmap is the pointer \<open>bits.data()\<close>, which is null for a vector without elements.\<close>

definition open_read :: "nat \<Rightarrow> u64 list list option \<Rightarrow> FileInfo \<Rightarrow> opened_read" where
  "open_read R chunks info =
     (let bits = (case chunks of None \<Rightarrow> None
                  | Some bs \<Rightarrow> if fi_file_index info < length bs \<and> bs ! fi_file_index info \<noteq> []
                      then Some (bs ! fi_file_index info) else None);
          f = \<lparr>or_name = fi_file_name info, or_size = fi_file_size info, or_index = fi_file_index info,
               or_issued = 0, or_active = 0, or_completed = 0, or_bits = bits\<rparr>;
          total = file_num_chunks R f
      in f\<lparr>or_active := (case bits of None \<Rightarrow> total | Some _ \<Rightarrow> length (filter (chunk_active f) [0..<total]))\<rparr>)"

section \<open>Workers\<close>

definition start_file_worker :: "nat \<Rightarrow> UnorderedReaderConfig \<Rightarrow> FileInfo list \<Rightarrow> file_worker" where
  "start_file_worker R cfg infos =
     (let fs = map (open_read R (uc_active_chunks cfg)) infos
      in \<lparr>fw_files = fs, fw_available = filter (\<lambda>j. or_active (fs ! j) \<noteq> 0) [0..<length fs],
          fw_completed = filter (\<lambda>j. or_active (fs ! j) = 0) [0..<length fs],
          fw_inflight = [], fw_free = uc_max_requests cfg, fw_done = False\<rparr>)"

definition file_buffer :: "'a pod \<Rightarrow> fstore \<Rightarrow> opened_read \<Rightarrow> read_request \<Rightarrow> 'a list \<Rightarrow> 'a FileBuffer" where
  "file_buffer P fs f r old =
     \<lparr>fb_data = read_into P old (fs_read fs (or_name f) (rr_offset r) (rr_size r)),
      fb_size = rr_size r div pod_size P, fb_file_index = or_index f, fb_index = rr_offset r div pod_size P\<rparr>"

text \<open>The \<open>k\<close>-th read in flight has completed.\<close>

definition reap_file :: "nat \<Rightarrow> file_worker \<Rightarrow> file_worker" where
  "reap_file k w =
     (let r = fw_inflight w ! k; j = rr_file r; f = fw_files w ! j;
          f' = f\<lparr>or_completed := or_completed f + 1\<rparr>
      in w\<lparr>fw_files := (fw_files w)[j := f'],
           fw_completed := (if or_completed f' = or_active f' then fw_completed w @ [j] else fw_completed w),
           fw_inflight := take k (fw_inflight w) @ drop (Suc k) (fw_inflight w),
           fw_free := fw_free w + 1\<rparr>)"

text \<open>
  One iteration of the issue loop: the first available file is taken; a file without active chunks
  left is dropped, any other one gets a read and goes to the back unless it is exhausted.
\<close>

definition issue_file :: "nat \<Rightarrow> file_worker \<Rightarrow> file_worker" where
  "issue_file R w =
     (let j = hd (fw_available w); rest = tl (fw_available w); (more, f) = advance_to_active R (fw_files w ! j)
      in if \<not> more then w\<lparr>fw_files := (fw_files w)[j := f], fw_available := rest\<rparr>
         else let n = min R (or_size f - or_issued f); f' = f\<lparr>or_issued := or_issued f + n\<rparr>
              in w\<lparr>fw_files := (fw_files w)[j := f'],
                   fw_available := (if or_issued f' < or_size f' then rest @ [j] else rest),
                   fw_inflight := fw_inflight w @ [\<lparr>rr_file = j, rr_offset = or_issued f, rr_size = n\<rparr>],
                   fw_free := fw_free w - 1\<rparr>)"

section \<open>The reader\<close>

definition new_file_reader :: "'a file_reader" where
  "new_file_reader = \<lparr>fr_files = [], fr_workers = [], fr_active = 0, fr_queue = SimpleQueue 0,
     fr_is_open = True, fr_failed = False\<rparr>"

definition PrepFileList :: "'a file_reader \<Rightarrow> FileInfo list \<Rightarrow> 'a file_reader" where
  "PrepFileList r infos = r\<lparr>fr_files := infos\<rparr>"

definition StartFiles :: "nat \<Rightarrow> UnorderedReaderConfig \<Rightarrow> 'a file_reader \<Rightarrow> 'a file_reader option" where
  "StartFiles R cfg r =
     (if uc_num_threads cfg = 0 then None
      else Some (r\<lparr>fr_queue := SetSizeLimit (fr_queue r) (uc_buffer_queue_size cfg),
                   fr_active := uc_num_threads cfg,
                   fr_workers := fr_workers r @
                     map (\<lambda>i. start_file_worker R cfg (stride i (uc_num_threads cfg) (fr_files r)))
                       [0..<uc_num_threads cfg]\<rparr>))"

definition file_running :: "'a file_reader \<Rightarrow> nat \<Rightarrow> bool" where
  "file_running r i \<longleftrightarrow> \<not> fr_failed r \<and> i < length (fr_workers r) \<and> \<not> fw_done (fr_workers r ! i)"

text \<open>\<open>addr\<close> is the address of the buffer; the check of \<open>Push\<close> fails on one that is not aligned.\<close>

definition reap_step :: "'a pod \<Rightarrow> fstore \<Rightarrow> nat \<Rightarrow> nat \<Rightarrow> nat \<Rightarrow> 'a list \<Rightarrow> 'a file_reader \<Rightarrow> 'a file_reader option" where
  "reap_step P fs i k addr old r =
     (let w = fr_workers r ! i in
      if file_running r i \<and> length (fw_completed w) < length (fw_files w) \<and> k < length (fw_inflight w)
      then let q = fw_inflight w ! k in
        if addr mod O_DIRECT_MULTIPLE \<noteq> 0 then Some (r\<lparr>fr_failed := True\<rparr>)
        else map_option (\<lambda>queue. r\<lparr>fr_queue := queue, fr_workers := (fr_workers r)[i := reap_file k w]\<rparr>)
          (Push (fr_queue r) (file_buffer P fs (fw_files w ! rr_file q) q old))
      else None)"

definition issue_step :: "nat \<Rightarrow> nat \<Rightarrow> 'a file_reader \<Rightarrow> 'a file_reader option" where
  "issue_step R i r =
     (let w = fr_workers r ! i in
      if file_running r i \<and> 0 < fw_free w \<and> fw_available w \<noteq> []
      then Some (r\<lparr>fr_workers := (fr_workers r)[i := issue_file R w]\<rparr>)
      else None)"

definition finish_step :: "nat \<Rightarrow> 'a file_reader \<Rightarrow> 'a file_reader option" where
  "finish_step i r =
     (let w = fr_workers r ! i in
      if file_running r i \<and> (length (fw_files w) \<le> length (fw_completed w) \<or> \<not> fr_is_open r)
      then if length (fw_completed w) = length (fw_files w)
        then Some (r\<lparr>fr_workers := (fr_workers r)[i := w\<lparr>fw_done := True\<rparr>],
            fr_active := fr_active r - 1,
            fr_queue := (if fr_active r - 1 = 0 then Close (fr_queue r) else fr_queue r)\<rparr>)
        else Some (r\<lparr>fr_workers := (fr_workers r)[i := w\<lparr>fw_done := True\<rparr>], fr_failed := True\<rparr>)
      else None)"

definition file_poll :: "'a file_reader \<Rightarrow> ('a FileBuffer \<times> 'a file_reader) option" where
  "file_poll r = map_option (\<lambda>(d, q). (d, r\<lparr>fr_queue := q\<rparr>)) (pop (fr_queue r))"

definition files_joined :: "'a file_reader \<Rightarrow> bool" where
  "files_joined r \<longleftrightarrow> (\<forall>w \<in> set (fr_workers r). fw_done w)"

definition CloseFiles :: "'a file_reader \<Rightarrow> 'a file_reader" where
  "CloseFiles r = r\<lparr>fr_queue := Close (fr_queue r)\<rparr>"

definition DestroyFiles :: "'a file_reader \<Rightarrow> 'a file_reader" where
  "DestroyFiles r = r\<lparr>fr_is_open := False\<rparr>"

definition ResetFiles :: "'a file_reader \<Rightarrow> 'a file_reader option" where
  "ResetFiles r =
     (if files_joined r
      then map_option (\<lambda>q. r\<lparr>fr_workers := [], fr_active := 0, fr_is_open := True, fr_queue := q\<rparr>)
             (Reopen (fr_queue r))
      else None)"

inductive file_step :: "'a pod \<Rightarrow> nat \<Rightarrow> fstore \<Rightarrow>
    'a file_reader \<times> 'a FileBuffer list \<Rightarrow> 'a file_reader \<times> 'a FileBuffer list \<Rightarrow> bool"
  for P R fs where
  fstep_reap: "reap_step P fs i k (base + n * R) old r = Some r' \<Longrightarrow> O_DIRECT_MEMORY_ALIGNMENT dvd base \<Longrightarrow>
    length old = R div pod_size P \<Longrightarrow>
    file_step P R fs (r, ds) (r', ds)"
| fstep_issue: "issue_step R i r = Some r' \<Longrightarrow> file_step P R fs (r, ds) (r', ds)"
| fstep_finish: "finish_step i r = Some r' \<Longrightarrow> file_step P R fs (r, ds) (r', ds)"
| fstep_poll: "file_poll r = Some (d, r') \<Longrightarrow> file_step P R fs (r, ds) (r', ds @ [d])"

inductive_cases file_stepE: "file_step P R fs s t"

definition files_drained :: "'a file_reader \<Rightarrow> bool" where
  "files_drained r \<longleftrightarrow> \<not> fr_failed r \<and> files_joined r \<and> sq_queue (fr_queue r) = []"

definition file_polls :: "'a pod \<Rightarrow> nat \<Rightarrow> UnorderedReaderConfig \<Rightarrow> fstore \<Rightarrow> FileInfo list \<Rightarrow> 'a FileBuffer list \<Rightarrow> bool" where
  "file_polls P R cfg fs infos ds \<longleftrightarrow>
     (\<exists>r r'. StartFiles R cfg (PrepFileList new_file_reader infos) = Some r \<and>
        rtranclp (file_step P R fs) (r, []) (r', ds) \<and> files_drained r')"

section \<open>The chunks of a file that are still to be issued\<close>

definition unissued :: "nat \<Rightarrow> opened_read \<Rightarrow> nat list" where
  "unissued R f = filter (\<lambda>c. chunk_active f c \<and> or_issued f \<le> c * R) [0..<file_num_chunks R f]"

definition on_chunk :: "nat \<Rightarrow> opened_read \<Rightarrow> bool" where
  "on_chunk R f \<longleftrightarrow> (\<exists>k. or_issued f = min (k * R) (or_size f))"

lemma file_num_chunks_ceil: "file_num_chunks R f = ceil_div (or_size f) R"
  by (simp add: file_num_chunks_def ceil_div_def)

lemma file_num_chunks_issued [simp]: "file_num_chunks R (f\<lparr>or_issued := a\<rparr>) = file_num_chunks R f"
  "file_num_chunks R (f\<lparr>or_completed := b\<rparr>) = file_num_chunks R f"
  by (simp_all add: file_num_chunks_def)

lemma chunk_active_issued [simp]: "chunk_active (f\<lparr>or_issued := a\<rparr>) = chunk_active f"
  "chunk_active (f\<lparr>or_completed := b\<rparr>) = chunk_active f"
  by (simp_all add: chunk_active_def fun_eq_iff)

lemma unissued_completed [simp]: "unissued R (f\<lparr>or_completed := b\<rparr>) = unissued R f"
  by (simp add: unissued_def)

lemma unissued_from:
  assumes R: "0 < R" and k: "or_issued f = min (k * R) (or_size f)"
  shows "unissued R f = filter (chunk_active f) [k..<file_num_chunks R f]"
proof -
  have c: "or_issued f \<le> c * R \<longleftrightarrow> k \<le> c" if "c < file_num_chunks R f" for c
  proof -
    have "c * R < or_size f" using that less_ceil_div_iff [OF R] by (simp add: file_num_chunks_ceil)
    then have "min (k * R) (or_size f) \<le> c * R \<longleftrightarrow> k * R \<le> c * R" by (simp add: min_le_iff_disj)
    then show ?thesis using R k by simp
  qed
  have "filter (\<lambda>c. k \<le> c) [0..<n] = [k..<n]" for n
    by (induction n) auto
  moreover have "unissued R f = filter (chunk_active f) (filter (\<lambda>c. k \<le> c) [0..<file_num_chunks R f])"
    unfolding unissued_def filter_filter by (intro filter_cong refl) (use c in auto)
  ultimately show ?thesis by simp
qed

lemma advance_result:
  assumes R: "0 < R" and ok: "on_chunk R f"
  shows "\<exists>b a. advance_to_active R f = (b, f\<lparr>or_issued := a\<rparr>) \<and> on_chunk R (f\<lparr>or_issued := a\<rparr>) \<and>
    unissued R (f\<lparr>or_issued := a\<rparr>) = unissued R f \<and> (\<not> b \<longrightarrow> unissued R f = []) \<and>
    (b \<longrightarrow> (\<exists>c. a = c * R \<and> a < or_size f \<and>
       unissued R f = c # unissued R (f\<lparr>or_issued := a + min R (or_size f - a)\<rparr>) \<and>
       on_chunk R (f\<lparr>or_issued := a + min R (or_size f - a)\<rparr>)))"
  using assms
proof (induction R f rule: advance_to_active.induct)
  case (1 R f)
  obtain k where k: "or_issued f = min (k * R) (or_size f)" using "1.prems"(2) by (auto simp: on_chunk_def)
  note un = unissued_from [OF "1.prems"(1) k]
  show ?case
  proof (cases "or_issued f < or_size f")
    case False
    then have "or_size f \<le> k * R" using k by simp
    then have "file_num_chunks R f \<le> k" using less_ceil_div_iff [OF "1.prems"(1), of k "or_size f"] by (simp add: file_num_chunks_ceil not_less)
    then have "unissued R f = []" using un by simp
    moreover have "advance_to_active R f = (False, f\<lparr>or_issued := or_issued f\<rparr>)"
      using False by (simp add: advance_to_active.simps)
    ultimately show ?thesis using "1.prems"(2) by (intro exI [of _ False] exI [of _ "or_issued f"]) simp
  next
    case True
    then have a: "or_issued f = k * R" and lt: "k * R < or_size f" using k by auto
    then have kn: "k < file_num_chunks R f" using less_ceil_div_iff [OF "1.prems"(1)] by (simp add: file_num_chunks_ceil)
    have nxt: "k * R + min R (or_size f - k * R) = min (Suc k * R) (or_size f)" using lt by (simp add: min_def) linarith
    let ?f = "f\<lparr>or_issued := k * R + min R (or_size f - k * R)\<rparr>"
    have ok': "on_chunk R ?f" unfolding on_chunk_def by (intro exI [of _ "Suc k"]) (simp add: nxt del: mult_Suc)
    have un': "unissued R ?f = filter (chunk_active f) [Suc k..<file_num_chunks R f]"
      using unissued_from [OF "1.prems"(1), of ?f "Suc k"] nxt by simp
    have split: "unissued R f = (if chunk_active f k then [k] else []) @ unissued R ?f"
      using kn unfolding un un' by (simp add: upt_conv_Cons)
    have kd: "or_issued f div R = k" using a "1.prems"(1) by simp
    show ?thesis
    proof (cases "chunk_active f k")
      case act: True
      have self: "f\<lparr>or_issued := k * R\<rparr> = f" by (simp add: a [symmetric])
      have "advance_to_active R f = (True, f\<lparr>or_issued := k * R\<rparr>)"
        using True act kd a "1.prems"(1) by (simp add: advance_to_active.simps [of R f])
      moreover have "unissued R f = k # unissued R ?f" using split act by simp
      then have "\<exists>c. k * R = c * R \<and> k * R < or_size f \<and> unissued R f = c # unissued R ?f \<and> on_chunk R ?f"
        using ok' lt by blast
      ultimately show ?thesis
        using "1.prems"(2) by (intro exI [of _ True] exI [of _ "k * R"]) (simp only: self simp_thms)
    next
      case False
      have un0: "unissued R ?f = unissued R f" using split False by simp
      have "\<not> chunk_active f (or_issued f div R)" using False kd by simp
      note IH = "1.IH" [OF _ this "1.prems"(1)]
      have "f\<lparr>or_issued := or_issued f + min R (or_size f - or_issued f)\<rparr> = ?f" by (simp add: a)
      with IH True "1.prems"(1) ok' obtain b a' where r: "advance_to_active R ?f = (b, ?f\<lparr>or_issued := a'\<rparr>)"
        "on_chunk R (?f\<lparr>or_issued := a'\<rparr>)" "unissued R (?f\<lparr>or_issued := a'\<rparr>) = unissued R ?f" "\<not> b \<longrightarrow> unissued R ?f = []"
        "b \<longrightarrow> (\<exists>c. a' = c * R \<and> a' < or_size ?f \<and>
           unissued R ?f = c # unissued R (?f\<lparr>or_issued := a' + min R (or_size ?f - a')\<rparr>) \<and>
           on_chunk R (?f\<lparr>or_issued := a' + min R (or_size ?f - a')\<rparr>))"
        by (elim meta_impE exE conjE) (auto simp del: opened_read.update_convs)
      have "advance_to_active R f = advance_to_active R ?f"
        using True False kd a "1.prems"(1) by (subst advance_to_active.simps) simp
      then show ?thesis
        using r unfolding un0 by (intro exI [of _ b] exI [of _ a']) simp
    qed
  qed
qed

section \<open>The invariant\<close>

definition bytes_core :: "'a pod \<Rightarrow> fstore \<Rightarrow> opened_read \<Rightarrow> nat \<Rightarrow> nat \<Rightarrow> nat \<times> nat \<times> 'a list" where
  "bytes_core P fs f off n =
     (or_index f, off div pod_size P, dec_list P (n div pod_size P) (fs_read fs (or_name f) off n))"

definition chunk_item :: "'a pod \<Rightarrow> nat \<Rightarrow> fstore \<Rightarrow> opened_read \<Rightarrow> nat \<Rightarrow> nat \<times> nat \<times> 'a list" where
  "chunk_item P R fs f c = bytes_core P fs f (c * R) (min R (or_size f - c * R))"

definition fb_core :: "'a FileBuffer \<Rightarrow> nat \<times> nat \<times> 'a list" where
  "fb_core d = (fb_file_index d, fb_index d, take (fb_size d) (fb_data d))"

definition fb_ok :: "nat \<Rightarrow> 'a FileBuffer \<Rightarrow> bool" where
  "fb_ok cap d \<longleftrightarrow> length (fb_data d) = cap \<and> fb_size d \<le> cap"

definition on_disk :: "fstore \<Rightarrow> opened_read \<Rightarrow> bool" where
  "on_disk fs f \<longleftrightarrow> or_size f \<le> length (file_of fs (or_name f))"

lemma item_static [simp]:
  "bytes_core P fs (f\<lparr>or_issued := a\<rparr>) = bytes_core P fs f" "bytes_core P fs (f\<lparr>or_completed := b\<rparr>) = bytes_core P fs f"
  "chunk_item P R fs (f\<lparr>or_issued := a\<rparr>) = chunk_item P R fs f" "chunk_item P R fs (f\<lparr>or_completed := b\<rparr>) = chunk_item P R fs f"
  by (simp_all add: bytes_core_def chunk_item_def fun_eq_iff)

definition req_item :: "'a pod \<Rightarrow> fstore \<Rightarrow> opened_read list \<Rightarrow> read_request \<Rightarrow> nat \<times> nat \<times> 'a list" where
  "req_item P fs files r = bytes_core P fs (files ! rr_file r) (rr_offset r) (rr_size r)"

definition unissued_items :: "'a pod \<Rightarrow> nat \<Rightarrow> fstore \<Rightarrow> opened_read \<Rightarrow> (nat \<times> nat \<times> 'a list) multiset" where
  "unissued_items P R fs f = mset (map (chunk_item P R fs f) (unissued R f))"

definition left_items :: "'a pod \<Rightarrow> nat \<Rightarrow> fstore \<Rightarrow> file_worker \<Rightarrow> (nat \<times> nat \<times> 'a list) multiset" where
  "left_items P R fs w = mset (map (req_item P fs (fw_files w)) (fw_inflight w)) +
     (\<Sum>f\<leftarrow>fw_files w. unissued_items P R fs f)"

definition inflight_of :: "nat \<Rightarrow> read_request list \<Rightarrow> nat" where
  "inflight_of j rs = length (filter (\<lambda>r. rr_file r = j) rs)"

definition file_inv :: "nat \<Rightarrow> fstore \<Rightarrow> read_request list \<Rightarrow> nat list \<Rightarrow> nat \<Rightarrow> opened_read \<Rightarrow> bool" where
  "file_inv R fs inflight available j f \<longleftrightarrow>
     on_chunk R f \<and> on_disk fs f \<and> or_completed f + inflight_of j inflight + length (unissued R f) = or_active f \<and>
     (unissued R f \<noteq> [] \<longrightarrow> j \<in> set available)"

definition fworker_inv :: "nat \<Rightarrow> nat \<Rightarrow> fstore \<Rightarrow> file_worker \<Rightarrow> bool" where
  "fworker_inv m R fs w \<longleftrightarrow>
     (\<forall>j < length (fw_files w). file_inv R fs (fw_inflight w) (fw_available w) j (fw_files w ! j)) \<and>
     (\<forall>r \<in> set (fw_inflight w). rr_file r < length (fw_files w) \<and> rr_size r \<le> R \<and>
        rr_offset r + rr_size r \<le> or_size (fw_files w ! rr_file r)) \<and>
     set (fw_available w) \<subseteq> {..<length (fw_files w)} \<and>
     distinct (fw_completed w) \<and>
     set (fw_completed w) = {j. j < length (fw_files w) \<and> or_completed (fw_files w ! j) = or_active (fw_files w ! j)} \<and>
     fw_free w + length (fw_inflight w) = m \<and>
     (fw_done w \<longrightarrow> length (fw_completed w) = length (fw_files w))"

lemma inflight_of_simps [simp]:
  "inflight_of j [] = 0" "inflight_of j (r # rs) = (if rr_file r = j then 1 else 0) + inflight_of j rs"
  "inflight_of j (rs @ rs') = inflight_of j rs + inflight_of j rs'"
  by (simp_all add: inflight_of_def)

lemma inflight_of_remove:
  "k < length rs \<Longrightarrow> inflight_of j rs = (if rr_file (rs ! k) = j then 1 else 0) + inflight_of j (take k rs @ drop (Suc k) rs)"
proof -
  assume "k < length rs"
  then have "rs = take k rs @ rs ! k # drop (Suc k) rs" by (rule id_take_nth_drop)
  then have "inflight_of j rs = inflight_of j (take k rs @ rs ! k # drop (Suc k) rs)" by simp
  then show ?thesis by simp
qed

lemma req_item_update:
  assumes "or_index f' = or_index (files ! j)" and "or_name f' = or_name (files ! j)"
  shows "req_item P fs (files[j := f']) r = req_item P fs files r"
  using assms by (cases "rr_file r < length files"; cases "rr_file r = j")
    (simp_all add: req_item_def bytes_core_def list_update_beyond)

lemma file_buffer_core:
  assumes P: "0 < pod_size P" and r: "rr_size r \<le> R" "rr_offset r + rr_size r \<le> or_size f"
    and f: "on_disk fs f" and old: "length old = R div pod_size P"
  shows "fb_ok (R div pod_size P) (file_buffer P fs f r old) \<and>
    fb_core (file_buffer P fs f r old) = bytes_core P fs f (rr_offset r) (rr_size r)"
proof -
  let ?bs = "fs_read fs (or_name f) (rr_offset r) (rr_size r)"
  have n: "length ?bs = rr_size r" using r f by (simp add: on_disk_def)
  have le: "rr_size r div pod_size P \<le> R div pod_size P" using r(1) by (rule div_le_mono)
  have "length (dec_list P (rr_size r div pod_size P) ?bs) = rr_size r div pod_size P" by simp
  then show ?thesis
    using n le old by (simp add: fb_ok_def fb_core_def file_buffer_def bytes_core_def read_into_def Let_def del: length_fs_read)
qed

lemma fworker_invD:
  assumes "fworker_inv m R fs w"
  shows "j < length (fw_files w) \<Longrightarrow> file_inv R fs (fw_inflight w) (fw_available w) j (fw_files w ! j)"
    and "r \<in> set (fw_inflight w) \<Longrightarrow> rr_file r < length (fw_files w) \<and> rr_size r \<le> R \<and>
        rr_offset r + rr_size r \<le> or_size (fw_files w ! rr_file r)"
    and "set (fw_available w) \<subseteq> {..<length (fw_files w)}" and "distinct (fw_completed w)"
    and "set (fw_completed w) = {j. j < length (fw_files w) \<and> or_completed (fw_files w ! j) = or_active (fw_files w ! j)}"
    and "fw_free w + length (fw_inflight w) = m"
  using assms by (simp_all add: fworker_inv_def)

text \<open>One file of a worker changes its counters only.\<close>

lemma left_items_update:
  assumes j: "j < length (fw_files w)" and f: "f = fw_files w ! j" and "or_index f' = or_index f" and "or_name f' = or_name f"
  shows "left_items P R fs (w\<lparr>fw_files := (fw_files w)[j := f']\<rparr>) + unissued_items P R fs f = left_items P R fs w + unissued_items P R fs f'"
proof -
  have "req_item P fs ((fw_files w)[j := f']) = req_item P fs (fw_files w)"
    by (rule ext, rule req_item_update) (use assms in simp_all)
  then show ?thesis
    using sum_list_update_add [OF j, of "unissued_items P R fs" f'] by (simp add: left_items_def f add.assoc)
qed

lemma fworker_invI:
  assumes inv: "fworker_inv m R fs w" and j: "j < length (fw_files w)"
    and fj: "file_inv R fs inflight available j f'" and size: "or_size f' = or_size (fw_files w ! j)"
    and others: "\<And>i. i < length (fw_files w) \<Longrightarrow> i \<noteq> j \<Longrightarrow> file_inv R fs inflight available i (fw_files w ! i)"
    and reqs: "\<And>q. q \<in> set inflight \<Longrightarrow> q \<in> set (fw_inflight w) \<or>
      rr_file q < length (fw_files w) \<and> rr_size q \<le> R \<and> rr_offset q + rr_size q \<le> or_size (fw_files w ! rr_file q)"
    and av: "set available \<subseteq> {..<length (fw_files w)}" and dist: "distinct completed"
    and comp: "set completed = {i. i < length (fw_files w) \<and> or_completed ((fw_files w)[j := f'] ! i) = or_active ((fw_files w)[j := f'] ! i)}"
    and free: "free + length inflight = m" and nd: "\<not> fw_done w"
  shows "fworker_inv m R fs (w\<lparr>fw_files := (fw_files w)[j := f'], fw_available := available, fw_completed := completed,
    fw_inflight := inflight, fw_free := free\<rparr>)"
proof -
  have "or_size ((fw_files w)[j := f'] ! i) = or_size (fw_files w ! i)" if "i < length (fw_files w)" for i
    using j size by (cases "i = j") simp_all
  moreover have "file_inv R fs inflight available i ((fw_files w)[j := f'] ! i)" if "i < length (fw_files w)" for i
    using that fj others by (cases "i = j") simp_all
  moreover have "\<forall>q \<in> set inflight. rr_file q < length (fw_files w) \<and> rr_size q \<le> R \<and> rr_offset q + rr_size q \<le> or_size (fw_files w ! rr_file q)"
    using reqs fworker_invD(2) [OF inv] by blast
  ultimately show ?thesis using av dist comp free nd unfolding fworker_inv_def by simp
qed

lemma reap_file_inv:
  assumes inv: "fworker_inv m R fs w" and k: "k < length (fw_inflight w)" and nd: "\<not> fw_done w"
  shows "fworker_inv m R fs (reap_file k w) \<and>
    left_items P R fs w = add_mset (req_item P fs (fw_files w) (fw_inflight w ! k)) (left_items P R fs (reap_file k w))"
proof
  define r where "r = fw_inflight w ! k"
  define j where "j = rr_file r"
  define f where "f = fw_files w ! j"
  define f' where "f' = f\<lparr>or_completed := or_completed f + 1\<rparr>"
  define rest where "rest = take k (fw_inflight w) @ drop (Suc k) (fw_inflight w)"
  define comp where "comp = (if or_completed f' = or_active f' then fw_completed w @ [j] else fw_completed w)"
  have w': "reap_file k w = w\<lparr>fw_files := (fw_files w)[j := f'], fw_available := fw_available w, fw_completed := comp,
      fw_inflight := rest, fw_free := fw_free w + 1\<rparr>"
    by (simp add: reap_file_def Let_def r_def j_def f_def f'_def rest_def comp_def)
  have j: "j < length (fw_files w)" using fworker_invD(2) [OF inv] k by (simp add: r_def j_def)
  have cnt: "inflight_of i (fw_inflight w) = (if j = i then 1 else 0) + inflight_of i rest" for i
    using inflight_of_remove [OF k, of i] by (simp add: r_def j_def rest_def)
  have fj: "file_inv R fs (fw_inflight w) (fw_available w) j f" using fworker_invD(1) [OF inv j] by (simp add: f_def)
  then have "or_completed f < or_active f" using cnt [of j] by (simp add: file_inv_def)
  then have jc: "j \<notin> set (fw_completed w)" using fworker_invD(5) [OF inv] by (simp add: f_def)
  have "i \<in> set comp \<longleftrightarrow> i < length (fw_files w) \<and> or_completed ((fw_files w)[j := f'] ! i) = or_active ((fw_files w)[j := f'] ! i)" for i
    using jc j fworker_invD(5) [OF inv] by (cases "i = j") (simp_all add: comp_def)
  then have comps: "set comp = {i. i < length (fw_files w) \<and> or_completed ((fw_files w)[j := f'] ! i) = or_active ((fw_files w)[j := f'] ! i)}"
    by blast
  show "fworker_inv m R fs (reap_file k w)"
    unfolding w'
  proof (rule fworker_invI [OF inv j _ _ _ _ fworker_invD(3) [OF inv] _ comps _ nd])
    show "file_inv R fs rest (fw_available w) j f'" using fj cnt [of j] by (simp add: f'_def file_inv_def on_chunk_def on_disk_def)
    show "file_inv R fs rest (fw_available w) i (fw_files w ! i)" if "i < length (fw_files w)" "i \<noteq> j" for i
      using fworker_invD(1) [OF inv that(1)] cnt [of i] that(2) by (simp add: file_inv_def)
    show "q \<in> set (fw_inflight w) \<or> rr_file q < length (fw_files w) \<and> rr_size q \<le> R \<and> rr_offset q + rr_size q \<le> or_size (fw_files w ! rr_file q)"
      if "q \<in> set rest" for q using that by (auto simp: rest_def dest: in_set_takeD in_set_dropD)
    show "distinct comp" using fworker_invD(4) [OF inv] jc by (simp add: comp_def)
    show "fw_free w + 1 + length rest = m" using fworker_invD(6) [OF inv] k by (simp add: rest_def)
  qed (simp add: f'_def f_def)
  have "mset (fw_inflight w) = add_mset r (mset rest)" using mset_remove_nth [OF k] by (simp add: r_def rest_def)
  moreover have "unissued_items P R fs f' = unissued_items P R fs f" by (simp add: unissued_items_def f'_def)
  moreover have "req_item P fs ((fw_files w)[j := f']) = req_item P fs (fw_files w)"
    by (rule ext, rule req_item_update) (simp_all add: f'_def f_def)
  ultimately show "left_items P R fs w = add_mset (req_item P fs (fw_files w) (fw_inflight w ! k)) (left_items P R fs (reap_file k w))"
    using left_items_update [OF j f_def, of f' P R fs] unfolding w' by (simp add: left_items_def r_def f'_def)
qed

text \<open>Moving \<open>bytes_issued\<close> completes no file.\<close>

lemma completed_issued:
  assumes "fworker_inv m R fs w" and "j < length (fw_files w)"
  shows "set (fw_completed w) = {i. i < length (fw_files w) \<and> or_completed ((fw_files w)[j := (fw_files w ! j)\<lparr>or_issued := x\<rparr>] ! i) =
    or_active ((fw_files w)[j := (fw_files w ! j)\<lparr>or_issued := x\<rparr>] ! i)}"
  using fworker_invD(5) [OF assms(1)] assms(2) by (auto simp: nth_list_update)

lemma issue_drop_inv:
  assumes inv: "fworker_inv m R fs w" and av: "fw_available w = j # rest" and nd: "\<not> fw_done w" and f: "f = fw_files w ! j"
    and a: "on_chunk R (f\<lparr>or_issued := a\<rparr>)" "unissued R (f\<lparr>or_issued := a\<rparr>) = []" "unissued R f = []"
    and w': "w' = w\<lparr>fw_files := (fw_files w)[j := f\<lparr>or_issued := a\<rparr>], fw_available := rest\<rparr>"
  shows "fworker_inv m R fs w' \<and> left_items P R fs w' = left_items P R fs w"
proof
  have j: "j < length (fw_files w)" and rest: "set rest \<subseteq> {..<length (fw_files w)}" using fworker_invD(3) [OF inv] by (simp_all add: av)
  have "fworker_inv m R fs (w\<lparr>fw_files := (fw_files w)[j := f\<lparr>or_issued := a\<rparr>], fw_available := rest,
      fw_completed := fw_completed w, fw_inflight := fw_inflight w, fw_free := fw_free w\<rparr>)"
    unfolding f
  proof (rule fworker_invI [OF inv j _ _ _ _ rest fworker_invD(4) [OF inv] completed_issued [OF inv j] fworker_invD(6) [OF inv] nd])
    show "file_inv R fs (fw_inflight w) rest j ((fw_files w ! j)\<lparr>or_issued := a\<rparr>)"
      using fworker_invD(1) [OF inv j] a by (simp add: file_inv_def on_disk_def f)
    show "file_inv R fs (fw_inflight w) rest i (fw_files w ! i)" if "i < length (fw_files w)" "i \<noteq> j" for i
      using fworker_invD(1) [OF inv that(1)] that(2) av by (simp add: file_inv_def)
  qed simp_all
  then show "fworker_inv m R fs w'" by (simp add: w')
  show "left_items P R fs w' = left_items P R fs w"
    using left_items_update [OF j f, of "f\<lparr>or_issued := a\<rparr>" P R fs] a by (simp add: w' unissued_items_def left_items_def)
qed

text \<open>A file that has been read to its end has nothing left to issue.\<close>

lemma unissued_end:
  assumes R: "0 < R" and ne: "unissued R (f\<lparr>or_issued := a + min R (or_size f - a)\<rparr>) \<noteq> []" and a: "a < or_size f"
  shows "a + min R (or_size f - a) < or_size f"
proof (rule ccontr)
  let ?f = "f\<lparr>or_issued := a + min R (or_size f - a)\<rparr>"
  assume "\<not> a + min R (or_size f - a) < or_size f"
  then have end_of_file: "or_issued ?f = or_size ?f" using a by simp
  have "c * R < or_size f" if "c < file_num_chunks R f" for c
    using that less_ceil_div_iff [OF R] by (simp add: file_num_chunks_ceil)
  then have "unissued R ?f = []" using end_of_file by (auto simp: unissued_def filter_empty_conv not_le)
  with ne show False by simp
qed

lemma issue_send_inv:
  assumes inv: "fworker_inv m R fs w" and av: "fw_available w = j # rest" and nd: "\<not> fw_done w" and f: "f = fw_files w ! j"
    and R: "0 < R" and free: "0 < fw_free w" and n: "n = min R (or_size f - a)"
    and c: "a = c * R" "a < or_size f" "unissued R f = c # unissued R (f\<lparr>or_issued := a + n\<rparr>)" "on_chunk R (f\<lparr>or_issued := a + n\<rparr>)"
    and q: "q = \<lparr>rr_file = j, rr_offset = a, rr_size = n\<rparr>" and avail: "avail = (if a + n < or_size f then rest @ [j] else rest)"
    and w': "w' = w\<lparr>fw_files := (fw_files w)[j := f\<lparr>or_issued := a + n\<rparr>], fw_available := avail,
        fw_inflight := fw_inflight w @ [q], fw_free := fw_free w - 1\<rparr>"
  shows "fworker_inv m R fs w' \<and> left_items P R fs w' = left_items P R fs w"
proof
  have j: "j < length (fw_files w)" and rest: "set rest \<subseteq> {..<length (fw_files w)}" using fworker_invD(3) [OF inv] by (simp_all add: av)
  have al: "set avail \<subseteq> {..<length (fw_files w)}" using rest j by (auto simp: avail)
  have fr: "fw_free w - 1 + length (fw_inflight w @ [q]) = m" using fworker_invD(6) [OF inv] free by simp
  have "fworker_inv m R fs (w\<lparr>fw_files := (fw_files w)[j := f\<lparr>or_issued := a + n\<rparr>], fw_available := avail,
      fw_completed := fw_completed w, fw_inflight := fw_inflight w @ [q], fw_free := fw_free w - 1\<rparr>)"
    unfolding f
  proof (rule fworker_invI [OF inv j _ _ _ _ al fworker_invD(4) [OF inv] completed_issued [OF inv j] fr nd])
    show "file_inv R fs (fw_inflight w @ [q]) avail j ((fw_files w ! j)\<lparr>or_issued := a + n\<rparr>)"
      using fworker_invD(1) [OF inv j] c(3,4) unissued_end [OF R _ c(2)]
      by (auto simp: file_inv_def on_disk_def q avail n f)
    show "file_inv R fs (fw_inflight w @ [q]) avail i (fw_files w ! i)" if "i < length (fw_files w)" "i \<noteq> j" for i
      using fworker_invD(1) [OF inv that(1)] that(2) av by (auto simp: file_inv_def q avail)
  qed (use j c(2) in \<open>auto simp: q n f\<close>)
  then show "fworker_inv m R fs w'" by (simp add: w')
  have "unissued_items P R fs f = add_mset (chunk_item P R fs f c) (unissued_items P R fs (f\<lparr>or_issued := a + n\<rparr>))"
    using c(3) by (simp add: unissued_items_def)
  moreover have "req_item P fs ((fw_files w)[j := f\<lparr>or_issued := a + n\<rparr>]) q = chunk_item P R fs f c"
    using c(1) j by (simp add: req_item_def q chunk_item_def n)
  ultimately show "left_items P R fs w' = left_items P R fs w"
    using left_items_update [OF j f, of "f\<lparr>or_issued := a + n\<rparr>" P R fs] by (simp add: w' left_items_def)
qed

lemma issue_file_inv:
  assumes inv: "fworker_inv m R fs w" and av: "fw_available w \<noteq> []" and free: "0 < fw_free w"
    and nd: "\<not> fw_done w" and R: "0 < R"
  shows "fworker_inv m R fs (issue_file R w) \<and> left_items P R fs (issue_file R w) = left_items P R fs w"
proof -
  define j rest f where j_def: "j = hd (fw_available w)" and rest_def: "rest = tl (fw_available w)" and f_def: "f = fw_files w ! j"
  have avl: "fw_available w = j # rest" using av by (simp add: j_def rest_def)
  then have "on_chunk R f" using fworker_invD(1,3) [OF inv] by (auto simp: file_inv_def f_def)
  from advance_result [OF R this] obtain b a where adv: "advance_to_active R f = (b, f\<lparr>or_issued := a\<rparr>)"
    and a: "on_chunk R (f\<lparr>or_issued := a\<rparr>)" "unissued R (f\<lparr>or_issued := a\<rparr>) = unissued R f" "\<not> b \<longrightarrow> unissued R f = []"
    and b: "b \<longrightarrow> (\<exists>c. a = c * R \<and> a < or_size f \<and>
       unissued R f = c # unissued R (f\<lparr>or_issued := a + min R (or_size f - a)\<rparr>) \<and>
       on_chunk R (f\<lparr>or_issued := a + min R (or_size f - a)\<rparr>))" by blast
  show ?thesis
  proof (cases b)
    case False
    then have "issue_file R w = w\<lparr>fw_files := (fw_files w)[j := f\<lparr>or_issued := a\<rparr>], fw_available := rest\<rparr>"
      using adv by (simp add: issue_file_def Let_def j_def rest_def f_def)
    then show ?thesis using issue_drop_inv [OF inv avl nd f_def a(1)] a(2,3) False by simp
  next
    case True
    define n where "n = min R (or_size f - a)"
    define q where "q = \<lparr>rr_file = j, rr_offset = a, rr_size = n\<rparr>"
    define avail where "avail = (if a + n < or_size f then rest @ [j] else rest)"
    obtain c where c: "a = c * R" "a < or_size f" "unissued R f = c # unissued R (f\<lparr>or_issued := a + n\<rparr>)" "on_chunk R (f\<lparr>or_issued := a + n\<rparr>)"
      using b True unfolding n_def by blast
    have "issue_file R w = w\<lparr>fw_files := (fw_files w)[j := f\<lparr>or_issued := a + n\<rparr>], fw_available := avail,
        fw_inflight := fw_inflight w @ [q], fw_free := fw_free w - 1\<rparr>"
      using adv True by (simp add: issue_file_def Let_def j_def [symmetric] rest_def [symmetric] f_def [symmetric]
          n_def [symmetric] q_def avail_def)
    then show ?thesis by (rule issue_send_inv [OF inv avl nd f_def R free n_def c q_def avail_def])
  qed
qed

definition count_left :: "file_worker list \<Rightarrow> nat" where
  "count_left ws = (\<Sum>w\<leftarrow>ws. if fw_done w then 0 else 1)"

definition file_reader_inv :: "'a pod \<Rightarrow> nat \<Rightarrow> nat \<Rightarrow> fstore \<Rightarrow> (nat \<times> nat \<times> 'a list) multiset \<Rightarrow>
    'a file_reader \<times> 'a FileBuffer list \<Rightarrow> bool" where
  "file_reader_inv P m R fs items s \<longleftrightarrow>
     (case s of (r, ds) \<Rightarrow>
       fr_is_open r \<and> \<not> fr_failed r \<and> (\<forall>w \<in> set (fr_workers r). fworker_inv m R fs w) \<and>
       fr_active r = count_left (fr_workers r) \<and> sq_open (fr_queue r) = (0 < fr_active r) \<and>
       (\<forall>d \<in> set (ds @ sq_queue (fr_queue r)). fb_ok (R div pod_size P) d) \<and>
       mset (map fb_core (ds @ sq_queue (fr_queue r))) + (\<Sum>w\<leftarrow>fr_workers r. left_items P R fs w) = items)"

lemma file_reader_worker:
  "file_reader_inv P m R fs items (r, ds) \<Longrightarrow> i < length (fr_workers r) \<Longrightarrow> fworker_inv m R fs (fr_workers r ! i)"
  by (simp add: file_reader_inv_def)

lemma file_inv_replace:
  assumes inv: "file_reader_inv P m R fs items (r, ds)" and i: "i < length (fr_workers r)"
    and w': "fworker_inv m R fs w'" "fw_done w' = fw_done (fr_workers r ! i)"
    and ps: "\<forall>d \<in> set ps. fb_ok (R div pod_size P) d"
      "left_items P R fs (fr_workers r ! i) = mset (map fb_core ps) + left_items P R fs w'"
    and q: "sq_queue q = sq_queue (fr_queue r) @ ps" "sq_open q = sq_open (fr_queue r)"
  shows "file_reader_inv P m R fs items (r\<lparr>fr_queue := q, fr_workers := (fr_workers r)[i := w']\<rparr>, ds)"
proof -
  let ?ws = "fr_workers r"
  have each: "\<forall>w \<in> set (?ws[i := w']). fworker_inv m R fs w"
    using inv w'(1) by (intro ball_set_update) (auto simp: file_reader_inv_def)
  have cnt: "count_left (?ws[i := w']) = count_left ?ws"
    using sum_list_update_add [OF i, where f = "\<lambda>w. if fw_done w then 0 else 1::nat" and y = w'] w'(2)
    by (simp add: count_left_def)
  have "(\<Sum>w\<leftarrow>?ws[i := w']. left_items P R fs w) + left_items P R fs (?ws ! i)
      = (\<Sum>w\<leftarrow>?ws. left_items P R fs w) + left_items P R fs w'" (is "?s' + _ = ?s + _")
    by (rule sum_list_update_add [OF i])
  then have sum: "?s' + mset (map fb_core ps) = ?s" using ps(2) by simp
  have "mset (map fb_core (ds @ sq_queue (fr_queue r))) + ?s = items" using inv by (simp add: file_reader_inv_def)
  then have "mset (map fb_core (ds @ sq_queue q)) + ?s' = items"
    unfolding sum [symmetric] by (simp add: q(1) ac_simps)
  with each cnt inv ps(1) q show ?thesis by (auto simp: file_reader_inv_def)
qed

lemma buffer_aligned:
  "O_DIRECT_MEMORY_ALIGNMENT dvd base \<Longrightarrow> O_DIRECT_MULTIPLE dvd R \<Longrightarrow> (base + n * R) mod O_DIRECT_MULTIPLE = 0"
  by (simp add: O_DIRECT_MEMORY_ALIGNMENT_def flip: dvd_eq_mod_eq_0)

lemma reap_step_inv:
  assumes st: "reap_step P fs i k (base + n * R) old r = Some r'" "length old = R div pod_size P"
    and al: "O_DIRECT_MEMORY_ALIGNMENT dvd base" "O_DIRECT_MULTIPLE dvd R"
    and inv: "file_reader_inv P m R fs items (r, ds)" and P: "0 < pod_size P"
  shows "file_reader_inv P m R fs items (r', ds)"
proof -
  let ?w = "fr_workers r ! i" and ?q = "fw_inflight (fr_workers r ! i) ! k"
  let ?d = "file_buffer P fs (fw_files ?w ! rr_file ?q) ?q old"
  from st(1) obtain q where run: "file_running r i" and k: "k < length (fw_inflight ?w)" and q: "Push (fr_queue r) ?d = Some q"
    and r': "r' = r\<lparr>fr_queue := q, fr_workers := (fr_workers r)[i := reap_file k ?w]\<rparr>"
    using buffer_aligned [OF al, of n] by (auto simp: reap_step_def Let_def split: if_splits)
  have i: "i < length (fr_workers r)" and nd: "\<not> fw_done ?w" using run by (simp_all add: file_running_def)
  have wi: "fworker_inv m R fs ?w" using file_reader_worker [OF inv i] .
  note res = reap_file_inv [OF wi k nd, of P]
  have qin: "?q \<in> set (fw_inflight ?w)" using k by simp
  then have qi: "rr_size ?q \<le> R" "rr_offset ?q + rr_size ?q \<le> or_size (fw_files ?w ! rr_file ?q)" "on_disk fs (fw_files ?w ! rr_file ?q)"
    using wi by (auto simp: fworker_inv_def file_inv_def)
  note core = file_buffer_core [OF P qi st(2)]
  have "fw_done (reap_file k ?w) = fw_done ?w" by (simp add: reap_file_def Let_def)
  then show ?thesis
    unfolding r' using inv i core q res
    by (intro file_inv_replace [where ps = "[?d]"]) (auto simp: Push_Some req_item_def)
qed

lemma issue_step_inv:
  assumes st: "issue_step R i r = Some r'" and inv: "file_reader_inv P m R fs items (r, ds)" and R: "0 < R"
  shows "file_reader_inv P m R fs items (r', ds)"
proof -
  let ?w = "fr_workers r ! i"
  from st have run: "file_running r i" and free: "0 < fw_free ?w" and av: "fw_available ?w \<noteq> []"
    and r': "r' = r\<lparr>fr_queue := fr_queue r, fr_workers := (fr_workers r)[i := issue_file R ?w]\<rparr>"
    by (auto simp: issue_step_def Let_def split: if_splits)
  have i: "i < length (fr_workers r)" and nd: "\<not> fw_done ?w" using run by (simp_all add: file_running_def)
  note res = issue_file_inv [OF file_reader_worker [OF inv i] av free nd R, of P]
  have "fw_done (issue_file R ?w) = fw_done ?w" by (simp add: issue_file_def Let_def split: prod.split)
  then show ?thesis
    unfolding r' using inv i res by (intro file_inv_replace [where ps = "[]"]) simp_all
qed

lemma finish_step_inv:
  assumes st: "finish_step i r = Some r'" and inv: "file_reader_inv P m R fs items (r, ds)"
  shows "file_reader_inv P m R fs items (r', ds)"
proof -
  let ?ws = "fr_workers r"
  let ?w = "?ws ! i"
  let ?w' = "?w\<lparr>fw_done := True\<rparr>"
  from st have run: "file_running r i" by (auto simp: finish_step_def Let_def split: if_splits)
  then have i: "i < length ?ws" and nd: "\<not> fw_done ?w" by (simp_all add: file_running_def)
  have wi: "fworker_inv m R fs ?w" using file_reader_worker [OF inv i] .
  have "fr_is_open r" using inv by (simp add: file_reader_inv_def)
  moreover have "length (fw_completed ?w) \<le> length (fw_files ?w)"
  proof -
    have "set (fw_completed ?w) \<subseteq> {..<length (fw_files ?w)}" "distinct (fw_completed ?w)" using wi by (auto simp: fworker_inv_def)
    then show ?thesis using distinct_card card_mono [of "{..<length (fw_files ?w)}"] by (metis card_lessThan finite_lessThan)
  qed
  ultimately have comp: "length (fw_completed ?w) = length (fw_files ?w)"
    using st by (auto simp: finish_step_def Let_def split: if_splits)
  have r': "r' = r\<lparr>fr_workers := ?ws[i := ?w'], fr_active := fr_active r - 1,
      fr_queue := (if fr_active r - 1 = 0 then Close (fr_queue r) else fr_queue r)\<rparr>"
    using st comp run by (simp add: finish_step_def Let_def)
  have "fworker_inv m R fs ?w'" using wi comp by (simp add: fworker_inv_def)
  then have each: "\<forall>w \<in> set (?ws[i := ?w']). fworker_inv m R fs w"
    using inv by (intro ball_set_update) (auto simp: file_reader_inv_def)
  have cnt: "count_left (?ws[i := ?w']) + 1 = count_left ?ws"
    using sum_list_update_add [OF i, where f = "\<lambda>w. if fw_done w then 0 else 1::nat" and y = ?w'] nd
    by (simp add: count_left_def)
  have "(\<Sum>w\<leftarrow>?ws[i := ?w']. left_items P R fs w) + left_items P R fs ?w
      = (\<Sum>w\<leftarrow>?ws. left_items P R fs w) + left_items P R fs ?w'" by (rule sum_list_update_add [OF i])
  then have "(\<Sum>w\<leftarrow>?ws[i := ?w']. left_items P R fs w) = (\<Sum>w\<leftarrow>?ws. left_items P R fs w)"
    by (simp add: left_items_def)
  with inv each cnt show ?thesis unfolding r' by (auto simp: file_reader_inv_def Close_def)
qed

lemma file_poll_inv:
  assumes st: "file_poll r = Some (d, r')" and inv: "file_reader_inv P m R fs items (r, ds)"
  shows "file_reader_inv P m R fs items (r', ds @ [d])"
proof -
  from st obtain q where q: "pop (fr_queue r) = Some (d, q)" and r': "r' = r\<lparr>fr_queue := q\<rparr>"
    by (auto simp: file_poll_def)
  from q have "sq_queue (fr_queue r) = d # sq_queue q" "sq_open q = sq_open (fr_queue r)"
    by (auto simp: pop_def split: list.splits)
  with inv show ?thesis by (simp add: file_reader_inv_def r')
qed

section \<open>Termination and progress\<close>

definition file_worker_work :: "nat \<Rightarrow> file_worker \<Rightarrow> nat" where
  "file_worker_work R w = 3 * (\<Sum>f\<leftarrow>fw_files w. length (unissued R f)) + 2 * length (fw_inflight w)
     + length (fw_available w) + (if fw_done w then 0 else 1)"

definition file_reader_work :: "nat \<Rightarrow> 'a file_reader \<times> 'a FileBuffer list \<Rightarrow> nat" where
  "file_reader_work R s = (\<Sum>w\<leftarrow>fr_workers (fst s). file_worker_work R w) + length (sq_queue (fr_queue (fst s)))"

lemma unissued_sum:
  "size (left_items P R fs w) = length (fw_inflight w) + (\<Sum>f\<leftarrow>fw_files w. length (unissued R f))"
proof -
  have "size (\<Sum>f\<leftarrow>fs'. unissued_items P R fs f) = (\<Sum>f\<leftarrow>fs'. length (unissued R f))" for fs'
    by (induction fs') (simp_all add: unissued_items_def)
  then show ?thesis by (simp add: left_items_def)
qed

lemma file_work_replace:
  assumes "i < length (fr_workers r)"
  shows "file_reader_work R (r\<lparr>fr_queue := q, fr_workers := (fr_workers r)[i := w']\<rparr>, ds)
      + file_worker_work R (fr_workers r ! i) + length (sq_queue (fr_queue r))
    = file_reader_work R (r, ds) + file_worker_work R w' + length (sq_queue q)"
  using sum_list_update_add [OF assms, of "file_worker_work R" w'] by (simp add: file_reader_work_def)

lemma reap_file_work:
  assumes inv: "fworker_inv m R fs w" and k: "k < length (fw_inflight w)" and nd: "\<not> fw_done w"
  shows "file_worker_work R (reap_file k w) + 2 = file_worker_work R w"
proof -
  have "left_items u8_pod R fs w = add_mset (req_item u8_pod fs (fw_files w) (fw_inflight w ! k)) (left_items u8_pod R fs (reap_file k w))"
    using reap_file_inv [OF inv k nd, of u8_pod] by blast
  then have "size (left_items u8_pod R fs w) = Suc (size (left_items u8_pod R fs (reap_file k w)))" by simp
  moreover have "length (fw_inflight (reap_file k w)) + 1 = length (fw_inflight w)" "fw_available (reap_file k w) = fw_available w"
    "fw_done (reap_file k w) = fw_done w" using k by (simp_all add: reap_file_def Let_def)
  ultimately show ?thesis unfolding unissued_sum file_worker_work_def by simp
qed

lemma issue_file_work:
  assumes inv: "fworker_inv m R fs w" and av: "fw_available w \<noteq> []" and free: "0 < fw_free w" and nd: "\<not> fw_done w" and R: "0 < R"
  shows "file_worker_work R (issue_file R w) < file_worker_work R w"
proof -
  have "left_items u8_pod R fs (issue_file R w) = left_items u8_pod R fs w"
    using issue_file_inv [OF assms, of u8_pod] by blast
  then have sz: "length (fw_inflight (issue_file R w)) + (\<Sum>f\<leftarrow>fw_files (issue_file R w). length (unissued R f))
      = length (fw_inflight w) + (\<Sum>f\<leftarrow>fw_files w. length (unissued R f))"
    using unissued_sum [of u8_pod R fs] by metis
  have av': "length (fw_available w) = Suc (length (tl (fw_available w)))" using av by (cases "fw_available w") simp_all
  obtain b f where adv: "advance_to_active R (fw_files w ! hd (fw_available w)) = (b, f)" by (rule prod.exhaust)
  have "(fw_inflight (issue_file R w) = fw_inflight w \<and> length (fw_available (issue_file R w)) + 1 = length (fw_available w)) \<or>
      (length (fw_inflight (issue_file R w)) = length (fw_inflight w) + 1 \<and> length (fw_available (issue_file R w)) \<le> length (fw_available w))"
    using av' adv by (cases b) (simp_all add: issue_file_def Let_def)
  moreover have "fw_done (issue_file R w) = fw_done w" by (simp add: issue_file_def Let_def split: prod.split)
  ultimately show ?thesis using sz unfolding file_worker_work_def by auto
qed

lemma file_step_work:
  assumes st: "file_step P R fs s t" and inv: "file_reader_inv P m R fs items s" and R: "0 < R" "O_DIRECT_MULTIPLE dvd R"
  shows "file_reader_work R t < file_reader_work R s"
  using st
proof cases
  case (fstep_reap i k base n old r r' ds)
  let ?w = "fr_workers r ! i"
  from fstep_reap(3) obtain q d where run: "file_running r i" and k: "k < length (fw_inflight ?w)" and q: "Push (fr_queue r) d = Some q"
    and r': "r' = r\<lparr>fr_queue := q, fr_workers := (fr_workers r)[i := reap_file k ?w]\<rparr>"
    using buffer_aligned [OF fstep_reap(4) R(2), of n] by (auto simp: reap_step_def Let_def split: if_splits)
  have i: "i < length (fr_workers r)" and nd: "\<not> fw_done ?w" using run by (simp_all add: file_running_def)
  have wi: "fworker_inv m R fs ?w" using inv i fstep_reap(1) file_reader_worker by blast
  have "length (sq_queue q) = length (sq_queue (fr_queue r)) + 1" using q by (auto simp: Push_Some)
  then show ?thesis
    unfolding fstep_reap(1,2) r' using file_work_replace [OF i, where R = R and q = q and w' = "reap_file k ?w" and ds = ds] reap_file_work [OF wi k nd] by linarith
next
  case (fstep_issue i r r' ds)
  let ?w = "fr_workers r ! i"
  from fstep_issue(3) have run: "file_running r i" and free: "0 < fw_free ?w" and av: "fw_available ?w \<noteq> []"
    and r': "r' = r\<lparr>fr_queue := fr_queue r, fr_workers := (fr_workers r)[i := issue_file R ?w]\<rparr>"
    by (auto simp: issue_step_def Let_def split: if_splits)
  have i: "i < length (fr_workers r)" and nd: "\<not> fw_done ?w" using run by (simp_all add: file_running_def)
  have wi: "fworker_inv m R fs ?w" using inv i fstep_issue(1) file_reader_worker by blast
  show ?thesis
    unfolding fstep_issue(1,2) r'
    using file_work_replace [OF i, where R = R and q = "fr_queue r" and w' = "issue_file R ?w" and ds = ds] issue_file_work [OF wi av free nd R(1)] by linarith
next
  case (fstep_finish i r r' ds)
  let ?w = "fr_workers r ! i" and ?w' = "(fr_workers r ! i)\<lparr>fw_done := True\<rparr>"
  from fstep_finish(3) have i: "i < length (fr_workers r)" and nd: "\<not> fw_done ?w"
    and ws: "fr_workers r' = (fr_workers r)[i := ?w']" and q: "sq_queue (fr_queue r') = sq_queue (fr_queue r)"
    by (auto simp: finish_step_def Let_def file_running_def Close_def split: if_splits)
  have "file_worker_work R ?w' + 1 = file_worker_work R ?w" using nd by (simp add: file_worker_work_def)
  then show ?thesis
    unfolding fstep_finish(1,2) using sum_list_update_add [OF i, of "file_worker_work R" ?w'] ws q
    by (simp add: file_reader_work_def)
next
  case (fstep_poll r d r' ds)
  then show ?thesis by (auto simp: file_poll_def file_reader_work_def pop_def split: list.splits)
qed

lemma completed_bound:
  assumes "fworker_inv m R fs w" and "j < length (fw_files w)" and "or_completed (fw_files w ! j) \<noteq> or_active (fw_files w ! j)"
  shows "length (fw_completed w) < length (fw_files w)"
proof -
  have sub: "set (fw_completed w) \<subseteq> {..<length (fw_files w)} - {j}" using assms by (auto simp: fworker_inv_def)
  have "length (fw_completed w) = card (set (fw_completed w))" using assms(1) distinct_card [of "fw_completed w"] by (simp only: fworker_inv_def)
  also have "\<dots> \<le> card ({..<length (fw_files w)} - {j})" using sub by (intro card_mono) simp_all
  also have "\<dots> < length (fw_files w)" using assms(2) by simp
  finally show ?thesis .
qed

lemma file_progress:
  assumes inv: "file_reader_inv P m R fs items s" and m: "0 < m" and nd: "\<not> files_drained (fst s)"
  shows "\<exists>t. file_step P R fs s t"
proof -
  obtain r ds where s: "s = (r, ds)" by (cases s)
  define old :: "'a list" where "old = replicate (R div pod_size P) undefined"
  have old: "length old = R div pod_size P" by (simp add: old_def)
  show ?thesis
  proof (cases "sq_queue (fr_queue r)")
    case (Cons d q)
    then have "file_poll r = Some (d, r\<lparr>fr_queue := (fr_queue r)\<lparr>sq_queue := q\<rparr>\<rparr>)" by (simp add: file_poll_def pop_def)
    then show ?thesis unfolding s by (blast intro: fstep_poll)
  next
    case Nil
    have can_push: "\<exists>q. Push (fr_queue r) d = Some q" for d using Nil by (rule Push_empty)
    have nf: "\<not> fr_failed r" using inv by (simp add: s file_reader_inv_def)
    from nd nf Nil obtain w where "w \<in> set (fr_workers r)" and nw: "\<not> fw_done w"
      by (auto simp: s files_drained_def files_joined_def)
    then obtain i where i: "i < length (fr_workers r)" and w: "fr_workers r ! i = w" by (auto simp: in_set_conv_nth)
    have run: "file_running r i" using i w nw nf by (simp add: file_running_def)
    have wi: "fworker_inv m R fs w" using file_reader_worker [OF inv [unfolded s] i] w by simp
    have fi: "\<forall>j < length (fw_files w). file_inv R fs (fw_inflight w) (fw_available w) j (fw_files w ! j)"
      using wi by (simp add: fworker_inv_def)
    show ?thesis
    proof (cases "fw_inflight w")
      case (Cons q qs)
      then have j: "rr_file q < length (fw_files w)" using wi by (simp add: fworker_inv_def)
      have "or_completed (fw_files w ! rr_file q) \<noteq> or_active (fw_files w ! rr_file q)"
        using fi [rule_format, OF j] Cons by (simp add: file_inv_def)
      from completed_bound [OF wi j this]
      have "\<exists>r'. reap_step P fs i 0 (0 + 0 * R) old r = Some r'"
        using can_push [of "file_buffer P fs (fw_files w ! rr_file q) q old"] run w Cons
        by (auto simp: reap_step_def Let_def)
      then show ?thesis unfolding s using old fstep_reap [of P fs i 0 0 0 R old r _ ds] by auto
    next
      case none: Nil
      show ?thesis
      proof (cases "fw_available w")
        case (Cons j js)
        have "0 < fw_free w" using wi m none by (simp add: fworker_inv_def)
        then have "\<exists>r'. issue_step R i r = Some r'" using run w Cons by (simp add: issue_step_def Let_def)
        then show ?thesis unfolding s by (blast intro: fstep_issue)
      next
        case empty: Nil
        have "or_completed (fw_files w ! j) = or_active (fw_files w ! j)" if "j < length (fw_files w)" for j
          using fi [rule_format, OF that] by (auto simp: file_inv_def none empty)
        then have "set (fw_completed w) = {..<length (fw_files w)}" using wi by (auto simp: fworker_inv_def)
        then have "length (fw_completed w) = length (fw_files w)"
          using wi by (metis card_lessThan distinct_card fworker_inv_def)
        then have "\<exists>r'. finish_step i r = Some r'" using run w by (auto simp: finish_step_def Let_def)
        then show ?thesis unfolding s by (blast intro: fstep_finish)
      qed
    qed
  qed
qed

definition file_reader_good :: "'a pod \<Rightarrow> nat \<Rightarrow> nat \<Rightarrow> fstore \<Rightarrow> (nat \<times> nat \<times> 'a list) multiset \<Rightarrow>
    'a file_reader \<times> 'a FileBuffer list \<Rightarrow> bool" where
  "file_reader_good P m R fs items s \<longleftrightarrow> file_reader_inv P m R fs items s \<and> 0 < m \<and> 0 < R \<and> O_DIRECT_MULTIPLE dvd R \<and> 0 < pod_size P"

interpretation file_machine: finite_machine "file_step P R fs" "file_reader_good P m R fs items"
    "file_reader_work R" "\<lambda>s. files_drained (fst s)" for P R fs m items
proof unfold_locales
  fix s t :: "'a file_reader \<times> 'a FileBuffer list"
  assume g: "file_reader_good P m R fs items s"
  show "\<not> files_drained (fst s) \<Longrightarrow> \<exists>t. file_step P R fs s t"
    using g by (intro file_progress) (auto simp: file_reader_good_def)
  assume st: "file_step P R fs s t"
  show "file_reader_good P m R fs items t"
    using g st by (elim file_stepE)
      (auto simp: file_reader_good_def intro: reap_step_inv issue_step_inv finish_step_inv file_poll_inv)
  show "file_reader_work R t < file_reader_work R s"
    using file_step_work [OF st] g by (auto simp: file_reader_good_def)
qed

section \<open>What a started reader delivers\<close>

text \<open>The active chunks of the files, each as file index, position of its first element and elements.\<close>

definition file_items :: "'a pod \<Rightarrow> nat \<Rightarrow> u64 list list option \<Rightarrow> fstore \<Rightarrow> FileInfo list \<Rightarrow> (nat \<times> nat \<times> 'a list) multiset" where
  "file_items P R chunks fs infos =
     (\<Sum>info\<leftarrow>infos. let f = open_read R chunks info
        in mset (map (chunk_item P R fs f) (filter (chunk_active f) [0..<file_num_chunks R f])))"

definition file_on_disk :: "fstore \<Rightarrow> FileInfo \<Rightarrow> bool" where
  "file_on_disk fs info \<longleftrightarrow> fi_file_size info \<le> length (file_of fs (fi_file_name info))"

definition file_config_ok :: "UnorderedReaderConfig \<Rightarrow> bool" where
  "file_config_ok cfg \<longleftrightarrow> 0 < uc_num_threads cfg \<and> 0 < uc_max_requests cfg"

lemma open_read_fresh:
  "or_issued (open_read R chunks info) = 0" "or_completed (open_read R chunks info) = 0"
  "or_size (open_read R chunks info) = fi_file_size info" "or_name (open_read R chunks info) = fi_file_name info"
  "or_index (open_read R chunks info) = fi_file_index info"
  by (simp_all add: open_read_def Let_def)

lemma open_read_active:
  "or_active (open_read R chunks info) = length (filter (chunk_active (open_read R chunks info)) [0..<file_num_chunks R (open_read R chunks info)])"
proof -
  have a: "chunk_active (f\<lparr>or_active := n\<rparr>) = chunk_active f" "file_num_chunks R (f\<lparr>or_active := n\<rparr>) = file_num_chunks R f" for f n
    by (simp_all add: chunk_active_def file_num_chunks_def fun_eq_iff)
  have "filter (chunk_active f) cs = cs" if "or_bits f = None" for f cs
    using that by (simp add: chunk_active_def)
  then show ?thesis
    unfolding open_read_def Let_def a by (auto split: option.split)
qed

lemma unissued_fresh:
  assumes "0 < R"
  shows "unissued R (open_read R chunks info) = filter (chunk_active (open_read R chunks info)) [0..<file_num_chunks R (open_read R chunks info)]"
  using unissued_from [OF assms, of "open_read R chunks info" 0] by (simp add: open_read_fresh)

lemma start_worker_inv:
  assumes R: "0 < R" and disk: "\<forall>info \<in> set infos. file_on_disk fs info"
  shows "fworker_inv (uc_max_requests cfg) R fs (start_file_worker R cfg infos) \<and>
    left_items P R fs (start_file_worker R cfg infos) = file_items P R (uc_active_chunks cfg) fs infos"
proof -
  let ?open = "open_read R (uc_active_chunks cfg)"
  have "file_inv R fs [] (filter (\<lambda>j. or_active (map ?open infos ! j) \<noteq> 0) [0..<length infos]) j (map ?open infos ! j)"
    if j: "j < length infos" for j
  proof -
    have "on_chunk R (?open (infos ! j))" unfolding on_chunk_def by (intro exI [of _ 0]) (simp add: open_read_fresh)
    moreover have "on_disk fs (?open (infos ! j))"
      using disk j by (simp add: on_disk_def file_on_disk_def open_read_fresh)
    moreover have "or_active (?open (infos ! j)) = length (unissued R (?open (infos ! j)))"
      unfolding unissued_fresh [OF R] by (rule open_read_active)
    ultimately show ?thesis using j by (simp add: file_inv_def open_read_fresh)
  qed
  then have "fworker_inv (uc_max_requests cfg) R fs (start_file_worker R cfg infos)"
    by (auto simp: fworker_inv_def start_file_worker_def Let_def open_read_fresh)
  moreover have "left_items P R fs (start_file_worker R cfg infos) = file_items P R (uc_active_chunks cfg) fs infos"
    by (simp add: left_items_def start_file_worker_def Let_def file_items_def unissued_items_def unissued_fresh [OF R] comp_def)
  ultimately show ?thesis by blast
qed

lemma file_items_perm:
  assumes "mset xs = mset ys"
  shows "file_items P R chunks fs xs = file_items P R chunks fs ys"
  unfolding file_items_def using assms by (rule sum_list_perm)

lemma file_items_concat: "(\<Sum>xs\<leftarrow>xss. file_items P R chunks fs xs) = file_items P R chunks fs (concat xss)"
  by (induction xss) (simp_all add: file_items_def)

lemma StartFiles_good:
  assumes st: "StartFiles R cfg (PrepFileList new_file_reader infos) = Some r"
    and cfg: "file_config_ok cfg" and R: "0 < R" "O_DIRECT_MULTIPLE dvd R" and P: "0 < pod_size P" and disk: "\<forall>info \<in> set infos. file_on_disk fs info"
  shows "file_reader_good P (uc_max_requests cfg) R fs (file_items P R (uc_active_chunks cfg) fs infos) (r, [])"
proof -
  let ?t = "uc_num_threads cfg"
  have t: "0 < ?t" using cfg by (simp add: file_config_ok_def)
  have "Some r = Some ((PrepFileList new_file_reader infos)\<lparr>fr_queue := SetSizeLimit (SimpleQueue 0) (uc_buffer_queue_size cfg),
      fr_active := ?t, fr_workers := map (\<lambda>i. start_file_worker R cfg (stride i ?t infos)) [0..<?t]\<rparr>)"
    unfolding st [symmetric] using t by (simp add: StartFiles_def PrepFileList_def new_file_reader_def)
  then have r_def: "r = (PrepFileList new_file_reader infos)\<lparr>fr_queue := SetSizeLimit (SimpleQueue 0) (uc_buffer_queue_size cfg),
      fr_active := ?t, fr_workers := map (\<lambda>i. start_file_worker R cfg (stride i ?t infos)) [0..<?t]\<rparr>"
    by (simp only: option.inject)
  have r: "fr_workers r = map (\<lambda>i. start_file_worker R cfg (stride i ?t infos)) [0..<?t]" "fr_active r = ?t"
    "fr_queue r = SetSizeLimit (SimpleQueue 0) (uc_buffer_queue_size cfg)" "fr_is_open r" "\<not> fr_failed r"
    unfolding r_def by (simp_all add: PrepFileList_def new_file_reader_def)
  have sub: "\<forall>info \<in> set (stride i ?t infos). file_on_disk fs info" for i
    using disk set_stride [of i ?t infos] by (simp add: subset_iff)
  have each: "\<forall>w \<in> set (fr_workers r). fworker_inv (uc_max_requests cfg) R fs w"
    using start_worker_inv [OF R(1) sub] by (auto simp: r)
  have "(\<Sum>w\<leftarrow>fr_workers r. left_items P R fs w)
      = (\<Sum>xs\<leftarrow>map (\<lambda>i. stride i ?t infos) [0..<?t]. file_items P R (uc_active_chunks cfg) fs xs)"
    using start_worker_inv [OF R(1) sub, where cfg = cfg and P = P] by (simp add: r comp_def)
  also have "\<dots> = file_items P R (uc_active_chunks cfg) fs infos"
    unfolding file_items_concat using mset_strides [OF t, of infos] by (intro file_items_perm) (simp add: mset_concat comp_def)
  finally have items: "(\<Sum>w\<leftarrow>fr_workers r. left_items P R fs w) = file_items P R (uc_active_chunks cfg) fs infos" .
  have "count_left (fr_workers r) = ?t"
    by (simp add: r count_left_def start_file_worker_def Let_def comp_def sum_list_triv)
  with each items t cfg R P show ?thesis
    by (simp add: file_reader_good_def file_reader_inv_def file_config_ok_def r new_file_reader_def SimpleQueue_def SetSizeLimit_def)
qed

lemma files_drained_items:
  assumes inv: "file_reader_inv P m R fs items (r, ds)" and dr: "files_drained r"
  shows "mset (map fb_core ds) = items \<and> (\<forall>d \<in> set ds. fb_ok (R div pod_size P) d)"
proof -
  have "left_items P R fs w = {#}" if "w \<in> set (fr_workers r)" for w
  proof -
    have wi: "fworker_inv m R fs w" and "fw_done w"
      using that inv dr by (auto simp: file_reader_inv_def files_drained_def files_joined_def)
    then have "length (fw_completed w) = length (fw_files w)" by (simp add: fworker_inv_def)
    with completed_bound [OF wi] have c: "or_completed (fw_files w ! j) = or_active (fw_files w ! j)" if "j < length (fw_files w)" for j
      using that by (metis less_irrefl)
    have fi: "\<forall>j < length (fw_files w). file_inv R fs (fw_inflight w) (fw_available w) j (fw_files w ! j)"
      using wi by (simp add: fworker_inv_def)
    have un: "unissued R f = []" if f: "f \<in> set (fw_files w)" for f
    proof -
      obtain j where j: "j < length (fw_files w)" "f = fw_files w ! j" using f by (auto simp: in_set_conv_nth)
      then show ?thesis using fi [rule_format, OF j(1)] c [OF j(1)] by (simp add: file_inv_def)
    qed
    have "fw_inflight w = []"
    proof (cases "fw_inflight w")
      case (Cons q qs)
      then have j: "rr_file q < length (fw_files w)" using wi by (simp add: fworker_inv_def)
      then show ?thesis using fi [rule_format, OF j] c [OF j] Cons by (simp add: file_inv_def)
    qed simp
    moreover have "(\<Sum>f\<leftarrow>fw_files w. unissued_items P R fs f) = (\<Sum>f\<leftarrow>fw_files w. {#})"
      using un by (intro arg_cong [of _ _ sum_list] map_cong refl) (simp add: unissued_items_def)
    ultimately show ?thesis by (simp add: left_items_def)
  qed
  then have "(\<Sum>w\<leftarrow>fr_workers r. left_items P R fs w) = (\<Sum>w\<leftarrow>fr_workers r. {#})"
    by (intro arg_cong [of _ _ sum_list] map_cong refl)
  then have "(\<Sum>w\<leftarrow>fr_workers r. left_items P R fs w) = {#}" by simp
  then show ?thesis using inv dr by (simp add: file_reader_inv_def files_drained_def)
qed

text \<open>The interface the file primitives use.\<close>

locale file_source =
  fixes polls :: "'a pod \<Rightarrow> nat \<Rightarrow> UnorderedReaderConfig \<Rightarrow> fstore \<Rightarrow> FileInfo list \<Rightarrow> 'a FileBuffer list \<Rightarrow> bool"
  assumes polls_items:
      "polls P R cfg fs infos ds \<Longrightarrow> file_config_ok cfg \<Longrightarrow> 0 < R \<Longrightarrow> O_DIRECT_MULTIPLE dvd R \<Longrightarrow> 0 < pod_size P \<Longrightarrow>
       \<forall>info \<in> set infos. file_on_disk fs info \<Longrightarrow>
       mset (map fb_core ds) = file_items P R (uc_active_chunks cfg) fs infos \<and> (\<forall>d \<in> set ds. fb_ok (R div pod_size P) d)"
    and polls_exist:
      "file_config_ok cfg \<Longrightarrow> 0 < R \<Longrightarrow> O_DIRECT_MULTIPLE dvd R \<Longrightarrow> 0 < pod_size P \<Longrightarrow>
       \<forall>info \<in> set infos. file_on_disk fs info \<Longrightarrow> \<exists>ds. polls P R cfg fs infos ds"

interpretation file_reader: file_source file_polls
proof unfold_locales
  fix P :: "'a pod" and R :: nat and cfg fs infos ds
  assume h: "file_config_ok cfg" "0 < R" "O_DIRECT_MULTIPLE dvd R" "0 < pod_size P" "\<forall>info \<in> set infos. file_on_disk fs info"
  show "mset (map fb_core ds) = file_items P R (uc_active_chunks cfg) fs infos \<and> (\<forall>d \<in> set ds. fb_ok (R div pod_size P) d)"
    if p: "file_polls P R cfg fs infos ds"
  proof -
    obtain r r' where st: "StartFiles R cfg (PrepFileList new_file_reader infos) = Some r"
      and run: "rtranclp (file_step P R fs) (r, []) (r', ds)" and dr: "files_drained r'" using p by (auto simp: file_polls_def)
    from file_machine.reach_good [OF run StartFiles_good [OF st h]]
    have "file_reader_inv P (uc_max_requests cfg) R fs (file_items P R (uc_active_chunks cfg) fs infos) (r', ds)"
      by (simp add: file_reader_good_def)
    from files_drained_items [OF this dr] show ?thesis .
  qed
  obtain r where st: "StartFiles R cfg (PrepFileList new_file_reader infos) = Some (r :: 'a file_reader)"
    using h(1) by (auto simp: StartFiles_def file_config_ok_def)
  obtain t where "rtranclp (file_step P R fs) (r, []) t" and "files_drained (fst t)"
    using file_machine.reach_halted [OF StartFiles_good [OF st h]] by blast
  then show "\<exists>ds. file_polls P R cfg fs infos ds" using st by (cases t) (auto simp: file_polls_def)
qed

section \<open>A whole file\<close>

definition file_elems :: "'a pod \<Rightarrow> fstore \<Rightarrow> FileInfo \<Rightarrow> 'a list" where
  "file_elems P fs info = dec_list P (fi_file_size info div pod_size P) (file_of fs (fi_file_name info))"

lemma dec_list_drop: "dec_list P k (drop (j * pod_size P) bs) = drop j (dec_list P (j + k) bs)"
proof (induction j arbitrary: bs)
  case 0
  then show ?case by simp
next
  case (Suc j)
  have "drop (Suc j * pod_size P) bs = drop (j * pod_size P) (drop (pod_size P) bs)" by (simp add: add.commute)
  then show ?case using Suc [of "drop (pod_size P) bs"] by simp
qed

lemma nth_dec_list: "j < n \<Longrightarrow> dec_list P n bs ! j = pod_dec P (take (pod_size P) (drop (j * pod_size P) bs))"
proof (induction n arbitrary: j bs)
  case 0
  then show ?case by simp
next
  case (Suc n)
  show ?case
  proof (cases j)
    case (Suc i)
    then show ?thesis using Suc.IH [of i "drop (pod_size P) bs"] Suc.prems by (simp add: add.commute)
  qed simp
qed

text \<open>Without a bitmap the chunks of a file are the consecutive runs of its elements.\<close>

lemma chunk_item_run:
  assumes sz: "0 < pod_size P" "pod_size P dvd R" and disk: "file_on_disk fs info"
    and c: "c * R \<le> fi_file_size info"
  shows "chunk_item P R fs (open_read R chunks info) c
    = (fi_file_index info, c * (R div pod_size P), run_of (R div pod_size P) (file_elems P fs info) c)"
proof -
  let ?sz = "pod_size P" and ?size = "fi_file_size info" and ?bs = "file_of fs (fi_file_name info)"
  define cap where "cap = R div pod_size P"
  have R: "R = cap * ?sz" using sz(2) by (simp add: cap_def)
  have off: "c * R = c * cap * ?sz" by (simp add: R)
  define n where "n = min R (?size - c * R)"
  have k: "n div ?sz = min cap (?size div ?sz - c * cap)"
  proof -
    define x where "x = ?size - c * R"
    have "?size = x + c * cap * ?sz" unfolding off [symmetric] x_def using c by simp
    then have "?size div ?sz = c * cap + x div ?sz" using sz(1) by simp
    then have x: "x div ?sz = ?size div ?sz - c * cap" by simp
    have "min R x div ?sz = min (R div ?sz) (x div ?sz)"
    proof (cases "R \<le> x")
      case True
      with div_le_mono [OF this, of ?sz] show ?thesis by (simp add: min_absorb1)
    next
      case False
      then have "x \<le> R" by simp
      with div_le_mono [OF this, of ?sz] show ?thesis by (simp add: min_absorb2)
    qed
    then show ?thesis by (simp add: n_def x_def [symmetric] x cap_def)
  qed
  have "chunk_item P R fs (open_read R chunks info) c = (fi_file_index info, c * cap, dec_list P (n div ?sz) (fs_read fs (fi_file_name info) (c * R) n))"
    using sz(1) by (simp add: chunk_item_def bytes_core_def open_read_fresh n_def off)
  moreover have "dec_list P (n div ?sz) (fs_read fs (fi_file_name info) (c * R) n) = run_of cap (file_elems P fs info) c"
  proof -
    let ?m = "n div ?sz"
    have "dec_list P ?m (fs_read fs (fi_file_name info) (c * R) n) = dec_list P ?m (drop (c * cap * ?sz) ?bs)"
      unfolding fs_read_def off by (rule dec_list_take) (rule div_times_less_eq_dividend)
    also have "\<dots> = drop (c * cap) (dec_list P (c * cap + ?m) ?bs)" by (rule dec_list_drop)
    also have "dec_list P (c * cap + ?m) ?bs = take (c * cap + ?m) (file_elems P fs info)"
    proof -
      have "c * cap + ?m \<le> ?size div ?sz"
      proof -
        have "c * cap \<le> ?size div ?sz" using div_le_mono [OF c, of ?sz] sz(1) by (simp add: off)
        then show ?thesis by (simp add: k)
      qed
      then show ?thesis by (simp add: file_elems_def take_dec_list)
    qed
    also have "drop (c * cap) (take (c * cap + ?m) (file_elems P fs info)) = take ?m (drop (c * cap) (file_elems P fs info))"
      by (simp add: drop_take)
    also have "\<dots> = run_of cap (file_elems P fs info) c"
      by (simp add: run_of_def k file_elems_def min_def take_all_iff)
    finally show ?thesis .
  qed
  ultimately show ?thesis by (simp add: cap_def)
qed

lemma whole_file_items:
  assumes sz: "0 < pod_size P" "pod_size P dvd R" "0 < R" and disk: "file_on_disk fs info"
  shows "file_items P R None fs [info] = mset (map (\<lambda>c. (fi_file_index info, c * (R div pod_size P),
      run_of (R div pod_size P) (file_elems P fs info) c)) [0..<ceil_div (fi_file_size info) R])"
proof -
  let ?f = "open_read R None info"
  have act: "chunk_active ?f = (\<lambda>_. True)" by (simp add: open_read_def Let_def chunk_active_def fun_eq_iff)
  have "file_num_chunks R ?f = ceil_div (fi_file_size info) R" by (simp add: file_num_chunks_ceil open_read_fresh)
  moreover have "chunk_item P R fs ?f c = (fi_file_index info, c * (R div pod_size P), run_of (R div pod_size P) (file_elems P fs info) c)"
    if "c < ceil_div (fi_file_size info) R" for c
    using chunk_item_run [OF sz(1,2) disk, of c None] less_ceil_div_iff [OF sz(3)] that by (simp add: less_imp_le)
  then have "map (chunk_item P R fs ?f) [0..<ceil_div (fi_file_size info) R] = map (\<lambda>c. (fi_file_index info, c * (R div pod_size P),
      run_of (R div pod_size P) (file_elems P fs info) c)) [0..<ceil_div (fi_file_size info) R]"
    by (intro map_cong refl) simp
  ultimately show ?thesis by (simp add: file_items_def Let_def act del: mset_map mset_upt map_eq_conv)
qed

text \<open>The elements of the delivered chunks are those of the files.\<close>

definition chunk_elems_of :: "'a FileBuffer \<Rightarrow> 'a list" where
  "chunk_elems_of d = take (fb_size d) (fb_data d)"

lemma file_items_elems:
  assumes sz: "0 < pod_size P" "pod_size P dvd R" "0 < R" and disk: "\<forall>info \<in> set infos. file_on_disk fs info"
    and items: "mset (map fb_core ds) = file_items P R None fs infos"
  shows "(\<Sum>d\<leftarrow>ds. mset (chunk_elems_of d)) = (\<Sum>info\<leftarrow>infos. mset (file_elems P fs info))"
    and "d \<in> set ds \<Longrightarrow> \<exists>info \<in> set infos. fb_file_index d = fi_file_index info"
proof -
  let ?E = "R div pod_size P"
  let ?run = "\<lambda>info c. (fi_file_index info, c * ?E, run_of ?E (file_elems P fs info) c)"
  have split: "file_items P R None fs infos = (\<Sum>info\<leftarrow>infos. file_items P R None fs [info])"
    by (simp add: file_items_def)
  have one: "file_items P R None fs [info] = mset (map (?run info) [0..<ceil_div (fi_file_size info) R])" if "info \<in> set infos" for info
    using whole_file_items [OF sz bspec [OF disk that]] .
  have E: "0 < ?E" using sz by (simp add: dvd_imp_le div_greater_zero_iff)
  have elems: "\<Sum>\<^sub># (image_mset (\<lambda>i. mset (snd (snd i))) (file_items P R None fs [info])) = mset (file_elems P fs info)"
    if "info \<in> set infos" for info
  proof -
    have "length (file_elems P fs info) \<le> ceil_div (fi_file_size info) R * ?E"
    proof -
      have "fi_file_size info \<le> ceil_div (fi_file_size info) R * R" using sz(3) by (rule ceil_div_ge)
      also have "\<dots> = ceil_div (fi_file_size info) R * ?E * pod_size P" using sz(2) by simp
      finally have "fi_file_size info div pod_size P \<le> ceil_div (fi_file_size info) R * ?E"
        using sz(1) by (metis div_le_mono nonzero_mult_div_cancel_right less_not_refl2)
      then show ?thesis by (simp add: file_elems_def)
    qed
    from concat_runs [OF this]
    have "mset (concat (map (run_of ?E (file_elems P fs info)) [0..<ceil_div (fi_file_size info) R])) = mset (file_elems P fs info)" by simp
    moreover have "\<Sum>\<^sub># (image_mset (\<lambda>i. mset (snd (snd i))) (mset (map (?run info) cs)))
        = mset (concat (map (run_of ?E (file_elems P fs info)) cs))" for cs by (induction cs) simp_all
    ultimately show ?thesis unfolding one [OF that] by (simp only:)
  qed
  have sums: "\<Sum>\<^sub># (image_mset (\<lambda>i. mset (snd (snd i))) (\<Sum>info\<leftarrow>infos'. file_items P R None fs [info])) =
      (\<Sum>info\<leftarrow>infos'. mset (file_elems P fs info))" if "set infos' \<subseteq> set infos" for infos'
    using that by (induction infos') (simp_all add: elems)
  have "(\<Sum>d\<leftarrow>ds. mset (chunk_elems_of d)) = \<Sum>\<^sub># (image_mset (\<lambda>i. mset (snd (snd i))) (mset (map fb_core ds)))"
    by (induction ds) (simp_all add: fb_core_def chunk_elems_of_def)
  also have "\<dots> = (\<Sum>info\<leftarrow>infos. mset (file_elems P fs info))" unfolding items split by (rule sums) simp
  finally show "(\<Sum>d\<leftarrow>ds. mset (chunk_elems_of d)) = (\<Sum>info\<leftarrow>infos. mset (file_elems P fs info))" .
  show "\<exists>info \<in> set infos. fb_file_index d = fi_file_index info" if "d \<in> set ds"
  proof -
    have "fb_core d \<in># mset (map fb_core ds)" using that by simp
    then have "fb_core d \<in># (\<Sum>info\<leftarrow>infos. file_items P R None fs [info])" unfolding items split .
    moreover have "x \<in># (\<Sum>info\<leftarrow>infos'. file_items P R None fs [info]) \<Longrightarrow> \<exists>info \<in> set infos'. x \<in># file_items P R None fs [info]"
      for x infos' by (induction infos') auto
    ultimately obtain info where "info \<in> set infos" "fb_core d \<in># file_items P R None fs [info]" by blast
    then show ?thesis using one by (auto simp: fb_core_def)
  qed
qed

section \<open>Properties\<close>

lemma dec_list_u8: "n \<le> length bs \<Longrightarrow> dec_list u8_pod n bs = take n bs"
proof (induction n arbitrary: bs)
  case 0
  then show ?case by simp
next
  case (Suc n)
  then show ?case by (cases bs) (simp_all add: u8_pod_def)
qed

lemma u8_size: "pod_size u8_pod = 1"
  by (simp add: u8_pod_def)

text \<open>The examples: a file of twelve bytes, and one of three pages of which a bitmap marks two.\<close>

definition demo_info :: FileInfo where
  "demo_info = \<lparr>fi_file_name = ''f'', fi_file_index = 0, fi_true_size = 12, fi_file_size = 12, fi_before_size = 0\<rparr>"

definition demo_file_fs :: fstore where
  "demo_file_fs = [''f'' \<mapsto> [1, 2, 3, 4, 5, 6, 7, 8, 9, 10, 11, 12]]"

definition page :: "byte \<Rightarrow> byte list" where
  "page b = replicate 4096 b"

definition pages_info :: FileInfo where
  "pages_info = \<lparr>fi_file_name = ''f'', fi_file_index = 0, fi_true_size = 3 * 4096, fi_file_size = 3 * 4096, fi_before_size = 0\<rparr>"

definition pages_fs :: fstore where
  "pages_fs = [''f'' \<mapsto> page 1 @ page 2 @ page 3]"

lemma length_page: "length (page b) = 4096"
  by (simp add: page_def)

text \<open>C12: \<open>UnorderedFileReader\<close> delivers every active chunk exactly once. For a read size that is a
multiple of \<open>O_DIRECT_MULTIPLE\<close> and files whose recorded size is on disk, any number of threads and
requests and any order of completions, a started reader that is polled always comes to its end, and
its results are, up to order, the chunks of all files that the bitmap of the file marks (all of them
if there is no bitmap, or an empty one, whose \<open>data()\<close> is null), each with its file index, the
position of its first element and exactly its elements.\<close>

theorem file_reader_delivers:
  assumes "file_config_ok cfg" and "0 < R" and "O_DIRECT_MULTIPLE dvd R" and "0 < pod_size P"
    and "\<forall>info \<in> set infos. file_on_disk fs info"
  shows "(\<exists>ds. file_polls P R cfg fs infos ds) \<and>
    (\<forall>ds. file_polls P R cfg fs infos ds \<longrightarrow>
       mset (map (\<lambda>d. (fb_file_index d, fb_index d, take (fb_size d) (fb_data d))) ds)
         = file_items P R (uc_active_chunks cfg) fs infos)"
  using file_reader.polls_exist [OF assms] file_reader.polls_items [OF _ assms] by (simp add: fb_core_def [abs_def])

lemma file_reader_delivers_witness:
  "\<exists>ds. file_polls u8_pod 4096 (default_file_reader_config\<lparr>uc_active_chunks := Some [[5]]\<rparr>) pages_fs [pages_info] ds \<and>
     mset (map (\<lambda>d. (fb_file_index d, fb_index d, take (fb_size d) (fb_data d))) ds)
       = {#(0, 0, page 1), (0, 8192, page 3)#}"
proof -
  let ?cfg = "default_file_reader_config\<lparr>uc_active_chunks := Some [[5]]\<rparr>"
  let ?f = "open_read 4096 (Some [[5]]) pages_info"
  have h: "file_config_ok ?cfg" "0 < (4096 :: nat)" "O_DIRECT_MULTIPLE dvd 4096" "0 < pod_size u8_pod"
    "\<forall>info \<in> set [pages_info]. file_on_disk pages_fs info"
    by (simp_all add: file_config_ok_def default_file_reader_config_def file_on_disk_def pages_info_def pages_fs_def
        file_of_def u8_pod_def length_page O_DIRECT_MULTIPLE_def)
  have "bit (5 :: u64) 0" "\<not> bit (5 :: u64) 1" "bit (5 :: u64) 2" by simp_all
  then have "chunk_active ?f 0" "\<not> chunk_active ?f 1" "chunk_active ?f 2"
    by (simp_all add: chunk_active_def open_read_def pages_info_def Let_def)
  moreover have "[0..<3] = [0, 1, 2 :: nat]" by (simp add: numeral_3_eq_3)
  ultimately have "filter (chunk_active ?f) [0..<3] = [0, 2]" by simp
  moreover have "file_num_chunks 4096 ?f = 3"
    by (simp add: file_num_chunks_def open_read_def pages_info_def Let_def)
  moreover have "chunk_item u8_pod 4096 pages_fs ?f 0 = (0, 0, page 1)"
    "chunk_item u8_pod 4096 pages_fs ?f 2 = (0, 8192, page 3)"
    by (simp_all add: chunk_item_def bytes_core_def open_read_fresh pages_info_def pages_fs_def dec_list_u8 u8_size
        fs_read_def file_of_def length_page)
  ultimately have items: "file_items u8_pod 4096 (uc_active_chunks ?cfg) pages_fs [pages_info]
      = {#(0, 0, page 1), (0, 8192, page 3)#}"
    by (simp add: file_items_def Let_def del: mset_map mset_filter)
  note d = file_reader_delivers [OF h]
  obtain ds where p: "file_polls u8_pod 4096 ?cfg pages_fs [pages_info] ds" using d by (elim conjE exE)
  then have "mset (map (\<lambda>d. (fb_file_index d, fb_index d, take (fb_size d) (fb_data d))) ds)
      = file_items u8_pod 4096 (uc_active_chunks ?cfg) pages_fs [pages_info]" using d by simp
  with p items show ?thesis by (intro exI [of _ ds] conjI) simp_all
qed

end
