(* ===== verification/FileWriter.thy ===== *)
theory FileWriter
  imports ChunkWriter
begin

text \<open>
  utils/unordered_file_writer.h: \<open>UnorderedFileWriter\<close>. It is the machine of ChunkWriter with
  another reservation: a request without an explicit offset is written at the append cursor of its
  file, and the cursor moves on for every request. With one worker thread, which is how the
  sequence algorithms use it for a single file, the writer is equivalent to writing the requests
  one after the other (\<open>seq_writer\<close>).
\<close>

definition default_file_writer_config :: UnorderedChunkWriterConfig where
  "default_file_writer_config =
     \<lparr>wc_io_uring_size = 64, wc_queue_size = 1000, wc_num_threads = 1,
      wc_num_files = SSD_COUNT, wc_allow_expand = False\<rparr>"

definition reserve_file :: "nat \<Rightarrow> 'b write_request \<Rightarrow> OpenedFile \<Rightarrow> nat \<times> OpenedFile" where
  "reserve_file num_bytes r f =
     (let offset = of_bytes_issued f;
          offset' = (case wr_file_offset r of Some off \<Rightarrow> off | None \<Rightarrow> offset)
      in (offset', f\<lparr>of_bytes_issued := of_bytes_issued f + num_bytes\<rparr>))"

text \<open>The operations of the class, over the state of the shared machine.\<close>

definition file_writer_start :: "UnorderedChunkWriterConfig \<Rightarrow> string list \<Rightarrow> 'b writer \<Rightarrow> 'b writer option" where
  "file_writer_start cfg names w = writer_start cfg names w"

definition file_writer_start_prefix ::
    "UnorderedChunkWriterConfig \<Rightarrow> string list \<Rightarrow> string \<Rightarrow> 'b writer \<Rightarrow> 'b writer option" where
  "file_writer_start_prefix cfg ssds prefix w =
     file_writer_start cfg (map (GetFileName ssds prefix) [0..<wc_num_files cfg]) (w\<lparr>wt_prefix := prefix\<rparr>)"

definition file_writer_push :: "'b pod \<Rightarrow> nat \<Rightarrow> 'b write_request \<Rightarrow> 'b writer \<Rightarrow> 'b writer option" where
  "file_writer_push P A r w = (if push_check P A r then writer_push r w else None)"

definition file_writer_expand :: "string list \<Rightarrow> nat \<Rightarrow> 'b writer \<Rightarrow> 'b writer option" where
  "file_writer_expand ssds new_num_files w = ExpandFiles ssds new_num_files w"

definition file_writer_take :: "'b pod \<Rightarrow> string list \<Rightarrow> nat \<Rightarrow> nat \<Rightarrow> 'b writer \<Rightarrow> 'b writer option" where
  "file_writer_take P ssds io_uring_size i w = writer_take reserve_file P ssds io_uring_size i w"

definition file_writer_complete ::
    "'b pod \<Rightarrow> nat \<Rightarrow> nat \<Rightarrow> 'b writer \<times> fstore \<Rightarrow> ('b write_request \<times> 'b writer \<times> fstore) option" where
  "file_writer_complete P i k s = writer_complete P i k s"

definition file_writer_finish :: "nat \<Rightarrow> 'b writer \<Rightarrow> 'b writer option" where
  "file_writer_finish i w = writer_finish i w"

definition file_writer_wait :: "'b writer \<Rightarrow> 'b writer option" where
  "file_writer_wait w = (if wt_cleanup_done w then None else Some (writer_close w))"

inductive file_writer_step :: "'b pod \<Rightarrow> nat \<Rightarrow> string list \<Rightarrow> nat \<Rightarrow> 'b writer_state \<Rightarrow> 'b writer_state \<Rightarrow> bool"
  for P A ssds ring where
  fwstep_push: "file_writer_push P A r w = Some w' \<Longrightarrow>
    file_writer_step P A ssds ring (w, fs, r # rs, ds) (w', fs, rs, ds)"
| fwstep_take: "file_writer_take P ssds ring i w = Some w' \<Longrightarrow>
    file_writer_step P A ssds ring (w, fs, rs, ds) (w', fs, rs, ds)"
| fwstep_complete: "file_writer_complete P i k (w, fs) = Some (r, w', fs') \<Longrightarrow>
    file_writer_step P A ssds ring (w, fs, rs, ds) (w', fs', rs, ds @ [r])"
| fwstep_finish: "file_writer_finish i w = Some w' \<Longrightarrow>
    file_writer_step P A ssds ring (w, fs, rs, ds) (w', fs, rs, ds)"
| fwstep_wait: "file_writer_wait w = Some w' \<Longrightarrow>
    file_writer_step P A ssds ring (w, fs, [], ds) (w', fs, [], ds)"

definition file_writer_runs :: "nat \<Rightarrow> string list \<Rightarrow> UnorderedChunkWriterConfig \<Rightarrow>
    'b pod \<Rightarrow> string list \<Rightarrow> fstore \<Rightarrow> 'b write_request list \<Rightarrow> fstore \<Rightarrow> bool" where
  "file_writer_runs A ssds cfg P names fs rs fs' \<longleftrightarrow>
     (\<exists>w w' ds. file_writer_start cfg names new_writer = Some w \<and>
        rtranclp (file_writer_step P A ssds (wc_io_uring_size cfg)) (w, fs, rs, []) (w', fs', [], ds) \<and>
        writer_joined w')"

lemma file_writer_step_machine: "file_writer_step P A ssds ring = writer_step reserve_file P A ssds ring"
proof (intro ext iffI)
  fix s t
  assume "file_writer_step P A ssds ring s t"
  then show "writer_step reserve_file P A ssds ring s t"
    by cases (auto simp: file_writer_push_def file_writer_take_def file_writer_complete_def file_writer_finish_def
        file_writer_wait_def split: if_splits intro: writer_step.intros)
next
  fix s t
  assume "writer_step reserve_file P A ssds ring s t"
  then show "file_writer_step P A ssds ring s t"
    by cases (auto simp: file_writer_push_def file_writer_take_def file_writer_complete_def file_writer_finish_def
        file_writer_wait_def intro: file_writer_step.intros)
qed

lemma file_writer_runs_machine: "file_writer_runs A ssds cfg P = writer_runs reserve_file A ssds cfg P"
  by (intro ext) (simp add: file_writer_runs_def writer_runs_def file_writer_step_machine file_writer_start_def)

lemma honest_file [simp]: "honest reserve_file"
  by (simp add: honest_def reserve_file_def Let_def)

interpretation file_writer: block_sink "file_writer_runs A ssds cfg" for A ssds cfg
proof unfold_locales
  fix P :: "'b pod" and names fs rs fs'
  assume "file_writer_runs A ssds cfg P names fs rs fs'"
    and "\<forall>r \<in> set rs. 0 < wr_size r \<and> wr_file_offset r \<noteq> None \<and>
      (\<exists>i. wr_file_index r = Some i \<and> i < length names)"
  then show "\<exists>order. mset order = mset rs \<and> fs' = fold apply_op (map (request_op P names) order) fs"
    unfolding file_writer_runs_machine by (intro writer_runs_order [OF _ honest_file]) (auto simp: valid_request_def)
qed

section \<open>One worker thread: the sequential writer\<close>

text \<open>
  The reference: the requests are placed and written one after the other. The state is the worker's
  next file in turn and the append cursors of the files.
\<close>

definition seq_place :: "'b pod \<Rightarrow> nat \<times> nat list \<Rightarrow> 'b write_request \<Rightarrow> 'b pending_write \<times> nat \<times> nat list" where
  "seq_place P s r =
     (case s of (cur, cursors) \<Rightarrow>
        let k = (case wr_file_index r of Some i \<Rightarrow> i | None \<Rightarrow> cur);
            off = (case wr_file_offset r of Some x \<Rightarrow> x | None \<Rightarrow> cursors ! k)
        in (\<lparr>pw_request = r, pw_file = k, pw_offset = off\<rparr>,
            case wr_file_index r of Some i \<Rightarrow> cur | None \<Rightarrow> (cur + 1) mod length cursors,
            cursors[k := cursors ! k + wr_size r * pod_size P]))"

fun seq_places :: "'b pod \<Rightarrow> nat \<times> nat list \<Rightarrow> 'b write_request list \<Rightarrow> 'b pending_write list \<times> nat \<times> nat list" where
  "seq_places P s [] = ([], s)"
| "seq_places P s (r # rs) =
     (let (p, s1) = seq_place P s r; (ps, s2) = seq_places P s1 rs in (p # ps, s2))"

definition place_op :: "'b pod \<Rightarrow> string list \<Rightarrow> 'b pending_write \<Rightarrow> write_op" where
  "place_op P names p = (names ! pw_file p, pw_offset p, wr_bytes P (pw_request p))"

definition seq_ops :: "'b pod \<Rightarrow> string list \<Rightarrow> 'b write_request list \<Rightarrow> write_op list" where
  "seq_ops P names rs = map (place_op P names) (fst (seq_places P (0, replicate (length names) 0) rs))"

definition seq_writer :: "'b pod \<Rightarrow> string list \<Rightarrow> 'b write_request list \<Rightarrow> fstore \<Rightarrow> fstore" where
  "seq_writer P names rs = fold apply_op (seq_ops P names rs)"

definition appendable :: "nat \<Rightarrow> 'b write_request \<Rightarrow> bool" where
  "appendable n r \<longleftrightarrow> 0 < wr_size r \<and> (\<forall>k. wr_file_index r = Some k \<longrightarrow> k < n)"

lemma seq_places_snoc:
  "seq_places P s (rs @ [r]) =
     (let (ps, s1) = seq_places P s rs; (p, s2) = seq_place P s1 r in (ps @ [p], s2))"
  by (induction P s rs rule: seq_places.induct) (auto split: prod.splits)

definition seq_inv :: "'b pod \<Rightarrow> string list \<Rightarrow> fstore \<Rightarrow> 'b write_request list \<Rightarrow> 'b writer_state \<Rightarrow> bool" where
  "seq_inv P names fs0 rs s \<longleftrightarrow>
     (case s of (w, fs, todo, ds) \<Rightarrow>
        (\<exists>taken ps finished wk. rs = taken @ sq_queue (wt_queue w) @ todo \<and>
           seq_places P (0, replicate (length names) 0) taken
             = (ps, wk_current wk, map of_bytes_issued (wt_global_files w)) \<and>
           wt_workers w = [wk] \<and> wk_files wk = [0..<length names] \<and> wk_current wk < length names \<and>
           (\<forall>p \<in> set ps. pw_file p < length names) \<and> mset finished + mset (wk_outstanding wk) = mset ps \<and>
           fs = fold apply_op (map (place_op P names) finished) fs0 \<and>
           (wk_phase wk \<noteq> NORMAL \<longrightarrow> sq_queue (wt_queue w) = [] \<and> wt_cleanup_done w) \<and>
           (wk_phase wk = ALL_DONE \<longrightarrow> wk_outstanding wk = [])) \<and>
        map of_name (wt_global_files w) = names \<and> wt_num_files w = length names \<and>
        sq_open (wt_queue w) = (\<not> wt_cleanup_done w) \<and> (wt_cleanup_done w \<longrightarrow> todo = []))"

lemma seq_take_inv:
  assumes st: "writer_take reserve_file P ssds ring i w = Some w'"
    and rs: "\<forall>r \<in> set rs. appendable (length names) r"
    and inv: "seq_inv P names fs0 rs (w, fs, todo, ds)"
  shows "seq_inv P names fs0 rs (w', fs, todo, ds)"
proof -
  from inv obtain taken ps finished wk where
    spl: "rs = taken @ sq_queue (wt_queue w) @ todo"
    and sp: "seq_places P (0, replicate (length names) 0) taken = (ps, wk_current wk, map of_bytes_issued (wt_global_files w))"
    and wk: "wt_workers w = [wk]" "wk_files wk = [0..<length names]" "wk_current wk < length names"
    and pf: "\<forall>p \<in> set ps. pw_file p < length names"
    and ms: "mset finished + mset (wk_outstanding wk) = mset ps"
    and fs: "fs = fold apply_op (map (place_op P names) finished) fs0"
    and names: "map of_name (wt_global_files w) = names" and num: "wt_num_files w = length names"
    and op: "sq_open (wt_queue w) = (\<not> wt_cleanup_done w)" and cl: "wt_cleanup_done w \<longrightarrow> todo = []"
    unfolding seq_inv_def by auto
  from st wk obtain r w1 where i: "i = 0" and ph: "wk_phase wk = NORMAL" and poll: "writer_poll w = Some (r, w1)"
    by (auto simp: writer_take_def split: if_splits option.splits)
  from poll consider
      (item) q where "sq_queue (wt_queue w) = r # q" "w1 = w\<lparr>wt_queue := (wt_queue w)\<lparr>sq_queue := q\<rparr>\<rparr>"
    | (closed) "sq_queue (wt_queue w) = []" "\<not> sq_open (wt_queue w)" "r = empty_request" "w1 = w"
    unfolding writer_poll_cases by blast
  then show ?thesis
  proof cases
    case item
    have ap: "0 < wr_size r" "\<And>k. wr_file_index r = Some k \<Longrightarrow> k < length names"
      using rs spl item by (auto simp: appendable_def)
    have lg: "length (wt_global_files w) = length names" using names by auto
    define k where "k = (case wr_file_index r of Some j \<Rightarrow> j | None \<Rightarrow> wk_current wk)"
    have kn: "k < length names" using ap(2) wk(3) by (simp add: k_def split: option.split)
    define cur where "cur = (case wr_file_index r of Some j \<Rightarrow> wk_current wk | None \<Rightarrow> (wk_current wk + 1) mod length names)"
    have "(wk_current wk + 1) mod length names < length names" using kn by (intro mod_less_divisor) linarith
    then have curn: "cur < length names" using wk(3) by (simp add: cur_def split: option.split)
    have ch: "choose_file ssds 0 r w1 = Some (k, w1\<lparr>wt_workers := [wk\<lparr>wk_current := cur\<rparr>]\<rparr>)"
      using wk kn num ap(2) by (auto simp: item choose_file_def k_def cur_def Let_def split: option.splits)
    define off where "off = (case wr_file_offset r of Some x \<Rightarrow> x | None \<Rightarrow> of_bytes_issued (wt_global_files w ! k))"
    let ?n = "wr_size r * pod_size P"
    let ?f = "(wt_global_files w ! k)\<lparr>of_bytes_issued := of_bytes_issued (wt_global_files w ! k) + ?n\<rparr>"
    let ?p = "\<lparr>pw_request = r, pw_file = k, pw_offset = off\<rparr>"
    let ?wk = "wk\<lparr>wk_current := cur, wk_outstanding := wk_outstanding wk @ [?p]\<rparr>"
    have w': "w' = w1\<lparr>wt_global_files := (wt_global_files w)[k := ?f], wt_workers := [?wk]\<rparr>"
      using st wk i ph poll ap(1) ch
      by (simp add: writer_take_def submit_request_def reserve_file_def off_def item Let_def split: if_splits)
    have "seq_place P (wk_current wk, map of_bytes_issued (wt_global_files w)) r
        = (?p, cur, map of_bytes_issued ((wt_global_files w)[k := ?f]))"
      using kn lg by (simp add: seq_place_def k_def [symmetric] off_def cur_def Let_def map_update cong: option.case_cong)
    then have sp': "seq_places P (0, replicate (length names) 0) (taken @ [r])
        = (ps @ [?p], wk_current ?wk, map of_bytes_issued ((wt_global_files w)[k := ?f]))"
      using sp by (simp add: seq_places_snoc)
    have "map of_name ((wt_global_files w)[k := ?f]) = names"
      using names kn lg by (simp add: map_update) (metis list_update_id nth_map)
    then show ?thesis
      using spl sp' wk curn kn pf ms fs op cl ph num
      by (auto simp: seq_inv_def w' item intro!: exI [of _ "taken @ [r]"] exI [of _ "ps @ [?p]"] exI [of _ finished])
  next
    case closed
    have "w' = w\<lparr>wt_workers := [wk\<lparr>wk_phase := WAITING_FOR_COMPLETION\<rparr>]\<rparr>"
      using st wk i ph poll closed by (simp add: writer_take_def empty_request_def split: if_splits)
    then show ?thesis
      using spl sp wk pf ms fs op cl names num closed
      by (auto simp: seq_inv_def intro!: exI [of _ taken] exI [of _ ps] exI [of _ finished])
  qed
qed

lemma seq_complete_inv:
  assumes st: "writer_complete P i k (w, fs) = Some (r, w', fs')"
    and inv: "seq_inv P names fs0 rs (w, fs, todo, ds)"
  shows "seq_inv P names fs0 rs (w', fs', todo, ds')"
proof -
  from inv obtain taken ps finished wk where
    spl: "rs = taken @ sq_queue (wt_queue w) @ todo"
    and sp: "seq_places P (0, replicate (length names) 0) taken = (ps, wk_current wk, map of_bytes_issued (wt_global_files w))"
    and wk: "wt_workers w = [wk]" "wk_files wk = [0..<length names]" "wk_current wk < length names"
    and pf: "\<forall>p \<in> set ps. pw_file p < length names"
    and ms: "mset finished + mset (wk_outstanding wk) = mset ps"
    and fs: "fs = fold apply_op (map (place_op P names) finished) fs0"
    and ph: "wk_phase wk \<noteq> NORMAL \<longrightarrow> sq_queue (wt_queue w) = [] \<and> wt_cleanup_done w"
      "wk_phase wk = ALL_DONE \<longrightarrow> wk_outstanding wk = []"
    and names: "map of_name (wt_global_files w) = names" and num: "wt_num_files w = length names"
    and op: "sq_open (wt_queue w) = (\<not> wt_cleanup_done w)" and cl: "wt_cleanup_done w \<longrightarrow> todo = []"
    unfolding seq_inv_def by auto
  let ?p = "wk_outstanding wk ! k"
  let ?f = "wt_global_files w ! pw_file ?p"
  let ?f' = "?f\<lparr>of_bytes_written := of_bytes_written ?f + wr_size (pw_request ?p) * pod_size P\<rparr>"
  let ?wk = "wk\<lparr>wk_outstanding := take k (wk_outstanding wk) @ drop (Suc k) (wk_outstanding wk)\<rparr>"
  from st wk have i: "i = 0" and k: "k < length (wk_outstanding wk)"
    and w': "w' = w\<lparr>wt_global_files := (wt_global_files w)[pw_file ?p := ?f'], wt_workers := [?wk]\<rparr>"
    and fs': "fs' = fs_write fs (of_name ?f) (pw_offset ?p) (wr_bytes P (pw_request ?p))"
    by (auto simp: writer_complete_def Let_def split: if_splits)
  have rem: "mset (wk_outstanding wk) = add_mset ?p (mset (wk_outstanding ?wk))"
    using mset_remove_nth [OF k] by simp
  have "?p \<in># mset ps" using k ms [symmetric] by simp
  then have pn: "pw_file ?p < length names" using pf by simp
  have lg: "length (wt_global_files w) = length names" using names by auto
  have iss: "map of_bytes_issued ((wt_global_files w)[pw_file ?p := ?f']) = map of_bytes_issued (wt_global_files w)"
    using pn lg by (simp add: map_update) (metis list_update_id nth_map)
  have nm: "map of_name ((wt_global_files w)[pw_file ?p := ?f']) = names"
    using names pn lg by (simp add: map_update) (metis list_update_id nth_map)
  have "of_name ?f = names ! pw_file ?p" using names pn lg by (metis nth_map)
  then have "fs' = fold apply_op (map (place_op P names) (finished @ [?p])) fs0"
    by (simp add: fs' fs apply_op_def place_op_def)
  moreover have "mset (finished @ [?p]) + mset (wk_outstanding ?wk) = mset ps"
    using ms rem by simp
  ultimately show ?thesis
    using spl sp wk pf ph op cl num iss nm
    by (auto simp: seq_inv_def w' intro!: exI [of _ taken] exI [of _ ps] exI [of _ "finished @ [?p]"])
qed

lemma seq_step_inv:
  assumes "writer_step reserve_file P A ssds ring s t" and inv: "seq_inv P names fs0 rs s"
    and "\<forall>r \<in> set rs. appendable (length names) r"
  shows "seq_inv P names fs0 rs t"
  using assms(1)
proof cases
  case (wstep_push r w w' fs todo ds)
  then have q: "sq_queue (wt_queue w') = sq_queue (wt_queue w) @ [r]" "sq_open (wt_queue w') = sq_open (wt_queue w)"
      "wt_global_files w' = wt_global_files w" "wt_num_files w' = wt_num_files w"
      "wt_workers w' = wt_workers w" "wt_cleanup_done w' = wt_cleanup_done w"
    by (auto simp: writer_push_def Push_Some)
  with inv show ?thesis unfolding wstep_push(1,2) by (auto simp: seq_inv_def)
next
  case (wstep_take i w w' fs todo ds)
  with assms seq_take_inv show ?thesis by metis
next
  case (wstep_complete i k w fs r w' fs' todo ds)
  with inv seq_complete_inv show ?thesis by metis
next
  case (wstep_finish i w w' fs todo ds)
  with inv show ?thesis by (auto simp: seq_inv_def writer_finish_def split: if_splits)
next
  case (wstep_wait w fs ds)
  with inv show ?thesis by (auto simp: seq_inv_def writer_close_def Close_def)
qed

definition seq_good :: "'b pod \<Rightarrow> nat \<Rightarrow> nat \<Rightarrow> string list \<Rightarrow> fstore \<Rightarrow> 'b write_request list \<Rightarrow> 'b writer_state \<Rightarrow> bool" where
  "seq_good P A ring names fs0 rs s \<longleftrightarrow> seq_inv P names fs0 rs s \<and> 0 < ring \<and>
     (\<forall>r \<in> set rs. appendable (length names) r \<and> push_check P A r)"

interpretation seq_machine: finite_machine "writer_step reserve_file P A ssds ring"
    "seq_good P A ring names fs0 rs" writer_work writer_halted
    for P A ssds ring names fs0 rs
proof unfold_locales
  fix s t :: "'a writer_state"
  assume g: "seq_good P A ring names fs0 rs s"
  obtain w fs todo ds where s: "s = (w, fs, todo, ds)" by (metis prod_cases4)
  have "writer_ready P A w todo"
    using g by (auto simp: s seq_good_def seq_inv_def writer_ready_def appendable_def)
  then show "\<not> writer_halted s \<Longrightarrow> \<exists>t. writer_step reserve_file P A ssds ring s t"
    using g unfolding s by (intro writer_ready_progress) (auto simp: seq_good_def)
  assume st: "writer_step reserve_file P A ssds ring s t"
  show "seq_good P A ring names fs0 rs t"
    using g seq_step_inv [OF st] by (auto simp: seq_good_def)
  show "writer_work t < writer_work s" using st by (rule writer_step_work)
qed

lemma stride_all: "stride j (Suc 0) xs = drop j xs"
proof (induction j "Suc 0" xs rule: stride.induct)
  case (1 j xs)
  then show ?case by (subst stride.simps) (simp add: Cons_nth_drop_Suc)
qed

lemma seq_start_inv:
  assumes "writer_start cfg names new_writer = Some w" and "wc_num_threads cfg = 1"
  shows "seq_inv P names fs rs (w, fs, rs, [])"
proof -
  have ne: "names \<noteq> []" using assms(1) by (simp add: writer_start_def split: if_splits)
  show ?thesis
    using assms ne
    by (auto simp: seq_inv_def writer_start_def new_writer_def stride_all start_writer_worker_def SimpleQueue_def
        SetSizeLimit_def open_file_def comp_def map_replicate_const Let_def)
qed

lemma file_writer_equiv:
  assumes cfg: "wc_num_threads cfg = 1" "0 < wc_io_uring_size cfg" and names: "names \<noteq> []"
    and rs: "\<forall>r \<in> set rs. appendable (length names) r \<and> push_check P A r"
    and dis: "ops_disjoint (seq_ops P names rs)"
  shows "file_writer_runs A ssds cfg P names fs rs fs' \<longleftrightarrow> fs' = seq_writer P names rs fs"
proof -
  let ?step = "writer_step reserve_file P A ssds (wc_io_uring_size cfg)"
  obtain w where st: "writer_start cfg names new_writer = Some (w :: 'a writer)"
    using writer_start_Some [OF names] cfg(1) by force
  have good: "seq_good P A (wc_io_uring_size cfg) names fs rs (w, fs, rs, [])"
    using seq_start_inv [OF st cfg(1)] cfg rs by (simp add: seq_good_def)
  have final: "fs1 = seq_writer P names rs fs"
    if "rtranclp ?step (w, fs, rs, []) (w1, fs1, [], ds)" and "writer_joined w1" for w1 fs1 ds
  proof -
    have "seq_good P A (wc_io_uring_size cfg) names fs rs (w1, fs1, [], ds)"
      using seq_machine.reach_good [OF that(1) good] .
    then obtain taken ps finished wk where spl: "rs = taken @ sq_queue (wt_queue w1)"
      and sp: "seq_places P (0, replicate (length names) 0) taken = (ps, wk_current wk, map of_bytes_issued (wt_global_files w1))"
      and wk: "wt_workers w1 = [wk]" and ms: "mset finished + mset (wk_outstanding wk) = mset ps"
      and fs1: "fs1 = fold apply_op (map (place_op P names) finished) fs"
      and ph: "wk_phase wk \<noteq> NORMAL \<longrightarrow> sq_queue (wt_queue w1) = []" "wk_phase wk = ALL_DONE \<longrightarrow> wk_outstanding wk = []"
      unfolding seq_good_def seq_inv_def by auto
    have "wk_phase wk = ALL_DONE" using that(2) wk by (simp add: writer_joined_def)
    then have "mset finished = mset ps" and "seq_ops P names rs = map (place_op P names) ps"
      using ms ph spl sp by (simp_all add: seq_ops_def)
    then have "mset (map (place_op P names) finished) = mset (seq_ops P names rs)" by simp
    from fold_apply_perm [OF this dis] show ?thesis by (simp add: fs1 seq_writer_def)
  qed
  show ?thesis
  proof
    assume "file_writer_runs A ssds cfg P names fs rs fs'"
    then show "fs' = seq_writer P names rs fs"
      unfolding file_writer_runs_machine writer_runs_def using st final by auto
  next
    assume eq: "fs' = seq_writer P names rs fs"
    obtain t where t: "rtranclp ?step (w, fs, rs, []) t" "writer_halted t"
      using seq_machine.reach_halted [OF good] by blast
    obtain w1 fs1 todo ds where tt: "t = (w1, fs1, todo, ds)" by (metis prod_cases4)
    then show "file_writer_runs A ssds cfg P names fs rs fs'"
      unfolding file_writer_runs_machine writer_runs_def eq
      using st t final [of w1 fs1 ds] by (auto simp: writer_halted_def)
  qed
qed

section \<open>Appending to one file\<close>

lemma pwrite_append:
  "pwrite_bytes (pwrite_bytes f c b1) (c + length b1) b2 = pwrite_bytes f c (b1 @ b2)"
  by (rule nth_equalityI) (auto simp: nth_pwrite nth_append)

definition append_only :: "'b pod \<Rightarrow> 'b write_request \<Rightarrow> bool" where
  "append_only P r \<longleftrightarrow> wr_file_index r = None \<and> wr_file_offset r = None \<and>
     length (wr_bytes P r) = wr_size r * pod_size P"

lemma seq_place_append:
  "append_only P r \<Longrightarrow> seq_place P (0, [c]) r =
     (\<lparr>pw_request = r, pw_file = 0, pw_offset = c\<rparr>, 0, [c + length (wr_bytes P r)])"
  by (simp add: seq_place_def append_only_def Let_def)

lemma append_ops_from:
  assumes "\<forall>r \<in> set rs. append_only P r"
    and "(n, off, bs) \<in> set (map (place_op P [name]) (fst (seq_places P (0, [c]) rs)))"
  shows "c \<le> off"
  using assms
proof (induction rs arbitrary: c)
  case Nil
  then show ?case by simp
next
  case (Cons r rs)
  then show ?case
    using Cons.IH [of "c + length (wr_bytes P r)"]
    by (fastforce simp: seq_place_append place_op_def split: prod.splits)
qed

lemma append_ops_disjoint:
  assumes "\<forall>r \<in> set rs. append_only P r"
  shows "ops_disjoint (map (place_op P [name]) (fst (seq_places P (0, [c]) rs)))"
  using assms
proof (induction rs arbitrary: c)
  case Nil
  then show ?case by (simp add: ops_disjoint_def)
next
  case (Cons r rs)
  let ?c = "c + length (wr_bytes P r)"
  let ?rest = "map (place_op P [name]) (fst (seq_places P (0, [?c]) rs))"
  have ops: "map (place_op P [name]) (fst (seq_places P (0, [c]) (r # rs))) = (name, c, wr_bytes P r) # ?rest"
    using Cons.prems by (simp add: seq_place_append place_op_def split: prod.splits)
  have "op_disjoint (name, c, wr_bytes P r) v \<and> op_disjoint v (name, c, wr_bytes P r)" if "v \<in> set ?rest" for v
    using append_ops_from [of rs P "fst v" "fst (snd v)" "snd (snd v)" name ?c] that Cons.prems
    by (cases v) (auto simp: op_disjoint_def)
  with Cons show ?case unfolding ops by (auto simp: ops_disjoint_def)
qed

lemma append_result:
  assumes "\<forall>r \<in> set rs. append_only P r" and "rs \<noteq> []"
  shows "fold apply_op (map (place_op P [name]) (fst (seq_places P (0, [c]) rs))) fs
    = fs_write fs name c (concat (map (wr_bytes P) rs))"
  using assms
proof (induction rs arbitrary: c fs)
  case Nil
  then show ?case by simp
next
  case (Cons r rs)
  let ?c = "c + length (wr_bytes P r)"
  have "fold apply_op (map (place_op P [name]) (fst (seq_places P (0, [c]) (r # rs)))) fs
      = fold apply_op (map (place_op P [name]) (fst (seq_places P (0, [?c]) rs))) (fs_write fs name c (wr_bytes P r))"
    using Cons.prems by (simp add: seq_place_append place_op_def apply_op_def split: prod.splits)
  also have "\<dots> = fs_write fs name c (concat (map (wr_bytes P) (r # rs)))"
  proof (cases "rs = []")
    case False
    then have "fold apply_op (map (place_op P [name]) (fst (seq_places P (0, [?c]) rs))) (fs_write fs name c (wr_bytes P r))
        = fs_write (fs_write fs name c (wr_bytes P r)) name ?c (concat (map (wr_bytes P) rs))"
      using Cons by simp
    then show ?thesis by (simp add: fs_write_def file_of_def pwrite_append)
  qed simp
  finally show ?case .
qed

lemma file_writer_appends:
  assumes "wc_num_threads cfg = 1" and "0 < wc_io_uring_size cfg" and "rs \<noteq> []"
    and "\<forall>r \<in> set rs. append_only P r \<and> 0 < wr_size r \<and> push_check P A r"
  shows "file_writer_runs A ssds cfg P [name] fs rs fs' \<longleftrightarrow>
    fs' = fs_write fs name 0 (concat (map (wr_bytes P) rs))"
proof -
  have ap: "\<forall>r \<in> set rs. append_only P r" using assms(4) by simp
  have "\<forall>r \<in> set rs. appendable (length [name]) r \<and> push_check P A r"
    using assms(4) by (auto simp: appendable_def append_only_def)
  moreover have "ops_disjoint (seq_ops P [name] rs)"
    using append_ops_disjoint [OF ap] by (simp add: seq_ops_def)
  ultimately have "file_writer_runs A ssds cfg P [name] fs rs fs' \<longleftrightarrow> fs' = seq_writer P [name] rs fs"
    by (intro file_writer_equiv assms) simp_all
  moreover have "seq_writer P [name] rs fs = fs_write fs name 0 (concat (map (wr_bytes P) rs))"
    using append_result [OF ap assms(3)] by (simp add: seq_writer_def seq_ops_def)
  ultimately show ?thesis by simp
qed

section \<open>Properties\<close>

text \<open>C13: With one worker thread the asynchronous writer refines the sequential one: requests that are
pushed with or without a file and an offset end up, whatever the order of the completions, exactly
where writing them one after the other with round-robin files and append cursors puts them, as long
as the places do not overlap; and such a run exists.\<close>

theorem file_writer_sequential:
  assumes "wc_num_threads cfg = 1" and "0 < wc_io_uring_size cfg" and "names \<noteq> []"
    and "\<forall>r \<in> set rs. appendable (length names) r \<and> push_check P A r"
    and "ops_disjoint (seq_ops P names rs)"
  shows "file_writer_runs A ssds cfg P names fs rs fs' \<longleftrightarrow> fs' = seq_writer P names rs fs"
  using assms by (rule file_writer_equiv)

definition demo_append :: "byte list \<Rightarrow> byte write_request" where
  "demo_append bs = \<lparr>wr_data = bs, wr_size = length bs, wr_file_index = None, wr_file_offset = None\<rparr>"

lemma file_writer_sequential_witness:
  "file_writer_runs 2 [] default_file_writer_config u8_pod [''a'', ''b''] Map.empty
     [demo_append [1, 2], demo_append [3, 4], demo_append [5, 6]] [''a'' \<mapsto> [1, 2, 5, 6], ''b'' \<mapsto> [3, 4]]"
proof -
  let ?rs = "[demo_append [1, 2], demo_append [3, 4], demo_append [5, 6]]"
  have ops: "seq_ops u8_pod [''a'', ''b''] ?rs = [(''a'', 0, [1, 2]), (''b'', 0, [3, 4]), (''a'', 2, [5, 6])]"
    by (simp add: seq_ops_def seq_place_def place_op_def demo_append_def wr_bytes_def u8_pod_def enc_list_def)
  have "seq_writer u8_pod [''a'', ''b''] ?rs Map.empty = [''a'' \<mapsto> [1, 2, 5, 6], ''b'' \<mapsto> [3, 4]]"
    unfolding seq_writer_def ops by (simp add: apply_op_def fs_write_def file_of_def pwrite_bytes_def fun_eq_iff)
  moreover have "ops_disjoint (seq_ops u8_pod [''a'', ''b''] ?rs)"
    unfolding ops by (simp add: ops_disjoint_def op_disjoint_def)
  moreover have "\<forall>r \<in> set ?rs. appendable (length [''a'', ''b'']) r \<and> push_check u8_pod 2 r"
    by (simp add: demo_append_def appendable_def push_check_def u8_pod_def)
  ultimately show ?thesis
    using file_writer_sequential [of default_file_writer_config "[''a'', ''b'']" ?rs u8_pod 2 "[]" Map.empty
        "[''a'' \<mapsto> [1, 2, 5, 6], ''b'' \<mapsto> [3, 4]]"]
    by (simp add: default_file_writer_config_def)
qed

end
