(* ===== verification/FileStreams.thy ===== *)
theory FileStreams
  imports FileReader FileWriter
begin

text \<open>
  The primitives that turn one file into another one: \<open>FilterFile\<close> of
  sequence_algorithms/filter.h and \<open>NaiveScanFile\<close> and \<open>put_in_mem\<close> of Plaidlay/NaiveExternalScan.h.
  Chunks arrive from the reader in any order; a priority queue on their first index restores the
  order of the file, and what the loop produces is collected in buffers of \<open>B\<close> bytes that are
  appended to the output file, the last one with an end marker. The writer moves bytes, so its
  requests are kept as bytes here.
\<close>

section \<open>Restoring the order\<close>

text \<open>The priority queue is the list of its items by ascending index; its top is the head.\<close>

fun drain_ready :: "('a FileBuffer \<Rightarrow> 's \<Rightarrow> 's) \<Rightarrow> 'a FileBuffer list \<Rightarrow> nat \<Rightarrow> 's \<Rightarrow> 'a FileBuffer list \<times> nat \<times> 's" where
  "drain_ready f [] next_index s = ([], next_index, s)"
| "drain_ready f (d # queue) next_index s =
     (if fb_index d \<noteq> next_index then (d # queue, next_index, s)
      else drain_ready f queue (next_index + fb_size d) (f d s))"

text \<open>The loop over the polled chunks; \<open>None\<close> is the failing \<open>CHECK(queue.empty())\<close>.\<close>

fun reorder :: "('a FileBuffer \<Rightarrow> 's \<Rightarrow> 's) \<Rightarrow> 'a FileBuffer list \<Rightarrow> 'a FileBuffer list \<Rightarrow> nat \<Rightarrow> 's \<Rightarrow> 's option" where
  "reorder f [] queue next_index s = (if queue = [] then Some s else None)"
| "reorder f (d # ds) queue next_index s =
     (let (queue', next_index', s') = drain_ready f (insort_key fb_index d queue) next_index s
      in reorder f ds queue' next_index' s')"

fun contiguous :: "nat \<Rightarrow> 'a FileBuffer list \<Rightarrow> bool" where
  "contiguous n [] = True"
| "contiguous n (b # bs) = (fb_index b = n \<and> contiguous (n + fb_size b) bs)"

definition chunk_order :: "nat \<Rightarrow> 'a FileBuffer list \<Rightarrow> bool" where
  "chunk_order n L \<longleftrightarrow> contiguous n L \<and> sorted (map fb_index L) \<and> distinct (map fb_index L)"

lemma chunk_order_Cons: "chunk_order n (b # L) \<Longrightarrow> fb_index b = n \<and> chunk_order (n + fb_size b) L"
  by (simp add: chunk_order_def)

lemma chunk_order_least:
  assumes "chunk_order n L" and "b \<in> set L"
  shows "n \<le> fb_index b \<and> (fb_index b = n \<longleftrightarrow> b = hd L)"
proof (cases L)
  case Nil
  then show ?thesis using assms(2) by simp
next
  case (Cons a L')
  have "fb_index a = n" and le: "\<forall>x \<in> set L'. fb_index a \<le> fb_index x" and new: "fb_index a \<notin> fb_index ` set L'"
    using assms(1) Cons by (auto simp: chunk_order_def)
  moreover have "fb_index b \<noteq> fb_index a" if "b \<in> set L'"
    using new that by (metis image_eqI)
  ultimately show ?thesis using assms(2) Cons by auto
qed

lemma drain_ready_result:
  assumes "chunk_order n L" and "mset L = mset (q @ ds)" and "sorted (map fb_index q)"
  shows "\<exists>M L' q' n'. drain_ready f q n s = (q', n', fold f M s) \<and> L = M @ L' \<and> chunk_order n' L' \<and>
    mset L' = mset (q' @ ds) \<and> sorted (map fb_index q') \<and> (q' \<noteq> [] \<longrightarrow> fb_index (hd q') \<noteq> n')"
  using assms
proof (induction q arbitrary: n L s)
  case Nil
  then show ?case by (intro exI [of _ "[]"] exI [of _ L] exI [of _ n]) simp
next
  case (Cons b q)
  show ?case
  proof (cases "fb_index b = n")
    case False
    then show ?thesis using Cons.prems by (intro exI [of _ "[]"] exI [of _ L] exI [of _ "b # q"] exI [of _ n]) simp
  next
    case True
    have "b \<in># mset L" using Cons.prems(2) by simp
    then have "b \<in> set L" by simp
    then obtain L1 where L: "L = b # L1"
      using chunk_order_least [OF Cons.prems(1), of b] True by (cases L) auto
    have "mset L1 = mset (q @ ds)" using Cons.prems(2) L by simp
    with Cons.IH [of "n + fb_size b" L1 "f b s"] chunk_order_Cons [of n b L1] Cons.prems(1,3) L
    obtain M L' q' n' where "drain_ready f q (n + fb_size b) (f b s) = (q', n', fold f M (f b s))" "L1 = M @ L'"
      "chunk_order n' L'" "mset L' = mset (q' @ ds)" "sorted (map fb_index q')" "q' \<noteq> [] \<longrightarrow> fb_index (hd q') \<noteq> n'"
      by auto
    with True L show ?thesis by (intro exI [of _ "b # M"] exI [of _ L'] exI [of _ q'] exI [of _ n']) simp
  qed
qed

lemma reorder_fold:
  assumes "chunk_order n L" and "mset L = mset (q @ ds)" and "sorted (map fb_index q)"
    and "q \<noteq> [] \<longrightarrow> fb_index (hd q) \<noteq> n"
  shows "reorder f ds q n s = Some (fold f L s)"
  using assms
proof (induction ds arbitrary: n L q s)
  case Nil
  have "q = []"
  proof (rule ccontr)
    assume ne: "q \<noteq> []"
    then obtain a L' where L: "L = a # L'" using Nil.prems(2) by (cases L) auto
    then have a: "fb_index a = n" "a \<in> set q"
      using Nil.prems(1) mset_eq_setD [OF Nil.prems(2)] by (auto simp: chunk_order_def)
    have "fb_index (hd q) \<le> fb_index a" using Nil.prems(3) a(2) ne by (cases q) auto
    moreover have "hd q \<in> set L" using mset_eq_setD [OF Nil.prems(2)] ne by simp
    then have "n \<le> fb_index (hd q)" using chunk_order_least [OF Nil.prems(1)] by blast
    ultimately show False using Nil.prems(4) ne a(1) by simp
  qed
  then show ?case using Nil.prems(2) by simp
next
  case (Cons d ds)
  let ?q = "insort_key fb_index d q"
  have "mset L = mset (?q @ ds)" using Cons.prems(2) by simp
  moreover have "sorted (map fb_index ?q)" using Cons.prems(3) by (simp add: sorted_insort_key)
  ultimately obtain M L' q' n' where dr: "drain_ready f ?q n s = (q', n', fold f M s)" and L: "L = M @ L'"
    and rest: "chunk_order n' L'" "mset L' = mset (q' @ ds)" "sorted (map fb_index q')" "q' \<noteq> [] \<longrightarrow> fb_index (hd q') \<noteq> n'"
    using drain_ready_result [OF Cons.prems(1), of ?q ds f s] by blast
  have "reorder f (d # ds) q n s = reorder f ds q' n' (fold f M s)" by (simp only: reorder.simps dr Let_def prod.case)
  also have "\<dots> = Some (fold f L' (fold f M s))" using rest by (rule Cons.IH)
  finally show ?case by (simp add: L)
qed

section \<open>The chunks of one file\<close>

lemma chunk_order_map:
  assumes cap: "0 < cap" and len: "length L = n"
    and idx: "\<And>c. c < n \<Longrightarrow> fb_index (L ! c) = (k + c) * cap"
    and sz: "\<And>c. Suc c < n \<Longrightarrow> fb_size (L ! c) = cap"
  shows "chunk_order (k * cap) L"
proof -
  have "contiguous (k * cap) L"
    using len idx sz
  proof (induction L arbitrary: k n)
    case Nil
    then show ?case by simp
  next
    case (Cons b L)
    have b: "fb_index b = k * cap" using Cons.prems(1) Cons.prems(2) [of 0] by auto
    show ?case
    proof (cases L)
      case Nil
      then show ?thesis using b by simp
    next
      case (Cons b' L')
      have "fb_size b = cap" using Cons.prems(1) Cons.prems(3) [of 0] Cons by auto
      moreover have "contiguous (Suc k * cap) L"
      proof (rule Cons.IH)
        show "length L = n - 1" using Cons.prems(1) by simp
        show "fb_index (L ! c) = (Suc k + c) * cap" if "c < n - 1" for c
          using Cons.prems(2) [of "Suc c"] that by simp
        show "fb_size (L ! c) = cap" if "Suc c < n - 1" for c
          using Cons.prems(3) [of "Suc c"] that by simp
      qed
      ultimately show ?thesis using b by (simp add: add.commute)
    qed
  qed
  moreover have map: "map fb_index L = map (\<lambda>c. (k + c) * cap) [0..<n]"
    by (rule nth_equalityI) (use len idx in auto)
  moreover have "sorted (map (\<lambda>c. (k + c) * cap) [0..<n])" by (simp add: sorted_iff_nth_mono)
  moreover have "distinct (map (\<lambda>c. (k + c) * cap) [0..<n])" using cap by (simp add: distinct_map inj_on_def)
  ultimately show ?thesis by (simp add: chunk_order_def)
qed

definition fb_elems :: "'a FileBuffer \<Rightarrow> 'a list" where
  "fb_elems d = take (fb_size d) (fb_data d)"

text \<open>Whatever the order of the chunks, the loop sees the elements of the file in order.\<close>

lemma reorder_file:
  assumes sz: "0 < pod_size P" "pod_size P dvd R" "0 < R" and disk: "file_on_disk fs info" and al: "O_DIRECT_MULTIPLE dvd R"
    and polls: "file_polls P R cfg fs [info] ds" and cfg: "file_config_ok cfg" "uc_active_chunks cfg = None"
  shows "\<exists>L. reorder f ds [] 0 s = Some (fold f L s) \<and> mset L = mset ds \<and>
    concat (map fb_elems L) = file_elems P fs info"
proof -
  let ?n = "ceil_div (fi_file_size info) R" and ?es = "file_elems P fs info"
  define cap where "cap = R div pod_size P"
  have "pod_size P \<le> R" using sz by (simp add: dvd_imp_le)
  then have cap: "0 < cap" and R: "R = cap * pod_size P" using sz by (simp_all add: cap_def div_greater_zero_iff)
  define item where "item c = (fi_file_index info, c * cap, run_of cap ?es c)" for c
  have disk': "\<forall>i \<in> set [info]. file_on_disk fs i" using disk by simp
  have m: "mset (map fb_core ds) = mset (map item [0..<?n])" and ok: "\<forall>d \<in> set ds. fb_ok cap d"
    using file_reader.polls_items [OF polls cfg(1) sz(3) al sz(1) disk'] whole_file_items [OF sz disk] cfg(2)
    by (simp_all add: item_def [abs_def] cap_def del: mset_map mset_upt map_eq_conv)
  define L where "L = sort_key fb_index ds"
  have mL: "mset L = mset ds" by (simp add: L_def)
  have cores: "map fb_core L = map item [0..<?n]"
  proof -
    have "map fb_core L = sort_key (\<lambda>x. fst (snd x)) (map fb_core ds)"
    proof -
      have "(\<lambda>x. fst (snd x)) \<circ> fb_core = (fb_index :: 'a FileBuffer \<Rightarrow> nat)" by (simp add: fun_eq_iff fb_core_def)
      then show ?thesis unfolding L_def by (simp add: sort_key_map)
    qed
    also have "\<dots> = sort_key (\<lambda>x. fst (snd x)) (map item [0..<?n])"
      by (rule sort_key_perm [OF m [symmetric], symmetric]) (use cap in \<open>simp add: item_def distinct_map inj_on_def comp_def\<close>)
    also have "\<dots> = map item [0..<?n]"
      by (rule sort_key_id_if_sorted) (simp add: item_def sorted_iff_nth_mono comp_def)
    finally show ?thesis .
  qed
  have core: "length L = ?n" using arg_cong [OF cores, of length] by simp
  have core2: "fb_core (L ! c) = item c" if "c < ?n" for c
    using arg_cong [OF cores, of "\<lambda>xs. xs ! c"] that core by simp
  have size: "fb_size (L ! c) = length (run_of cap ?es c)" if c: "c < ?n" for c
  proof -
    have "L ! c \<in> set ds" using c core nth_mem [of c L] mset_eq_setD [OF mL] by simp
    then have "fb_size (L ! c) \<le> length (fb_data (L ! c))" using ok by (simp add: fb_ok_def)
    moreover have "take (fb_size (L ! c)) (fb_data (L ! c)) = run_of cap ?es c"
      using core2 [OF c] by (simp add: fb_core_def item_def)
    ultimately show ?thesis by (metis length_take min_absorb2)
  qed
  have full: "fb_size (L ! c) = cap" if "Suc c < ?n" for c
  proof -
    have "Suc c * R < fi_file_size info" using that less_ceil_div_iff [OF sz(3)] by blast
    then have "Suc c * cap * pod_size P \<le> fi_file_size info" by (simp add: R algebra_simps)
    then have "Suc c * cap \<le> fi_file_size info div pod_size P"
      using div_le_mono [of "Suc c * cap * pod_size P" "fi_file_size info" "pod_size P"] sz(1) by simp
    then have "Suc c * cap \<le> length ?es" by (simp add: file_elems_def)
    then show ?thesis using size [of c] that by (simp add: length_run_of min_def)
  qed
  have "chunk_order (0 * cap) L"
    by (rule chunk_order_map [OF cap core]) (use core2 full in \<open>auto simp: fb_core_def item_def\<close>)
  then have "reorder f ds [] 0 s = Some (fold f L s)"
    by (intro reorder_fold) (simp_all add: mL)
  moreover have "concat (map fb_elems L) = ?es"
  proof -
    have "map fb_elems L = map (\<lambda>c. run_of cap ?es c) [0..<?n]"
      by (rule nth_equalityI) (use core core2 in \<open>auto simp: fb_elems_def fb_core_def item_def\<close>)
    moreover have "length ?es \<le> ?n * cap"
    proof -
      have "fi_file_size info \<le> ?n * R" using ceil_div_ge [OF sz(3)] .
      then have "fi_file_size info \<le> ?n * cap * pod_size P" by (simp add: R)
      then have "fi_file_size info div pod_size P \<le> ?n * cap"
        using div_le_mono [of "fi_file_size info" "?n * cap * pod_size P" "pod_size P"] sz(1) by simp
      then show ?thesis by (simp add: file_elems_def)
    qed
    ultimately show ?thesis by (simp add: concat_runs)
  qed
  ultimately show ?thesis using mL by blast
qed

section \<open>The output file\<close>

text \<open>The buffer up to \<open>buffer_index\<close>, the writes pushed so far and their number.\<close>

record 'a stream_out =
  so_buffer :: "'a list"
  so_pushed :: "byte write_request list"
  so_write_count :: nat

definition empty_out :: "'a stream_out" where
  "empty_out = \<lparr>so_buffer = [], so_pushed = [], so_write_count = 0\<rparr>"

definition bytes_request :: "byte list \<Rightarrow> byte write_request" where
  "bytes_request bs = \<lparr>wr_data = bs, wr_size = length bs, wr_file_index = None, wr_file_offset = None\<rparr>"

definition append_elem :: "'a \<Rightarrow> 'a stream_out \<Rightarrow> 'a stream_out" where
  "append_elem x o1 = o1\<lparr>so_buffer := so_buffer o1 @ [x]\<rparr>"

definition flush_full :: "'a pod \<Rightarrow> nat \<Rightarrow> 'a stream_out \<Rightarrow> 'a stream_out" where
  "flush_full P B o1 =
     (if length (so_buffer o1) = B div pod_size P
      then \<lparr>so_buffer = [], so_pushed = so_pushed o1 @ [bytes_request (enc_list P (so_buffer o1))],
            so_write_count = so_write_count o1 + 1\<rparr>
      else o1)"

text \<open>
  After the loop: the rest is padded to whole direct-I/O units with an end marker. \<open>junk\<close> is what
  the uninitialised part of the buffer holds.
\<close>

definition end_size :: "'a pod \<Rightarrow> 'a stream_out \<Rightarrow> nat" where
  "end_size P o1 = unat (AlignUp (of_nat (length (so_buffer o1) * pod_size P + METADATA_SIZE)))"

definition end_request :: "'a pod \<Rightarrow> byte list \<Rightarrow> 'a stream_out \<Rightarrow> byte write_request option" where
  "end_request P junk o1 =
     (let used = length (so_buffer o1) * pod_size P;
          buffer = enc_list P (so_buffer o1) @ take (end_size P o1 - used) junk
      in map_option (\<lambda>bs. bytes_request (take (end_size P o1 div pod_size P * pod_size P) bs))
           (MakeFileEndMarker buffer (end_size P o1) used))"

definition stream_config :: UnorderedChunkWriterConfig where
  "stream_config = default_file_writer_config\<lparr>wc_num_threads := 1\<rparr>"

definition filter_elem :: "'a pod \<Rightarrow> nat \<Rightarrow> ('a \<Rightarrow> bool) \<Rightarrow> 'a \<Rightarrow> 'a stream_out \<Rightarrow> 'a stream_out" where
  "filter_elem P B predicate x o1 = flush_full P B (if predicate x then append_elem x o1 else o1)"

definition filter_chunk :: "'a pod \<Rightarrow> nat \<Rightarrow> ('a \<Rightarrow> bool) \<Rightarrow> 'a FileBuffer \<Rightarrow> 'a stream_out \<Rightarrow> 'a stream_out" where
  "filter_chunk P B predicate d o1 = fold (filter_elem P B predicate) (take (fb_size d) (fb_data d)) o1"

text \<open>\<open>buffer_size_bytes\<close> of the source is \<open>4 << 20\<close>; here it is the argument \<open>B\<close>.\<close>

definition buffer_size_bytes :: nat where
  "buffer_size_bytes = 4 * 2 ^ 20"

text \<open>
  When the end marker does not fit into the last buffer, the buffer is grown by \<open>realloc\<close>, which need
  not keep the alignment that \<open>Push\<close> checks; \<open>realloc_at\<close> gives the address it returns in the task
  for a file. Without a check that holds, the program stops and there is no result.
\<close>

definition FilterFile :: "'a pod \<Rightarrow> nat \<Rightarrow> nat \<Rightarrow> byte list \<Rightarrow> (string \<Rightarrow> nat) \<Rightarrow> string list \<Rightarrow> ('a \<Rightarrow> bool) \<Rightarrow> FileInfo \<Rightarrow> string \<Rightarrow>
    fstore \<Rightarrow> fstore \<Rightarrow> FileInfo \<Rightarrow> bool" where
  "FilterFile P R B junk realloc_at ssds predicate in_file out_file fs fs' info \<longleftrightarrow>
     (\<exists>ds o1 r. file_polls P R default_file_reader_config fs [in_file] ds \<and>
        reorder (filter_chunk P B predicate) ds [] 0 empty_out = Some o1 \<and>
        end_request P junk o1 = Some r \<and>
        (B < end_size P o1 \<longrightarrow> realloc_at out_file mod O_DIRECT_MULTIPLE = 0) \<and>
        file_writer_runs O_DIRECT_MULTIPLE ssds stream_config u8_pod [out_file] fs (so_pushed o1 @ [r]) fs' \<and>
        info = new_FileInfo out_file (fi_file_index in_file)
          (so_write_count o1 * B + length (so_buffer o1) * pod_size P) ((so_write_count o1 + 1) * B))"

section \<open>Scan\<close>

definition scan_elem :: "'a pod \<Rightarrow> nat \<Rightarrow> ('a \<Rightarrow> 'a \<Rightarrow> 'a) \<Rightarrow> 'a \<Rightarrow> 'a \<times> 'a stream_out \<Rightarrow> 'a \<times> 'a stream_out" where
  "scan_elem P B add x s =
     (case s of (running_total, o1) \<Rightarrow> (add running_total x, flush_full P B (append_elem running_total o1)))"

definition scan_chunk :: "'a pod \<Rightarrow> nat \<Rightarrow> ('a \<Rightarrow> 'a \<Rightarrow> 'a) \<Rightarrow> 'a FileBuffer \<Rightarrow> 'a \<times> 'a stream_out \<Rightarrow> 'a \<times> 'a stream_out" where
  "scan_chunk P B add d s = fold (scan_elem P B add) (take (fb_size d) (fb_data d)) s"

definition NaiveScanFile :: "'a pod \<Rightarrow> nat \<Rightarrow> nat \<Rightarrow> byte list \<Rightarrow> string list \<Rightarrow> ('a \<Rightarrow> 'a \<Rightarrow> 'a) \<Rightarrow> FileInfo \<Rightarrow> string \<Rightarrow>
    'a \<Rightarrow> fstore \<Rightarrow> fstore \<Rightarrow> FileInfo \<Rightarrow> bool" where
  "NaiveScanFile P R B junk ssds add in_file out_file start fs fs' info \<longleftrightarrow>
     (\<exists>ds running_total o1 r. file_polls P R default_file_reader_config fs [in_file] ds \<and>
        reorder (scan_chunk P B add) ds [] 0 (start, empty_out) = Some (running_total, o1) \<and>
        end_request P junk o1 = Some r \<and>
        file_writer_runs O_DIRECT_MULTIPLE ssds stream_config u8_pod [out_file] fs (so_pushed o1 @ [r]) fs' \<and>
        info = new_FileInfo out_file (fi_file_index in_file)
          (so_write_count o1 * B + length (so_buffer o1) * pod_size P)
          (so_write_count o1 * B + end_size P o1))"

definition put_in_mem :: "'a pod \<Rightarrow> nat \<Rightarrow> ('a \<Rightarrow> 'a \<Rightarrow> 'a) \<Rightarrow> 'a \<Rightarrow> fstore \<Rightarrow> FileInfo \<Rightarrow> 'a \<Rightarrow> bool" where
  "put_in_mem P R add zero fs in_file running_total \<longleftrightarrow>
     (\<exists>ds. file_polls P R default_file_reader_config fs [in_file] ds \<and>
        reorder (\<lambda>d t. fold (\<lambda>x t. add t x) (take (fb_size d) (fb_data d)) t) ds [] 0 zero = Some running_total)"

text \<open>\<open>std::exclusive_scan\<close>.\<close>

fun excl_scan :: "('a \<Rightarrow> 'a \<Rightarrow> 'a) \<Rightarrow> 'a \<Rightarrow> 'a list \<Rightarrow> 'a list" where
  "excl_scan add z [] = []"
| "excl_scan add z (t # ts) = z # excl_scan add (add z t) ts"

section \<open>What the loops have pushed\<close>

definition out_inv :: "'a pod \<Rightarrow> nat \<Rightarrow> 'a stream_out \<Rightarrow> 'a list \<Rightarrow> bool" where
  "out_inv P B o1 es \<longleftrightarrow>
     concat (map wr_data (so_pushed o1)) @ enc_list P (so_buffer o1) = enc_list P es \<and>
     (\<forall>r \<in> set (so_pushed o1). \<exists>bs. r = bytes_request bs \<and> length bs = B) \<and>
     length (so_pushed o1) = so_write_count o1 \<and> length (so_buffer o1) < B div pod_size P"

lemma out_inv_empty: "0 < B div pod_size P \<Longrightarrow> out_inv P B empty_out []"
  by (simp add: out_inv_def empty_out_def)

lemma flush_append_inv:
  assumes "out_inv P B o1 es" and "pod_repr P" and "pod_size P dvd B"
  shows "out_inv P B (flush_full P B (append_elem x o1)) (es @ [x])"
proof -
  have len: "length (enc_list P xs) = length xs * pod_size P" for xs :: "'a list"
    using pod_repr.length_enc_list [OF assms(2)] by simp
  have one: "length (pod_enc P x) = pod_size P" using pod_repr.enc_length [OF assms(2)] .
  have full: "length (so_buffer o1) * pod_size P + pod_size P = B" if "Suc (length (so_buffer o1)) = B div pod_size P"
    using assms(3) that by (metis dvd_div_mult_self mult_Suc add.commute)
  show ?thesis
    using assms(1) len one full
    by (auto simp: out_inv_def flush_full_def append_elem_def bytes_request_def)
qed

lemma flush_none_inv: "out_inv P B o1 es \<Longrightarrow> flush_full P B o1 = o1"
  by (simp add: out_inv_def flush_full_def)

lemma filter_loop_inv:
  assumes "pod_repr P" and "pod_size P dvd B" and "out_inv P B o1 es"
  shows "out_inv P B (fold (filter_elem P B p) xs o1) (es @ filter p xs)"
  using assms(3)
proof (induction xs arbitrary: o1 es)
  case Nil
  then show ?case by simp
next
  case (Cons x xs)
  show ?case
  proof (cases "p x")
    case True
    then show ?thesis
      using Cons.IH [OF flush_append_inv [OF Cons.prems assms(1,2), of x]] by (simp add: filter_elem_def)
  next
    case False
    then show ?thesis using Cons by (simp add: filter_elem_def flush_none_inv)
  qed
qed

lemma filter_chunks_inv:
  assumes "pod_repr P" and "pod_size P dvd B" and "out_inv P B o1 es"
  shows "out_inv P B (fold (filter_chunk P B p) L o1) (es @ filter p (concat (map fb_elems L)))"
  using assms(3)
proof (induction L arbitrary: o1 es)
  case Nil
  then show ?case by simp
next
  case (Cons d L)
  have "out_inv P B (filter_chunk P B p d o1) (es @ filter p (fb_elems d))"
    unfolding filter_chunk_def fb_elems_def by (rule filter_loop_inv [OF assms(1,2) Cons.prems])
  from Cons.IH [OF this] show ?case by simp
qed

lemma excl_scan_append: "excl_scan add t (xs @ ys) = excl_scan add t xs @ excl_scan add (foldl add t xs) ys"
  by (induction xs arbitrary: t) simp_all

lemma length_excl_scan [simp]: "length (excl_scan add t xs) = length xs"
  by (induction xs arbitrary: t) simp_all

lemma scan_loop_inv:
  assumes "pod_repr P" and "pod_size P dvd B" and "out_inv P B o1 es"
  shows "\<exists>o2. fold (scan_elem P B add) xs (t, o1) = (foldl add t xs, o2) \<and> out_inv P B o2 (es @ excl_scan add t xs)"
  using assms(3)
proof (induction xs arbitrary: o1 es t)
  case Nil
  then show ?case by simp
next
  case (Cons x xs)
  show ?case
    using Cons.IH [OF flush_append_inv [OF Cons.prems assms(1,2), of t], of "add t x"] by (simp add: scan_elem_def)
qed

lemma scan_chunks_inv:
  assumes "pod_repr P" and "pod_size P dvd B" and "out_inv P B o1 es"
  shows "\<exists>o2. fold (scan_chunk P B add) L (t, o1) = (foldl add t (concat (map fb_elems L)), o2) \<and>
    out_inv P B o2 (es @ excl_scan add t (concat (map fb_elems L)))"
  using assms(3)
proof (induction L arbitrary: o1 es t)
  case Nil
  then show ?case by simp
next
  case (Cons d L)
  obtain o2 where o2: "scan_chunk P B add d (t, o1) = (foldl add t (fb_elems d), o2)"
    and "out_inv P B o2 (es @ excl_scan add t (fb_elems d))"
    using scan_loop_inv [OF assms(1,2) Cons.prems, of add "fb_elems d" t]
    unfolding scan_chunk_def fb_elems_def by blast
  from Cons.IH [OF this(2), of "foldl add t (fb_elems d)"] show ?case by (simp add: o2 excl_scan_append)
qed

section \<open>The finished file\<close>

lemma enc_list_u8: "enc_list u8_pod xs = xs"
  by (induction xs) (simp_all add: u8_pod_def)

lemma wr_bytes_request: "wr_bytes u8_pod (bytes_request bs) = bs"
  by (simp add: wr_bytes_def bytes_request_def enc_list_u8)

text \<open>\<open>f\<close> is a file with the elements \<open>es\<close> whose valid size \<open>GetFileInfo\<close> recovers.\<close>

definition holds_elems :: "'a pod \<Rightarrow> fstore \<Rightarrow> string \<Rightarrow> 'a list \<Rightarrow> nat \<Rightarrow> bool" where
  "holds_elems P fs name es n \<longleftrightarrow>
     length (file_of fs name) = n \<and> dec_list P (length es) (file_of fs name) = es \<and>
     (\<forall>k. GetFileInfo fs True False [new_FileInfo name k 0 0] = Some [new_FileInfo name k (length es * pod_size P) n])"

lemma end_size_round:
  assumes "length (so_buffer o1) * pod_size P + METADATA_SIZE + O_DIRECT_MULTIPLE \<le> 2 ^ 64"
  shows "end_size P o1 = round_up O_DIRECT_MULTIPLE (length (so_buffer o1) * pod_size P + METADATA_SIZE)"
proof -
  let ?n = "length (so_buffer o1) * pod_size P + METADATA_SIZE"
  have "unat (of_nat n :: u64) = n" if "n < 2 ^ 64" for n using that by (simp add: unat_of_nat)
  moreover have "?n < 2 ^ 64" using assms by (simp add: O_DIRECT_MULTIPLE_def)
  ultimately have n: "unat (of_nat ?n :: u64) = ?n" .
  then have "unat (of_nat ?n :: u64) + unat (4096 :: u64) \<le> 2 ^ 64" using assms by (simp add: O_DIRECT_MULTIPLE_def)
  then have "unat (AlignUp (of_nat ?n)) = round_up (unat (4096 :: u64)) (unat (of_nat ?n :: u64))"
    unfolding AlignUp_eq by (intro AlignUp_to_unat) simp_all
  then show ?thesis unfolding end_size_def n by (simp add: O_DIRECT_MULTIPLE_def)
qed

lemma end_request_result:
  assumes P: "pod_repr P" and sz: "pod_size P dvd O_DIRECT_MULTIPLE"
    and small: "length (so_buffer o1) * pod_size P + METADATA_SIZE + O_DIRECT_MULTIPLE \<le> 2 ^ 64"
    and junk: "METADATA_SIZE + O_DIRECT_MULTIPLE \<le> length junk"
  shows "\<exists>buf bs. end_request P junk o1 = Some (bytes_request bs) \<and> length buf = end_size P o1 \<and> length bs = end_size P o1 \<and>
    MakeFileEndMarker buf (length buf) (length (so_buffer o1) * pod_size P) = Some bs \<and>
    take (length (so_buffer o1) * pod_size P) bs = enc_list P (so_buffer o1)"
proof -
  let ?u = "length (so_buffer o1) * pod_size P" and ?e = "end_size P o1"
  have M: "0 < O_DIRECT_MULTIPLE" by (simp add: O_DIRECT_MULTIPLE_def)
  note e = end_size_round [OF small]
  have ge: "?u + METADATA_SIZE \<le> ?e" unfolding e by (rule round_up_ge [OF M])
  have lt: "?e < ?u + METADATA_SIZE + O_DIRECT_MULTIPLE" unfolding e by (rule round_up_lt [OF M])
  have dv: "O_DIRECT_MULTIPLE dvd ?e" unfolding e by (rule round_up_dvd)
  have len: "length (enc_list P (so_buffer o1)) = ?u" using pod_repr.length_enc_list [OF P] by simp
  let ?buf = "enc_list P (so_buffer o1) @ take (?e - ?u) junk"
  obtain bs where mk: "MakeFileEndMarker ?buf ?e ?u = Some bs" and lbs: "length bs = ?e"
    and "take ?u bs = enc_list P (so_buffer o1)"
  proof -
    have "?e < ?u + METADATA_SIZE + 2 * O_DIRECT_MULTIPLE" "?e < 2 ^ 64" "?e - ?u \<le> length junk"
      using lt small junk M by linarith+
    from that end_marker_buffer [OF len ge this] show thesis by blast
  qed
  moreover have "pod_size P dvd ?e" using sz dv by (rule dvd_trans)
  then have "take (?e div pod_size P * pod_size P) bs = bs" using lbs by simp
  then have "end_request P junk o1 = Some (bytes_request bs)"
    using mk by (simp add: end_request_def Let_def)
  moreover have "length ?buf = ?e" using ge lt junk len by simp
  ultimately show ?thesis by (intro exI [of _ ?buf] exI [of _ bs]) simp
qed

lemma bytes_request_ok:
  "0 < length bs \<Longrightarrow> length bs mod A = 0 \<Longrightarrow>
   append_only u8_pod (bytes_request bs) \<and> 0 < wr_size (bytes_request bs) \<and> push_check u8_pod A (bytes_request bs)"
  by (simp add: append_only_def push_check_def wr_bytes_request u8_size) (simp add: bytes_request_def)

lemma stream_end:
  assumes inv: "out_inv P B o1 es" and P: "pod_repr P" and sz: "pod_size P dvd O_DIRECT_MULTIPLE"
    and B: "O_DIRECT_MULTIPLE dvd B" "0 < B" and fresh: "fs name = None"
    and junk: "METADATA_SIZE + O_DIRECT_MULTIPLE \<le> length junk"
    and small: "length es * pod_size P + 2 * O_DIRECT_MULTIPLE < 2 ^ 64"
  shows "\<exists>r f. end_request P junk o1 = Some r \<and>
    (\<forall>fs'. file_writer_runs O_DIRECT_MULTIPLE ssds stream_config u8_pod [name] fs (so_pushed o1 @ [r]) fs' \<longleftrightarrow> fs' = fs(name \<mapsto> f)) \<and>
    so_write_count o1 * B + length (so_buffer o1) * pod_size P = length es * pod_size P \<and>
    holds_elems P (fs(name \<mapsto> f)) name es (so_write_count o1 * B + end_size P o1)"
proof -
  let ?u = "length (so_buffer o1) * pod_size P" and ?e = "end_size P o1" and ?pre = "concat (map wr_data (so_pushed o1))"
  have len: "length (enc_list P xs) = length xs * pod_size P" for xs
    using pod_repr.length_enc_list [OF P] by simp
  have pushed: "\<forall>r \<in> set (so_pushed o1). \<exists>bs. r = bytes_request bs \<and> length bs = B"
    and pre: "?pre @ enc_list P (so_buffer o1) = enc_list P es" and cnt: "length (so_pushed o1) = so_write_count o1"
    using inv by (simp_all add: out_inv_def)
  have each: "map (\<lambda>r. length (wr_data r)) (so_pushed o1) = map (\<lambda>_. B) (so_pushed o1)"
    using pushed by (auto simp: bytes_request_def)
  have "length ?pre = sum_list (map (\<lambda>r. length (wr_data r)) (so_pushed o1))" by (simp add: length_concat comp_def)
  then have lpre: "length ?pre = so_write_count o1 * B" unfolding each by (simp add: cnt sum_list_triv)
  have tot: "so_write_count o1 * B + ?u = length es * pod_size P"
    using arg_cong [OF pre, of length] lpre by (simp add: len)
  then have us: "?u + METADATA_SIZE + O_DIRECT_MULTIPLE \<le> 2 ^ 64"
    using small by (simp add: METADATA_SIZE_def O_DIRECT_MULTIPLE_def)
  obtain buf bs where er: "end_request P junk o1 = Some (bytes_request bs)" and lb: "length buf = ?e" "length bs = ?e"
    and mk: "MakeFileEndMarker buf (length buf) ?u = Some bs" and tk: "take ?u bs = enc_list P (so_buffer o1)"
    using end_request_result [OF P sz us junk] by blast
  have e: "O_DIRECT_MULTIPLE dvd ?e" "?u + METADATA_SIZE \<le> ?e" "?e < ?u + METADATA_SIZE + O_DIRECT_MULTIPLE"
    using round_up_ge round_up_lt by (simp_all add: end_size_round [OF us] O_DIRECT_MULTIPLE_def)
  then have ge: "O_DIRECT_MULTIPLE \<le> ?e" by (intro dvd_imp_le) (auto simp: METADATA_SIZE_def)
  let ?rs = "so_pushed o1 @ [bytes_request bs]"
  have m: "B mod O_DIRECT_MULTIPLE = 0" "?e mod O_DIRECT_MULTIPLE = 0" "0 < ?e"
    using B(1) e by (simp_all add: METADATA_SIZE_def)
  have ok: "\<forall>r \<in> set ?rs. append_only u8_pod r \<and> 0 < wr_size r \<and> push_check u8_pod O_DIRECT_MULTIPLE r"
  proof
    fix r assume "r \<in> set ?rs"
    then obtain bs' where "r = bytes_request bs'" "length bs' = B \<or> length bs' = ?e" using pushed lb by auto
    moreover from this have "0 < length bs'" "length bs' mod O_DIRECT_MULTIPLE = 0" using B(2) m by metis+
    ultimately show "append_only u8_pod r \<and> 0 < wr_size r \<and> push_check u8_pod O_DIRECT_MULTIPLE r"
      using bytes_request_ok by metis
  qed
  have cfg: "wc_num_threads stream_config = 1" "0 < wc_io_uring_size stream_config"
    by (simp_all add: stream_config_def default_file_writer_config_def)
  have data: "map (wr_bytes u8_pod) ?rs = map wr_data (so_pushed o1) @ [bs]"
    using pushed by (auto simp: wr_bytes_def bytes_request_def enc_list_u8)
  let ?f = "?pre @ bs"
  have "fs_write fs name 0 ?f = fs(name \<mapsto> ?f)" using fresh by (simp add: fs_write_def file_of_def pwrite_bytes_def)
  then have runs: "file_writer_runs O_DIRECT_MULTIPLE ssds stream_config u8_pod [name] fs ?rs fs' \<longleftrightarrow> fs' = fs(name \<mapsto> ?f)" for fs'
    using file_writer_appends [OF cfg _ ok, of ssds name fs fs'] unfolding data by simp
  have "take (length es * pod_size P) ?f = enc_list P es"
    using lpre tot tk pre by (simp add: tot [symmetric])
  then have "dec_list P (length es) ?f = dec_list P (length es) (enc_list P es)"
    by (metis dec_list_take order_refl)
  then have dec: "dec_list P (length es) ?f = es" using pod_repr.dec_enc_list [OF P] by simp
  have "GetFileInfo (fs(name \<mapsto> ?f)) True False [new_FileInfo name k 0 0]
      = Some [new_FileInfo name k (length ?pre + ?u) (length ?pre + length buf)]" for k
  proof (rule end_marker_info [OF mk])
    show "?u \<le> length buf" using lb e(2) by simp
    show "O_DIRECT_MULTIPLE \<le> length buf" using lb ge by simp
    show "(fs(name \<mapsto> ?f)) name = Some (?pre @ bs)" by simp
    show "O_DIRECT_MULTIPLE dvd length ?pre" using B(1) lpre by simp
    show "O_DIRECT_MULTIPLE dvd length buf" using lb e(1) by simp
    show "length ?pre + length buf < 2 ^ 64" using lpre lb e(3) tot small by (simp add: METADATA_SIZE_def O_DIRECT_MULTIPLE_def)
  qed
  then have "holds_elems P (fs(name \<mapsto> ?f)) name es (so_write_count o1 * B + ?e)"
    using dec lpre lb tot by (simp add: holds_elems_def file_of_def)
  with er runs tot show ?thesis by blast
qed

section \<open>The primitives\<close>

text \<open>What they need: an element type whose size divides the direct-I/O unit, whole elements in the
reader's chunks and in the output buffer, an input file on disk and a new output file.\<close>

definition stream_env :: "'a pod \<Rightarrow> nat \<Rightarrow> nat \<Rightarrow> byte list \<Rightarrow> fstore \<Rightarrow> FileInfo \<Rightarrow> string \<Rightarrow> bool" where
  "stream_env P R B junk fs in_file out_file \<longleftrightarrow>
     pod_size P dvd O_DIRECT_MULTIPLE \<and> O_DIRECT_MULTIPLE dvd R \<and> 0 < R \<and> O_DIRECT_MULTIPLE dvd B \<and> 0 < B \<and>
     METADATA_SIZE + O_DIRECT_MULTIPLE \<le> length junk \<and> file_on_disk fs in_file \<and> fs out_file = None \<and>
     fi_file_size in_file + 2 * O_DIRECT_MULTIPLE < 2 ^ 64"

lemma stream_env_sizes:
  assumes "stream_env P R B junk fs in_file out_file" and "pod_repr P"
  shows "0 < pod_size P" "pod_size P dvd R" "pod_size P dvd B" "0 < B div pod_size P" "0 < R"
    "O_DIRECT_MULTIPLE dvd R"
proof -
  show sz: "0 < pod_size P" using pod_repr.size_pos [OF assms(2)] .
  show "pod_size P dvd R" and dB: "pod_size P dvd B" and "0 < R" and "O_DIRECT_MULTIPLE dvd R"
    using assms(1) dvd_trans [of "pod_size P" O_DIRECT_MULTIPLE] by (simp_all add: stream_env_def)
  have "0 < B" using assms(1) by (simp add: stream_env_def)
  then show "0 < B div pod_size P" using dvd_imp_le [OF dB] sz by (simp add: div_greater_zero_iff)
qed

lemma file_elems_bytes: "length (file_elems P fs info) * pod_size P \<le> fi_file_size info"
  by (simp add: file_elems_def)

lemma default_file_config: "file_config_ok default_file_reader_config" "uc_active_chunks default_file_reader_config = None"
  by (simp_all add: file_config_ok_def default_file_reader_config_def)

lemma default_polls_exist:
  assumes "stream_env P R B junk fs in_file out_file" and "pod_repr P"
  shows "\<exists>ds. file_polls P R default_file_reader_config fs [in_file] ds"
  using assms stream_env_sizes [OF assms]
  by (intro file_reader.polls_exist default_file_config) (auto simp: stream_env_def)

text \<open>\<open>realloc\<close> matters for elements of one byte only, and not if it keeps the alignment.\<close>

definition realloc_ok :: "'a pod \<Rightarrow> (string \<Rightarrow> nat) \<Rightarrow> bool" where
  "realloc_ok P realloc_at \<longleftrightarrow> METADATA_SIZE \<le> pod_size P \<or> (\<forall>out_file. realloc_at out_file mod O_DIRECT_MULTIPLE = 0)"

lemma end_size_fits:
  assumes "length (so_buffer o1) < B div pod_size P" and "pod_size P dvd B" and "METADATA_SIZE \<le> pod_size P"
    and "O_DIRECT_MULTIPLE dvd B" and "length (so_buffer o1) * pod_size P + METADATA_SIZE + O_DIRECT_MULTIPLE \<le> 2 ^ 64"
  shows "end_size P o1 \<le> B"
proof -
  have "Suc (length (so_buffer o1)) * pod_size P \<le> B div pod_size P * pod_size P"
    using assms(1) by (intro mult_le_mono1) simp
  then have "length (so_buffer o1) * pod_size P + METADATA_SIZE \<le> B" using assms(2,3) by simp
  then show ?thesis
    unfolding end_size_round [OF assms(5)] using assms(4) by (intro round_up_le) (simp_all add: O_DIRECT_MULTIPLE_def)
qed

lemma filter_file_end:
  assumes env: "stream_env P R B junk fs in_file out_file" and P: "pod_repr P"
    and polls: "file_polls P R default_file_reader_config fs [in_file] ds"
    and es: "es = filter predicate (file_elems P fs in_file)"
  shows "\<exists>o1 r f. reorder (filter_chunk P B predicate) ds [] 0 empty_out = Some o1 \<and> end_request P junk o1 = Some r \<and>
      (\<forall>fs'. file_writer_runs O_DIRECT_MULTIPLE ssds stream_config u8_pod [out_file] fs (so_pushed o1 @ [r]) fs' \<longleftrightarrow> fs' = fs(out_file \<mapsto> f)) \<and>
      so_write_count o1 * B + length (so_buffer o1) * pod_size P = length es * pod_size P \<and>
      length (so_buffer o1) * pod_size P < B \<and> (METADATA_SIZE \<le> pod_size P \<longrightarrow> end_size P o1 \<le> B) \<and>
      holds_elems P (fs(out_file \<mapsto> f)) out_file es (so_write_count o1 * B + end_size P o1)"
proof -
  note sz = stream_env_sizes [OF env P]
  have e: "pod_size P dvd O_DIRECT_MULTIPLE" "O_DIRECT_MULTIPLE dvd B" "0 < B" "fs out_file = None"
    "METADATA_SIZE + O_DIRECT_MULTIPLE \<le> length junk" "file_on_disk fs in_file"
    "fi_file_size in_file + 2 * O_DIRECT_MULTIPLE < 2 ^ 64"
    using env by (simp_all add: stream_env_def)
  have "length es * pod_size P \<le> length (file_elems P fs in_file) * pod_size P" by (simp add: es length_filter_le)
  then have small: "length es * pod_size P + 2 * O_DIRECT_MULTIPLE < 2 ^ 64"
    using file_elems_bytes [of P fs in_file] e(7) by linarith
  obtain L where L: "reorder (filter_chunk P B predicate) ds [] 0 empty_out = Some (fold (filter_chunk P B predicate) L empty_out)"
    and cL: "concat (map fb_elems L) = file_elems P fs in_file"
    using reorder_file [OF sz(1,2,5) e(6) sz(6) polls default_file_config, of "filter_chunk P B predicate" empty_out]
    by (elim exE conjE)
  let ?o = "fold (filter_chunk P B predicate) L empty_out"
  have inv: "out_inv P B ?o es"
    using filter_chunks_inv [OF P sz(3) out_inv_empty [OF sz(4)], of predicate L] cL by (simp add: es)
  then have lt: "length (so_buffer ?o) < B div pod_size P" by (simp add: out_inv_def)
  then have lt2: "length (so_buffer ?o) * pod_size P < B"
    using sz(1,3) by (metis dvd_div_mult_self mult_less_mono1)
  note se = stream_end [where fs = fs, OF inv P e(1,2,3,4,5) small, of ssds]
  then have "length (so_buffer ?o) * pod_size P \<le> length es * pod_size P" by (metis le_add2)
  then have "length (so_buffer ?o) * pod_size P + METADATA_SIZE + O_DIRECT_MULTIPLE \<le> 2 ^ 64"
    using small unfolding METADATA_SIZE_def O_DIRECT_MULTIPLE_def by linarith
  then have "METADATA_SIZE \<le> pod_size P \<longrightarrow> end_size P ?o \<le> B"
    using end_size_fits [OF lt sz(3) _ e(2)] by blast
  with lt2 se show ?thesis by (elim exE conjE) (intro exI conjI, rule L, assumption+)
qed

lemma FilterFile_result:
  assumes env: "stream_env P R B junk fs in_file out_file" and P: "pod_repr P"
  shows "(realloc_ok P realloc_at \<longrightarrow> (\<exists>fs' info. FilterFile P R B junk realloc_at ssds predicate in_file out_file fs fs' info)) \<and>
    (\<forall>fs' info. FilterFile P R B junk realloc_at ssds predicate in_file out_file fs fs' info \<longrightarrow>
       (\<exists>f. fs' = fs(out_file \<mapsto> f) \<and>
         holds_elems P fs' out_file (filter predicate (file_elems P fs in_file))
           (fi_true_size info div B * B + round_up O_DIRECT_MULTIPLE (fi_true_size info mod B + METADATA_SIZE)) \<and>
         fi_true_size info = length (filter predicate (file_elems P fs in_file)) * pod_size P \<and>
         fi_file_size info = (fi_true_size info div B + 1) * B \<and> fi_file_name info = out_file \<and>
         fi_file_index info = fi_file_index in_file))"
proof -
  let ?es = "filter predicate (file_elems P fs in_file)"
  have "length ?es * pod_size P \<le> length (file_elems P fs in_file) * pod_size P" by (simp add: length_filter_le)
  then have small: "length ?es * pod_size P + 2 * O_DIRECT_MULTIPLE < 2 ^ 64"
    using file_elems_bytes [of P fs in_file] env unfolding stream_env_def by linarith
  note one = filter_file_end [OF env P _ refl, of _ predicate ssds]
  show ?thesis
  proof (intro conjI allI impI)
    obtain ds where "file_polls P R default_file_reader_config fs [in_file] ds"
      using default_polls_exist [OF env P] by blast
    from one [OF this] this
    show "\<exists>fs' info. FilterFile P R B junk realloc_at ssds predicate in_file out_file fs fs' info" if "realloc_ok P realloc_at"
      using that unfolding FilterFile_def realloc_ok_def by (elim exE conjE) (metis not_le)
  next
    fix fs' info
    assume "FilterFile P R B junk realloc_at ssds predicate in_file out_file fs fs' info"
    then obtain ds o1 r where polls: "file_polls P R default_file_reader_config fs [in_file] ds"
      and o1: "reorder (filter_chunk P B predicate) ds [] 0 empty_out = Some o1" and r: "end_request P junk o1 = Some r"
      and run: "file_writer_runs O_DIRECT_MULTIPLE ssds stream_config u8_pod [out_file] fs (so_pushed o1 @ [r]) fs'"
      and info: "info = new_FileInfo out_file (fi_file_index in_file)
          (so_write_count o1 * B + length (so_buffer o1) * pod_size P) ((so_write_count o1 + 1) * B)"
      unfolding FilterFile_def by blast
    from one [OF polls] o1 r run obtain f where "fs' = fs(out_file \<mapsto> f)"
      and tot: "so_write_count o1 * B + length (so_buffer o1) * pod_size P = length ?es * pod_size P"
      and lt: "length (so_buffer o1) * pod_size P < B"
      and "holds_elems P (fs(out_file \<mapsto> f)) out_file ?es (so_write_count o1 * B + end_size P o1)" by auto
    moreover have "length ?es * pod_size P div B = so_write_count o1" and rest: "length ?es * pod_size P mod B = length (so_buffer o1) * pod_size P"
      using lt by (simp_all add: tot [symmetric])
    moreover have "length (so_buffer o1) * pod_size P + METADATA_SIZE + O_DIRECT_MULTIPLE \<le> 2 ^ 64"
      using tot small by (simp add: METADATA_SIZE_def O_DIRECT_MULTIPLE_def)
    from end_size_round [OF this] have "end_size P o1 = round_up O_DIRECT_MULTIPLE (length ?es * pod_size P mod B + METADATA_SIZE)"
      by (simp only: rest)
    ultimately show "\<exists>f. fs' = fs(out_file \<mapsto> f) \<and>
         holds_elems P fs' out_file ?es
           (fi_true_size info div B * B + round_up O_DIRECT_MULTIPLE (fi_true_size info mod B + METADATA_SIZE)) \<and>
         fi_true_size info = length ?es * pod_size P \<and>
         fi_file_size info = (fi_true_size info div B + 1) * B \<and> fi_file_name info = out_file \<and>
         fi_file_index info = fi_file_index in_file"
      unfolding info new_FileInfo_def by auto
  qed
qed

text \<open>With elements of one byte, a last buffer that lacks one byte and a \<open>realloc\<close> that loses the
alignment, the program stops.\<close>

lemma FilterFile_stops:
  assumes env: "stream_env P R B junk fs in_file out_file" and P: "pod_repr P" and one: "pod_size P = 1"
    and full: "length (filter predicate (file_elems P fs in_file)) mod B = B - 1"
    and moved: "realloc_at out_file mod O_DIRECT_MULTIPLE \<noteq> 0"
  shows "\<not> FilterFile P R B junk realloc_at ssds predicate in_file out_file fs fs' info"
proof
  let ?es = "filter predicate (file_elems P fs in_file)"
  assume "FilterFile P R B junk realloc_at ssds predicate in_file out_file fs fs' info"
  then obtain ds o1 where polls: "file_polls P R default_file_reader_config fs [in_file] ds"
    and o1: "reorder (filter_chunk P B predicate) ds [] 0 empty_out = Some o1" and fits: "end_size P o1 \<le> B"
    unfolding FilterFile_def using moved not_le by blast
  from filter_file_end [OF env P polls refl, of predicate ssds] o1
  have tot: "so_write_count o1 * B + length (so_buffer o1) = length ?es" and lt: "length (so_buffer o1) < B" by (auto simp: one)
  have "length (so_buffer o1) = B - 1" using full lt unfolding tot [symmetric] by simp
  moreover have "length ?es \<le> length (file_elems P fs in_file)" by (rule length_filter_le)
  then have "length (so_buffer o1) * pod_size P + METADATA_SIZE + O_DIRECT_MULTIPLE \<le> 2 ^ 64"
    using file_elems_bytes [of P fs in_file] env tot
    unfolding stream_env_def one METADATA_SIZE_def O_DIRECT_MULTIPLE_def by linarith
  from end_size_round [OF this] have "length (so_buffer o1) + METADATA_SIZE \<le> end_size P o1"
    using round_up_ge [of O_DIRECT_MULTIPLE] by (simp add: one O_DIRECT_MULTIPLE_def)
  ultimately show False using fits lt by (simp add: METADATA_SIZE_def)
qed

lemma NaiveScanFile_result:
  assumes env: "stream_env P R B junk fs in_file out_file" and P: "pod_repr P"
  shows "(\<exists>fs' info. NaiveScanFile P R B junk ssds add in_file out_file start fs fs' info) \<and>
    (\<forall>fs' info. NaiveScanFile P R B junk ssds add in_file out_file start fs fs' info \<longrightarrow>
       (\<exists>f. fs' = fs(out_file \<mapsto> f) \<and>
         holds_elems P fs' out_file (excl_scan add start (file_elems P fs in_file)) (fi_file_size info) \<and>
         fi_true_size info = length (file_elems P fs in_file) * pod_size P \<and> fi_file_name info = out_file \<and>
         fi_file_index info = fi_file_index in_file))"
proof -
  let ?es = "excl_scan add start (file_elems P fs in_file)" and ?loop = "reorder (scan_chunk P B add)"
  note sz = stream_env_sizes [OF env P]
  have e: "pod_size P dvd O_DIRECT_MULTIPLE" "O_DIRECT_MULTIPLE dvd B" "0 < B" "fs out_file = None"
    "METADATA_SIZE + O_DIRECT_MULTIPLE \<le> length junk" "file_on_disk fs in_file"
    "fi_file_size in_file + 2 * O_DIRECT_MULTIPLE < 2 ^ 64"
    using env by (simp_all add: stream_env_def)
  have small: "length ?es * pod_size P + 2 * O_DIRECT_MULTIPLE < 2 ^ 64"
    using file_elems_bytes [of P fs in_file] e(7) unfolding length_excl_scan by linarith
  have one: "\<exists>t o1 r f. ?loop ds [] 0 (start, empty_out) = Some (t, o1) \<and> end_request P junk o1 = Some r \<and>
      (\<forall>fs'. file_writer_runs O_DIRECT_MULTIPLE ssds stream_config u8_pod [out_file] fs (so_pushed o1 @ [r]) fs' \<longleftrightarrow> fs' = fs(out_file \<mapsto> f)) \<and>
      so_write_count o1 * B + length (so_buffer o1) * pod_size P = length ?es * pod_size P \<and>
      holds_elems P (fs(out_file \<mapsto> f)) out_file ?es (so_write_count o1 * B + end_size P o1)"
    if polls: "file_polls P R default_file_reader_config fs [in_file] ds" for ds
  proof -
    obtain L where L: "?loop ds [] 0 (start, empty_out) = Some (fold (scan_chunk P B add) L (start, empty_out))"
      and cL: "concat (map fb_elems L) = file_elems P fs in_file"
      using reorder_file [OF sz(1,2,5) e(6) sz(6) polls default_file_config, of "scan_chunk P B add" "(start, empty_out)"]
      by (elim exE conjE)
    obtain t o2 where o2: "fold (scan_chunk P B add) L (start, empty_out) = (t, o2)" and inv: "out_inv P B o2 ?es"
      using scan_chunks_inv [OF P sz(3) out_inv_empty [OF sz(4)], of add L start] cL by auto
    from stream_end [where fs = fs, OF inv P e(1,2,3,4,5) small, of ssds] show ?thesis
      by (elim exE conjE) (intro exI conjI, rule L [unfolded o2], assumption+)
  qed
  show ?thesis
  proof (intro conjI allI impI)
    obtain ds where "file_polls P R default_file_reader_config fs [in_file] ds"
      using default_polls_exist [OF env P] by blast
    with one [OF this] show "\<exists>fs' info. NaiveScanFile P R B junk ssds add in_file out_file start fs fs' info"
      unfolding NaiveScanFile_def by blast
  next
    fix fs' info
    assume "NaiveScanFile P R B junk ssds add in_file out_file start fs fs' info"
    then obtain ds t o1 r where polls: "file_polls P R default_file_reader_config fs [in_file] ds"
      and o1: "?loop ds [] 0 (start, empty_out) = Some (t, o1)" and r: "end_request P junk o1 = Some r"
      and run: "file_writer_runs O_DIRECT_MULTIPLE ssds stream_config u8_pod [out_file] fs (so_pushed o1 @ [r]) fs'"
      and info: "info = new_FileInfo out_file (fi_file_index in_file)
          (so_write_count o1 * B + length (so_buffer o1) * pod_size P) (so_write_count o1 * B + end_size P o1)"
      unfolding NaiveScanFile_def by blast
    from one [OF polls] o1 r run show "\<exists>f. fs' = fs(out_file \<mapsto> f) \<and>
         holds_elems P fs' out_file ?es (fi_file_size info) \<and>
         fi_true_size info = length (file_elems P fs in_file) * pod_size P \<and> fi_file_name info = out_file \<and>
         fi_file_index info = fi_file_index in_file"
      unfolding info new_FileInfo_def by auto
  qed
qed

lemma fold_add_foldl: "fold (\<lambda>x t. add t x) xs z = foldl add z xs"
  by (induction xs arbitrary: z) simp_all

lemma fold_chunks_foldl:
  "fold (\<lambda>d t. fold (\<lambda>x t. add t x) (take (fb_size d) (fb_data d)) t) L z = foldl add z (concat (map fb_elems L))"
  by (induction L arbitrary: z) (simp_all add: fold_add_foldl fb_elems_def)

lemma put_in_mem_result:
  assumes env: "stream_env P R B junk fs in_file out_file" and P: "pod_repr P"
  shows "put_in_mem P R add zero fs in_file t \<longleftrightarrow> t = foldl add zero (file_elems P fs in_file)"
proof -
  let ?f = "\<lambda>d t. fold (\<lambda>x t. add t x) (take (fb_size d) (fb_data d)) t"
  note sz = stream_env_sizes [OF env P]
  have disk: "file_on_disk fs in_file" using env by (simp add: stream_env_def)
  have one: "reorder ?f ds [] 0 zero = Some (foldl add zero (file_elems P fs in_file))"
    if polls: "file_polls P R default_file_reader_config fs [in_file] ds" for ds
  proof -
    obtain L where "reorder ?f ds [] 0 zero = Some (fold ?f L zero)" and "concat (map fb_elems L) = file_elems P fs in_file"
      using reorder_file [OF sz(1,2,5) disk sz(6) polls default_file_config, of ?f zero] by (elim exE conjE)
    then show ?thesis using fold_chunks_foldl [of add L zero] by simp
  qed
  then show ?thesis
    using default_polls_exist [OF env P] unfolding put_in_mem_def by auto
qed

section \<open>Several files\<close>

text \<open>
  \<open>Filter\<close> and \<open>Scan\<close> treat every file by a task of its own. No task writes a file that another one
  reads or writes, so it does not matter how they interleave; here they run one after the other.
\<close>

fun run_files :: "(FileInfo \<Rightarrow> string \<Rightarrow> 'c \<Rightarrow> fstore \<Rightarrow> fstore \<Rightarrow> FileInfo \<Rightarrow> bool) \<Rightarrow> (FileInfo \<times> string \<times> 'c) list \<Rightarrow>
    fstore \<Rightarrow> fstore \<Rightarrow> FileInfo list \<Rightarrow> bool" where
  "run_files run [] fs fs' infos = (fs' = fs \<and> infos = [])"
| "run_files run ((in_file, out_file, c) # rest) fs fs' infos =
     (\<exists>fs1 info infos1. run in_file out_file c fs fs1 info \<and> run_files run rest fs1 fs' infos1 \<and> infos = info # infos1)"

definition Filter :: "'a pod \<Rightarrow> nat \<Rightarrow> nat \<Rightarrow> byte list \<Rightarrow> (string \<Rightarrow> nat) \<Rightarrow> string list \<Rightarrow> ('a \<Rightarrow> bool) \<Rightarrow> FileInfo list \<Rightarrow> string \<Rightarrow>
    fstore \<Rightarrow> fstore \<Rightarrow> FileInfo list \<Rightarrow> bool" where
  "Filter P R B junk realloc_at ssds predicate files result_prefix fs fs' infos \<longleftrightarrow>
     run_files (\<lambda>in_file out_file u. FilterFile P R B junk realloc_at ssds predicate in_file out_file)
       (map (\<lambda>i. (files ! i, GetFileName ssds result_prefix i, ())) [0..<length files]) fs fs' infos"

text \<open>\<open>Scan\<close> keeps the totals of the files as \<open>size_t\<close>; here the element type is \<open>size_t\<close> itself.\<close>

definition Scan :: "nat \<Rightarrow> nat \<Rightarrow> byte list \<Rightarrow> string list \<Rightarrow> FileInfo list \<Rightarrow> string \<Rightarrow>
    fstore \<Rightarrow> fstore \<Rightarrow> FileInfo list \<Rightarrow> bool" where
  "Scan R B junk ssds files result_prefix fs fs' infos \<longleftrightarrow>
     (\<exists>store. length store = length files \<and>
        (\<forall>i < length files. put_in_mem u64_pod R (+) 0 fs (files ! i) (store ! i)) \<and>
        run_files (NaiveScanFile u64_pod R B junk ssds (+))
          (map (\<lambda>i. (files ! i, GetFileName ssds result_prefix i, excl_scan (+) 0 store ! i)) [0..<length files]) fs fs' infos)"

text \<open>The file \<open>out\<close> holds \<open>es\<close> and \<open>info\<close> describes it.\<close>

definition file_done :: "'a pod \<Rightarrow> fstore \<Rightarrow> FileInfo \<Rightarrow> string \<Rightarrow> 'a list \<Rightarrow> FileInfo \<Rightarrow> bool" where
  "file_done P fs in_file out_file es info \<longleftrightarrow> (\<exists>n. holds_elems P fs out_file es n) \<and>
     fi_true_size info = length es * pod_size P \<and> fi_file_name info = out_file \<and> fi_file_index info = fi_file_index in_file"

text \<open>The contract of a task, with parameter \<open>c\<close>: it turns the elements of its file into \<open>image c\<close>, and
comes to its end under the condition \<open>ends\<close>.\<close>

locale file_task =
  fixes P :: "'a pod" and R B :: nat and junk :: "byte list" and ends :: bool
    and run :: "FileInfo \<Rightarrow> string \<Rightarrow> 'c \<Rightarrow> fstore \<Rightarrow> fstore \<Rightarrow> FileInfo \<Rightarrow> bool"
    and image :: "'c \<Rightarrow> 'a list \<Rightarrow> 'a list"
  assumes task_exists: "ends \<Longrightarrow> pod_repr P \<Longrightarrow> stream_env P R B junk fs in_file out_file \<Longrightarrow> \<exists>fs' info. run in_file out_file c fs fs' info"
    and task_result: "pod_repr P \<Longrightarrow> stream_env P R B junk fs in_file out_file \<Longrightarrow> run in_file out_file c fs fs' info \<Longrightarrow>
      (\<exists>f. fs' = fs(out_file \<mapsto> f)) \<and> file_done P fs' in_file out_file (image c (file_elems P fs in_file)) info"

interpretation filter_task: file_task P R B junk "realloc_ok P realloc_at" "\<lambda>in_file out_file u. FilterFile P R B junk realloc_at ssds predicate in_file out_file"
    "\<lambda>u. filter predicate" for P R B junk realloc_at ssds predicate
proof unfold_locales
  fix fs fs' in_file out_file info
  assume h: "pod_repr P" "stream_env P R B junk fs in_file out_file"
  note r = FilterFile_result [OF h(2,1), of realloc_at ssds predicate]
  show "\<exists>fs' info. FilterFile P R B junk realloc_at ssds predicate in_file out_file fs fs' info" if "realloc_ok P realloc_at"
    using r that by blast
  assume "FilterFile P R B junk realloc_at ssds predicate in_file out_file fs fs' info"
  then show "(\<exists>f. fs' = fs(out_file \<mapsto> f)) \<and>
      file_done P fs' in_file out_file (filter predicate (file_elems P fs in_file)) info"
    using r unfolding file_done_def by blast
qed

interpretation scan_task: file_task P R B junk True "NaiveScanFile P R B junk ssds add" "\<lambda>start. excl_scan add start"
    for P R B junk ssds add
proof unfold_locales
  fix fs fs' in_file out_file info start
  assume h: "pod_repr P" "stream_env P R B junk fs in_file out_file"
  note r = NaiveScanFile_result [OF h(2,1), of ssds add start]
  show "\<exists>fs' info. NaiveScanFile P R B junk ssds add in_file out_file start fs fs' info" using r by blast
  assume "NaiveScanFile P R B junk ssds add in_file out_file start fs fs' info"
  then show "(\<exists>f. fs' = fs(out_file \<mapsto> f)) \<and>
      file_done P fs' in_file out_file (excl_scan add start (file_elems P fs in_file)) info"
    using r unfolding file_done_def length_excl_scan by blast
qed

text \<open>All files at once: existing inputs, distinct new outputs.\<close>

definition files_env :: "'a pod \<Rightarrow> nat \<Rightarrow> nat \<Rightarrow> byte list \<Rightarrow> fstore \<Rightarrow> (FileInfo \<times> string) list \<Rightarrow> bool" where
  "files_env P R B junk fs ps \<longleftrightarrow> distinct (map snd ps) \<and>
     (\<forall>p \<in> set ps. stream_env P R B junk fs (fst p) (snd p) \<and> fs (fi_file_name (fst p)) \<noteq> None)"

lemma file_of_cong: "fs' name = fs name \<Longrightarrow> file_of fs' name = file_of fs name"
  by (simp add: file_of_def)

lemma file_elems_cong: "fs' (fi_file_name info) = fs (fi_file_name info) \<Longrightarrow> file_elems P fs' info = file_elems P fs info"
  by (simp add: file_elems_def file_of_def)

lemma holds_elems_cong: "fs' name = fs name \<Longrightarrow> holds_elems P fs' name es n = holds_elems P fs name es n"
  by (simp add: holds_elems_def file_of_def GetFileInfo_def file_info_one_def file_info_true_size_def new_FileInfo_def
      ReadFileOnce_def fs_read_def cong: if_cong option.case_cong)

lemma files_env_rest:
  assumes "files_env P R B junk fs (p # ps)" and "fs1 = fs(snd p \<mapsto> f)"
  shows "files_env P R B junk fs1 ps \<and> (\<forall>q \<in> set ps. fs1 (fi_file_name (fst q)) = fs (fi_file_name (fst q)))"
proof -
  have new: "fs (snd p) = None" using assms(1) by (simp add: files_env_def stream_env_def)
  have "stream_env P R B junk fs1 (fst q) (snd q) \<and> fs1 (fi_file_name (fst q)) \<noteq> None \<and>
      fs1 (fi_file_name (fst q)) = fs (fi_file_name (fst q))" if "q \<in> set ps" for q
  proof -
    have q: "stream_env P R B junk fs (fst q) (snd q)" "fs (fi_file_name (fst q)) \<noteq> None" "snd q \<noteq> snd p"
      using assms(1) that by (auto simp: files_env_def image_iff)
    then have "fi_file_name (fst q) \<noteq> snd p" using new by metis
    then show ?thesis using q assms(2) by (simp add: stream_env_def file_on_disk_def file_of_def)
  qed
  then show ?thesis using assms(1) by (simp add: files_env_def)
qed

context file_task
begin

lemma run_files_result:
  assumes "pod_repr P" and "files_env P R B junk fs (map (\<lambda>(i, out, c). (i, out)) ts)"
  shows run_files_exist: "ends \<Longrightarrow> \<exists>fs' infos. run_files run ts fs fs' infos"
    and run_files_done: "run_files run ts fs fs' infos \<Longrightarrow> length infos = length ts \<and>
       (\<forall>name. name \<notin> set (map (\<lambda>(i, out, c). out) ts) \<longrightarrow> fs' name = fs name) \<and>
       (\<forall>k < length ts. case ts ! k of (i, out, c) \<Rightarrow> file_done P fs' i out (image c (file_elems P fs i)) (infos ! k))"
proof -
  have "(ends \<longrightarrow> (\<exists>fs' infos. run_files run ts fs fs' infos)) \<and> (\<forall>fs' infos. run_files run ts fs fs' infos \<longrightarrow>
       length infos = length ts \<and> (\<forall>name. name \<notin> set (map (\<lambda>(i, out, c). out) ts) \<longrightarrow> fs' name = fs name) \<and>
       (\<forall>k < length ts. case ts ! k of (i, out, c) \<Rightarrow> file_done P fs' i out (image c (file_elems P fs i)) (infos ! k)))"
    using assms(2)
  proof (induction ts arbitrary: fs)
    case Nil
    then show ?case by simp
  next
    case (Cons t ts)
    obtain i out c where t: "t = (i, out, c)" by (metis prod_cases3)
    let ?ps = "map (\<lambda>(i, out, c). (i, out)) ts"
    have env: "stream_env P R B junk fs i out" using Cons.prems by (simp add: t files_env_def)
    have rest: "files_env P R B junk fs1 ?ps"
      and same: "\<forall>q \<in> set ?ps. fs1 (fi_file_name (fst q)) = fs (fi_file_name (fst q))" if "fs1 = fs(out \<mapsto> f)" for fs1 f
      using files_env_rest [of P R B junk fs "(i, out)" ?ps fs1 f] Cons.prems that by (simp_all add: t)
    have outs: "out \<notin> set (map (\<lambda>(i, out, c). out) ts)"
      using Cons.prems by (auto simp: t files_env_def image_iff split: prod.splits)
    show ?case
    proof (intro conjI allI impI)
      assume ends
      obtain fs1 info where r: "run i out c fs fs1 info" using task_exists [OF \<open>ends\<close> assms(1) env] by blast
      then obtain f where "fs1 = fs(out \<mapsto> f)" using task_result [OF assms(1) env] by blast
      from Cons.IH [OF rest [OF this]] obtain fs' infos where "run_files run ts fs1 fs' infos" using \<open>ends\<close> by blast
      then have "run_files run (t # ts) fs fs' (info # infos)" using r by (auto simp: t)
      then show "\<exists>fs' infos. run_files run (t # ts) fs fs' infos" by (intro exI)
    next
      fix fs' infos assume "run_files run (t # ts) fs fs' infos"
      then obtain fs1 info infos1 where r: "run i out c fs fs1 info" and rs: "run_files run ts fs1 fs' infos1"
        and infos: "infos = info # infos1" by (auto simp: t)
      from task_result [OF assms(1) env r] obtain f where fs1: "fs1 = fs(out \<mapsto> f)"
        and h: "file_done P fs1 i out (image c (file_elems P fs i)) info" by (elim conjE exE)
      note IH = conjunct2 [OF Cons.IH [OF rest [OF fs1]], rule_format, OF rs]
      show "length infos = length (t # ts)" using IH by (simp add: infos)
      have other: "fs' name = fs1 name" if "name \<notin> set (map (\<lambda>(i, out, c). out) ts)" for name
        using conjunct1 [OF conjunct2 [OF IH]] that by (elim allE [of _ name]) (rule mp)
      show "fs' name = fs name" if "name \<notin> set (map (\<lambda>(i, out, c). out) (t # ts))" for name
        using that other [of name] by (simp add: t fs1)
      show "case (t # ts) ! k of (i, out, c) \<Rightarrow> file_done P fs' i out (image c (file_elems P fs i)) (infos ! k)"
        if k: "k < length (t # ts)" for k
      proof (cases k)
        case 0
        have "fs' out = fs1 out" using other [OF outs] .
        from holds_elems_cong [of fs' out fs1, OF this] show ?thesis using h 0 unfolding file_done_def by (auto simp: t infos)
      next
        case (Suc j)
        then have j: "j < length ts" using k by simp
        obtain i' out' c' where tj: "ts ! j = (i', out', c')" by (metis prod_cases3)
        have "(i', out', c') \<in> set ts" using j tj nth_mem [OF j] by simp
        then have "(\<lambda>(i, out, c). (i, out)) (i', out', c') \<in> set ?ps" unfolding set_map by (rule imageI)
        from bspec [OF same [OF fs1] this] have "fs1 (fi_file_name i') = fs (fi_file_name i')" by simp
        from file_elems_cong [of fs1 i' fs, OF this] have e: "file_elems P fs1 i' = file_elems P fs i'" .
        have "case ts ! j of (i, out, c) \<Rightarrow> file_done P fs' i out (image c (file_elems P fs1 i)) (infos1 ! j)"
          using conjunct2 [OF conjunct2 [OF IH]] j by (elim allE [of _ j]) (rule mp)
        then show ?thesis by (simp add: tj Suc infos e)
      qed
    qed
  qed
  note both = this
  show "\<exists>fs' infos. run_files run ts fs fs' infos" if ends using conjunct1 [OF both] that by (rule mp)
  assume r: "run_files run ts fs fs' infos"
  show "length infos = length ts \<and> (\<forall>name. name \<notin> set (map (\<lambda>(i, out, c). out) ts) \<longrightarrow> fs' name = fs name) \<and>
      (\<forall>k < length ts. case ts ! k of (i, out, c) \<Rightarrow> file_done P fs' i out (image c (file_elems P fs i)) (infos ! k))"
    by (rule conjunct2 [OF both, THEN spec, THEN spec, THEN mp, OF r])
qed

end

lemma excl_scan_concat:
  assumes "\<And>a b c. add (add a b) c = add a (add b c)" and "\<And>a. add a zero = a"
  shows "concat (map2 (\<lambda>start es. excl_scan add start es) (excl_scan add z (map (foldl add zero) ess)) ess)
    = excl_scan add z (concat ess)"
proof (induction ess arbitrary: z)
  case Nil
  then show ?case by simp
next
  case (Cons es ess)
  have shift: "foldl add (add a b) xs = add a (foldl add b xs)" for a b xs
    by (induction xs arbitrary: b) (simp_all add: assms(1))
  have "add z (foldl add zero es) = foldl add z es" using shift [of z zero es] assms(2) by simp
  then show ?case using Cons by (simp add: excl_scan_append)
qed

section \<open>Properties\<close>

definition task_files :: "string list \<Rightarrow> string \<Rightarrow> FileInfo list \<Rightarrow> (FileInfo \<times> string) list" where
  "task_files ssds result_prefix files = map (\<lambda>i. (files ! i, GetFileName ssds result_prefix i)) [0..<length files]"

text \<open>The example: the file of twelve bytes of the reader's example, and one of two numbers.\<close>

definition demo_junk :: "byte list" where
  "demo_junk = replicate 4098 0"

definition demo_nums :: FileInfo where
  "demo_nums = \<lparr>fi_file_name = ''g'', fi_file_index = 0, fi_true_size = 16, fi_file_size = 16, fi_before_size = 0\<rparr>"

definition demo_nums_fs :: fstore where
  "demo_nums_fs = [''g'' \<mapsto> [1, 0, 0, 0, 0, 0, 0, 0, 2, 0, 0, 0, 0, 0, 0, 0]]"

lemma demo_task_files: "task_files [''d''] ''p'' [info] = [(info, ''d/p0'')]"
proof -
  have "to_string 0 = ''0''" by code_simp
  then show ?thesis by (simp add: task_files_def GetFileName_def CheckSSDList_def)
qed

lemma demo_bytes_env: "files_env u8_pod 4096 4096 demo_junk demo_file_fs (task_files [''d''] ''p'' [demo_info])"
  unfolding demo_task_files
  by (simp add: files_env_def stream_env_def u8_size demo_junk_def O_DIRECT_MULTIPLE_def METADATA_SIZE_def
      file_on_disk_def demo_info_def demo_file_fs_def file_of_def)

lemma demo_nums_env: "files_env u64_pod 4096 4096 demo_junk demo_nums_fs (task_files [''d''] ''p'' [demo_nums])"
  unfolding demo_task_files
  by (simp add: files_env_def stream_env_def u64_pod_def demo_junk_def O_DIRECT_MULTIPLE_def METADATA_SIZE_def
      file_on_disk_def demo_nums_def demo_nums_fs_def file_of_def)

lemma demo_bytes: "file_elems u8_pod demo_file_fs demo_info = [1, 2, 3, 4, 5, 6, 7, 8, 9, 10, 11, 12]"
  by (simp add: file_elems_def demo_info_def demo_file_fs_def u8_size file_of_def dec_list_u8)

lemma demo_numbers: "file_elems u64_pod demo_nums_fs demo_nums = [1, 2]"
proof -
  have "dec_list u64_pod 2 [1, 0, 0, 0, 0, 0, 0, 0, 2, 0, 0, 0, 0, 0, 0, 0] = [1, 2]" by code_simp
  then show ?thesis by (simp add: file_elems_def demo_nums_def demo_nums_fs_def file_of_def u64_pod_def)
qed

text \<open>C16: If the elements have at least two bytes, or \<open>realloc\<close> keeps the alignment of the last buffer,
\<open>Filter\<close> always returns; and whenever it returns, every new file holds exactly the elements of its input file that
satisfy the predicate, in order, although the chunks arrive in any order: \<open>GetFileInfo\<close> recovers the
valid size from its end marker and decoding that many elements gives them back.\<close>

theorem Filter_correct:
  assumes "pod_repr P" and "files_env P R B junk fs (task_files ssds result_prefix files)"
  shows "(METADATA_SIZE \<le> pod_size P \<or> (\<forall>f. realloc_at f mod O_DIRECT_MULTIPLE = 0) \<longrightarrow>
      (\<exists>fs' infos. Filter P R B junk realloc_at ssds predicate files result_prefix fs fs' infos)) \<and>
    (\<forall>fs' infos. Filter P R B junk realloc_at ssds predicate files result_prefix fs fs' infos \<longrightarrow>
       (\<forall>i < length files. file_done P fs' (files ! i) (GetFileName ssds result_prefix i)
          (filter predicate (file_elems P fs (files ! i))) (infos ! i)))"
proof -
  let ?ts = "map (\<lambda>i. (files ! i, GetFileName ssds result_prefix i, ())) [0..<length files]"
  have ts: "map (\<lambda>(i, out, c). (i, out)) ?ts = task_files ssds result_prefix files"
    by (simp add: task_files_def)
  note ex = filter_task.run_files_exist [OF assms(1), of R B junk fs ?ts realloc_at ssds predicate, unfolded ts, OF assms(2), unfolded realloc_ok_def]
  note dn = filter_task.run_files_done [OF assms(1), of R B junk fs ?ts realloc_at ssds predicate, unfolded ts, OF assms(2)]
  have "file_done P fs' (files ! i) (GetFileName ssds result_prefix i) (filter predicate (file_elems P fs (files ! i))) (infos ! i)"
    if "Filter P R B junk realloc_at ssds predicate files result_prefix fs fs' infos" and "i < length files" for fs' infos i
    using conjunct2 [OF conjunct2 [OF dn [OF that(1) [unfolded Filter_def]]], rule_format, of i] that(2) by simp
  then show ?thesis using ex unfolding Filter_def by blast
qed

lemma Filter_correct_witness:
  "\<exists>fs' infos. Filter u8_pod 4096 4096 demo_junk (\<lambda>_. 8192) [''d''] (\<lambda>x. 9 < x) [demo_info] ''p'' demo_file_fs fs' infos \<and>
     file_done u8_pod fs' demo_info (GetFileName [''d''] ''p'' 0) [10, 11, 12] (infos ! 0)"
proof -
  note r = Filter_correct [OF u8_repr.pod_repr_axioms demo_bytes_env, where predicate = "\<lambda>x. 9 < x" and realloc_at = "\<lambda>_. 8192"]
  have f: "filter (\<lambda>x. 9 < x) (file_elems u8_pod demo_file_fs ([demo_info] ! 0)) = [10, 11, 12]"
    by (simp add: demo_bytes)
  obtain fs' infos where run: "Filter u8_pod 4096 4096 demo_junk (\<lambda>_. 8192) [''d''] (\<lambda>x. 9 < x) [demo_info] ''p'' demo_file_fs fs' infos"
    using conjunct1 [OF r] by (auto simp: O_DIRECT_MULTIPLE_def)
  from conjunct2 [OF r, rule_format, OF run, of 0, unfolded f] show ?thesis
    using run by (intro exI [of _ fs'] exI [of _ infos] conjI) simp_all
qed

text \<open>C17: \<open>Scan\<close> of \<open>size_t\<close> values always returns, and the new files together hold the exclusive prefix
sums, modulo \<open>2 ^ 64\<close>, of the elements of all input files in order: the second pass starts every file
with the total of the files before it that the first pass has computed.\<close>

theorem Scan_correct:
  assumes "files_env u64_pod R B junk fs (task_files ssds result_prefix files)"
  shows "(\<exists>fs' infos. Scan R B junk ssds files result_prefix fs fs' infos) \<and>
    (\<forall>fs' infos. Scan R B junk ssds files result_prefix fs fs' infos \<longrightarrow>
       (\<exists>outs. length outs = length files \<and>
          (\<forall>i < length files. file_done u64_pod fs' (files ! i) (GetFileName ssds result_prefix i) (outs ! i) (infos ! i)) \<and>
          concat outs = excl_scan (+) 0 (concat (map (file_elems u64_pod fs) files))))"
proof -
  have P: "pod_repr u64_pod" by (rule u64_repr.pod_repr_axioms)
  let ?tot = "\<lambda>info. foldl (+) 0 (file_elems u64_pod fs info)"
  define starts where "starts = excl_scan (+) 0 (map ?tot files)"
  let ?ts = "map (\<lambda>i. (files ! i, GetFileName ssds result_prefix i, starts ! i)) [0..<length files]"
  have ts: "map (\<lambda>(i, out, c). (i, out)) ?ts = task_files ssds result_prefix files"
    by (simp add: task_files_def)
  have "put_in_mem u64_pod R (+) 0 fs (files ! i) t \<longleftrightarrow> t = ?tot (files ! i)" if "i < length files" for i t
  proof (rule put_in_mem_result [OF _ P])
    show "stream_env u64_pod R B junk fs (files ! i) (GetFileName ssds result_prefix i)"
      using assms that by (auto simp: files_env_def task_files_def)
  qed
  then have store: "length store = length files \<and> (\<forall>i < length files. put_in_mem u64_pod R (+) 0 fs (files ! i) (store ! i))
      \<longleftrightarrow> store = map ?tot files" for store
    by (auto intro: nth_equalityI)
  have scan: "Scan R B junk ssds files result_prefix fs fs' infos \<longleftrightarrow>
      run_files (NaiveScanFile u64_pod R B junk ssds (+)) ?ts fs fs' infos" for fs' infos
    unfolding Scan_def starts_def conj_assoc [symmetric] store by simp
  note ex = scan_task.run_files_exist [OF P _ TrueI, of R B junk fs ?ts ssds "(+)", unfolded ts, OF assms]
  note dn = scan_task.run_files_done [OF P, of R B junk fs ?ts ssds "(+)", unfolded ts, OF assms]
  define outs where "outs = map2 (excl_scan (+)) starts (map (file_elems u64_pod fs) files)"
  have len: "length starts = length files" by (simp add: starts_def)
  have "outs ! i = excl_scan (+) (starts ! i) (file_elems u64_pod fs (files ! i))" if "i < length files" for i
    using that by (simp add: outs_def len)
  then have "file_done u64_pod fs' (files ! i) (GetFileName ssds result_prefix i) (outs ! i) (infos ! i)"
    if "Scan R B junk ssds files result_prefix fs fs' infos" and "i < length files" for fs' infos i
    using conjunct2 [OF conjunct2 [OF dn [OF that(1) [unfolded scan]]], rule_format, of i] that(2) by simp
  moreover have "concat outs = excl_scan (+) 0 (concat (map (file_elems u64_pod fs) files))"
    using excl_scan_concat [of "(+)" "0 :: u64" 0 "map (file_elems u64_pod fs) files"]
    by (simp add: outs_def starts_def comp_def add.assoc)
  moreover have "length outs = length files" by (simp add: outs_def len)
  moreover have "\<exists>fs' infos. Scan R B junk ssds files result_prefix fs fs' infos" unfolding scan by (rule ex)
  ultimately show ?thesis by blast
qed

lemma Scan_correct_witness:
  "\<exists>fs' infos. Scan 4096 4096 demo_junk [''d''] [demo_nums] ''p'' demo_nums_fs fs' infos \<and>
     file_done u64_pod fs' demo_nums (GetFileName [''d''] ''p'' 0) [0, 1] (infos ! 0)"
proof -
  note r = Scan_correct [OF demo_nums_env]
  obtain fs' infos where run: "Scan 4096 4096 demo_junk [''d''] [demo_nums] ''p'' demo_nums_fs fs' infos"
    using conjunct1 [OF r] by (elim exE)
  from conjunct2 [OF r, rule_format, OF run] obtain outs where o1: "length outs = 1"
      "file_done u64_pod fs' demo_nums (GetFileName [''d''] ''p'' 0) (outs ! 0) (infos ! 0)"
    and c: "concat outs = [0, 1]"
    by (auto simp: demo_numbers)
  have "outs ! 0 = [0, 1]" using o1(1) c by (cases outs) auto
  with run o1 show ?thesis by (intro exI [of _ fs'] exI [of _ infos] conjI) simp_all
qed

end
