(* ===== verification/BucketWriter.thy ===== *)
theory BucketWriter
  imports FileWriter
begin

text \<open>
  utils/ordered_file_writer.h: \<open>OrderedFileWriter\<close>, which keeps one file per bucket. A write to a
  bucket adds its buffer to the bucket's current request, an I/O vector; a request that is large
  enough is handed to the I/O threads and replaced by a fresh one at the next offset. Buffers whose
  size is no multiple of the direct-I/O unit are kept until \<open>CleanUp\<close>, which gathers them at the end
  of the file behind an end marker. The writer moves bytes: a buffer is the list of its bytes. A
  step is one call of \<open>Write\<close>, the call of \<open>CleanUp\<close>, or one submission, completion or end of an
  I/O thread. \<open>threshold\<close> is \<open>io_threshold\<close>, \<open>vec\<close> is \<open>IO_VECTOR_SIZE\<close> and \<open>depth\<close> is \<open>RING_DEPTH\<close>.
\<close>

definition IO_VECTOR_SIZE :: nat where
  "IO_VECTOR_SIZE = 1024"

definition RING_DEPTH :: nat where
  "RING_DEPTH = 128"

text \<open>\<open>current_size\<close> and \<open>iovec_count\<close> always are the sum and the number of the vectors.\<close>

record IOVectorRequest =
  rq_fd :: nat
  rq_offset :: nat
  rq_vectors :: "byte list list"
  rq_last :: bool

definition current_size :: "IOVectorRequest \<Rightarrow> nat" where
  "current_size r = sum_list (map length (rq_vectors r))"

definition iovec_count :: "IOVectorRequest \<Rightarrow> nat" where
  "iovec_count r = length (rq_vectors r)"

definition AddPointer :: "byte list \<Rightarrow> IOVectorRequest \<Rightarrow> IOVectorRequest" where
  "AddPointer bs r = r\<lparr>rq_vectors := rq_vectors r @ [bs]\<rparr>"

record Bucket =
  bk_name :: string
  bk_request :: IOVectorRequest
  bk_file_size :: nat
  bk_misaligned :: "byte list list"

record io_thread =
  io_ring :: "IOVectorRequest list"
  io_more :: bool

record bucket_writer =
  bw_buckets :: "Bucket list"
  bw_free :: nat
  bw_pending :: "IOVectorRequest simple_queue"
  bw_threads :: "io_thread list"
  bw_results :: "FileInfo list"
  bw_cleaned :: bool

definition fresh_request :: "nat \<Rightarrow> nat \<Rightarrow> IOVectorRequest" where
  "fresh_request fd offset = \<lparr>rq_fd = fd, rq_offset = offset, rq_vectors = [], rq_last = False\<rparr>"

text \<open>\<open>NewRequest\<close> takes a request from the pool; \<open>None\<close> while it has to wait for one.\<close>

definition NewRequest :: "nat \<Rightarrow> nat \<Rightarrow> bucket_writer \<Rightarrow> (IOVectorRequest \<times> bucket_writer) option" where
  "NewRequest fd offset w =
     (if bw_free w = 0 then None else Some (fresh_request fd offset, w\<lparr>bw_free := bw_free w - 1\<rparr>))"

definition SubmitRequest :: "IOVectorRequest \<Rightarrow> bucket_writer \<Rightarrow> bucket_writer option" where
  "SubmitRequest r w = map_option (\<lambda>q. w\<lparr>bw_pending := q\<rparr>) (Push (bw_pending w) r)"

text \<open>The pool has ten requests per bucket, one of which each bucket takes at once.\<close>

definition InitializeWriter :: "string list \<Rightarrow> string \<Rightarrow> nat \<Rightarrow> nat \<Rightarrow> bucket_writer" where
  "InitializeWriter ssds result_prefix num_buckets num_threads =
     \<lparr>bw_buckets = map (\<lambda>i. \<lparr>bk_name = GetFileName ssds result_prefix i, bk_request = fresh_request i 0,
                              bk_file_size = 0, bk_misaligned = []\<rparr>) [0..<num_buckets],
      bw_free = num_buckets * 10 - num_buckets, bw_pending = SimpleQueue 0,
      bw_threads = replicate num_threads \<lparr>io_ring = [], io_more = True\<rparr>,
      bw_results = map (\<lambda>i. new_FileInfo (GetFileName ssds result_prefix i) i 0 0) [0..<num_buckets],
      bw_cleaned = False\<rparr>"

text \<open>\<open>Write\<close>; \<open>None\<close>: the \<open>CHECK\<close> of the bucket number aborts, or it waits for a free request.\<close>

definition bucket_write :: "nat \<Rightarrow> nat \<Rightarrow> nat \<Rightarrow> byte list \<Rightarrow> bucket_writer \<Rightarrow> bucket_writer option" where
  "bucket_write threshold vec b bs w =
     (if \<not> b < length (bw_buckets w) then None
      else let bk = bw_buckets w ! b in
        if length bs mod O_DIRECT_MULTIPLE \<noteq> 0
        then Some (w\<lparr>bw_buckets := (bw_buckets w)[b := bk\<lparr>bk_misaligned := bk_misaligned bk @ [bs]\<rparr>]\<rparr>)
        else let r = AddPointer bs (bk_request bk) in
          if threshold \<le> current_size r \<or> vec \<le> iovec_count r
          then let n = bk_file_size bk + current_size r in
            (case NewRequest b n w of
               None \<Rightarrow> None
             | Some (r', w') \<Rightarrow>
                 SubmitRequest r (w'\<lparr>bw_buckets := (bw_buckets w)[b := bk\<lparr>bk_request := r', bk_file_size := n\<rparr>]\<rparr>))
          else Some (w\<lparr>bw_buckets := (bw_buckets w)[b := bk\<lparr>bk_request := r\<rparr>]\<rparr>))"

text \<open>The gathered buffer, its size and the number of its valid bytes; \<open>junk\<close> is uninitialised memory.\<close>

definition GatherMisalignedPointers :: "byte list \<Rightarrow> byte list list \<Rightarrow> (byte list \<times> nat \<times> nat) option" where
  "GatherMisalignedPointers junk pointers =
     (let write_size = sum_list (map length pointers);
          target = (write_size div O_DIRECT_MULTIPLE + 1) * O_DIRECT_MULTIPLE;
          target_write_size = (if target - write_size < METADATA_SIZE then target + O_DIRECT_MULTIPLE else target);
          write_buffer = concat pointers @ take (target_write_size - write_size) junk
      in map_option (\<lambda>buffer. (buffer, target_write_size, write_size))
           (MakeFileEndMarker write_buffer target_write_size write_size))"

definition cleanup_bucket :: "(nat \<Rightarrow> byte list) \<Rightarrow> nat \<Rightarrow> bucket_writer \<Rightarrow> bucket_writer option" where
  "cleanup_bucket junk i w =
     (let bk = bw_buckets w ! i in
      case GatherMisalignedPointers (junk i) (bk_misaligned bk) of
        None \<Rightarrow> None
      | Some (buffer, buffer_size, true_size) \<Rightarrow>
          let r = AddPointer buffer ((bk_request bk)\<lparr>rq_last := True\<rparr>);
              n = bk_file_size bk + current_size r
          in map_option (\<lambda>w'. w'\<lparr>bw_buckets := (bw_buckets w)[i := bk\<lparr>bk_request := r, bk_file_size := n\<rparr>],
                 bw_results := (bw_results w)[i := (bw_results w ! i)\<lparr>fi_file_size := n,
                   fi_true_size := n - buffer_size + true_size\<rparr>]\<rparr>)
               (SubmitRequest r w))"

fun cleanup_buckets :: "(nat \<Rightarrow> byte list) \<Rightarrow> nat list \<Rightarrow> bucket_writer \<Rightarrow> bucket_writer option" where
  "cleanup_buckets junk [] w = Some w"
| "cleanup_buckets junk (i # is) w =
     (case cleanup_bucket junk i w of None \<Rightarrow> None | Some w' \<Rightarrow> cleanup_buckets junk is w')"

text \<open>\<open>CleanUp\<close> treats the buckets in parallel; they share only the queue, so their order is immaterial.\<close>

definition CleanUp :: "(nat \<Rightarrow> byte list) \<Rightarrow> bucket_writer \<Rightarrow> bucket_writer option" where
  "CleanUp junk w =
     (if bw_cleaned w then Some w
      else map_option (\<lambda>w'. w'\<lparr>bw_pending := Close (bw_pending w')\<rparr>)
             (cleanup_buckets junk [0..<length (bw_buckets w)] (w\<lparr>bw_cleaned := True\<rparr>)))"

section \<open>The I/O threads\<close>

definition io_submit :: "nat \<Rightarrow> nat \<Rightarrow> bucket_writer \<Rightarrow> bucket_writer option" where
  "io_submit depth i w =
     (let t = bw_threads w ! i in
      if i < length (bw_threads w) \<and> io_more t \<and> length (io_ring t) < depth
      then map_option (\<lambda>(r, q). w\<lparr>bw_pending := q, bw_threads := (bw_threads w)[i := t\<lparr>io_ring := io_ring t @ [r]\<rparr>]\<rparr>)
             (pop (bw_pending w))
      else None)"

text \<open>\<open>Poll\<close> reports \<open>FINISH\<close>: there are no more requests.\<close>

definition io_no_more :: "nat \<Rightarrow> nat \<Rightarrow> bucket_writer \<Rightarrow> bucket_writer option" where
  "io_no_more depth i w =
     (let t = bw_threads w ! i in
      if i < length (bw_threads w) \<and> io_more t \<and> length (io_ring t) < depth
      then (case Poll (bw_pending w) (fresh_request 0 0) 0 False of
              Polled r FINISH q \<Rightarrow> Some (w\<lparr>bw_threads := (bw_threads w)[i := t\<lparr>io_more := False\<rparr>]\<rparr>)
            | _ \<Rightarrow> None)
      else None)"

text \<open>
  The \<open>k\<close>-th request in the ring is done: it is on disk and goes back to the pool. A \<open>writev\<close> is
  taken to write the whole request; Linux does so up to 2147479552 bytes, and a request of the program
  has at most 1024 buffers of 4 KiB (\<open>IO_VECTOR_SIZE\<close>, \<open>SAMPLE_SORT_BUCKET_SIZE\<close>) and the gathered one.
\<close>

definition request_write :: "Bucket list \<Rightarrow> IOVectorRequest \<Rightarrow> write_op" where
  "request_write buckets r = (bk_name (buckets ! rq_fd r), rq_offset r, concat (rq_vectors r))"

definition io_complete :: "nat \<Rightarrow> nat \<Rightarrow> bucket_writer \<times> fstore \<Rightarrow> (bucket_writer \<times> fstore) option" where
  "io_complete i k s =
     (case s of (w, fs) \<Rightarrow>
        let t = bw_threads w ! i in
        if i < length (bw_threads w) \<and> k < length (io_ring t)
        then let r = io_ring t ! k in
          Some (w\<lparr>bw_threads := (bw_threads w)[i := t\<lparr>io_ring := take k (io_ring t) @ drop (Suc k) (io_ring t)\<rparr>],
                  bw_free := bw_free w + 1\<rparr>,
                apply_op (request_write (bw_buckets w) r) fs)
        else None)"

definition io_joined :: "bucket_writer \<Rightarrow> bool" where
  "io_joined w \<longleftrightarrow> (\<forall>t \<in> set (bw_threads w). \<not> io_more t \<and> io_ring t = [])"

text \<open>The writer, the store and the writes its clients still have to make, in their order.\<close>

type_synonym bucket_state = "bucket_writer \<times> fstore \<times> (nat \<times> byte list) list"

inductive bucket_step :: "nat \<Rightarrow> nat \<Rightarrow> nat \<Rightarrow> (nat \<Rightarrow> byte list) \<Rightarrow> bucket_state \<Rightarrow> bucket_state \<Rightarrow> bool"
  for threshold vec depth junk where
  bstep_write: "bucket_write threshold vec b bs w = Some w' \<Longrightarrow>
    bucket_step threshold vec depth junk (w, fs, (b, bs) # ws) (w', fs, ws)"
| bstep_cleanup: "\<not> bw_cleaned w \<Longrightarrow> CleanUp junk w = Some w' \<Longrightarrow>
    bucket_step threshold vec depth junk (w, fs, []) (w', fs, [])"
| bstep_submit: "io_submit depth i w = Some w' \<Longrightarrow>
    bucket_step threshold vec depth junk (w, fs, ws) (w', fs, ws)"
| bstep_no_more: "io_no_more depth i w = Some w' \<Longrightarrow>
    bucket_step threshold vec depth junk (w, fs, ws) (w', fs, ws)"
| bstep_complete: "io_complete i k (w, fs) = Some (w', fs') \<Longrightarrow>
    bucket_step threshold vec depth junk (w, fs, ws) (w', fs', ws)"

inductive_cases bucket_stepE: "bucket_step threshold vec depth junk s t"

text \<open>
  \<open>bucket_writer_runs\<close>: a fresh writer gets the writes \<open>ws\<close> in this order, then \<open>ReapResult\<close> cleans
  up and the I/O threads end; the files are then as in \<open>fs'\<close> and the result is \<open>infos\<close>.
\<close>

definition bucket_writer_runs :: "nat \<Rightarrow> nat \<Rightarrow> nat \<Rightarrow> (nat \<Rightarrow> byte list) \<Rightarrow> string list \<Rightarrow> string \<Rightarrow> nat \<Rightarrow> nat \<Rightarrow>
    fstore \<Rightarrow> (nat \<times> byte list) list \<Rightarrow> fstore \<Rightarrow> FileInfo list \<Rightarrow> bool" where
  "bucket_writer_runs threshold vec depth junk ssds result_prefix num_buckets num_threads fs ws fs' infos \<longleftrightarrow>
     (\<exists>w. rtranclp (bucket_step threshold vec depth junk)
            (InitializeWriter ssds result_prefix num_buckets num_threads, fs, ws) (w, fs', []) \<and>
          bw_cleaned w \<and> io_joined w \<and> infos = bw_results w)"

section \<open>The invariant\<close>

text \<open>The buffers written to bucket \<open>b\<close>, those that fill direct-I/O units and the others.\<close>

definition aligned_of :: "nat \<Rightarrow> (nat \<times> byte list) list \<Rightarrow> byte list list" where
  "aligned_of b ws = map snd (filter (\<lambda>w. fst w = b \<and> length (snd w) mod O_DIRECT_MULTIPLE = 0) ws)"

definition misaligned_of :: "nat \<Rightarrow> (nat \<times> byte list) list \<Rightarrow> byte list list" where
  "misaligned_of b ws = map snd (filter (\<lambda>w. fst w = b \<and> length (snd w) mod O_DIRECT_MULTIPLE \<noteq> 0) ws)"

text \<open>What the submitted requests contain for bucket \<open>b\<close>, and that each is placed behind the earlier ones.\<close>

definition submitted_of :: "nat \<Rightarrow> IOVectorRequest list \<Rightarrow> byte list" where
  "submitted_of b S = concat (map (\<lambda>r. concat (rq_vectors r)) (filter (\<lambda>r. rq_fd r = b) S))"

definition offsets_ok :: "IOVectorRequest list \<Rightarrow> bool" where
  "offsets_ok S \<longleftrightarrow> (\<forall>k < length S. rq_offset (S ! k) = length (submitted_of (rq_fd (S ! k)) (take k S)))"

lemma aligned_of_simps [simp]: "aligned_of b [] = []"
  "aligned_of b (ws @ ws') = aligned_of b ws @ aligned_of b ws'"
  "misaligned_of b [] = []"
  "misaligned_of b (ws @ ws') = misaligned_of b ws @ misaligned_of b ws'"
  by (simp_all add: aligned_of_def misaligned_of_def)

lemma aligned_of_one [simp]:
  "aligned_of b [(b', bs)] = (if b' = b \<and> length bs mod O_DIRECT_MULTIPLE = 0 then [bs] else [])"
  "misaligned_of b [(b', bs)] = (if b' = b \<and> length bs mod O_DIRECT_MULTIPLE \<noteq> 0 then [bs] else [])"
  by (simp_all add: aligned_of_def misaligned_of_def)

lemma submitted_of_snoc [simp]: "submitted_of b [] = []"
  "submitted_of b (S @ [r]) = submitted_of b S @ (if rq_fd r = b then concat (rq_vectors r) else [])"
  by (simp_all add: submitted_of_def)

lemma offsets_ok_snoc:
  "offsets_ok (S @ [r]) \<longleftrightarrow> offsets_ok S \<and> rq_offset r = length (submitted_of (rq_fd r) S)"
  by (auto simp: offsets_ok_def nth_append less_Suc_eq)

lemma length_concat_vectors: "length (concat (rq_vectors r)) = current_size r"
  by (simp add: current_size_def length_concat)

definition request_op_of :: "string list \<Rightarrow> IOVectorRequest \<Rightarrow> write_op" where
  "request_op_of names r = (names ! rq_fd r, rq_offset r, concat (rq_vectors r))"

text \<open>Requests that were submitted in an order \<open>S\<close> do not overlap.\<close>

lemma submitted_prefix: "k \<le> m \<Longrightarrow> m \<le> length S \<Longrightarrow>
    length (submitted_of b (take k S)) \<le> length (submitted_of b (take m S))"
proof (induction "m - k" arbitrary: m)
  case 0
  then show ?case by simp
next
  case (Suc d)
  then obtain m' where m: "m = Suc m'" "k \<le> m'" by (cases m) auto
  then have "length (submitted_of b (take k S)) \<le> length (submitted_of b (take m' S))" using Suc by simp
  moreover have "take m S = take m' S @ [S ! m']" using m(1) Suc.prems(2) by (simp add: take_Suc_conv_app_nth)
  ultimately show ?case by simp
qed

lemma offsets_disjoint:
  assumes ok: "offsets_ok S" and names: "distinct names" "\<forall>r \<in> set S. rq_fd r < length names"
  shows "ops_disjoint (map (request_op_of names) S)"
proof -
  have order: "op_disjoint (request_op_of names (S ! i)) (request_op_of names (S ! j)) \<and>
      op_disjoint (request_op_of names (S ! j)) (request_op_of names (S ! i))" if ij: "i < j" "j < length S" for i j
  proof (cases "rq_fd (S ! i) = rq_fd (S ! j)")
    case False
    have "rq_fd (S ! i) < length names" "rq_fd (S ! j) < length names" using names(2) ij by simp_all
    then have "names ! rq_fd (S ! i) \<noteq> names ! rq_fd (S ! j)" using False names(1) by (simp add: nth_eq_iff_index_eq)
    then show ?thesis by (simp add: op_disjoint_def request_op_of_def)
  next
    case True
    have "take (Suc i) S = take i S @ [S ! i]" using ij by (simp add: take_Suc_conv_app_nth)
    then have "rq_offset (S ! i) + length (concat (rq_vectors (S ! i))) = length (submitted_of (rq_fd (S ! i)) (take (Suc i) S))"
      using ok ij by (simp add: offsets_ok_def)
    also have "\<dots> \<le> length (submitted_of (rq_fd (S ! i)) (take j S))" using ij by (intro submitted_prefix) simp_all
    also have "\<dots> = rq_offset (S ! j)" using ok ij True by (simp add: offsets_ok_def)
    finally show ?thesis by (simp add: op_disjoint_def request_op_of_def)
  qed
  show ?thesis
    unfolding ops_disjoint_def
  proof (intro ballI impI)
    fix v w assume "v \<in> set (map (request_op_of names) S)" "w \<in> set (map (request_op_of names) S)" and ne: "v \<noteq> w"
    then obtain i j where v: "i < length S" "v = request_op_of names (S ! i)"
      and w: "j < length S" "w = request_op_of names (S ! j)"
      by (auto simp: in_set_conv_nth)
    have "i \<noteq> j" using ne v w by auto
    then show "op_disjoint v w" using order v w by (cases "i < j") auto
  qed
qed

text \<open>Performing them in order writes every file from its start.\<close>

lemma submitted_result:
  assumes "offsets_ok S" and "distinct names" and "\<forall>r \<in> set S. rq_fd r < length names" and "b < length names"
    and "submitted_of b S \<noteq> []"
  shows "fold apply_op (map (request_op_of names) S) fs (names ! b) =
    Some (pwrite_bytes (file_of fs (names ! b)) 0 (submitted_of b S))"
proof -
  have "(submitted_of b S = [] \<longrightarrow> file_of (fold apply_op (map (request_op_of names) S) fs) (names ! b) = file_of fs (names ! b)) \<and>
      (submitted_of b S \<noteq> [] \<longrightarrow> fold apply_op (map (request_op_of names) S) fs (names ! b) =
        Some (pwrite_bytes (file_of fs (names ! b)) 0 (submitted_of b S)))"
    if "offsets_ok S" "\<forall>r \<in> set S. rq_fd r < length names" for S
    using that
  proof (induction S rule: rev_induct)
    case Nil
    then show ?case by simp
  next
    case (snoc r S)
    let ?fs = "fold apply_op (map (request_op_of names) S) fs"
    have IH: "submitted_of b S = [] \<longrightarrow> file_of ?fs (names ! b) = file_of fs (names ! b)"
      "submitted_of b S \<noteq> [] \<longrightarrow> ?fs (names ! b) = Some (pwrite_bytes (file_of fs (names ! b)) 0 (submitted_of b S))"
      using snoc by (simp_all add: offsets_ok_snoc)
    have off: "rq_offset r = length (submitted_of (rq_fd r) S)" using snoc.prems(1) by (simp add: offsets_ok_snoc)
    show ?case
    proof (cases "rq_fd r = b")
      case False
      then have "names ! rq_fd r \<noteq> names ! b" using assms(2,4) snoc.prems(2) by (simp add: nth_eq_iff_index_eq)
      then have "apply_op (request_op_of names r) ?fs (names ! b) = ?fs (names ! b)"
        by (simp add: apply_op_def request_op_of_def fs_write_def)
      then show ?thesis using IH False by (simp add: file_of_def)
    next
      case True
      have "?fs (names ! b) = Some f \<Longrightarrow> file_of ?fs (names ! b) = f" for f by (simp add: file_of_def)
      then have f: "file_of ?fs (names ! b) = (if submitted_of b S = [] then file_of fs (names ! b)
          else pwrite_bytes (file_of fs (names ! b)) 0 (submitted_of b S))" using IH by auto
      have "apply_op (request_op_of names r) ?fs (names ! b)
          = Some (pwrite_bytes (file_of ?fs (names ! b)) (length (submitted_of b S)) (concat (rq_vectors r)))"
        using True off by (simp add: apply_op_def request_op_of_def fs_write_def)
      also have "pwrite_bytes (file_of ?fs (names ! b)) (length (submitted_of b S)) (concat (rq_vectors r))
          = pwrite_bytes (file_of fs (names ! b)) 0 (submitted_of b S @ concat (rq_vectors r))"
        unfolding f using pwrite_append [of "file_of fs (names ! b)" 0 "submitted_of b S"] by simp
      finally have w: "apply_op (request_op_of names r) ?fs (names ! b)
          = Some (pwrite_bytes (file_of fs (names ! b)) 0 (submitted_of b S @ concat (rq_vectors r)))" .
      moreover have "pwrite_bytes g 0 [] = g" for g by (simp add: pwrite_bytes_def)
      moreover have "submitted_of b (S @ [r]) = submitted_of b S @ concat (rq_vectors r)" using True by simp
      ultimately show ?thesis
        by (cases "submitted_of b S @ concat (rq_vectors r) = []") (simp_all only: file_of_def fold_append map_append
          list.map fold_simps comp_apply id_apply option.case simp_thms)
    qed
  qed
  then show ?thesis using assms by blast
qed

text \<open>One bucket before the clean-up, and after it: \<open>g\<close> is the gathered buffer, \<open>n\<close> its valid bytes.\<close>

definition open_bucket :: "nat \<Rightarrow> (nat \<times> byte list) list \<Rightarrow> IOVectorRequest list \<Rightarrow> nat \<Rightarrow> nat \<Rightarrow> Bucket \<Rightarrow> bool" where
  "open_bucket b ws S threshold vec bk \<longleftrightarrow>
     rq_fd (bk_request bk) = b \<and> rq_offset (bk_request bk) = bk_file_size bk \<and>
     bk_file_size bk = length (submitted_of b S) \<and>
     submitted_of b S @ concat (rq_vectors (bk_request bk)) = concat (aligned_of b ws) \<and>
     bk_misaligned bk = misaligned_of b ws \<and>
     (0 < vec \<longrightarrow> iovec_count (bk_request bk) < vec)"

definition gathered :: "(nat \<Rightarrow> byte list) \<Rightarrow> nat \<Rightarrow> (nat \<times> byte list) list \<Rightarrow> byte list" where
  "gathered junk b ws =
     (case GatherMisalignedPointers (junk b) (misaligned_of b ws) of None \<Rightarrow> [] | Some (g, n, m) \<Rightarrow> g)"

definition clean_bucket :: "(nat \<Rightarrow> byte list) \<Rightarrow> nat \<Rightarrow> (nat \<times> byte list) list \<Rightarrow> IOVectorRequest list \<Rightarrow> FileInfo \<Rightarrow> bool" where
  "clean_bucket junk b ws S info \<longleftrightarrow>
     submitted_of b S = concat (aligned_of b ws) @ gathered junk b ws \<and>
     fi_file_size info = length (submitted_of b S) \<and>
     fi_true_size info = length (concat (aligned_of b ws)) + length (concat (misaligned_of b ws))"

definition rings_of :: "bucket_writer \<Rightarrow> IOVectorRequest multiset" where
  "rings_of w = (\<Sum>t\<leftarrow>bw_threads w. mset (io_ring t))"

definition request_fits :: "nat \<Rightarrow> IOVectorRequest \<Rightarrow> bool" where
  "request_fits vec r \<longleftrightarrow> (0 < vec \<longrightarrow> iovec_count r \<le> vec) \<and> O_DIRECT_MULTIPLE dvd rq_offset r \<and>
     O_DIRECT_MULTIPLE dvd length (concat (rq_vectors r))"

lemma submitted_dvd:
  "\<forall>r \<in> set S. O_DIRECT_MULTIPLE dvd length (concat (rq_vectors r)) \<Longrightarrow> O_DIRECT_MULTIPLE dvd length (submitted_of b S)"
  by (induction S rule: rev_induct) simp_all

lemma aligned_dvd: "O_DIRECT_MULTIPLE dvd length (concat (aligned_of b ws))"
  by (induction ws) (auto simp: aligned_of_def intro!: dvd_add)

lemma bucket_fits:
  assumes "open_bucket b ws S threshold vec bk" and "\<forall>r \<in> set S. request_fits vec r"
  shows "O_DIRECT_MULTIPLE dvd rq_offset (bk_request bk)" and "O_DIRECT_MULTIPLE dvd length (concat (rq_vectors (bk_request bk)))"
proof -
  have sub: "O_DIRECT_MULTIPLE dvd length (submitted_of b S)" using assms(2) by (intro submitted_dvd) (simp add: request_fits_def)
  then show "O_DIRECT_MULTIPLE dvd rq_offset (bk_request bk)" using assms(1) by (simp add: open_bucket_def)
  have "length (submitted_of b S) + length (concat (rq_vectors (bk_request bk))) = length (concat (aligned_of b ws))"
    using assms(1) unfolding open_bucket_def by (metis length_append)
  with sub aligned_dvd show "O_DIRECT_MULTIPLE dvd length (concat (rq_vectors (bk_request bk)))" by (metis dvd_add_right_iff)
qed

definition io_core :: "nat \<Rightarrow> string list \<Rightarrow> fstore \<Rightarrow> IOVectorRequest list \<Rightarrow> bucket_writer \<Rightarrow> fstore \<Rightarrow> bool" where
  "io_core vec names fs0 S w fs \<longleftrightarrow>
     map bk_name (bw_buckets w) = names \<and> length (bw_results w) = length names \<and>
     (\<forall>b < length names. fi_file_name (bw_results w ! b) = names ! b \<and> fi_file_index (bw_results w ! b) = b \<and>
        fi_before_size (bw_results w ! b) = 0) \<and>
     offsets_ok S \<and> (\<forall>r \<in> set S. rq_fd r < length names \<and> request_fits vec r) \<and> bw_threads w \<noteq> [] \<and>
     sq_size_limit (bw_pending w) = 0 \<and>
     (\<exists>C. mset C + rings_of w + mset (sq_queue (bw_pending w)) = mset S \<and>
        fs = fold apply_op (map (request_op_of names) C) fs0)"

text \<open>Of the ten requests per bucket every one is in the pool, in the queue, in a ring or in a bucket.\<close>

definition io_inv :: "nat \<Rightarrow> string list \<Rightarrow> fstore \<Rightarrow> IOVectorRequest list \<Rightarrow> bucket_writer \<Rightarrow> fstore \<Rightarrow> bool" where
  "io_inv vec names fs0 S w fs \<longleftrightarrow> io_core vec names fs0 S w fs \<and>
     sq_open (bw_pending w) = (\<not> bw_cleaned w) \<and>
     bw_free w + length (sq_queue (bw_pending w)) + size (rings_of w) + (if bw_cleaned w then 0 else length names)
       = 10 * length names \<and>
     (\<forall>t \<in> set (bw_threads w). \<not> io_more t \<longrightarrow> bw_cleaned w \<and> sq_queue (bw_pending w) = [])"

definition bucket_inv :: "nat \<Rightarrow> nat \<Rightarrow> (nat \<Rightarrow> byte list) \<Rightarrow> string list \<Rightarrow> fstore \<Rightarrow> (nat \<times> byte list) list \<Rightarrow>
    bucket_state \<Rightarrow> bool" where
  "bucket_inv threshold vec junk names fs0 ws s \<longleftrightarrow>
     (case s of (w, fs, todo) \<Rightarrow>
        \<exists>before S. ws = before @ todo \<and> io_inv vec names fs0 S w fs \<and>
          (if bw_cleaned w then todo = [] \<and> (\<forall>b < length names. clean_bucket junk b ws S (bw_results w ! b))
           else \<forall>b < length names. open_bucket b before S threshold vec (bw_buckets w ! b)))"

section \<open>Steps keep the invariant\<close>

lemma pending_push: "sq_size_limit q = 0 \<Longrightarrow> Push q x = Some (q\<lparr>sq_queue := sq_queue q @ [x]\<rparr>)"
  by (simp add: Push_def)

lemma io_inv_facts:
  assumes "io_inv vec names fs0 S w fs"
  shows "length (bw_buckets w) = length names" and "sq_size_limit (bw_pending w) = 0"
    and "b < length names \<Longrightarrow> bk_name bk = bk_name (bw_buckets w ! b) \<Longrightarrow> map bk_name ((bw_buckets w)[b := bk]) = names"
proof -
  show "length (bw_buckets w) = length names" "sq_size_limit (bw_pending w) = 0" using assms by (auto simp: io_inv_def io_core_def)
  then show "map bk_name ((bw_buckets w)[b := bk]) = names" if "b < length names" "bk_name bk = bk_name (bw_buckets w ! b)"
    using assms that by (simp add: io_inv_def io_core_def map_update) (metis list_update_id nth_map)
qed

text \<open>A request that is large enough is queued and replaced by a fresh one.\<close>

lemma bucket_submit_inv:
  assumes inv: "io_inv vec names fs0 S w fs" and nc: "\<not> bw_cleaned w" and bn: "b < length names"
    and bks: "\<forall>c < length names. open_bucket c before S threshold vec (bw_buckets w ! c)"
    and al: "length bs mod O_DIRECT_MULTIPLE = 0" and free: "bw_free w \<noteq> 0"
    and r: "r = AddPointer bs (bk_request (bw_buckets w ! b))" and n: "n = bk_file_size (bw_buckets w ! b) + current_size r"
    and bk': "bk' = (bw_buckets w ! b)\<lparr>bk_request := fresh_request b n, bk_file_size := n\<rparr>"
    and w': "w' = w\<lparr>bw_free := bw_free w - 1, bw_buckets := (bw_buckets w)[b := bk'],
        bw_pending := (bw_pending w)\<lparr>sq_queue := sq_queue (bw_pending w) @ [r]\<rparr>\<rparr>"
  shows "io_inv vec names fs0 (S @ [r]) w' fs"
    and "c < length names \<Longrightarrow> open_bucket c (before @ [(b, bs)]) (S @ [r]) threshold vec (bw_buckets w' ! c)"
proof -
  let ?bk = "bw_buckets w ! b"
  note facts = io_inv_facts [OF inv]
  have b: "b < length (bw_buckets w)" using bn facts(1) by simp
  have ob: "open_bucket b before S threshold vec ?bk" using bks bn by blast
  have q: "rq_fd r = b" "rq_offset r = length (submitted_of b S)" "concat (rq_vectors r) = concat (rq_vectors (bk_request ?bk)) @ bs"
    using ob by (simp_all add: open_bucket_def AddPointer_def r)
  have "open_bucket b (before @ [(b, bs)]) (S @ [r]) threshold vec bk'"
    using ob al q length_concat_vectors [of r] by (simp add: open_bucket_def fresh_request_def iovec_count_def bk' n)
  moreover have "open_bucket c (before @ [(b, bs)]) (S @ [r]) threshold vec (bw_buckets w ! c)" if "c < length names" "c \<noteq> b" for c
    using bks that q(1) by (simp add: open_bucket_def)
  ultimately show "open_bucket c (before @ [(b, bs)]) (S @ [r]) threshold vec (bw_buckets w' ! c)" if "c < length names"
    using that b by (cases "c = b") (simp_all add: w')
  obtain C where "mset C + rings_of w + mset (sq_queue (bw_pending w)) = mset S"
    and "fs = fold apply_op (map (request_op_of names) C) fs0"
    using inv by (auto simp: io_inv_def io_core_def)
  then have "\<exists>C. mset C + rings_of w + mset (sq_queue (bw_pending w) @ [r]) = mset (S @ [r]) \<and>
      fs = fold apply_op (map (request_op_of names) C) fs0"
    by (intro exI [of _ C]) simp
  moreover have "\<forall>t \<in> set (bw_threads w). io_more t" using inv nc by (auto simp: io_inv_def)
  moreover have "request_fits vec r"
    using bucket_fits [OF ob] inv al ob
    by (auto simp: io_inv_def io_core_def request_fits_def open_bucket_def AddPointer_def iovec_count_def mod_eq_0_iff_dvd r)
  moreover have "bk_name bk' = bk_name ?bk" by (simp add: bk')
  ultimately show "io_inv vec names fs0 (S @ [r]) w' fs"
    using inv facts(3) [OF bn, of bk'] free nc q(1,2) bn by (simp add: w' io_inv_def io_core_def rings_of_def offsets_ok_snoc)
qed

lemma bucket_write_inv:
  assumes st: "bucket_write threshold vec b bs w = Some w'" and inv: "io_inv vec names fs0 S w fs" and nc: "\<not> bw_cleaned w"
    and bks: "\<forall>c < length names. open_bucket c before S threshold vec (bw_buckets w ! c)"
  shows "\<exists>S'. io_inv vec names fs0 S' w' fs \<and> \<not> bw_cleaned w' \<and>
    (\<forall>c < length names. open_bucket c (before @ [(b, bs)]) S' threshold vec (bw_buckets w' ! c))"
proof -
  let ?bk = "bw_buckets w ! b" and ?r = "AddPointer bs (bk_request (bw_buckets w ! b))"
  note facts = io_inv_facts [OF inv]
  have b: "b < length (bw_buckets w)" using st by (simp add: bucket_write_def split: if_splits)
  have bn: "b < length names" using b facts(1) by simp
  have ob: "open_bucket b before S threshold vec ?bk" using bks bn by blast
  have same: "\<exists>S'. io_inv vec names fs0 S' w' fs \<and> \<not> bw_cleaned w' \<and>
      (\<forall>c < length names. open_bucket c (before @ [(b, bs)]) S' threshold vec (bw_buckets w' ! c))"
    if w': "w' = w\<lparr>bw_buckets := (bw_buckets w)[b := bk]\<rparr>" and "bk_name bk = bk_name ?bk"
      and "open_bucket b (before @ [(b, bs)]) S threshold vec bk" for bk
  proof -
    have "open_bucket c (before @ [(b, bs)]) S threshold vec (bw_buckets w' ! c)" if "c < length names" for c
      using bks that b \<open>open_bucket b (before @ [(b, bs)]) S threshold vec bk\<close> by (cases "c = b") (simp_all add: open_bucket_def w')
    then show ?thesis using inv facts(3) [OF bn that(2)] nc by (intro exI [of _ S]) (simp add: w' io_inv_def io_core_def rings_of_def)
  qed
  consider (mis) "length bs mod O_DIRECT_MULTIPLE \<noteq> 0"
    | (keep) "length bs mod O_DIRECT_MULTIPLE = 0" "\<not> (threshold \<le> current_size ?r \<or> vec \<le> iovec_count ?r)"
    | (submit) "length bs mod O_DIRECT_MULTIPLE = 0" "threshold \<le> current_size ?r \<or> vec \<le> iovec_count ?r" by blast
  then show ?thesis
  proof cases
    case mis
    then have "w' = w\<lparr>bw_buckets := (bw_buckets w)[b := ?bk\<lparr>bk_misaligned := bk_misaligned ?bk @ [bs]\<rparr>]\<rparr>"
      using st b by (simp add: bucket_write_def Let_def)
    then show ?thesis by (rule same) (use ob mis in \<open>simp_all add: open_bucket_def\<close>)
  next
    case keep
    then have "w' = w\<lparr>bw_buckets := (bw_buckets w)[b := ?bk\<lparr>bk_request := ?r\<rparr>]\<rparr>"
      using st b by (simp add: bucket_write_def Let_def)
    then show ?thesis by (rule same) (use ob keep in \<open>auto simp: open_bucket_def AddPointer_def\<close>)
  next
    case submit
    have free: "bw_free w \<noteq> 0"
    proof
      assume "bw_free w = 0"
      then show False using st b submit by (simp add: bucket_write_def Let_def NewRequest_def)
    qed
    have w': "w' = w\<lparr>bw_free := bw_free w - 1,
        bw_buckets := (bw_buckets w)[b := ?bk\<lparr>bk_request := fresh_request b (bk_file_size ?bk + current_size ?r),
          bk_file_size := bk_file_size ?bk + current_size ?r\<rparr>],
        bw_pending := (bw_pending w)\<lparr>sq_queue := sq_queue (bw_pending w) @ [?r]\<rparr>\<rparr>"
      using st b submit free by (simp add: bucket_write_def Let_def NewRequest_def SubmitRequest_def pending_push [OF facts(2)])
    have "\<not> bw_cleaned w'" using nc by (simp add: w')
    then show ?thesis using bucket_submit_inv [OF inv nc bn bks submit(1) free refl refl refl w'] by blast
  qed
qed

lemma gather_result:
  assumes junk: "METADATA_SIZE + O_DIRECT_MULTIPLE \<le> length junk" and small: "length (concat ps) + 2 * O_DIRECT_MULTIPLE < 2 ^ 64"
  shows "\<exists>g pre. GatherMisalignedPointers junk ps = Some (g, length g, length (concat ps)) \<and>
    take (length (concat ps)) g = concat ps \<and> O_DIRECT_MULTIPLE dvd length g \<and> O_DIRECT_MULTIPLE \<le> length g \<and>
    length pre = length g \<and> length (concat ps) \<le> length g \<and>
    MakeFileEndMarker pre (length pre) (length (concat ps)) = Some g \<and>
    length g < length (concat ps) + METADATA_SIZE + O_DIRECT_MULTIPLE"
proof -
  let ?u = "length (concat ps)"
  define n where "n = (let t = (?u div O_DIRECT_MULTIPLE + 1) * O_DIRECT_MULTIPLE
    in if t - ?u < METADATA_SIZE then t + O_DIRECT_MULTIPLE else t)"
  have u: "?u div 4096 * 4096 \<le> ?u" "?u < ?u div 4096 * 4096 + 4096"
    using div_times_less_eq_dividend dividend_less_div_times [of 4096 ?u] by simp_all
  have n: "?u + METADATA_SIZE \<le> n" "n < ?u + METADATA_SIZE + O_DIRECT_MULTIPLE" "O_DIRECT_MULTIPLE dvd n" "O_DIRECT_MULTIPLE \<le> n"
    using u by (auto simp: n_def Let_def O_DIRECT_MULTIPLE_def METADATA_SIZE_def)
  have b: "n < ?u + METADATA_SIZE + 2 * O_DIRECT_MULTIPLE" "n < 2 ^ 64" "n - ?u \<le> length junk"
    using n junk small by (auto simp: O_DIRECT_MULTIPLE_def METADATA_SIZE_def)
  obtain g where g: "MakeFileEndMarker (concat ps @ take (n - ?u) junk) n ?u = Some g" "length g = n" "take ?u g = concat ps"
    using end_marker_buffer [OF refl n(1) b] by blast
  have "GatherMisalignedPointers junk ps = Some (g, n, ?u)"
    using g(1) by (simp add: GatherMisalignedPointers_def Let_def n_def length_concat)
  moreover have "length (concat ps @ take (n - ?u) junk) = n" using n b(3) by simp
  ultimately show ?thesis
    using g n by (intro exI [of _ g] exI [of _ "concat ps @ take (n - ?u) junk"]) simp
qed

lemma cleanup_bucket_result:
  assumes core: "io_core vec names fs0 S w fs" and i: "i < length names"
    and ob: "open_bucket i ws S threshold vec (bw_buckets w ! i)"
    and junk: "METADATA_SIZE + O_DIRECT_MULTIPLE \<le> length (junk i)"
    and small: "length (concat (misaligned_of i ws)) + 2 * O_DIRECT_MULTIPLE < 2 ^ 64"
  shows "\<exists>w' r. cleanup_bucket junk i w = Some w' \<and> rq_fd r = i \<and> io_core vec names fs0 (S @ [r]) w' fs \<and>
    clean_bucket junk i ws (S @ [r]) (bw_results w' ! i) \<and>
    (\<forall>c. c \<noteq> i \<longrightarrow> bw_buckets w' ! c = bw_buckets w ! c \<and> bw_results w' ! c = bw_results w ! c) \<and>
    bw_cleaned w' = bw_cleaned w \<and> bw_free w' = bw_free w \<and> bw_threads w' = bw_threads w \<and>
    sq_queue (bw_pending w') = sq_queue (bw_pending w) @ [r] \<and> sq_open (bw_pending w') = sq_open (bw_pending w)"
proof -
  let ?bk = "bw_buckets w ! i" and ?ms = "misaligned_of i ws"
  obtain g where g: "GatherMisalignedPointers (junk i) ?ms = Some (g, length g, length (concat ?ms))"
    and gl: "length (concat ?ms) \<le> length g" "O_DIRECT_MULTIPLE dvd length g"
    using gather_result [OF junk small] by (elim exE conjE)
  define r where "r = AddPointer g ((bk_request ?bk)\<lparr>rq_last := True\<rparr>)"
  define n where "n = bk_file_size ?bk + current_size r"
  have lim: "sq_size_limit (bw_pending w) = 0" using core by (simp add: io_core_def)
  have mis: "bk_misaligned ?bk = ?ms" using ob by (simp add: open_bucket_def)
  let ?w = "w\<lparr>bw_pending := (bw_pending w)\<lparr>sq_queue := sq_queue (bw_pending w) @ [r]\<rparr>,
      bw_buckets := (bw_buckets w)[i := ?bk\<lparr>bk_request := r, bk_file_size := n\<rparr>],
      bw_results := (bw_results w)[i := (bw_results w ! i)\<lparr>fi_file_size := n,
        fi_true_size := n - length g + length (concat ?ms)\<rparr>]\<rparr>"
  have w': "cleanup_bucket junk i w = Some ?w"
    by (simp add: cleanup_bucket_def Let_def mis g SubmitRequest_def pending_push [OF lim] r_def [symmetric] n_def [symmetric])
  have r: "rq_fd r = i" "rq_offset r = length (submitted_of i S)"
    "concat (rq_vectors r) = concat (rq_vectors (bk_request ?bk)) @ g"
    using ob by (simp_all add: r_def open_bucket_def AddPointer_def)
  have sub: "submitted_of i (S @ [r]) = concat (aligned_of i ws) @ g"
    using ob r by (simp add: open_bucket_def)
  have n: "n = length (submitted_of i (S @ [r]))"
    using ob r(1) length_concat_vectors [of r] by (simp add: n_def open_bucket_def)
  have li: "i < length (bw_buckets w)" "i < length (bw_results w)"
    using core i by (auto simp: io_core_def)
  have "gathered junk i ws = g" by (simp add: gathered_def g)
  then have clean: "clean_bucket junk i ws (S @ [r]) (bw_results ?w ! i)"
    using sub n gl li by (simp add: clean_bucket_def)
  have nm: "map bk_name ((bw_buckets w)[i := ?bk\<lparr>bk_request := r, bk_file_size := n\<rparr>]) = names"
    using core li by (simp add: io_core_def map_update) (metis list_update_id nth_map)
  have fi: "\<forall>b < length names. fi_file_name (bw_results ?w ! b) = names ! b \<and> fi_file_index (bw_results ?w ! b) = b \<and>
      fi_before_size (bw_results ?w ! b) = 0"
    using core li by (auto simp: io_core_def nth_list_update)
  obtain C where "mset C + rings_of w + mset (sq_queue (bw_pending w)) = mset S"
    and "fs = fold apply_op (map (request_op_of names) C) fs0"
    using core by (auto simp: io_core_def)
  then have "\<exists>C. mset C + rings_of w + mset (sq_queue (bw_pending w) @ [r]) = mset (S @ [r]) \<and>
      fs = fold apply_op (map (request_op_of names) C) fs0"
    by (intro exI [of _ C]) simp
  moreover have "request_fits vec r"
    using bucket_fits [OF ob] core ob gl(2)
    by (auto simp: io_core_def request_fits_def open_bucket_def AddPointer_def iovec_count_def r_def)
  ultimately have "io_core vec names fs0 (S @ [r]) ?w fs"
    using core nm fi r(1,2) i by (simp add: io_core_def offsets_ok_snoc rings_of_def)
  with w' r(1) clean show ?thesis by (intro exI [of _ ?w] exI [of _ r]) simp
qed

lemma cleanup_buckets_result:
  assumes "io_core vec names fs0 S w fs" and "distinct is" and "set is \<subseteq> {..<length names}"
    and "\<forall>c \<in> set is. open_bucket c ws S threshold vec (bw_buckets w ! c)"
    and "\<forall>c < length names. c \<notin> set is \<longrightarrow> clean_bucket junk c ws S (bw_results w ! c)"
    and junk: "\<forall>i. METADATA_SIZE + O_DIRECT_MULTIPLE \<le> length (junk i)"
    and small: "\<forall>i. length (concat (misaligned_of i ws)) + 2 * O_DIRECT_MULTIPLE < 2 ^ 64"
  shows "\<exists>w' S'. cleanup_buckets junk is w = Some w' \<and> io_core vec names fs0 S' w' fs \<and>
    (\<forall>c < length names. clean_bucket junk c ws S' (bw_results w' ! c)) \<and>
    bw_cleaned w' = bw_cleaned w \<and> bw_free w' = bw_free w \<and> bw_threads w' = bw_threads w \<and>
    length (sq_queue (bw_pending w')) = length (sq_queue (bw_pending w)) + length is \<and>
    sq_open (bw_pending w') = sq_open (bw_pending w)"
  using assms(1-5)
proof (induction "is" arbitrary: S w)
  case Nil
  then show ?case by auto
next
  case (Cons i "is")
  have i: "i < length names" "open_bucket i ws S threshold vec (bw_buckets w ! i)" using Cons.prems by simp_all
  obtain w1 r where w1: "cleanup_bucket junk i w = Some w1" "rq_fd r = i" "io_core vec names fs0 (S @ [r]) w1 fs"
      "clean_bucket junk i ws (S @ [r]) (bw_results w1 ! i)"
    and fr: "\<forall>c. c \<noteq> i \<longrightarrow> bw_buckets w1 ! c = bw_buckets w ! c \<and> bw_results w1 ! c = bw_results w ! c"
      "bw_cleaned w1 = bw_cleaned w" "bw_free w1 = bw_free w" "bw_threads w1 = bw_threads w"
      "sq_queue (bw_pending w1) = sq_queue (bw_pending w) @ [r]" "sq_open (bw_pending w1) = sq_open (bw_pending w)"
    using cleanup_bucket_result [where junk = junk, OF Cons.prems(1) i spec [OF junk] spec [OF small]] by (elim exE conjE)
  have sub: "submitted_of c (S @ [r]) = submitted_of c S" if "c \<noteq> i" for c using w1(2) that by simp
  have "\<forall>c \<in> set is. open_bucket c ws (S @ [r]) threshold vec (bw_buckets w1 ! c)"
    using Cons.prems(2,4) fr(1) sub unfolding open_bucket_def by (metis distinct.simps(2) list.set_intros(2))
  moreover have "\<forall>c < length names. c \<notin> set is \<longrightarrow> clean_bucket junk c ws (S @ [r]) (bw_results w1 ! c)"
    using Cons.prems(5) fr(1) sub w1(4) unfolding clean_bucket_def by (metis set_ConsD)
  ultimately show ?case
    using Cons.IH [OF w1(3)] Cons.prems(2,3) w1(1) fr by auto
qed

definition gather_ok :: "(nat \<Rightarrow> byte list) \<Rightarrow> (nat \<times> byte list) list \<Rightarrow> bool" where
  "gather_ok junk ws \<longleftrightarrow> (\<forall>i. METADATA_SIZE + O_DIRECT_MULTIPLE \<le> length (junk i)) \<and>
     (\<forall>i. length (concat (misaligned_of i ws)) + 2 * O_DIRECT_MULTIPLE < 2 ^ 64)"

lemma CleanUp_result:
  assumes inv: "io_inv vec names fs0 S w fs" and nc: "\<not> bw_cleaned w"
    and bks: "\<forall>c < length names. open_bucket c ws S threshold vec (bw_buckets w ! c)" and ok: "gather_ok junk ws"
  shows "\<exists>w' S'. CleanUp junk w = Some w' \<and> bw_cleaned w' \<and> io_inv vec names fs0 S' w' fs \<and>
    (\<forall>c < length names. clean_bucket junk c ws S' (bw_results w' ! c)) \<and> bw_threads w' = bw_threads w \<and>
    length (sq_queue (bw_pending w')) = length (sq_queue (bw_pending w)) + length names"
proof -
  let ?w = "w\<lparr>bw_cleaned := True\<rparr>"
  have core: "io_core vec names fs0 S ?w fs" using inv by (simp add: io_inv_def io_core_def rings_of_def)
  have n: "length (bw_buckets w) = length names" using inv by (auto simp: io_inv_def io_core_def)
  have bks': "\<forall>c \<in> set [0..<length names]. open_bucket c ws S threshold vec (bw_buckets ?w ! c)" using bks by simp
  have idx: "distinct [0..<length names]" "set [0..<length names] \<subseteq> {..<length names}"
    "\<forall>c < length names. c \<notin> set [0..<length names] \<longrightarrow> clean_bucket junk c ws S (bw_results ?w ! c)" by auto
  obtain w1 S1 where w1: "cleanup_buckets junk [0..<length names] ?w = Some w1" "io_core vec names fs0 S1 w1 fs"
    "\<forall>c < length names. clean_bucket junk c ws S1 (bw_results w1 ! c)"
    and fr: "bw_cleaned w1 = bw_cleaned ?w" "bw_free w1 = bw_free ?w" "bw_threads w1 = bw_threads ?w"
    "length (sq_queue (bw_pending w1)) = length (sq_queue (bw_pending ?w)) + length [0..<length names]"
    "sq_open (bw_pending w1) = sq_open (bw_pending ?w)"
    using cleanup_buckets_result [OF core idx(1,2) bks' idx(3)] ok unfolding gather_ok_def by (elim exE conjE) blast
  let ?w1 = "w1\<lparr>bw_pending := Close (bw_pending w1)\<rparr>"
  have "CleanUp junk w = Some ?w1" using nc w1(1) n by (simp add: CleanUp_def)
  moreover have "\<forall>t \<in> set (bw_threads w). io_more t" using inv nc by (auto simp: io_inv_def)
  then have "io_inv vec names fs0 S1 ?w1 fs"
    using w1(2) fr inv nc by (simp add: io_inv_def io_core_def rings_of_def Close_def)
  ultimately show ?thesis using w1(3) fr by (intro exI [of _ ?w1] exI [of _ S1]) (simp add: Close_def)
qed

lemma rings_update:
  "i < length (bw_threads w) \<Longrightarrow>
   rings_of (w\<lparr>bw_threads := (bw_threads w)[i := t]\<rparr>) + mset (io_ring (bw_threads w ! i)) = rings_of w + mset (io_ring t)"
  using sum_list_update_add [of i "bw_threads w" "\<lambda>t. mset (io_ring t)" t] by (simp add: rings_of_def)

lemma io_submit_inv:
  assumes st: "io_submit depth i w = Some w'" and inv: "io_inv vec names fs0 S w fs"
  shows "io_inv vec names fs0 S w' fs \<and> bw_cleaned w' = bw_cleaned w \<and> bw_buckets w' = bw_buckets w \<and> bw_results w' = bw_results w"
proof -
  let ?t = "bw_threads w ! i"
  from st obtain r q where i: "i < length (bw_threads w)" and more: "io_more ?t" and p: "pop (bw_pending w) = Some (r, q)"
    and w': "w' = w\<lparr>bw_pending := q, bw_threads := (bw_threads w)[i := ?t\<lparr>io_ring := io_ring ?t @ [r]\<rparr>]\<rparr>"
    by (auto simp: io_submit_def Let_def split: if_splits)
  have q: "sq_queue (bw_pending w) = r # sq_queue q" "sq_size_limit q = sq_size_limit (bw_pending w)"
    "sq_open q = sq_open (bw_pending w)"
    using p by (auto simp: pop_def split: list.splits)
  have ring: "rings_of w' = add_mset r (rings_of w)"
    using rings_update [OF i, of "?t\<lparr>io_ring := io_ring ?t @ [r]\<rparr>"] by (simp add: w' rings_of_def)
  have "\<forall>t \<in> set (bw_threads w'). io_more t \<or> t \<in> set (bw_threads w)"
    unfolding w' using more by (auto dest: set_update_subset_insert [THEN subsetD])
  then have "\<forall>t \<in> set (bw_threads w'). \<not> io_more t \<longrightarrow> bw_cleaned w' \<and> sq_queue (bw_pending w') = []"
    using inv q(1) by (auto simp: io_inv_def w')
  moreover obtain C where "mset C + rings_of w + mset (sq_queue (bw_pending w)) = mset S"
    and "fs = fold apply_op (map (request_op_of names) C) fs0"
    using inv by (auto simp: io_inv_def io_core_def)
  then have "\<exists>C. mset C + rings_of w' + mset (sq_queue (bw_pending w')) = mset S \<and>
      fs = fold apply_op (map (request_op_of names) C) fs0"
    using q(1) ring by (intro exI [of _ C]) (simp add: w')
  moreover have "bw_threads w' \<noteq> []" using i by (auto simp: w')
  ultimately show ?thesis
    using inv q ring by (simp add: io_inv_def io_core_def w')
qed

lemma io_no_more_inv:
  assumes st: "io_no_more depth i w = Some w'" and inv: "io_inv vec names fs0 S w fs"
  shows "io_inv vec names fs0 S w' fs \<and> bw_cleaned w' = bw_cleaned w \<and> bw_buckets w' = bw_buckets w \<and> bw_results w' = bw_results w"
proof -
  let ?t = "bw_threads w ! i"
  from st have i: "i < length (bw_threads w)" and w': "w' = w\<lparr>bw_threads := (bw_threads w)[i := ?t\<lparr>io_more := False\<rparr>]\<rparr>"
    and q: "sq_queue (bw_pending w) = []" "\<not> sq_open (bw_pending w)"
    by (auto simp: io_no_more_def Let_def Poll_def split: if_splits list.splits poll_result.splits QueueCode.splits)
  have "rings_of w' = rings_of w"
    using rings_update [OF i, of "?t\<lparr>io_more := False\<rparr>"] by (simp add: w')
  moreover have "bw_threads w' \<noteq> []" using i by (auto simp: w')
  moreover have "bw_cleaned w" using inv q by (simp add: io_inv_def)
  ultimately show ?thesis using inv q by (simp add: io_inv_def io_core_def w')
qed

lemma io_complete_inv:
  assumes st: "io_complete i k (w, fs) = Some (w', fs')" and inv: "io_inv vec names fs0 S w fs"
  shows "io_inv vec names fs0 S w' fs' \<and> bw_cleaned w' = bw_cleaned w \<and> bw_buckets w' = bw_buckets w \<and> bw_results w' = bw_results w"
proof -
  let ?t = "bw_threads w ! i"
  let ?r = "io_ring ?t ! k" and ?t' = "?t\<lparr>io_ring := take k (io_ring ?t) @ drop (Suc k) (io_ring ?t)\<rparr>"
  from st have i: "i < length (bw_threads w)" and k: "k < length (io_ring ?t)"
    and w': "w' = w\<lparr>bw_threads := (bw_threads w)[i := ?t'], bw_free := bw_free w + 1\<rparr>"
    and fs': "fs' = apply_op (request_write (bw_buckets w) ?r) fs"
    by (auto simp: io_complete_def Let_def split: if_splits)
  have "mset (io_ring ?t) = add_mset ?r (mset (io_ring ?t'))" using mset_remove_nth [OF k] by simp
  then have ring: "rings_of w = add_mset ?r (rings_of w')"
    using rings_update [OF i, of ?t'] by (simp add: w' rings_of_def)
  obtain C where C: "mset C + rings_of w + mset (sq_queue (bw_pending w)) = mset S"
    and fs: "fs = fold apply_op (map (request_op_of names) C) fs0"
    using inv by (auto simp: io_inv_def io_core_def)
  have "?r \<in># mset S" unfolding C [symmetric] ring by simp
  then have "rq_fd ?r < length names" using inv by (simp add: io_inv_def io_core_def)
  moreover have "map bk_name (bw_buckets w) = names" using inv by (simp add: io_inv_def io_core_def)
  ultimately have "bk_name (bw_buckets w ! rq_fd ?r) = names ! rq_fd ?r" by (metis length_map nth_map)
  then have "request_write (bw_buckets w) ?r = request_op_of names ?r" by (simp add: request_write_def request_op_of_def)
  then have "\<exists>C. mset C + rings_of w' + mset (sq_queue (bw_pending w')) = mset S \<and>
      fs' = fold apply_op (map (request_op_of names) C) fs0"
    using C ring fs by (intro exI [of _ "C @ [?r]"]) (simp add: w' fs')
  moreover have "\<forall>t \<in> set (bw_threads w). \<not> io_more t \<longrightarrow> bw_cleaned w \<and> sq_queue (bw_pending w) = []"
    using inv by (simp add: io_inv_def)
  then have "\<forall>t \<in> set ((bw_threads w)[i := ?t']). \<not> io_more t \<longrightarrow> bw_cleaned w \<and> sq_queue (bw_pending w) = []"
    by (rule ball_set_update) (use i inv in \<open>auto simp: io_inv_def\<close>)
  then have "\<forall>t \<in> set (bw_threads w'). \<not> io_more t \<longrightarrow> bw_cleaned w' \<and> sq_queue (bw_pending w') = []"
    by (simp add: w')
  moreover have "bw_threads w' \<noteq> []" using i by (auto simp: w')
  ultimately show ?thesis
    using inv ring by (simp add: io_inv_def io_core_def w')
qed


lemma CleanUp_cleaned: "bw_cleaned w \<Longrightarrow> CleanUp junk w = Some w"
  by (simp add: CleanUp_def)

lemma bucket_step_inv:
  assumes st: "bucket_step threshold vec depth junk s t" and inv: "bucket_inv threshold vec junk names fs0 ws s"
    and ok: "gather_ok junk ws"
  shows "bucket_inv threshold vec junk names fs0 ws t"
proof -
  obtain w fs todo where s: "s = (w, fs, todo)" by (metis prod_cases3)
  obtain before S where ws: "ws = before @ todo" and io: "io_inv vec names fs0 S w fs"
    and bk: "if bw_cleaned w then todo = [] \<and> (\<forall>b < length names. clean_bucket junk b ws S (bw_results w ! b))
       else \<forall>b < length names. open_bucket b before S threshold vec (bw_buckets w ! b)"
    using inv unfolding bucket_inv_def s by auto
  have same: "bucket_inv threshold vec junk names fs0 ws (w', fs', todo)"
    if "io_inv vec names fs0 S w' fs' \<and> bw_cleaned w' = bw_cleaned w \<and> bw_buckets w' = bw_buckets w \<and> bw_results w' = bw_results w" for w' fs'
    unfolding bucket_inv_def prod.case using that ws bk by (intro exI [of _ before] exI [of _ S]) (auto split: if_splits)
  from st [unfolded s] show ?thesis
  proof cases
    case (bstep_write b bs w' todo')
    have nc: "\<not> bw_cleaned w" using bk bstep_write by auto
    then have bks: "\<forall>c < length names. open_bucket c before S threshold vec (bw_buckets w ! c)" using bk by simp
    obtain S' where "io_inv vec names fs0 S' w' fs" "\<not> bw_cleaned w'"
        "\<forall>c < length names. open_bucket c (before @ [(b, bs)]) S' threshold vec (bw_buckets w' ! c)"
      using bucket_write_inv [OF bstep_write(3) io nc bks] by blast
    then show ?thesis
      using ws bstep_write unfolding bucket_inv_def by (auto intro!: exI [of _ "before @ [(b, bs)]"] exI [of _ S'])
  next
    case (bstep_cleanup w')
    then have bks: "\<forall>c < length names. open_bucket c ws S threshold vec (bw_buckets w ! c)" using bk ws by simp
    obtain w1 S1 where "CleanUp junk w = Some w1" "bw_cleaned w1" "io_inv vec names fs0 S1 w1 fs"
        "\<forall>c < length names. clean_bucket junk c ws S1 (bw_results w1 ! c)"
      using CleanUp_result [OF io bstep_cleanup(3) bks ok] by blast
    then show ?thesis
      using bstep_cleanup ws unfolding bucket_inv_def by (auto intro!: exI [of _ ws] exI [of _ S1])
  next
    case (bstep_submit i w')
    then show ?thesis using same [OF io_submit_inv [OF bstep_submit(2) io]] by simp
  next
    case (bstep_no_more i w')
    then show ?thesis using same [OF io_no_more_inv [OF bstep_no_more(2) io]] by simp
  next
    case (bstep_complete i k w' fs')
    then show ?thesis using same [OF io_complete_inv [OF bstep_complete(2) io]] by simp
  qed
qed


section \<open>Runs end\<close>

definition bucket_work :: "bucket_state \<Rightarrow> nat" where
  "bucket_work s = (case s of (w, fs, todo) \<Rightarrow>
     3 * length todo + 2 * length (sq_queue (bw_pending w)) + size (rings_of w) +
     (\<Sum>t\<leftarrow>bw_threads w. if io_more t then 1 else 0) + (if bw_cleaned w then 0 else 2 * length (bw_buckets w) + 1))"

definition bucket_halted :: "bucket_state \<Rightarrow> bool" where
  "bucket_halted s = (case s of (w, fs, todo) \<Rightarrow> todo = [] \<and> bw_cleaned w \<and> io_joined w)"

definition bucket_good :: "nat \<Rightarrow> nat \<Rightarrow> nat \<Rightarrow> (nat \<Rightarrow> byte list) \<Rightarrow> string list \<Rightarrow> fstore \<Rightarrow> (nat \<times> byte list) list \<Rightarrow>
    bucket_state \<Rightarrow> bool" where
  "bucket_good threshold vec depth junk names fs0 ws s \<longleftrightarrow>
     bucket_inv threshold vec junk names fs0 ws s \<and> 0 < depth \<and> gather_ok junk ws \<and> (\<forall>x \<in> set ws. fst x < length names)"

lemma bucket_write_work:
  assumes "bucket_write threshold vec b bs w = Some w'" and "sq_size_limit (bw_pending w) = 0"
  shows "bw_threads w' = bw_threads w \<and> bw_cleaned w' = bw_cleaned w \<and> length (bw_buckets w') = length (bw_buckets w) \<and>
    length (sq_queue (bw_pending w')) \<le> length (sq_queue (bw_pending w)) + 1"
  using assms
  by (auto simp: bucket_write_def Let_def NewRequest_def SubmitRequest_def pending_push split: if_splits)


lemma bucket_step_work:
  assumes st: "bucket_step threshold vec depth junk s t" and good: "bucket_good threshold vec depth junk names fs0 ws s"
  shows "bucket_work t < bucket_work s"
proof -
  obtain w fs todo where s: "s = (w, fs, todo)" by (metis prod_cases3)
  obtain before S where ws: "ws = before @ todo" and io: "io_inv vec names fs0 S w fs"
    and bk: "if bw_cleaned w then todo = [] \<and> (\<forall>b < length names. clean_bucket junk b ws S (bw_results w ! b))
       else \<forall>b < length names. open_bucket b before S threshold vec (bw_buckets w ! b)"
    using good unfolding bucket_good_def bucket_inv_def s by auto
  have lim: "sq_size_limit (bw_pending w) = 0" using io by (simp add: io_inv_def io_core_def)
  have len: "length (bw_buckets w) = length names" using io by (auto simp: io_inv_def io_core_def)
  from st [unfolded s] show ?thesis
  proof cases
    case (bstep_write b bs w' todo')
    then show ?thesis using bucket_write_work [OF bstep_write(3) lim] by (simp add: s bucket_work_def rings_of_def)
  next
    case (bstep_cleanup w')
    then have "\<forall>c < length names. open_bucket c ws S threshold vec (bw_buckets w ! c)" using bk ws by simp
    then obtain w1 where "CleanUp junk w = Some w1" "bw_cleaned w1" "bw_threads w1 = bw_threads w"
        "length (sq_queue (bw_pending w1)) = length (sq_queue (bw_pending w)) + length names"
      using CleanUp_result [OF io bstep_cleanup(3)] good unfolding bucket_good_def by blast
    then show ?thesis using bstep_cleanup len by (simp add: s bucket_work_def rings_of_def)
  next
    case (bstep_submit i w')
    let ?t = "bw_threads w ! i"
    obtain r q where i: "i < length (bw_threads w)" and p: "sq_queue (bw_pending w) = r # sq_queue q"
      and w': "w' = w\<lparr>bw_pending := q, bw_threads := (bw_threads w)[i := ?t\<lparr>io_ring := io_ring ?t @ [r]\<rparr>]\<rparr>"
      using bstep_submit(2) by (auto simp: io_submit_def Let_def pop_Some split: if_splits)
    have "size (rings_of w') = size (rings_of w) + 1"
      using arg_cong [OF rings_update [OF i, of "?t\<lparr>io_ring := io_ring ?t @ [r]\<rparr>"], of size] by (simp add: w' rings_of_def)
    moreover have "(\<Sum>t\<leftarrow>bw_threads w'. if io_more t then 1 else 0) = (\<Sum>t\<leftarrow>bw_threads w. if io_more t then 1 else (0::nat))"
      using sum_list_update_add [OF i, of "\<lambda>t. if io_more t then 1 else (0::nat)" "?t\<lparr>io_ring := io_ring ?t @ [r]\<rparr>"] by (simp add: w')
    ultimately show ?thesis using bstep_submit(1) p by (simp add: s bucket_work_def w')
  next
    case (bstep_no_more i w')
    let ?t = "bw_threads w ! i"
    have i: "i < length (bw_threads w)" and m: "io_more ?t"
      and w': "w' = w\<lparr>bw_threads := (bw_threads w)[i := ?t\<lparr>io_more := False\<rparr>]\<rparr>"
      using bstep_no_more(2) by (auto simp: io_no_more_def Let_def split: if_splits poll_result.splits QueueCode.splits)
    have "rings_of w' = rings_of w" using rings_update [OF i, of "?t\<lparr>io_more := False\<rparr>"] by (simp add: w')
    moreover have "(\<Sum>t\<leftarrow>bw_threads w'. if io_more t then 1 else 0) + 1 = (\<Sum>t\<leftarrow>bw_threads w. if io_more t then 1 else (0::nat))"
      using sum_list_update_add [OF i, of "\<lambda>t. if io_more t then 1 else (0::nat)" "?t\<lparr>io_more := False\<rparr>"] m by (simp add: w')
    ultimately show ?thesis using bstep_no_more(1) by (simp add: s bucket_work_def w')
  next
    case (bstep_complete i k w' fs')
    let ?t = "bw_threads w ! i"
    let ?t' = "?t\<lparr>io_ring := take k (io_ring ?t) @ drop (Suc k) (io_ring ?t)\<rparr>"
    have i: "i < length (bw_threads w)" and k: "k < length (io_ring ?t)"
      and w': "w' = w\<lparr>bw_threads := (bw_threads w)[i := ?t'], bw_free := bw_free w + 1\<rparr>"
      using bstep_complete(2) by (auto simp: io_complete_def Let_def split: if_splits)
    have "size (rings_of w) = size (rings_of w') + 1"
      using arg_cong [OF rings_update [OF i, of ?t'], of size] k by (simp add: w' rings_of_def)
    moreover have "(\<Sum>t\<leftarrow>bw_threads w'. if io_more t then 1 else 0) = (\<Sum>t\<leftarrow>bw_threads w. if io_more t then 1 else (0::nat))"
      using sum_list_update_add [OF i, of "\<lambda>t. if io_more t then 1 else (0::nat)" ?t'] by (simp add: w')
    ultimately show ?thesis using bstep_complete(1) by (simp add: s bucket_work_def w')
  qed
qed

lemma bucket_progress:
  assumes good: "bucket_good threshold vec depth junk names fs0 ws s" and nh: "\<not> bucket_halted s"
  shows "\<exists>t. bucket_step threshold vec depth junk s t"
proof -
  obtain w fs todo where s: "s = (w, fs, todo)" by (metis prod_cases3)
  obtain before S where ws: "ws = before @ todo" and io: "io_inv vec names fs0 S w fs"
    and bk: "if bw_cleaned w then todo = [] \<and> (\<forall>b < length names. clean_bucket junk b ws S (bw_results w ! b))
       else \<forall>b < length names. open_bucket b before S threshold vec (bw_buckets w ! b)"
    using good unfolding bucket_good_def bucket_inv_def s by auto
  have d: "0 < depth" and bounds: "\<forall>x \<in> set ws. fst x < length names" and ok: "gather_ok junk ws"
    using good by (simp_all add: bucket_good_def)
  have lim: "sq_size_limit (bw_pending w) = 0" and len: "length (bw_buckets w) = length names" and ne: "bw_threads w \<noteq> []"
    using io by (auto simp: io_inv_def io_core_def)
  consider (ring) t where "t \<in> set (bw_threads w)" "io_ring t \<noteq> []"
    | (queue) "\<forall>t \<in> set (bw_threads w). io_ring t = []" "sq_queue (bw_pending w) \<noteq> []"
    | (idle) "\<forall>t \<in> set (bw_threads w). io_ring t = []" "sq_queue (bw_pending w) = []" by blast
  then show ?thesis
  proof cases
    case ring
    then obtain i where "i < length (bw_threads w)" "io_ring (bw_threads w ! i) \<noteq> []" by (metis in_set_conv_nth)
    then obtain x where "io_complete i 0 (w, fs) = Some x" by (auto simp: io_complete_def Let_def)
    then show ?thesis unfolding s by (cases x) (auto intro: bstep_complete)
  next
    case queue
    have t: "bw_threads w ! 0 \<in> set (bw_threads w)" using ne by simp
    then have "io_more (bw_threads w ! 0)" using io queue(2) unfolding io_inv_def by blast
    then have "\<exists>x. io_submit depth 0 w = Some x"
      using queue t d ne by (cases "sq_queue (bw_pending w)") (simp_all add: io_submit_def Let_def pop_def)
    then show ?thesis unfolding s by (auto intro: bstep_submit)
  next
    case idle
    have rings: "rings_of w = {#}" using idle(1) by (simp add: rings_of_def sum_list_triv cong: map_cong)
    show ?thesis
    proof (cases "bw_cleaned w")
      case True
      then have "\<not> io_joined w" using nh bk by (simp add: bucket_halted_def s)
      then obtain i where i: "i < length (bw_threads w)" "io_more (bw_threads w ! i)"
        using idle(1) unfolding io_joined_def by (metis in_set_conv_nth)
      moreover have "io_ring (bw_threads w ! i) = []" using idle(1) i by simp
      moreover have "\<not> sq_open (bw_pending w)" using io True by (simp add: io_inv_def)
      ultimately have "\<exists>x. io_no_more depth i w = Some x"
        using idle(2) d by (simp add: io_no_more_def Let_def Poll_def)
      then show ?thesis unfolding s by (auto intro: bstep_no_more)
    next
      case nc: False
      show ?thesis
      proof (cases todo)
        case Nil
        then have "\<forall>c < length names. open_bucket c ws S threshold vec (bw_buckets w ! c)" using bk ws nc by simp
        then obtain w1 where "CleanUp junk w = Some w1" using CleanUp_result [OF io nc _ ok] by blast
        then show ?thesis unfolding s Nil using nc by (auto intro: bstep_cleanup)
      next
        case (Cons x todo')
        obtain b bs where x: "x = (b, bs)" by (cases x)
        have b: "b < length names" using bounds ws Cons x by auto
        then have "names \<noteq> []" by auto
        then have "bw_free w \<noteq> 0" using io idle(2) nc rings by (simp add: io_inv_def)
        then have "\<exists>w'. bucket_write threshold vec b bs w = Some w'"
          using b len lim by (simp add: bucket_write_def Let_def NewRequest_def SubmitRequest_def pending_push)
        then show ?thesis unfolding s Cons x by (auto intro: bstep_write)
      qed
    qed
  qed
qed

interpretation bucket_machine: finite_machine "bucket_step threshold vec depth junk"
    "bucket_good threshold vec depth junk names fs0 ws" bucket_work bucket_halted
    for threshold vec depth junk names fs0 ws
proof unfold_locales
  fix s t :: bucket_state
  assume g: "bucket_good threshold vec depth junk names fs0 ws s"
  then show "\<not> bucket_halted s \<Longrightarrow> \<exists>t. bucket_step threshold vec depth junk s t" by (rule bucket_progress)
  assume st: "bucket_step threshold vec depth junk s t"
  show "bucket_good threshold vec depth junk names fs0 ws t"
    using g bucket_step_inv [OF st] by (auto simp: bucket_good_def)
  show "bucket_work t < bucket_work s" using st g by (rule bucket_step_work)
qed


lemma bucket_start_good:
  assumes "0 < depth" and "0 < num_threads" and "gather_ok junk ws" and "\<forall>x \<in> set ws. fst x < n"
  shows "bucket_good threshold vec depth junk (file_names ssds result_prefix n) fs ws
    (InitializeWriter ssds result_prefix n num_threads, fs, ws)"
proof -
  let ?w = "InitializeWriter ssds result_prefix n num_threads"
  have "sum_list (replicate k {#}) = {#}" for k by (induction k) simp_all
  then have "rings_of ?w = {#}" by (simp add: rings_of_def InitializeWriter_def map_replicate_const)
  then have "io_inv vec (file_names ssds result_prefix n) fs [] ?w fs"
    using assms(2) by (auto simp: io_inv_def io_core_def InitializeWriter_def file_names_def new_FileInfo_def
        SimpleQueue_def offsets_ok_def intro!: exI [of _ "[]"])
  moreover have "\<forall>b < n. open_bucket b [] [] threshold vec (bw_buckets ?w ! b)"
    by (simp add: open_bucket_def InitializeWriter_def fresh_request_def iovec_count_def)
  moreover have "\<not> bw_cleaned ?w" by (simp add: InitializeWriter_def)
  ultimately have "bucket_inv threshold vec junk (file_names ssds result_prefix n) fs ws (?w, fs, ws)"
    unfolding bucket_inv_def prod.case by (intro exI [of _ "[]"]) auto
  then show ?thesis using assms by (simp add: bucket_good_def)
qed

lemma gathered_result:
  assumes "gather_ok junk ws"
  shows "take (length (concat (misaligned_of b ws))) (gathered junk b ws) = concat (misaligned_of b ws)"
    and "O_DIRECT_MULTIPLE dvd length (gathered junk b ws)" and "gathered junk b ws \<noteq> []"
    and "\<exists>pre. length pre = length (gathered junk b ws) \<and> O_DIRECT_MULTIPLE \<le> length pre \<and>
      length (concat (misaligned_of b ws)) \<le> length pre \<and>
      MakeFileEndMarker pre (length pre) (length (concat (misaligned_of b ws))) = Some (gathered junk b ws)"
proof -
  obtain g pre where "GatherMisalignedPointers (junk b) (misaligned_of b ws)
      = Some (g, length g, length (concat (misaligned_of b ws)))"
    and g: "take (length (concat (misaligned_of b ws))) g = concat (misaligned_of b ws)" "O_DIRECT_MULTIPLE dvd length g"
      "O_DIRECT_MULTIPLE \<le> length g" "length pre = length g" "length (concat (misaligned_of b ws)) \<le> length g"
      "MakeFileEndMarker pre (length pre) (length (concat (misaligned_of b ws))) = Some g"
    using gather_result [of "junk b" "misaligned_of b ws"] assms unfolding gather_ok_def by blast
  then have eq: "gathered junk b ws = g" by (simp add: gathered_def)
  have "g \<noteq> []" using g(3) by (auto simp: O_DIRECT_MULTIPLE_def)
  with g eq show "take (length (concat (misaligned_of b ws))) (gathered junk b ws) = concat (misaligned_of b ws)"
    "O_DIRECT_MULTIPLE dvd length (gathered junk b ws)" "gathered junk b ws \<noteq> []"
    "\<exists>pre. length pre = length (gathered junk b ws) \<and> O_DIRECT_MULTIPLE \<le> length pre \<and>
      length (concat (misaligned_of b ws)) \<le> length pre \<and>
      MakeFileEndMarker pre (length pre) (length (concat (misaligned_of b ws))) = Some (gathered junk b ws)"
    by auto
qed

text \<open>What the files contain after a run: the aligned buffers, then the gathered ones.\<close>

definition bucket_contents :: "(nat \<Rightarrow> byte list) \<Rightarrow> nat \<Rightarrow> (nat \<times> byte list) list \<Rightarrow> byte list" where
  "bucket_contents junk b ws = concat (aligned_of b ws) @ gathered junk b ws"

definition bucket_info :: "string list \<Rightarrow> string \<Rightarrow> (nat \<Rightarrow> byte list) \<Rightarrow> (nat \<times> byte list) list \<Rightarrow> nat \<Rightarrow> FileInfo" where
  "bucket_info ssds result_prefix junk ws b =
     new_FileInfo (GetFileName ssds result_prefix b) b
       (length (concat (aligned_of b ws)) + length (concat (misaligned_of b ws))) (length (bucket_contents junk b ws))"

lemma submitted_untouched:
  "name \<notin> set names \<Longrightarrow> \<forall>r \<in> set S. rq_fd r < length names \<Longrightarrow>
   fold apply_op (map (request_op_of names) S) fs name = fs name"
proof (induction S arbitrary: fs)
  case Nil
  then show ?case by simp
next
  case (Cons r S)
  then have "apply_op (request_op_of names r) fs name = fs name"
    by (auto simp: apply_op_def request_op_of_def fs_write_def)
  with Cons show ?case by simp
qed

lemma bucket_writer_final:
  assumes run: "bucket_writer_runs threshold vec depth junk ssds result_prefix n num_threads fs ws fs' infos"
    and hyps: "0 < depth" "0 < num_threads" "gather_ok junk ws" "\<forall>x \<in> set ws. fst x < n"
    and slash: "CHR ''/'' \<notin> set result_prefix"
  shows "infos = map (bucket_info ssds result_prefix junk ws) [0..<n]"
    and "b < n \<Longrightarrow> fs' (GetFileName ssds result_prefix b) =
      Some (pwrite_bytes (file_of fs (GetFileName ssds result_prefix b)) 0 (bucket_contents junk b ws))"
    and "name \<notin> set (file_names ssds result_prefix n) \<Longrightarrow> fs' name = fs name"
proof -
  let ?names = "file_names ssds result_prefix n"
  obtain w where r: "rtranclp (bucket_step threshold vec depth junk)
      (InitializeWriter ssds result_prefix n num_threads, fs, ws) (w, fs', [])"
    and w: "bw_cleaned w" "io_joined w" "infos = bw_results w"
    using run by (auto simp: bucket_writer_runs_def)
  have "bucket_good threshold vec depth junk ?names fs ws (w, fs', [])"
    using bucket_machine.reach_good [OF r bucket_start_good [OF hyps]] .
  then obtain S where io: "io_inv vec ?names fs S w fs'"
    and clean: "\<forall>b < n. clean_bucket junk b ws S (bw_results w ! b)"
    using w by (auto simp: bucket_good_def bucket_inv_def)
  obtain C where C: "mset C + rings_of w + mset (sq_queue (bw_pending w)) = mset S"
    and fs': "fs' = fold apply_op (map (request_op_of ?names) C) fs"
    using io by (auto simp: io_inv_def io_core_def)
  have S: "offsets_ok S" "\<forall>r \<in> set S. rq_fd r < length ?names" using io by (auto simp: io_inv_def io_core_def)
  have dist: "distinct ?names" using slash by (rule distinct_file_names)
  have "rings_of w = {#}" using w(2) by (simp add: io_joined_def rings_of_def sum_list_triv cong: map_cong)
  moreover have "sq_queue (bw_pending w) = []"
  proof -
    have "bw_threads w ! 0 \<in> set (bw_threads w)" using io by (simp add: io_inv_def io_core_def)
    then show ?thesis using io w(2) unfolding io_inv_def io_joined_def by blast
  qed
  ultimately have "mset (map (request_op_of ?names) C) = mset (map (request_op_of ?names) S)" using C by simp
  from fold_apply_perm [OF this] offsets_disjoint [OF S(1) dist S(2)]
  have eq: "fs' = fold apply_op (map (request_op_of ?names) S) fs" by (simp add: fs')
  have infos: "infos ! b = bucket_info ssds result_prefix junk ws b" if "b < n" for b
    using clean io that w(3)
    by (simp add: io_inv_def io_core_def clean_bucket_def bucket_info_def new_FileInfo_def bucket_contents_def file_names_def)
  show "infos = map (bucket_info ssds result_prefix junk ws) [0..<n]"
    using io infos w(3) by (intro nth_equalityI) (auto simp: io_inv_def io_core_def)
  show "fs' (GetFileName ssds result_prefix b) =
      Some (pwrite_bytes (file_of fs (GetFileName ssds result_prefix b)) 0 (bucket_contents junk b ws))" if b: "b < n"
  proof -
    have sub: "submitted_of b S = bucket_contents junk b ws" using clean b by (simp add: clean_bucket_def bucket_contents_def)
    then have "submitted_of b S \<noteq> []" using gathered_result(3) [OF hyps(3)] by (simp add: bucket_contents_def)
    then show ?thesis using submitted_result [OF S(1) dist S(2), of b fs] b eq sub by (simp add: file_names_def)
  qed
  show "fs' name = fs name" if "name \<notin> set ?names" using submitted_untouched [OF that S(2)] eq by simp
qed


text \<open>The abstract writer: one write per bucket, of its contents, at the start of its file.\<close>

definition write_bucket_files :: "string list \<Rightarrow> string \<Rightarrow> nat \<Rightarrow> (nat \<Rightarrow> byte list) \<Rightarrow> fstore \<Rightarrow> fstore" where
  "write_bucket_files ssds result_prefix n contents fs =
     fold (\<lambda>b fs. fs_write fs (GetFileName ssds result_prefix b) 0 (contents b)) [0..<n] fs"

lemma write_bucket_files_result:
  assumes slash: "CHR ''/'' \<notin> set result_prefix"
  shows "write_bucket_files ssds result_prefix n contents fs name =
    (if name \<in> set (file_names ssds result_prefix n)
     then Some (pwrite_bytes (file_of fs name) 0 (contents (THE b. GetFileName ssds result_prefix b = name))) else fs name)"
proof (induction n)
  case 0
  then show ?case by (simp add: write_bucket_files_def file_names_def)
next
  case (Suc n)
  have new: "GetFileName ssds result_prefix n \<notin> set (file_names ssds result_prefix n)"
    using GetFileName_inject [OF slash] by (auto simp: file_names_def dest!: GetFileName_inject [OF slash])
  have the: "(THE b. GetFileName ssds result_prefix b = GetFileName ssds result_prefix n) = n"
    using GetFileName_inject [OF slash] by (intro the_equality) auto
  have names: "set (file_names ssds result_prefix (Suc n)) = insert (GetFileName ssds result_prefix n) (set (file_names ssds result_prefix n))"
    by (auto simp: file_names_def)
  have step: "write_bucket_files ssds result_prefix (Suc n) contents fs =
      fs_write (write_bucket_files ssds result_prefix n contents fs) (GetFileName ssds result_prefix n) 0 (contents n)"
    by (simp add: write_bucket_files_def)
  show ?case
  proof (cases "name = GetFileName ssds result_prefix n")
    case True
    then show ?thesis using Suc new the names step by (simp add: fs_write_def file_of_def)
  next
    case False
    then show ?thesis using Suc names step by (simp add: fs_write_def)
  qed
qed

lemma write_bucket_files_file:
  assumes "CHR ''/'' \<notin> set result_prefix" and "b < n"
  shows "write_bucket_files ssds result_prefix n contents fs (GetFileName ssds result_prefix b) =
    Some (pwrite_bytes (file_of fs (GetFileName ssds result_prefix b)) 0 (contents b))"
proof -
  have "(THE c. GetFileName ssds result_prefix c = GetFileName ssds result_prefix b) = b"
    using GetFileName_inject [OF assms(1)] by (intro the_equality) auto
  then show ?thesis using write_bucket_files_result [OF assms(1)] assms(2) by (simp add: file_names_def)
qed

lemma bucket_writer_equiv:
  assumes hyps: "0 < depth" "0 < num_threads" "gather_ok junk ws" "\<forall>x \<in> set ws. fst x < n"
    and slash: "CHR ''/'' \<notin> set result_prefix"
  shows "bucket_writer_runs threshold vec depth junk ssds result_prefix n num_threads fs ws fs' infos \<longleftrightarrow>
    fs' = write_bucket_files ssds result_prefix n (\<lambda>b. bucket_contents junk b ws) fs \<and>
    infos = map (bucket_info ssds result_prefix junk ws) [0..<n]"
proof -
  have result: "fs1 = write_bucket_files ssds result_prefix n (\<lambda>b. bucket_contents junk b ws) fs \<and>
      infos1 = map (bucket_info ssds result_prefix junk ws) [0..<n]"
    if run: "bucket_writer_runs threshold vec depth junk ssds result_prefix n num_threads fs ws fs1 infos1" for fs1 infos1
  proof
    show "infos1 = map (bucket_info ssds result_prefix junk ws) [0..<n]" using bucket_writer_final(1) [OF run hyps slash] .
    show "fs1 = write_bucket_files ssds result_prefix n (\<lambda>b. bucket_contents junk b ws) fs"
    proof
      fix name
      show "fs1 name = write_bucket_files ssds result_prefix n (\<lambda>b. bucket_contents junk b ws) fs name"
      proof (cases "name \<in> set (file_names ssds result_prefix n)")
        case True
        then obtain b where "b < n" "name = GetFileName ssds result_prefix b" by (auto simp: file_names_def)
        then show ?thesis
          using bucket_writer_final(2) [OF run hyps slash] write_bucket_files_file [OF slash] by metis
      next
        case False
        then show ?thesis
          using bucket_writer_final(3) [OF run hyps slash False] write_bucket_files_result [OF slash] by simp
      qed
    qed
  qed
  obtain s where r: "rtranclp (bucket_step threshold vec depth junk)
      (InitializeWriter ssds result_prefix n num_threads, fs, ws) s" and h: "bucket_halted s"
    using bucket_machine.reach_halted [OF bucket_start_good [OF hyps]] by blast
  obtain w fs1 todo where s: "s = (w, fs1, todo)" by (metis prod_cases3)
  then have "bucket_writer_runs threshold vec depth junk ssds result_prefix n num_threads fs ws fs1 (bw_results w)"
    using r h by (auto simp: bucket_writer_runs_def bucket_halted_def)
  then show ?thesis using result by metis
qed

lemma bucket_requests:
  assumes run: "rtranclp (bucket_step threshold vec depth junk)
      (InitializeWriter ssds result_prefix n num_threads, fs, ws) (w, fs', todo)"
    and hyps: "0 < depth" "0 < num_threads" "gather_ok junk ws" "\<forall>x \<in> set ws. fst x < n"
  shows "r \<in> set (sq_queue (bw_pending w)) \<union> (\<Union>t \<in> set (bw_threads w). set (io_ring t)) \<Longrightarrow> request_fits vec r"
    and "\<not> bw_cleaned w \<Longrightarrow> 0 < vec \<Longrightarrow> \<forall>bk \<in> set (bw_buckets w). iovec_count (bk_request bk) < vec"
    and "bw_free w + length (sq_queue (bw_pending w)) + size (rings_of w) + (if bw_cleaned w then 0 else n) = 10 * n"
proof -
  let ?names = "file_names ssds result_prefix n"
  have "bucket_good threshold vec depth junk ?names fs ws (w, fs', todo)"
    using bucket_machine.reach_good [OF run bucket_start_good [OF hyps]] .
  then obtain before S where io: "io_inv vec ?names fs S w fs'"
    and bk: "\<not> bw_cleaned w \<Longrightarrow> \<forall>b < n. open_bucket b before S threshold vec (bw_buckets w ! b)"
    by (auto simp: bucket_good_def bucket_inv_def split: if_splits)
  obtain C where C: "mset C + rings_of w + mset (sq_queue (bw_pending w)) = mset S"
    using io by (auto simp: io_inv_def io_core_def)
  have S: "\<forall>r \<in> set S. request_fits vec r" using io by (auto simp: io_inv_def io_core_def)
  have "(\<Union>t \<in> set ts. set (io_ring t)) = set_mset (\<Sum>t\<leftarrow>ts. mset (io_ring t))" for ts by (induction ts) simp_all
  then have rings: "(\<Union>t \<in> set (bw_threads w). set (io_ring t)) = set_mset (rings_of w)" by (simp add: rings_of_def)
  show "request_fits vec r" if "r \<in> set (sq_queue (bw_pending w)) \<union> (\<Union>t \<in> set (bw_threads w). set (io_ring t))"
  proof -
    have "r \<in># mset S" unfolding C [symmetric] using that by (auto simp: rings)
    then show ?thesis using S by simp
  qed
  show "\<forall>bk \<in> set (bw_buckets w). iovec_count (bk_request bk) < vec" if "\<not> bw_cleaned w" "0 < vec"
  proof -
    have "length (bw_buckets w) = n" using io by (auto simp: io_inv_def io_core_def dest: arg_cong [of _ _ length])
    then show ?thesis using bk [OF that(1)] that(2) by (auto simp: in_set_conv_nth open_bucket_def)
  qed
  show "bw_free w + length (sq_queue (bw_pending w)) + size (rings_of w) + (if bw_cleaned w then 0 else n) = 10 * n"
    using io by (auto simp: io_inv_def split: if_splits)
qed


section \<open>Properties\<close>

text \<open>C9: The bucket writer refines one write per bucket. Whatever the order in which the I/O threads
submit and complete requests and whatever the flush threshold, the vector limit and the depth of the
rings are, a run on a list of writes ends, and leaves in the file of every bucket the buffers that
fill direct-I/O units in the order in which they were written, then one buffer that holds the
others; every other file is as before, and the result describes each file with its true size.\<close>

theorem bucket_writer_refines:
  assumes "0 < depth" and "0 < num_threads" and "gather_ok junk ws" and "\<forall>x \<in> set ws. fst x < n"
    and "CHR ''/'' \<notin> set result_prefix"
  shows "(bucket_writer_runs threshold vec depth junk ssds result_prefix n num_threads fs ws fs' infos \<longleftrightarrow>
        fs' = write_bucket_files ssds result_prefix n (\<lambda>b. bucket_contents junk b ws) fs \<and>
        infos = map (bucket_info ssds result_prefix junk ws) [0..<n]) \<and>
      (\<forall>b. take (length (concat (aligned_of b ws)) + length (concat (misaligned_of b ws))) (bucket_contents junk b ws) =
        concat (aligned_of b ws) @ concat (misaligned_of b ws))"
  using bucket_writer_equiv [OF assms] gathered_result(1) [OF assms(3)] by (simp add: bucket_contents_def)

lemma demo_gather_ok: "gather_ok (\<lambda>i. replicate 8192 0) [(0, [1, 2, 3])]"
  by (simp add: gather_ok_def METADATA_SIZE_def O_DIRECT_MULTIPLE_def misaligned_of_def)

lemma bucket_writer_refines_witness:
  "\<exists>fs'. bucket_writer_runs 4194304 IO_VECTOR_SIZE RING_DEPTH (\<lambda>i. replicate 8192 0) [] ''out'' 1 2 Map.empty
     [(0, [1, 2, 3])] fs' (map (bucket_info [] ''out'' (\<lambda>i. replicate 8192 0) [(0, [1, 2, 3])]) [0..<1])"
  using bucket_writer_refines [OF _ _ demo_gather_ok, of RING_DEPTH 2 1 "''out''"] by (simp add: RING_DEPTH_def)

text \<open>C32: Whatever the interleaving of writes, clean-up and I/O threads, every request that waits or is
in a ring has at most \<open>IO_VECTOR_SIZE\<close> vectors and, as direct I/O demands, starts at a multiple of
\<open>O_DIRECT_MULTIPLE\<close> and fills whole units; a bucket's current request always has room for one more
vector before clean-up; and no request of the pool is lost or used twice.\<close>

theorem requests_in_bounds:
  assumes "rtranclp (bucket_step threshold IO_VECTOR_SIZE depth junk)
      (InitializeWriter ssds result_prefix n num_threads, fs, ws) (w, fs', todo)"
    and "0 < depth" and "0 < num_threads" and "gather_ok junk ws" and "\<forall>x \<in> set ws. fst x < n"
  shows "(\<forall>r \<in> set (sq_queue (bw_pending w)) \<union> (\<Union>t \<in> set (bw_threads w). set (io_ring t)).
        iovec_count r \<le> IO_VECTOR_SIZE \<and> O_DIRECT_MULTIPLE dvd rq_offset r \<and> O_DIRECT_MULTIPLE dvd current_size r) \<and>
      (\<not> bw_cleaned w \<longrightarrow> (\<forall>bk \<in> set (bw_buckets w). iovec_count (bk_request bk) < IO_VECTOR_SIZE)) \<and>
      bw_free w + length (sq_queue (bw_pending w)) + (\<Sum>t\<leftarrow>bw_threads w. length (io_ring t)) +
        (if bw_cleaned w then 0 else n) = 10 * n"
proof -
  have vec: "0 < IO_VECTOR_SIZE" by (simp add: IO_VECTOR_SIZE_def)
  have size_rings: "size (rings_of w) = (\<Sum>t\<leftarrow>bw_threads w. length (io_ring t))"
  proof -
    have "size (\<Sum>t\<leftarrow>ts. mset (io_ring t)) = (\<Sum>t\<leftarrow>ts. length (io_ring t))" for ts by (induction ts) simp_all
    then show ?thesis by (simp add: rings_of_def)
  qed
  show ?thesis
    using bucket_requests [OF assms] vec size_rings length_concat_vectors unfolding request_fits_def by metis
qed

lemma requests_in_bounds_witness:
  "bw_free (InitializeWriter [] ''out'' 1 2) + 0 + 0 + 1 = (10 :: nat)"
  using requests_in_bounds [OF rtranclp.rtrancl_refl _ _ demo_gather_ok,
      where depth = RING_DEPTH and num_threads = 2 and n = 1] by (simp add: RING_DEPTH_def InitializeWriter_def SimpleQueue_def)

end
