(* ===== verification/ScatterGather.thy ===== *)
theory ScatterGather
  imports BucketWriter FileReader Interleaving
begin

text \<open>
  scatter_gather_algorithms/scatter_gather.h: phase 1 polls the input files and sends every element
  to the bucket an assigner chooses, through the bucket writer; phase 2 reads the file of each
  bucket, lets a processor work on its elements in memory and writes the result. \<open>E\<close> is the number
  of elements of a thread-local bucket buffer, \<open>W\<close> the number of workers, \<open>cap\<close> the largest number
  of bytes that one read or write moves (Linux: 2147479552), \<open>junk\<close> what uninitialised memory holds.
\<close>

definition SAMPLE_SORT_BUCKET_SIZE :: nat where
  "SAMPLE_SORT_BUCKET_SIZE = 4 * 2 ^ 10"

record BucketedWriterConfig =
  bwc_num_threads :: nat
  bwc_num_buckets :: nat

record ScatterGatherConfig =
  sg_reader_config :: UnorderedReaderConfig
  sg_bucketed_writer_config :: BucketedWriterConfig
  sg_benchmark_mode :: bool

section \<open>Phase 1\<close>

text \<open>The filled prefix of every thread-local buffer, and the calls of \<open>Write\<close> so far.\<close>

record 'a assign_state =
  as_buckets :: "'a list list"
  as_writes :: "(nat \<times> 'a list) list"

text \<open>\<open>None\<close>: the assigner returned a bucket that does not exist, an access out of bounds.\<close>

definition assign_elem :: "nat \<Rightarrow> ('a \<Rightarrow> nat \<Rightarrow> nat) \<Rightarrow> 'a \<Rightarrow> nat \<Rightarrow> 'a assign_state \<Rightarrow> 'a assign_state option" where
  "assign_elem E assigner x g st =
     (let b = assigner x g in
      if b < length (as_buckets st) then
        let buf = as_buckets st ! b @ [x] in
        Some (if length buf = E
              then st\<lparr>as_buckets := (as_buckets st)[b := []], as_writes := as_writes st @ [(b, buf)]\<rparr>
              else st\<lparr>as_buckets := (as_buckets st)[b := buf]\<rparr>)
      else None)"

fun assign_loop :: "nat \<Rightarrow> ('a \<Rightarrow> nat \<Rightarrow> nat) \<Rightarrow> nat \<Rightarrow> 'a list \<Rightarrow> 'a assign_state \<Rightarrow> 'a assign_state option" where
  "assign_loop E assigner g [] st = Some st"
| "assign_loop E assigner g (x # xs) st =
     (case assign_elem E assigner x g st of None \<Rightarrow> None | Some st' \<Rightarrow> assign_loop E assigner (g + 1) xs st')"

text \<open>One result of \<open>reader.Poll()\<close>: \<open>index_start = files[file_index].before_size + data_index\<close>.\<close>

definition assign_chunk :: "nat \<Rightarrow> ('a \<Rightarrow> nat \<Rightarrow> nat) \<Rightarrow> FileInfo list \<Rightarrow> 'a FileBuffer \<Rightarrow>
    'a assign_state \<Rightarrow> 'a assign_state option" where
  "assign_chunk E assigner files d st =
     (if fb_file_index d < length files
      then assign_loop E assigner (fi_before_size (files ! fb_file_index d) + fb_index d) (take (fb_size d) (fb_data d)) st
      else None)"

fun assign_polls :: "nat \<Rightarrow> ('a \<Rightarrow> nat \<Rightarrow> nat) \<Rightarrow> FileInfo list \<Rightarrow> 'a FileBuffer list \<Rightarrow>
    'a assign_state \<Rightarrow> 'a assign_state option" where
  "assign_polls E assigner files [] st = Some st"
| "assign_polls E assigner files (d # ds) st =
     (case assign_chunk E assigner files d st of None \<Rightarrow> None | Some st' \<Rightarrow> assign_polls E assigner files ds st')"

text \<open>The partially full buckets at the end.\<close>

definition assign_rest :: "'a list list \<Rightarrow> (nat \<times> 'a list) list" where
  "assign_rest bufs = filter (\<lambda>w. snd w \<noteq> []) (zip [0..<length bufs] bufs)"

text \<open>The calls of \<open>Write\<close> of one worker that polled the chunks \<open>share\<close>.\<close>

definition AssignToBucket :: "nat \<Rightarrow> nat \<Rightarrow> ('a \<Rightarrow> nat \<Rightarrow> nat) \<Rightarrow> FileInfo list \<Rightarrow> 'a FileBuffer list \<Rightarrow>
    (nat \<times> 'a list) list option" where
  "AssignToBucket E num_buckets assigner files share =
     map_option (\<lambda>st. as_writes st @ assign_rest (as_buckets st))
       (assign_polls E assigner files share \<lparr>as_buckets = replicate num_buckets [], as_writes = []\<rparr>)"

text \<open>The workers share the reader; their writes reach the bucket writer in an interleaved order.\<close>

definition assign_phase :: "'a pod \<Rightarrow> nat \<Rightarrow> nat \<Rightarrow> nat \<Rightarrow> UnorderedReaderConfig \<Rightarrow> ('a \<Rightarrow> nat \<Rightarrow> nat) \<Rightarrow> fstore \<Rightarrow>
    FileInfo list \<Rightarrow> (nat \<times> 'a list) list \<Rightarrow> bool" where
  "assign_phase P R W num_buckets cfg assigner fs files zs \<longleftrightarrow>
     (\<exists>ds shares streams. file_polls P R cfg fs files ds \<and> length shares = W \<and> interleave shares ds \<and>
        map (AssignToBucket (SAMPLE_SORT_BUCKET_SIZE div pod_size P) num_buckets assigner files) shares = map Some streams \<and>
        interleave streams zs)"

definition write_bytes :: "'a pod \<Rightarrow> (nat \<times> 'a list) list \<Rightarrow> (nat \<times> byte list) list" where
  "write_bytes P zs = map (\<lambda>(b, xs). (b, enc_list P xs)) zs"

section \<open>Phase 2\<close>

text \<open>The processor works on the first \<open>n\<close> elements of the buffer, in place.\<close>

definition process_buffer :: "'a pod \<Rightarrow> ('a list \<Rightarrow> 'a list) \<Rightarrow> nat \<Rightarrow> byte list \<Rightarrow> byte list" where
  "process_buffer P processor n buffer = enc_list P (processor (dec_list P n buffer)) @ drop (n * pod_size P) buffer"

definition renamed_info :: "string \<Rightarrow> FileInfo \<Rightarrow> FileInfo" where
  "renamed_info name info = new_FileInfo name (fi_file_index info) (fi_true_size info) (fi_file_size info)"

text \<open>\<open>None\<close>: the file cannot be read.\<close>

definition ProcessBucket :: "'a pod \<Rightarrow> nat \<Rightarrow> nat \<Rightarrow> ('a list \<Rightarrow> 'a list) \<Rightarrow> FileInfo \<Rightarrow> string \<Rightarrow> fstore \<Rightarrow>
    (FileInfo \<times> fstore) option" where
  "ProcessBucket P fuel cap processor info target fs =
     map_option (\<lambda>buffer. (renamed_info target info,
         fs_write fs target 0 (take (min cap (fi_file_size info))
           (process_buffer P processor (fi_true_size info div pod_size P) buffer))))
       (ReadEntireFile fuel cap fs (fi_file_name info) (fi_file_size info))"

text \<open>\<open>SimplePhase2\<close> handles the buckets in parallel; \<open>order\<close> is the order in which they are done.\<close>

fun process_buckets :: "'a pod \<Rightarrow> nat \<Rightarrow> nat \<Rightarrow> string list \<Rightarrow> string \<Rightarrow> ('a list \<Rightarrow> 'a list) \<Rightarrow> FileInfo list \<Rightarrow>
    nat list \<Rightarrow> fstore \<Rightarrow> fstore option" where
  "process_buckets P fuel cap ssds result_prefix processor bucket_list [] fs = Some fs"
| "process_buckets P fuel cap ssds result_prefix processor bucket_list (i # is) fs =
     (case ProcessBucket P fuel cap processor (bucket_list ! i) (GetFileName ssds result_prefix i) fs of
        None \<Rightarrow> None
      | Some (_, fs') \<Rightarrow> process_buckets P fuel cap ssds result_prefix processor bucket_list is fs')"

definition SimplePhase2 :: "'a pod \<Rightarrow> nat \<Rightarrow> nat \<Rightarrow> string list \<Rightarrow> string \<Rightarrow> ('a list \<Rightarrow> 'a list) \<Rightarrow> FileInfo list \<Rightarrow>
    nat list \<Rightarrow> fstore \<Rightarrow> (FileInfo list \<times> fstore) option" where
  "SimplePhase2 P fuel cap ssds result_prefix processor bucket_list order fs =
     map_option (\<lambda>fs'. (map (\<lambda>i. renamed_info (GetFileName ssds result_prefix i) (bucket_list ! i))
         [0..<length bucket_list], fs'))
       (process_buckets P fuel cap ssds result_prefix processor bucket_list order fs)"

section \<open>The pipeline of phase 2\<close>

text \<open>
  \<open>WorkerOnlyPhase2\<close>, which \<open>Run\<close> uses: every worker reads the next bucket while it processes the
  current one and writes the previous one. One step is one iteration of one worker's loop. A read
  or write is done when it is reaped: nobody writes the bucket files meanwhile, and every result
  file is written once.
\<close>

record local_file =
  lf_buffer :: "byte list"
  lf_info :: FileInfo

definition blank_file :: local_file where
  "blank_file = \<lparr>lf_buffer = [], lf_info = new_FileInfo '''' 0 0 0\<rparr>"

record phase2_worker =
  p2_previous :: local_file
  p2_current :: local_file
  p2_next :: local_file
  p2_need_reap_read :: bool
  p2_need_submit_read :: bool
  p2_need_reap_write :: bool

record phase2_shared =
  p2_current_file :: nat
  p2_store :: fstore
  p2_results :: "FileInfo list"

definition start_phase2_worker :: phase2_worker where
  "start_phase2_worker = \<lparr>p2_previous = blank_file, p2_current = blank_file, p2_next = blank_file,
     p2_need_reap_read = False, p2_need_submit_read = True, p2_need_reap_write = False\<rparr>"

definition finish_read :: "nat \<Rightarrow> fstore \<Rightarrow> local_file \<Rightarrow> local_file" where
  "finish_read cap fs f =
     (let got = fs_read fs (fi_file_name (lf_info f)) 0 (min cap (fi_file_size (lf_info f)))
      in f\<lparr>lf_buffer := got @ drop (length got) (lf_buffer f)\<rparr>)"

definition submit_read :: "(nat \<Rightarrow> byte list) \<Rightarrow> FileInfo list \<Rightarrow> nat \<Rightarrow> local_file" where
  "submit_read junk bucket_list index =
     \<lparr>lf_buffer = take (fi_file_size (bucket_list ! index)) (junk index),
      lf_info = (bucket_list ! index)\<lparr>fi_file_index := index\<rparr>\<rparr>"

definition process_file :: "'a pod \<Rightarrow> string list \<Rightarrow> string \<Rightarrow> ('a list \<Rightarrow> 'a list) \<Rightarrow> local_file \<Rightarrow> local_file" where
  "process_file P ssds result_prefix processor f =
     \<lparr>lf_buffer = process_buffer P processor (fi_true_size (lf_info f) div pod_size P) (lf_buffer f),
      lf_info = (lf_info f)\<lparr>fi_file_name := GetFileName ssds result_prefix (fi_file_index (lf_info f))\<rparr>\<rparr>"

definition finish_write :: "nat \<Rightarrow> local_file \<Rightarrow> phase2_shared \<Rightarrow> phase2_shared" where
  "finish_write cap f sh =
     sh\<lparr>p2_store := fs_write (p2_store sh) (fi_file_name (lf_info f)) 0 (take (min cap (fi_file_size (lf_info f))) (lf_buffer f)),
        p2_results := (p2_results sh)[fi_file_index (lf_info f) := lf_info f]\<rparr>"

definition phase2_iteration :: "'a pod \<Rightarrow> nat \<Rightarrow> (nat \<Rightarrow> byte list) \<Rightarrow> string list \<Rightarrow> string \<Rightarrow> ('a list \<Rightarrow> 'a list) \<Rightarrow>
    FileInfo list \<Rightarrow> phase2_worker \<Rightarrow> phase2_shared \<Rightarrow> phase2_worker \<times> phase2_shared" where
  "phase2_iteration P cap junk ssds result_prefix processor bucket_list wk sh =
     (let previous = p2_current wk;
          need_process = p2_need_reap_read wk;
          current = (if need_process then finish_read cap (p2_store sh) (p2_next wk) else p2_next wk);
          index = p2_current_file sh;
          need_submit_read = (p2_need_submit_read wk \<and> \<not> length bucket_list \<le> index);
          next = (if need_submit_read then submit_read junk bucket_list index else p2_next wk);
          current' = (if need_process then process_file P ssds result_prefix processor current else current);
          sh' = (if p2_need_reap_write wk then finish_write cap previous sh else sh)
      in (\<lparr>p2_previous = previous, p2_current = current', p2_next = next, p2_need_reap_read = need_submit_read,
           p2_need_submit_read = need_submit_read, p2_need_reap_write = need_process\<rparr>,
          sh'\<lparr>p2_current_file := index + 1\<rparr>))"

definition phase2_running :: "phase2_worker \<Rightarrow> bool" where
  "phase2_running wk \<longleftrightarrow> p2_need_submit_read wk \<or> p2_need_reap_write wk"

type_synonym phase2_state = "phase2_worker list \<times> phase2_shared"

inductive phase2_step :: "'a pod \<Rightarrow> nat \<Rightarrow> (nat \<Rightarrow> byte list) \<Rightarrow> string list \<Rightarrow> string \<Rightarrow> ('a list \<Rightarrow> 'a list) \<Rightarrow>
    FileInfo list \<Rightarrow> phase2_state \<Rightarrow> phase2_state \<Rightarrow> bool"
  for P cap junk ssds result_prefix processor bucket_list where
  p2step: "i < length ws \<Longrightarrow> phase2_running (ws ! i) \<Longrightarrow>
    phase2_iteration P cap junk ssds result_prefix processor bucket_list (ws ! i) sh = (wk, sh') \<Longrightarrow>
    phase2_step P cap junk ssds result_prefix processor bucket_list (ws, sh) (ws[i := wk], sh')"

inductive_cases phase2_stepE: "phase2_step P cap junk ssds result_prefix processor bucket_list s t"

definition start_phase2 :: "nat \<Rightarrow> FileInfo list \<Rightarrow> fstore \<Rightarrow> phase2_state" where
  "start_phase2 W bucket_list fs =
     (replicate W start_phase2_worker,
      \<lparr>p2_current_file = 0, p2_store = fs, p2_results = replicate (length bucket_list) (new_FileInfo '''' 0 0 0)\<rparr>)"

definition phase2_done :: "phase2_state \<Rightarrow> bool" where
  "phase2_done s \<longleftrightarrow> (\<forall>wk \<in> set (fst s). \<not> phase2_running wk)"

definition WorkerOnlyPhase2 :: "'a pod \<Rightarrow> nat \<Rightarrow> nat \<Rightarrow> (nat \<Rightarrow> byte list) \<Rightarrow> string list \<Rightarrow> string \<Rightarrow>
    ('a list \<Rightarrow> 'a list) \<Rightarrow> FileInfo list \<Rightarrow> fstore \<Rightarrow> FileInfo list \<Rightarrow> fstore \<Rightarrow> bool" where
  "WorkerOnlyPhase2 P cap W junk ssds result_prefix processor bucket_list fs results fs' \<longleftrightarrow>
     (\<exists>s. rtranclp (phase2_step P cap junk ssds result_prefix processor bucket_list) (start_phase2 W bucket_list fs) s \<and>
        phase2_done s \<and> results = p2_results (snd s) \<and> fs' = p2_store (snd s))"

text \<open>\<open>Run\<close>. The files of the bucket writer are named \<open>spfx_\<close>, it flushes a bucket at 1 MiB.\<close>

definition scatter_prefix :: string where
  "scatter_prefix = ''spfx_''"

definition scatter_gather :: "'a pod \<Rightarrow> nat \<Rightarrow> nat \<Rightarrow> nat \<Rightarrow> (nat \<Rightarrow> byte list) \<Rightarrow> (nat \<Rightarrow> byte list) \<Rightarrow> string list \<Rightarrow> ScatterGatherConfig \<Rightarrow>
    FileInfo list \<Rightarrow> string \<Rightarrow> ('a \<Rightarrow> nat \<Rightarrow> nat) \<Rightarrow> ('a list \<Rightarrow> 'a list) \<Rightarrow> fstore \<Rightarrow> FileInfo list \<Rightarrow> fstore \<Rightarrow> bool" where
  "scatter_gather P R cap W junk buffers ssds config input_files result_prefix assigner processor fs results fs' \<longleftrightarrow>
     (let num_buckets = bwc_num_buckets (sg_bucketed_writer_config config);
          io_threads = bwc_num_threads (sg_bucketed_writer_config config)
      in io_threads < W \<and>
         (\<exists>zs bucket_list fs1.
            assign_phase P R (W - io_threads) num_buckets (sg_reader_config config) assigner fs input_files zs \<and>
            bucket_writer_runs (2 ^ 20) IO_VECTOR_SIZE RING_DEPTH junk ssds scatter_prefix num_buckets io_threads
              fs (write_bytes P zs) fs1 bucket_list \<and>
            WorkerOnlyPhase2 P cap W buffers ssds result_prefix processor bucket_list fs1 results fs'))"

section \<open>What phase 1 writes\<close>

definition assigned :: "('a \<Rightarrow> nat \<Rightarrow> nat) \<Rightarrow> nat \<Rightarrow> 'a list \<Rightarrow> bool" where
  "assigned assigner b xs \<longleftrightarrow> (\<forall>x \<in> set xs. \<exists>g. assigner x g = b)"

lemma assigned_simps [simp]: "assigned assigner b []" "assigned assigner b (xs @ ys) \<longleftrightarrow> assigned assigner b xs \<and> assigned assigner b ys"
  by (auto simp: assigned_def)

definition assign_inv :: "nat \<Rightarrow> nat \<Rightarrow> ('a \<Rightarrow> nat \<Rightarrow> nat) \<Rightarrow> 'a multiset \<Rightarrow> 'a assign_state \<Rightarrow> bool" where
  "assign_inv E m assigner seen st \<longleftrightarrow>
     length (as_buckets st) = m \<and>
     (\<forall>b < m. length (as_buckets st ! b) < E \<and> assigned assigner b (as_buckets st ! b)) \<and>
     (\<forall>w \<in> set (as_writes st). fst w < m \<and> length (snd w) = E \<and> assigned assigner (fst w) (snd w)) \<and>
     (\<Sum>w\<leftarrow>as_writes st. mset (snd w)) + (\<Sum>xs\<leftarrow>as_buckets st. mset xs) = seen"

lemma assign_elem_inv:
  assumes inv: "assign_inv E m assigner seen st" and E: "0 < E" and b: "assigner x g < m"
  shows "\<exists>st'. assign_elem E assigner x g st = Some st' \<and> assign_inv E m assigner (add_mset x seen) st'"
proof -
  let ?b = "assigner x g"
  let ?buf = "as_buckets st ! ?b @ [x]"
  have len: "?b < length (as_buckets st)" using inv b by (simp add: assign_inv_def)
  have ok: "assigned assigner ?b ?buf" using inv b by (auto simp: assign_inv_def assigned_def)
  show ?thesis
  proof (cases "length ?buf = E")
    case True
    let ?st = "st\<lparr>as_buckets := (as_buckets st)[?b := []], as_writes := as_writes st @ [(?b, ?buf)]\<rparr>"
    have st: "assign_elem E assigner x g st = Some ?st" using True len by (simp add: assign_elem_def Let_def)
    have "(\<Sum>xs\<leftarrow>as_buckets ?st. mset xs) + mset (as_buckets st ! ?b) = (\<Sum>xs\<leftarrow>as_buckets st. mset xs)"
      using sum_list_update_add [OF len, of mset "[]"] by simp
    then have "seen = (\<Sum>w\<leftarrow>as_writes st. mset (snd w)) + ((\<Sum>xs\<leftarrow>as_buckets ?st. mset xs) + mset (as_buckets st ! ?b))"
      using inv by (simp add: assign_inv_def)
    then have "(\<Sum>w\<leftarrow>as_writes ?st. mset (snd w)) + (\<Sum>xs\<leftarrow>as_buckets ?st. mset xs) = add_mset x seen" by simp
    moreover have "\<forall>c < m. length (as_buckets ?st ! c) < E \<and> assigned assigner c (as_buckets ?st ! c)"
      using inv E len by (simp add: assign_inv_def nth_list_update)
    moreover have "\<forall>w \<in> set (as_writes ?st). fst w < m \<and> length (snd w) = E \<and> assigned assigner (fst w) (snd w)"
      using inv b True ok by (simp add: assign_inv_def)
    moreover have "length (as_buckets ?st) = m" using inv by (simp add: assign_inv_def)
    ultimately show ?thesis unfolding st assign_inv_def by blast
  next
    case False
    let ?st = "st\<lparr>as_buckets := (as_buckets st)[?b := ?buf]\<rparr>"
    have st: "assign_elem E assigner x g st = Some ?st" using False len by (simp add: assign_elem_def Let_def)
    have "(\<Sum>xs\<leftarrow>as_buckets ?st. mset xs) = add_mset x (\<Sum>xs\<leftarrow>as_buckets st. mset xs)"
      using sum_list_update_add [OF len, of mset ?buf] by simp
    then have "(\<Sum>w\<leftarrow>as_writes ?st. mset (snd w)) + (\<Sum>xs\<leftarrow>as_buckets ?st. mset xs) = add_mset x seen"
      using inv by (simp add: assign_inv_def)
    moreover have "length ?buf < E" using False inv b by (simp add: assign_inv_def Suc_lessI)
    then have "\<forall>c < m. length (as_buckets ?st ! c) < E \<and> assigned assigner c (as_buckets ?st ! c)"
      using inv len ok by (simp add: assign_inv_def nth_list_update)
    moreover have "\<forall>w \<in> set (as_writes ?st). fst w < m \<and> length (snd w) = E \<and> assigned assigner (fst w) (snd w)"
      using inv by (simp add: assign_inv_def)
    moreover have "length (as_buckets ?st) = m" using inv by (simp add: assign_inv_def)
    ultimately show ?thesis unfolding st assign_inv_def by blast
  qed
qed

lemma assign_loop_inv:
  assumes "assign_inv E m assigner seen st" and "0 < E" and "\<forall>x g. x \<in> set xs \<longrightarrow> assigner x g < m"
  shows "\<exists>st'. assign_loop E assigner g xs st = Some st' \<and> assign_inv E m assigner (seen + mset xs) st'"
  using assms
proof (induction xs arbitrary: g st seen)
  case Nil
  then show ?case by simp
next
  case (Cons x xs)
  then obtain st1 where "assign_elem E assigner x g st = Some st1" and "assign_inv E m assigner (add_mset x seen) st1"
    using assign_elem_inv [of E m assigner seen st x g] by auto
  with Cons.IH [of "add_mset x seen" st1 "g + 1"] Cons.prems show ?case by simp
qed

lemma assign_polls_inv:
  assumes "assign_inv E m assigner seen st" and "0 < E"
    and "\<forall>d \<in> set ds. fb_file_index d < length files \<and> (\<forall>x \<in> set (chunk_elems_of d). \<forall>g. assigner x g < m)"
  shows "\<exists>st'. assign_polls E assigner files ds st = Some st' \<and>
    assign_inv E m assigner (seen + (\<Sum>d\<leftarrow>ds. mset (chunk_elems_of d))) st'"
  using assms
proof (induction ds arbitrary: st seen)
  case Nil
  then show ?case by simp
next
  case (Cons d ds)
  have "\<forall>x g. x \<in> set (chunk_elems_of d) \<longrightarrow> assigner x g < m" using Cons.prems(3) by simp
  from assign_loop_inv [OF Cons.prems(1,2) this] Cons.prems(3)
  obtain st1 where "assign_chunk E assigner files d st = Some st1"
      and "assign_inv E m assigner (seen + mset (chunk_elems_of d)) st1"
    unfolding assign_chunk_def chunk_elems_of_def by (metis list.set_intros(1))
  with Cons.IH [of "seen + mset (chunk_elems_of d)" st1] Cons.prems show ?case by (simp add: add.assoc)
qed

lemma assign_rest_result:
  "(\<Sum>w\<leftarrow>assign_rest bufs. mset (snd w)) = (\<Sum>xs\<leftarrow>bufs. mset xs)"
  "w \<in> set (assign_rest bufs) \<Longrightarrow> fst w < length bufs \<and> snd w = bufs ! fst w \<and> snd w \<noteq> []"
proof -
  have "(\<Sum>w\<leftarrow>filter (\<lambda>w. snd w \<noteq> []) zs. mset (snd w)) = (\<Sum>w\<leftarrow>zs. mset (snd w))" for zs :: "(nat \<times> 'a list) list"
    by (induction zs) auto
  moreover have "map (\<lambda>w. mset (snd w)) (zip [0..<length bufs] bufs) = map mset bufs"
    by (simp add: map_snd_zip flip: map_map [of mset snd, unfolded comp_def])
  ultimately show "(\<Sum>w\<leftarrow>assign_rest bufs. mset (snd w)) = (\<Sum>xs\<leftarrow>bufs. mset xs)" by (simp add: assign_rest_def)
  show "w \<in> set (assign_rest bufs) \<Longrightarrow> fst w < length bufs \<and> snd w = bufs ! fst w \<and> snd w \<noteq> []"
    by (auto simp: assign_rest_def set_zip)
qed

definition write_ok :: "nat \<Rightarrow> nat \<Rightarrow> ('a \<Rightarrow> nat \<Rightarrow> nat) \<Rightarrow> nat \<times> 'a list \<Rightarrow> bool" where
  "write_ok E m assigner w \<longleftrightarrow> fst w < m \<and> snd w \<noteq> [] \<and> length (snd w) \<le> E \<and> assigned assigner (fst w) (snd w)"

lemma AssignToBucket_result:
  assumes E: "0 < E"
    and ds: "\<forall>d \<in> set ds. fb_file_index d < length files \<and> (\<forall>x \<in> set (chunk_elems_of d). \<forall>g. assigner x g < m)"
  shows "\<exists>ws. AssignToBucket E m assigner files ds = Some ws \<and> (\<forall>w \<in> set ws. write_ok E m assigner w) \<and>
    (\<Sum>w\<leftarrow>ws. mset (snd w)) = (\<Sum>d\<leftarrow>ds. mset (chunk_elems_of d))"
proof -
  let ?st = "\<lparr>as_buckets = replicate m [], as_writes = []\<rparr> :: 'a assign_state"
  have "(\<Sum>xs\<leftarrow>replicate m []. mset xs) = ({#} :: 'a multiset)" by (induction m) simp_all
  then have "assign_inv E m assigner {#} ?st" using E by (simp add: assign_inv_def)
  from assign_polls_inv [OF this E ds] obtain st where st: "assign_polls E assigner files ds ?st = Some st"
    and inv: "assign_inv E m assigner (\<Sum>d\<leftarrow>ds. mset (chunk_elems_of d)) st" by auto
  let ?ws = "as_writes st @ assign_rest (as_buckets st)"
  have "\<forall>w \<in> set (as_writes st). write_ok E m assigner w"
    using inv E by (auto simp: assign_inv_def write_ok_def)
  moreover have "\<forall>w \<in> set (assign_rest (as_buckets st)). write_ok E m assigner w"
  proof
    fix w assume "w \<in> set (assign_rest (as_buckets st))"
    from assign_rest_result(2) [OF this] have w: "fst w < m" "snd w = as_buckets st ! fst w" "snd w \<noteq> []"
      using inv by (auto simp: assign_inv_def)
    then have "length (as_buckets st ! fst w) < E \<and> assigned assigner (fst w) (as_buckets st ! fst w)"
      using inv by (simp add: assign_inv_def)
    then show "write_ok E m assigner w" using w unfolding write_ok_def by (metis less_imp_le)
  qed
  ultimately have "\<forall>w \<in> set ?ws. write_ok E m assigner w" by auto
  moreover have "(\<Sum>w\<leftarrow>?ws. mset (snd w)) = (\<Sum>d\<leftarrow>ds. mset (chunk_elems_of d))"
    using inv by (simp add: assign_inv_def assign_rest_result(1))
  ultimately show ?thesis using st by (auto simp: AssignToBucket_def)
qed

lemma assign_streams:
  assumes E: "0 < E" and ds: "\<forall>d \<in> set (concat shares). fb_file_index d < length files \<and> (\<forall>x \<in> set (chunk_elems_of d). \<forall>g. assigner x g < m)"
  shows "\<exists>streams. map (AssignToBucket E m assigner files) shares = map Some streams \<and>
      (\<forall>w \<in> set (concat streams). write_ok E m assigner w) \<and>
      (\<Sum>w\<leftarrow>concat streams. mset (snd w)) = (\<Sum>d\<leftarrow>concat shares. mset (chunk_elems_of d))"
  using ds
proof (induction shares)
  case Nil
  then show ?case by simp
next
  case (Cons share shares)
  then obtain streams where st: "map (AssignToBucket E m assigner files) shares = map Some streams"
      "\<forall>w \<in> set (concat streams). write_ok E m assigner w"
      "(\<Sum>w\<leftarrow>concat streams. mset (snd w)) = (\<Sum>d\<leftarrow>concat shares. mset (chunk_elems_of d))" by auto
  have "\<forall>d \<in> set share. fb_file_index d < length files \<and> (\<forall>x \<in> set (chunk_elems_of d). \<forall>g. assigner x g < m)"
    using Cons.prems unfolding concat.simps set_append by blast
  from AssignToBucket_result [OF E this] obtain ws where "AssignToBucket E m assigner files share = Some ws"
      "\<forall>w \<in> set ws. write_ok E m assigner w" "(\<Sum>w\<leftarrow>ws. mset (snd w)) = (\<Sum>d\<leftarrow>share. mset (chunk_elems_of d))" by blast
  with st show ?case by (intro exI [of _ "ws # streams"]) auto
qed

lemma assign_phase_result:
  fixes P :: "'a pod"
  assumes cfg: "file_config_ok cfg" "uc_active_chunks cfg = None"
    and sz: "0 < pod_size P" "pod_size P dvd R" "0 < R" "pod_size P \<le> SAMPLE_SORT_BUCKET_SIZE"
      "O_DIRECT_MULTIPLE dvd R"
    and files: "\<forall>info \<in> set files. file_on_disk fs info \<and> fi_file_index info < length files"
    and assigner: "\<forall>x g. assigner x g < m"
  shows "0 < W \<Longrightarrow> \<exists>zs. assign_phase P R W m cfg assigner fs files zs"
    and "assign_phase P R W m cfg assigner fs files zs \<Longrightarrow>
      (\<forall>w \<in> set zs. write_ok (SAMPLE_SORT_BUCKET_SIZE div pod_size P) m assigner w) \<and>
      (\<Sum>w\<leftarrow>zs. mset (snd w)) = (\<Sum>info\<leftarrow>files. mset (file_elems P fs info))"
proof -
  let ?E = "SAMPLE_SORT_BUCKET_SIZE div pod_size P"
  have E: "0 < ?E" using sz(1,4) by (simp add: div_greater_zero_iff)
  have disk: "\<forall>info \<in> set files. file_on_disk fs info" using files by simp
  have index: "\<forall>d \<in> set ds. fb_file_index d < length files \<and> (\<forall>x \<in> set (chunk_elems_of d). \<forall>g. assigner x g < m)"
    and elems: "(\<Sum>d\<leftarrow>ds. mset (chunk_elems_of d)) = (\<Sum>info\<leftarrow>files. mset (file_elems P fs info))"
    if "file_polls P R cfg fs files ds" for ds
  proof -
    have items: "mset (map fb_core ds) = file_items P R None fs files"
      using file_reader.polls_items [OF that cfg(1) sz(3,5,1) disk] cfg(2) by simp
    show "(\<Sum>d\<leftarrow>ds. mset (chunk_elems_of d)) = (\<Sum>info\<leftarrow>files. mset (file_elems P fs info))"
      using file_items_elems(1) [OF sz(1-3) disk items] .
    show "\<forall>d \<in> set ds. fb_file_index d < length files \<and> (\<forall>x \<in> set (chunk_elems_of d). \<forall>g. assigner x g < m)"
      using file_items_elems(2) [OF sz(1-3) disk items] files assigner by fastforce
  qed
  show "\<exists>zs. assign_phase P R W m cfg assigner fs files zs" if W: "0 < W"
  proof -
    obtain ds where ds: "file_polls P R cfg fs files ds" using file_reader.polls_exist [OF cfg(1) sz(3,5,1) disk] by blast
    let ?shares = "ds # replicate (W - 1) []"
    have "concat ?shares = ds" by simp
    then obtain streams where "map (AssignToBucket ?E m assigner files) ?shares = map Some streams"
      using assign_streams [OF E, of ?shares] index [OF ds] by metis
    moreover obtain zs where "interleave streams zs" using interleave_exists by blast
    ultimately show ?thesis
      using ds interleave_first W unfolding assign_phase_def by (intro exI [of _ zs] exI [of _ ds] exI [of _ ?shares] exI [of _ streams]) auto
  qed
  show "(\<forall>w \<in> set zs. write_ok ?E m assigner w) \<and> (\<Sum>w\<leftarrow>zs. mset (snd w)) = (\<Sum>info\<leftarrow>files. mset (file_elems P fs info))"
    if ph: "assign_phase P R W m cfg assigner fs files zs"
  proof -
    obtain ds shares streams where ds: "file_polls P R cfg fs files ds" and sh: "interleave shares ds"
      and st: "map (AssignToBucket ?E m assigner files) shares = map Some streams" and zs: "interleave streams zs"
      using ph unfolding assign_phase_def by blast
    have ms: "mset ds = mset (concat shares)" using interleave_mset [OF sh] .
    have "\<forall>d \<in> set (concat shares). fb_file_index d < length files \<and> (\<forall>x \<in> set (chunk_elems_of d). \<forall>g. assigner x g < m)"
      using index [OF ds] mset_eq_setD [OF ms] by simp
    from assign_streams [OF E this] obtain streams' where "map (AssignToBucket ?E m assigner files) shares = map Some streams'"
      and s': "\<forall>w \<in> set (concat streams'). write_ok ?E m assigner w"
        "(\<Sum>w\<leftarrow>concat streams'. mset (snd w)) = (\<Sum>d\<leftarrow>concat shares. mset (chunk_elems_of d))" by blast
    then have "streams' = streams" using st by (metis inj_map_eq_map inj_Some)
    moreover have mz: "mset zs = mset (concat streams)" using interleave_mset [OF zs] .
    ultimately have "\<forall>w \<in> set zs. write_ok ?E m assigner w" using s'(1) mset_eq_setD [OF mz] by simp
    moreover have "(\<Sum>w\<leftarrow>zs. mset (snd w)) = (\<Sum>w\<leftarrow>concat streams. mset (snd w))" using sum_list_perm [OF mz] .
    ultimately show ?thesis
      using s'(2) \<open>streams' = streams\<close> sum_list_perm [OF ms, of "\<lambda>d. mset (chunk_elems_of d)"] elems [OF ds] by simp
  qed
qed

section \<open>The pipeline is a write per bucket\<close>

text \<open>What phase 2 makes of bucket \<open>k\<close> of the store \<open>fs\<close>, and how it writes it.\<close>

definition phase2_result :: "'a pod \<Rightarrow> nat \<Rightarrow> (nat \<Rightarrow> byte list) \<Rightarrow> string list \<Rightarrow> string \<Rightarrow> ('a list \<Rightarrow> 'a list) \<Rightarrow>
    FileInfo list \<Rightarrow> fstore \<Rightarrow> nat \<Rightarrow> local_file" where
  "phase2_result P cap junk ssds result_prefix processor bucket_list fs k =
     process_file P ssds result_prefix processor (finish_read cap fs (submit_read junk bucket_list k))"

definition phase2_op :: "'a pod \<Rightarrow> nat \<Rightarrow> (nat \<Rightarrow> byte list) \<Rightarrow> string list \<Rightarrow> string \<Rightarrow> ('a list \<Rightarrow> 'a list) \<Rightarrow>
    FileInfo list \<Rightarrow> fstore \<Rightarrow> nat \<Rightarrow> write_op" where
  "phase2_op P cap junk ssds result_prefix processor bucket_list fs k =
     (let f = phase2_result P cap junk ssds result_prefix processor bucket_list fs k
      in (GetFileName ssds result_prefix k, 0, take (min cap (fi_file_size (bucket_list ! k))) (lf_buffer f)))"

lemma phase2_result_info [simp]:
  "lf_info (phase2_result P cap junk ssds result_prefix processor bucket_list fs k) =
     (bucket_list ! k)\<lparr>fi_file_index := k, fi_file_name := GetFileName ssds result_prefix k\<rparr>"
  by (simp add: phase2_result_def process_file_def finish_read_def submit_read_def Let_def)

lemma finish_write_result:
  "p2_store (finish_write cap (phase2_result P cap junk ssds result_prefix processor bucket_list fs k) sh) =
     apply_op (phase2_op P cap junk ssds result_prefix processor bucket_list fs k) (p2_store sh)"
  "p2_results (finish_write cap (phase2_result P cap junk ssds result_prefix processor bucket_list fs k) sh) =
     (p2_results sh)[k := (bucket_list ! k)\<lparr>fi_file_index := k, fi_file_name := GetFileName ssds result_prefix k\<rparr>]"
  "p2_current_file (finish_write cap f sh) = p2_current_file sh"
  by (simp_all add: finish_write_def phase2_op_def apply_op_def Let_def)

lemma fold_apply_other:
  "name \<notin> fst ` set ops \<Longrightarrow> fold apply_op ops fs name = fs name"
proof (induction ops arbitrary: fs)
  case Nil
  then show ?case by simp
next
  case (Cons op ops)
  then have "apply_op op fs name = fs name" by (cases op) (simp add: apply_op_def fs_write_def)
  with Cons show ?case by simp
qed

definition reading_of :: "phase2_worker \<Rightarrow> nat multiset" where
  "reading_of wk = (if p2_need_reap_read wk then {#fi_file_index (lf_info (p2_next wk))#} else {#})"

definition writing_of :: "phase2_worker \<Rightarrow> nat multiset" where
  "writing_of wk = (if p2_need_reap_write wk then {#fi_file_index (lf_info (p2_current wk))#} else {#})"

definition phase2_worker_inv :: "'a pod \<Rightarrow> nat \<Rightarrow> (nat \<Rightarrow> byte list) \<Rightarrow> string list \<Rightarrow> string \<Rightarrow> ('a list \<Rightarrow> 'a list) \<Rightarrow>
    FileInfo list \<Rightarrow> fstore \<Rightarrow> nat \<Rightarrow> phase2_worker \<Rightarrow> bool" where
  "phase2_worker_inv P cap junk ssds result_prefix processor bucket_list fs0 index wk \<longleftrightarrow>
     (p2_need_reap_read wk \<longrightarrow> p2_need_submit_read wk \<and>
        (\<exists>k < length bucket_list. p2_next wk = submit_read junk bucket_list k)) \<and>
     (p2_need_reap_write wk \<longrightarrow> (\<exists>k < length bucket_list.
        p2_current wk = phase2_result P cap junk ssds result_prefix processor bucket_list fs0 k)) \<and>
     (p2_need_submit_read wk \<or> length bucket_list \<le> index)"

definition phase2_inv :: "'a pod \<Rightarrow> nat \<Rightarrow> (nat \<Rightarrow> byte list) \<Rightarrow> string list \<Rightarrow> string \<Rightarrow> ('a list \<Rightarrow> 'a list) \<Rightarrow>
    FileInfo list \<Rightarrow> fstore \<Rightarrow> phase2_state \<Rightarrow> bool" where
  "phase2_inv P cap junk ssds result_prefix processor bucket_list fs0 s \<longleftrightarrow>
     (case s of (ws, sh) \<Rightarrow> ws \<noteq> [] \<and> length (p2_results sh) = length bucket_list \<and>
        (\<forall>wk \<in> set ws. phase2_worker_inv P cap junk ssds result_prefix processor bucket_list fs0 (p2_current_file sh) wk) \<and>
        (\<exists>C. mset C + (\<Sum>wk\<leftarrow>ws. reading_of wk + writing_of wk) = mset [0..<min (length bucket_list) (p2_current_file sh)] \<and>
           p2_store sh = fold apply_op (map (phase2_op P cap junk ssds result_prefix processor bucket_list fs0) C) fs0 \<and>
           (\<forall>k \<in> set C. p2_results sh ! k =
              (bucket_list ! k)\<lparr>fi_file_index := k, fi_file_name := GetFileName ssds result_prefix k\<rparr>)))"

lemma finish_read_store:
  assumes "files_apart ssds result_prefix bucket_list" and "k < length bucket_list"
  shows "finish_read cap (fold apply_op (map (phase2_op P cap junk ssds result_prefix processor bucket_list fs0) C) fs0)
      (submit_read junk bucket_list k) = finish_read cap fs0 (submit_read junk bucket_list k)"
proof -
  let ?name = "fi_file_name (bucket_list ! k)"
  have "?name \<notin> fst ` set (map (phase2_op P cap junk ssds result_prefix processor bucket_list fs0) C)"
    using assms nth_mem [OF assms(2)] by (auto simp: files_apart_def phase2_op_def Let_def)
  then have "fold apply_op (map (phase2_op P cap junk ssds result_prefix processor bucket_list fs0) C) fs0 ?name = fs0 ?name"
    by (rule fold_apply_other)
  then show ?thesis by (simp add: finish_read_def submit_read_def fs_read_def file_of_def Let_def)
qed

lemma mset_upt_min: "mset [0..<min n (c + 1)] = mset [0..<min n c] + (if c < n then {#c#} else {#})"
proof (cases "c < n")
  case True
  then have "min n (c + 1) = Suc c" "min n c = c" by simp_all
  then show ?thesis using True by (simp del: mset_upt)
next
  case False
  then have "min n (c + 1) = n" "min n c = n" by simp_all
  then show ?thesis using False by simp
qed

text \<open>The worker after an iteration, and the write it reaps.\<close>

lemma phase2_iteration_worker:
  assumes wk: "phase2_worker_inv P cap junk ssds result_prefix processor bucket_list fs0 (p2_current_file sh) wk"
    and store: "p2_store sh = fold apply_op (map (phase2_op P cap junk ssds result_prefix processor bucket_list fs0) C) fs0"
    and sep: "files_apart ssds result_prefix bucket_list"
    and it: "phase2_iteration P cap junk ssds result_prefix processor bucket_list wk sh = (wk', sh')"
  shows "phase2_worker_inv P cap junk ssds result_prefix processor bucket_list fs0 (p2_current_file sh + 1) wk'"
    and "writing_of wk' = reading_of wk"
    and "reading_of wk' = (if p2_current_file sh < length bucket_list then {#p2_current_file sh#} else {#})"
proof -
  let ?n = "length bucket_list" and ?index = "p2_current_file sh"
  let ?res = "phase2_result P cap junk ssds result_prefix processor bucket_list fs0"
  define S where "S = (p2_need_submit_read wk \<and> \<not> ?n \<le> ?index)"
  have S: "S \<longleftrightarrow> ?index < ?n" using wk by (auto simp: S_def phase2_worker_inv_def)
  have wk': "p2_need_reap_read wk' = S" "p2_need_submit_read wk' = S" "p2_need_reap_write wk' = p2_need_reap_read wk"
      "S \<Longrightarrow> p2_next wk' = submit_read junk bucket_list ?index"
      "p2_need_reap_read wk \<Longrightarrow> p2_current wk' = process_file P ssds result_prefix processor (finish_read cap (p2_store sh) (p2_next wk))"
    using it by (auto simp: phase2_iteration_def Let_def S_def)
  have cur: "p2_current wk' = ?res (fi_file_index (lf_info (p2_next wk))) \<and> fi_file_index (lf_info (p2_next wk)) < ?n"
    if rr: "p2_need_reap_read wk"
  proof -
    obtain k where k: "k < ?n" "p2_next wk = submit_read junk bucket_list k" using wk rr by (auto simp: phase2_worker_inv_def)
    have "p2_current wk' = ?res k"
      using wk'(5) [OF rr] finish_read_store [OF sep k(1), where P = P and processor = processor] by (simp add: store k(2) phase2_result_def)
    then show ?thesis using k by (simp add: submit_read_def)
  qed
  have "\<exists>k < ?n. p2_current wk' = ?res k" if "p2_need_reap_write wk'" using cur wk'(3) that by blast
  moreover have "\<exists>k < ?n. p2_next wk' = submit_read junk bucket_list k" if "S" using wk'(4) S that by blast
  ultimately show "phase2_worker_inv P cap junk ssds result_prefix processor bucket_list fs0 (?index + 1) wk'"
    using wk'(1,2) S unfolding phase2_worker_inv_def by (auto simp del: phase2_result_info)
  show "writing_of wk' = reading_of wk" using wk'(3) cur by (auto simp: writing_of_def reading_of_def)
  show "reading_of wk' = (if ?index < ?n then {#?index#} else {#})"
    using wk'(1,4) S by (simp add: reading_of_def submit_read_def)
qed

lemma phase2_iteration_shared:
  assumes wk: "phase2_worker_inv P cap junk ssds result_prefix processor bucket_list fs0 (p2_current_file sh) wk"
    and store: "p2_store sh = fold apply_op (map (phase2_op P cap junk ssds result_prefix processor bucket_list fs0) C) fs0"
    and len: "length (p2_results sh) = length bucket_list"
    and results: "\<forall>k \<in> set C. p2_results sh ! k = lf_info (phase2_result P cap junk ssds result_prefix processor bucket_list fs0 k)"
    and it: "phase2_iteration P cap junk ssds result_prefix processor bucket_list wk sh = (wk', sh')"
  shows "\<exists>D. mset D = writing_of wk \<and> p2_current_file sh' = p2_current_file sh + 1 \<and>
    p2_store sh' = fold apply_op (map (phase2_op P cap junk ssds result_prefix processor bucket_list fs0) (C @ D)) fs0 \<and>
    length (p2_results sh') = length bucket_list \<and>
    (\<forall>k \<in> set (C @ D). p2_results sh' ! k = lf_info (phase2_result P cap junk ssds result_prefix processor bucket_list fs0 k))"
proof (cases "p2_need_reap_write wk")
  case False
  then have "p2_store sh' = p2_store sh" "p2_results sh' = p2_results sh" "p2_current_file sh' = p2_current_file sh + 1"
    using it by (auto simp: phase2_iteration_def Let_def)
  then show ?thesis using False store len results by (intro exI [of _ "[]"]) (simp add: writing_of_def)
next
  case True
  let ?res = "phase2_result P cap junk ssds result_prefix processor bucket_list fs0"
  let ?op = "phase2_op P cap junk ssds result_prefix processor bucket_list fs0"
  obtain k where k: "k < length bucket_list" "p2_current wk = ?res k" using wk True by (auto simp: phase2_worker_inv_def)
  have sh': "sh' = (finish_write cap (?res k) sh)\<lparr>p2_current_file := p2_current_file sh + 1\<rparr>"
    using it True by (auto simp: phase2_iteration_def Let_def k(2) simp del: finish_write_result)
  have "p2_store sh' = apply_op (?op k) (p2_store sh)" unfolding sh' by (simp add: finish_write_result(1))
  moreover have "p2_results sh' = (p2_results sh)[k := lf_info (?res k)]" unfolding sh' by (simp add: finish_write_result(2))
  moreover have "mset [k] = writing_of wk" using True k(2) by (simp add: writing_of_def)
  moreover have "p2_current_file sh' = p2_current_file sh + 1" by (simp add: sh')
  ultimately show ?thesis using store len results k(1) by (intro exI [of _ "[k]"]) (auto simp: nth_list_update)
qed

lemma phase2_iteration_inv:
  assumes inv: "phase2_inv P cap junk ssds result_prefix processor bucket_list fs0 (ws, sh)"
    and sep: "files_apart ssds result_prefix bucket_list" and i: "i < length ws"
    and it: "phase2_iteration P cap junk ssds result_prefix processor bucket_list (ws ! i) sh = (wk', sh')"
  shows "phase2_inv P cap junk ssds result_prefix processor bucket_list fs0 (ws[i := wk'], sh')"
proof -
  let ?wk = "ws ! i" and ?n = "length bucket_list" and ?index = "p2_current_file sh"
  let ?op = "phase2_op P cap junk ssds result_prefix processor bucket_list fs0"
  let ?res = "phase2_result P cap junk ssds result_prefix processor bucket_list fs0"
  let ?winv = "phase2_worker_inv P cap junk ssds result_prefix processor bucket_list fs0"
  obtain C where C: "mset C + (\<Sum>wk\<leftarrow>ws. reading_of wk + writing_of wk) = mset [0..<min ?n ?index]"
    and store: "p2_store sh = fold apply_op (map ?op C) fs0"
    and results: "\<forall>k \<in> set C. p2_results sh ! k = lf_info (?res k)"
    using inv unfolding phase2_inv_def by auto
  have len: "length (p2_results sh) = ?n" and all: "\<forall>wk \<in> set ws. ?winv ?index wk" and ne: "ws \<noteq> []"
    using inv unfolding phase2_inv_def by auto
  have wk: "?winv ?index ?wk" using all i by simp
  note new = phase2_iteration_worker [OF wk store sep it]
  obtain D where D: "mset D = writing_of ?wk" and cur: "p2_current_file sh' = ?index + 1"
    and store': "p2_store sh' = fold apply_op (map ?op (C @ D)) fs0"
    and results': "length (p2_results sh') = ?n" "\<forall>k \<in> set (C @ D). p2_results sh' ! k = lf_info (?res k)"
    using phase2_iteration_shared [OF wk store len results it] by blast
  have "\<forall>wk \<in> set ws. ?winv (?index + 1) wk" using all by (auto simp: phase2_worker_inv_def)
  with new(1) have all': "\<forall>wk \<in> set (ws[i := wk']). ?winv (p2_current_file sh') wk"
    unfolding cur by (intro ball_set_update) simp_all
  obtain Rest where Rest: "(\<Sum>wk\<leftarrow>ws. reading_of wk + writing_of wk) = Rest + (reading_of ?wk + writing_of ?wk)"
      "\<forall>y. (\<Sum>wk\<leftarrow>ws[i := y]. reading_of wk + writing_of wk) = Rest + (reading_of y + writing_of y)"
    using sum_list_split [OF i, of "\<lambda>wk. reading_of wk + writing_of wk"] by blast
  have "mset (C @ D) + (\<Sum>wk\<leftarrow>ws[i := wk']. reading_of wk + writing_of wk)
      = mset C + (\<Sum>wk\<leftarrow>ws. reading_of wk + writing_of wk) + reading_of wk'"
    by (simp add: Rest D new(2) ac_simps)
  also have "\<dots> = mset [0..<min ?n (p2_current_file sh')]"
    unfolding C new(3) cur using mset_upt_min [of ?n ?index] by (simp del: mset_upt)
  finally have "mset (C @ D) + (\<Sum>wk\<leftarrow>ws[i := wk']. reading_of wk + writing_of wk) = mset [0..<min ?n (p2_current_file sh')]" .
  then show ?thesis
    using all' store' results' ne unfolding phase2_inv_def prod.case phase2_result_info
    by (intro conjI exI [of _ "C @ D"]) simp_all
qed

definition phase2_weight :: "phase2_worker \<Rightarrow> nat" where
  "phase2_weight wk = (if p2_need_submit_read wk then 2 else 0) + (if p2_need_reap_write wk then 1 else 0)"

definition phase2_work :: "FileInfo list \<Rightarrow> phase2_state \<Rightarrow> nat" where
  "phase2_work bucket_list s =
     (case s of (ws, sh) \<Rightarrow> 4 * (length bucket_list - p2_current_file sh) + (\<Sum>wk\<leftarrow>ws. phase2_weight wk))"

lemma phase2_iteration_work:
  assumes inv: "phase2_inv P cap junk ssds result_prefix processor bucket_list fs0 (ws, sh)"
    and i: "i < length ws" and run: "phase2_running (ws ! i)"
    and it: "phase2_iteration P cap junk ssds result_prefix processor bucket_list (ws ! i) sh = (wk', sh')"
  shows "phase2_work bucket_list (ws[i := wk'], sh') < phase2_work bucket_list (ws, sh)"
proof -
  let ?wk = "ws ! i" and ?n = "length bucket_list" and ?index = "p2_current_file sh"
  have "\<forall>wk \<in> set ws. phase2_worker_inv P cap junk ssds result_prefix processor bucket_list fs0 ?index wk"
    using inv unfolding phase2_inv_def by auto
  then have rr: "p2_need_reap_read ?wk \<Longrightarrow> p2_need_submit_read ?wk"
    using i by (simp add: phase2_worker_inv_def)
  have wk': "p2_need_submit_read wk' \<longleftrightarrow> p2_need_submit_read ?wk \<and> ?index < ?n"
      "p2_need_reap_write wk' = p2_need_reap_read ?wk" "p2_current_file sh' = ?index + 1"
    using it by (auto simp: phase2_iteration_def Let_def)
  have sum: "(\<Sum>wk\<leftarrow>ws[i := wk']. phase2_weight wk) + phase2_weight ?wk = (\<Sum>wk\<leftarrow>ws. phase2_weight wk) + phase2_weight wk'"
    using sum_list_update_add [OF i] by blast
  have "4 * (?n - (?index + 1)) + phase2_weight wk' < 4 * (?n - ?index) + phase2_weight ?wk"
  proof (cases "?index < ?n")
    case True
    then have "?n - ?index = Suc (?n - (?index + 1))" by simp
    then show ?thesis using wk' True by (auto simp: phase2_weight_def)
  next
    case False
    then show ?thesis using wk' run rr by (auto simp: phase2_weight_def phase2_running_def)
  qed
  then show ?thesis using sum wk'(3) by (simp add: phase2_work_def)
qed

definition phase2_good :: "'a pod \<Rightarrow> nat \<Rightarrow> (nat \<Rightarrow> byte list) \<Rightarrow> string list \<Rightarrow> string \<Rightarrow> ('a list \<Rightarrow> 'a list) \<Rightarrow>
    FileInfo list \<Rightarrow> fstore \<Rightarrow> phase2_state \<Rightarrow> bool" where
  "phase2_good P cap junk ssds result_prefix processor bucket_list fs0 s \<longleftrightarrow>
     phase2_inv P cap junk ssds result_prefix processor bucket_list fs0 s \<and> files_apart ssds result_prefix bucket_list"

interpretation phase2_machine: finite_machine "phase2_step P cap junk ssds result_prefix processor bucket_list"
    "phase2_good P cap junk ssds result_prefix processor bucket_list fs0" "phase2_work bucket_list" phase2_done
    for P cap junk ssds result_prefix processor bucket_list fs0
proof unfold_locales
  fix s t :: phase2_state
  assume g: "phase2_good P cap junk ssds result_prefix processor bucket_list fs0 s"
  show "\<exists>t. phase2_step P cap junk ssds result_prefix processor bucket_list s t" if nd: "\<not> phase2_done s"
  proof -
    obtain ws sh where s: "s = (ws, sh)" by (cases s)
    obtain i where "i < length ws" "phase2_running (ws ! i)"
      using nd by (auto simp: phase2_done_def s in_set_conv_nth)
    moreover obtain wk sh' where "phase2_iteration P cap junk ssds result_prefix processor bucket_list (ws ! i) sh = (wk, sh')"
      by (metis prod.exhaust)
    ultimately show ?thesis unfolding s by (intro exI) (rule p2step)
  qed
  assume st: "phase2_step P cap junk ssds result_prefix processor bucket_list s t"
  show "phase2_good P cap junk ssds result_prefix processor bucket_list fs0 t"
    using st g by cases (auto simp: phase2_good_def intro: phase2_iteration_inv)
  show "phase2_work bucket_list t < phase2_work bucket_list s"
    using st g by cases (auto simp: phase2_good_def intro: phase2_iteration_work)
qed

lemma start_phase2_inv:
  assumes "0 < W"
  shows "phase2_inv P cap junk ssds result_prefix processor bucket_list fs (start_phase2 W bucket_list fs)"
proof -
  have "(\<Sum>wk\<leftarrow>replicate W start_phase2_worker. reading_of wk + writing_of wk) = {#}"
    by (induction W) (simp_all add: reading_of_def writing_of_def start_phase2_worker_def)
  then show ?thesis
    using assms by (auto simp: phase2_inv_def start_phase2_def phase2_worker_inv_def start_phase2_worker_def intro!: exI [of _ "[]"])
qed

lemma phase2_ops_disjoint:
  assumes "CHR ''/'' \<notin> set result_prefix"
  shows "ops_disjoint (map (phase2_op P cap junk ssds result_prefix processor bucket_list fs) ks)"
  using GetFileName_inject [OF assms] by (auto simp: ops_disjoint_def op_disjoint_def phase2_op_def Let_def)

text \<open>Every interleaving of the pipelines does the same as processing the buckets one by one.\<close>

lemma WorkerOnlyPhase2_equiv:
  assumes W: "0 < W" and slash: "CHR ''/'' \<notin> set result_prefix" and sep: "files_apart ssds result_prefix bucket_list"
  shows "WorkerOnlyPhase2 P cap W junk ssds result_prefix processor bucket_list fs results fs' \<longleftrightarrow>
    results = map (\<lambda>k. (bucket_list ! k)\<lparr>fi_file_index := k, fi_file_name := GetFileName ssds result_prefix k\<rparr>) [0..<length bucket_list] \<and>
    fs' = fold apply_op (map (phase2_op P cap junk ssds result_prefix processor bucket_list fs) [0..<length bucket_list]) fs"
proof -
  let ?op = "phase2_op P cap junk ssds result_prefix processor bucket_list fs" and ?n = "length bucket_list"
  let ?out = "\<lambda>k. (bucket_list ! k)\<lparr>fi_file_index := k, fi_file_name := GetFileName ssds result_prefix k\<rparr>"
  have good: "phase2_good P cap junk ssds result_prefix processor bucket_list fs (start_phase2 W bucket_list fs)"
    using start_phase2_inv [OF W] sep by (simp add: phase2_good_def)
  have final: "p2_results (snd s) = map ?out [0..<?n] \<and> p2_store (snd s) = fold apply_op (map ?op [0..<?n]) fs"
    if r: "rtranclp (phase2_step P cap junk ssds result_prefix processor bucket_list) (start_phase2 W bucket_list fs) s"
      and d: "phase2_done s" for s
  proof -
    obtain ws sh where s: "s = (ws, sh)" by (cases s)
    from phase2_machine.reach_good [OF r good]
    have inv: "phase2_inv P cap junk ssds result_prefix processor bucket_list fs (ws, sh)" by (simp add: phase2_good_def s)
    then obtain C where C: "mset C + (\<Sum>wk\<leftarrow>ws. reading_of wk + writing_of wk) = mset [0..<min ?n (p2_current_file sh)]"
      and store: "p2_store sh = fold apply_op (map ?op C) fs" and res: "\<forall>k \<in> set C. p2_results sh ! k = ?out k"
      unfolding phase2_inv_def by auto
    have len: "length (p2_results sh) = ?n" and ne: "ws \<noteq> []"
      and all: "\<forall>wk \<in> set ws. phase2_worker_inv P cap junk ssds result_prefix processor bucket_list fs (p2_current_file sh) wk"
      using inv unfolding phase2_inv_def by auto
    have stop: "\<forall>wk \<in> set ws. \<not> p2_need_submit_read wk \<and> \<not> p2_need_reap_write wk"
      using d by (auto simp: phase2_done_def s phase2_running_def)
    then have "\<forall>wk \<in> set ws. reading_of wk + writing_of wk = {#}"
      using all by (auto simp: phase2_worker_inv_def reading_of_def writing_of_def)
    then have "(\<Sum>wk\<leftarrow>ws. reading_of wk + writing_of wk) = (\<Sum>wk\<leftarrow>ws. {#})"
      by (intro arg_cong [of _ _ sum_list] map_cong refl) simp
    then have "(\<Sum>wk\<leftarrow>ws. reading_of wk + writing_of wk) = {#}" by simp
    moreover have "?n \<le> p2_current_file sh"
      using all stop ne unfolding phase2_worker_inv_def by (metis last_in_set)
    ultimately have ms: "mset C = mset [0..<?n]" using C by (simp only: min_absorb1 add_0_right)
    have "set C = set [0..<?n]" by (rule mset_eq_setD [OF ms])
    then have "\<forall>k < ?n. p2_results sh ! k = ?out k" using res by simp
    then have "p2_results sh = map ?out [0..<?n]" using len by (intro nth_equalityI) simp_all
    moreover have "mset (map ?op C) = mset (map ?op [0..<?n])" using ms by (metis mset_map)
    from fold_apply_perm [OF this phase2_ops_disjoint [OF slash]]
    have "p2_store sh = fold apply_op (map ?op [0..<?n]) fs" using store by simp
    ultimately show ?thesis by (simp add: s)
  qed
  obtain s where "rtranclp (phase2_step P cap junk ssds result_prefix processor bucket_list) (start_phase2 W bucket_list fs) s"
    and "phase2_done s" using phase2_machine.reach_halted [OF good] by blast
  then have ex: "WorkerOnlyPhase2 P cap W junk ssds result_prefix processor bucket_list fs (p2_results (snd s)) (p2_store (snd s))"
    and eq: "p2_results (snd s) = map ?out [0..<?n]" "p2_store (snd s) = fold apply_op (map ?op [0..<?n]) fs"
    using final [of s] unfolding WorkerOnlyPhase2_def by blast+
  show ?thesis
  proof
    assume "WorkerOnlyPhase2 P cap W junk ssds result_prefix processor bucket_list fs results fs'"
    then obtain t where "rtranclp (phase2_step P cap junk ssds result_prefix processor bucket_list) (start_phase2 W bucket_list fs) t"
        "phase2_done t" "results = p2_results (snd t)" "fs' = p2_store (snd t)"
      unfolding WorkerOnlyPhase2_def by blast
    with final [of t] show "results = map ?out [0..<?n] \<and> fs' = fold apply_op (map ?op [0..<?n]) fs" by simp
  next
    assume "results = map ?out [0..<?n] \<and> fs' = fold apply_op (map ?op [0..<?n]) fs"
    with ex eq show "WorkerOnlyPhase2 P cap W junk ssds result_prefix processor bucket_list fs results fs'" by simp
  qed
qed

end
