(* ===== verification/ScatterCorrect.thy ===== *)
theory ScatterCorrect
  imports ScatterGather
begin

text \<open>
  What \<open>ScatterGather::Run\<close> computes: phase 1 splits the elements of the input files into buckets as
  the assigner says, and the result file of each bucket starts with what the processor makes of the
  bucket's elements.
\<close>

section \<open>The elements of a bucket\<close>

definition aligned_elems :: "'a pod \<Rightarrow> nat \<Rightarrow> (nat \<times> 'a list) list \<Rightarrow> 'a list" where
  "aligned_elems P b zs =
     concat (map snd (filter (\<lambda>w. fst w = b \<and> length (snd w) * pod_size P mod O_DIRECT_MULTIPLE = 0) zs))"

definition misaligned_elems :: "'a pod \<Rightarrow> nat \<Rightarrow> (nat \<times> 'a list) list \<Rightarrow> 'a list" where
  "misaligned_elems P b zs =
     concat (map snd (filter (\<lambda>w. fst w = b \<and> length (snd w) * pod_size P mod O_DIRECT_MULTIPLE \<noteq> 0) zs))"

definition bucket_elems :: "'a pod \<Rightarrow> nat \<Rightarrow> (nat \<times> 'a list) list \<Rightarrow> 'a list" where
  "bucket_elems P b zs = aligned_elems P b zs @ misaligned_elems P b zs"

lemma bucket_elems_bytes:
  assumes "pod_repr P"
  shows "concat (aligned_of b (write_bytes P zs)) = enc_list P (aligned_elems P b zs)"
    and "concat (misaligned_of b (write_bytes P zs)) = enc_list P (misaligned_elems P b zs)"
  by (induction zs) (auto simp: aligned_of_def misaligned_of_def write_bytes_def aligned_elems_def misaligned_elems_def
      pod_repr.length_enc_list [OF assms])

lemma bucket_elems_Cons:
  "mset (bucket_elems P b (w # zs)) = (if fst w = b then mset (snd w) else {#}) + mset (bucket_elems P b zs)"
  by (simp add: bucket_elems_def aligned_elems_def misaligned_elems_def)

lemma sum_one_bucket:
  "(\<Sum>b\<leftarrow>[0..<m]. if k = b then M else {#}) = (if k < m then M else {#})"
  by (induction m) auto

lemma bucket_elems_sum:
  "\<forall>w \<in> set zs. fst w < m \<Longrightarrow> (\<Sum>b\<leftarrow>[0..<m]. mset (bucket_elems P b zs)) = (\<Sum>w\<leftarrow>zs. mset (snd w))"
proof (induction zs)
  case Nil
  have "bucket_elems P b [] = []" for b by (simp add: bucket_elems_def aligned_elems_def misaligned_elems_def)
  then show ?case by (simp add: sum_list_triv)
next
  case (Cons w zs)
  then show ?case by (simp only: bucket_elems_Cons sum_list_addf sum_one_bucket list.set list.map sum_list.Cons) simp
qed

lemma bucket_elems_assigned:
  "\<forall>w \<in> set zs. write_ok E m assigner w \<Longrightarrow> assigned assigner b (bucket_elems P b zs)"
  by (auto simp: bucket_elems_def aligned_elems_def misaligned_elems_def write_ok_def assigned_def)

lemma elems_le_writes:
  "length (misaligned_elems P b zs) \<le> size (\<Sum>w\<leftarrow>zs. mset (snd w))"
  by (induction zs) (auto simp: misaligned_elems_def)

lemma elems_le_files:
  assumes "0 < pod_size P"
  shows "size (\<Sum>info\<leftarrow>files. mset (file_elems P fs info)) * pod_size P \<le> (\<Sum>info\<leftarrow>files. fi_file_size info)"
  by (induction files) (auto simp: file_elems_def algebra_simps intro: add_mono)

definition memory_ok :: "(nat \<Rightarrow> byte list) \<Rightarrow> FileInfo list \<Rightarrow> bool" where
  "memory_ok junk files \<longleftrightarrow> (\<forall>i. METADATA_SIZE + O_DIRECT_MULTIPLE \<le> length (junk i)) \<and>
     (\<Sum>info\<leftarrow>files. fi_file_size info) + 2 * O_DIRECT_MULTIPLE < 2 ^ 64"

lemma memory_gather_ok:
  assumes P: "pod_repr P" and mem: "memory_ok junk files"
    and zs: "(\<Sum>w\<leftarrow>zs. mset (snd w)) = (\<Sum>info\<leftarrow>files. mset (file_elems P fs info))"
  shows "gather_ok junk (write_bytes P zs)"
proof -
  have "length (concat (misaligned_of i (write_bytes P zs))) \<le> (\<Sum>info\<leftarrow>files. fi_file_size info)" for i
  proof -
    have "length (concat (misaligned_of i (write_bytes P zs))) = length (misaligned_elems P i zs) * pod_size P"
      by (simp add: bucket_elems_bytes(2) [OF P] pod_repr.length_enc_list [OF P])
    also have "\<dots> \<le> size (\<Sum>info\<leftarrow>files. mset (file_elems P fs info)) * pod_size P"
      using elems_le_writes [of P i zs] zs by (intro mult_le_mono1) simp
    also have "\<dots> \<le> (\<Sum>info\<leftarrow>files. fi_file_size info)"
      using elems_le_files pod_repr.size_pos [OF P] by blast
    finally show ?thesis .
  qed
  then show ?thesis using mem unfolding gather_ok_def memory_ok_def by (meson add_le_mono1 le_less_trans)
qed

section \<open>Phase 2 on the files of the bucket writer\<close>

text \<open>The elements a result file holds, and that the bucket files and the result files differ.\<close>

definition result_elems :: "'a pod \<Rightarrow> fstore \<Rightarrow> FileInfo \<Rightarrow> 'a list" where
  "result_elems P fs info = dec_list P (fi_true_size info div pod_size P) (file_of fs (fi_file_name info))"

definition separate_prefixes :: "string list \<Rightarrow> string \<Rightarrow> string \<Rightarrow> bool" where
  "separate_prefixes ssds p q \<longleftrightarrow> (\<forall>j k. GetFileName ssds p j \<noteq> GetFileName ssds q k)"

lemma separate_prefixesI:
  assumes "CHR ''/'' \<notin> set p" and "CHR ''/'' \<notin> set q" and "p \<noteq> []" and "q \<noteq> []" and "hd p \<noteq> hd q"
  shows "separate_prefixes ssds p q"
  unfolding separate_prefixes_def
proof (intro allI notI)
  fix j k
  assume eq: "GetFileName ssds p j = GetFileName ssds q k"
  have "CHR ''/'' \<notin> set (p @ to_string j)" "CHR ''/'' \<notin> set (q @ to_string k)"
    using assms(1,2) to_string_digits [of j] to_string_digits [of k] digit_not_special by fastforce+
  from split_last_slash [OF this] eq have "p @ to_string j = q @ to_string k" unfolding GetFileName_def Let_def by blast
  then have "hd p = hd q" using assms(3,4) by (metis hd_append2)
  then show False using assms(5) by simp
qed

lemma dec_enc_prefix:
  assumes "pod_repr P" and "n = length xs"
  shows "dec_list P n (enc_list P xs @ bs) = xs"
  using pod_repr.dec_enc_list_append [OF assms(1)] assms(2) by simp

text \<open>One bucket: the file holds \<open>xs\<close>, then the rest of the gathered buffer.\<close>

lemma phase2_bucket:
  assumes P: "pod_repr P" and proc: "\<forall>xs. length (processor xs) = length xs"
    and disk: "fs (fi_file_name (bl ! k)) = Some (pwrite_bytes f 0 (enc_list P xs @ tail))"
    and size: "fi_file_size (bl ! k) = length (enc_list P xs @ tail)" "fi_file_size (bl ! k) \<le> cap"
    and true_size: "fi_true_size (bl ! k) = length xs * pod_size P"
  shows "phase2_op P cap junk ssds result_prefix processor bl fs k =
    (GetFileName ssds result_prefix k, 0, enc_list P (processor xs) @ tail)"
proof -
  let ?c = "enc_list P xs @ tail"
  have "fs_read fs (fi_file_name (bl ! k)) 0 (min cap (fi_file_size (bl ! k))) = ?c"
    using read_pwrite_same [of ?c 0 f] size by (simp add: fs_read_def file_of_def disk min_absorb2)
  then have buf: "lf_buffer (finish_read cap fs (submit_read junk bl k)) = ?c"
    using size by (simp add: finish_read_def submit_read_def Let_def)
  have info: "lf_info (finish_read cap fs (submit_read junk bl k)) = (bl ! k)\<lparr>fi_file_index := k\<rparr>"
    by (simp add: finish_read_def submit_read_def Let_def)
  have n: "fi_true_size (bl ! k) div pod_size P = length xs" using true_size pod_repr.size_pos [OF P] by simp
  have "process_buffer P processor (length xs) ?c = enc_list P (processor xs) @ tail"
    by (simp add: process_buffer_def dec_enc_prefix [OF P refl] pod_repr.length_enc_list [OF P])
  then have res: "lf_buffer (phase2_result P cap junk ssds result_prefix processor bl fs k) = enc_list P (processor xs) @ tail"
    by (simp add: phase2_result_def process_file_def info n buf)
  have "length (enc_list P (processor xs) @ tail) = min cap (fi_file_size (bl ! k))"
    using size proc by (simp add: pod_repr.length_enc_list [OF P])
  then have "take (min cap (fi_file_size (bl ! k))) (enc_list P (processor xs) @ tail) = enc_list P (processor xs) @ tail"
    by (intro take_all) simp
  then show ?thesis by (simp only: phase2_op_def Let_def res)
qed

lemma fold_ops_at:
  assumes "\<forall>j < n. \<forall>k < n. j \<noteq> k \<longrightarrow> fst (op j) \<noteq> fst (op k)" and "k < n"
  shows "fold apply_op (map op [0..<n]) fs (fst (op k)) = Some (pwrite_bytes (file_of fs (fst (op k))) (fst (snd (op k))) (snd (snd (op k))))"
  using assms
proof (induction n)
  case 0
  then show ?case by simp
next
  case (Suc n)
  let ?fs = "fold apply_op (map op [0..<n]) fs"
  have last: "fold apply_op (map op [0..<Suc n]) fs = apply_op (op n) ?fs" by simp
  show ?case
  proof (cases "k = n")
    case True
    have "fst (op n) \<notin> fst ` set (map op [0..<n])"
    proof
      assume "fst (op n) \<in> fst ` set (map op [0..<n])"
      then obtain j where "j < n" "fst (op n) = fst (op j)" by auto
      then show False using Suc.prems(1) by (metis less_SucI lessI less_not_refl)
    qed
    then have "?fs (fst (op n)) = fs (fst (op n))" by (rule fold_apply_other)
    then show ?thesis unfolding last True by (cases "op n") (simp add: apply_op_def fs_write_def file_of_def)
  next
    case False
    then have "k < n" using Suc.prems(2) by simp
    then have "?fs (fst (op k)) = Some (pwrite_bytes (file_of fs (fst (op k))) (fst (snd (op k))) (snd (snd (op k))))"
      using Suc by simp
    moreover have "fst (op n) \<noteq> fst (op k)" using Suc.prems False by (metis lessI)
    ultimately show ?thesis unfolding last by (cases "op n") (simp add: apply_op_def fs_write_def)
  qed
qed

definition sg_config_ok :: "nat \<Rightarrow> ScatterGatherConfig \<Rightarrow> bool" where
  "sg_config_ok W config \<longleftrightarrow> file_config_ok (sg_reader_config config) \<and> uc_active_chunks (sg_reader_config config) = None \<and>
     0 < bwc_num_threads (sg_bucketed_writer_config config) \<and> bwc_num_threads (sg_bucketed_writer_config config) < W"

definition element_size_ok :: "'a pod \<Rightarrow> nat \<Rightarrow> bool" where
  "element_size_ok P R \<longleftrightarrow> pod_size P dvd R \<and> 0 < R \<and> O_DIRECT_MULTIPLE dvd R \<and> pod_size P \<le> SAMPLE_SORT_BUCKET_SIZE"

definition inputs_ok :: "fstore \<Rightarrow> FileInfo list \<Rightarrow> bool" where
  "inputs_ok fs files \<longleftrightarrow> (\<forall>info \<in> set files. file_on_disk fs info \<and> fi_file_index info < length files)"

text \<open>The result files of a run whose buckets are \<open>zs\<close>.\<close>

definition sg_info :: "'a pod \<Rightarrow> string list \<Rightarrow> string \<Rightarrow> (nat \<Rightarrow> byte list) \<Rightarrow> (nat \<times> 'a list) list \<Rightarrow> nat \<Rightarrow> FileInfo" where
  "sg_info P ssds result_prefix junk zs b =
     new_FileInfo (GetFileName ssds result_prefix b) b (length (bucket_elems P b zs) * pod_size P)
       (length (bucket_contents junk b (write_bytes P zs)))"

lemma scatter_buckets:
  fixes P :: "'a pod"
  assumes P: "pod_repr P" and el: "element_size_ok P R" and cfg: "sg_config_ok W config"
    and files: "inputs_ok fs files" and mem: "memory_ok junk files"
    and assigner: "\<forall>x g. assigner x g < bwc_num_buckets (sg_bucketed_writer_config config)"
  shows "\<exists>zs. assign_phase P R (W - bwc_num_threads (sg_bucketed_writer_config config))
      (bwc_num_buckets (sg_bucketed_writer_config config)) (sg_reader_config config) assigner fs files zs"
    and "assign_phase P R (W - bwc_num_threads (sg_bucketed_writer_config config))
        (bwc_num_buckets (sg_bucketed_writer_config config)) (sg_reader_config config) assigner fs files zs \<Longrightarrow>
      (\<forall>w \<in> set zs. write_ok (SAMPLE_SORT_BUCKET_SIZE div pod_size P) (bwc_num_buckets (sg_bucketed_writer_config config)) assigner w) \<and>
      (\<Sum>w\<leftarrow>zs. mset (snd w)) = (\<Sum>info\<leftarrow>files. mset (file_elems P fs info)) \<and>
      gather_ok junk (write_bytes P zs) \<and>
      (\<forall>w \<in> set (write_bytes P zs). fst w < bwc_num_buckets (sg_bucketed_writer_config config))"
proof -
  let ?m = "bwc_num_buckets (sg_bucketed_writer_config config)" and ?io = "bwc_num_threads (sg_bucketed_writer_config config)"
  have c: "file_config_ok (sg_reader_config config)" "uc_active_chunks (sg_reader_config config) = None" "0 < W - ?io"
    using cfg by (simp_all add: sg_config_ok_def)
  have sz: "0 < pod_size P" "pod_size P dvd R" "0 < R" "pod_size P \<le> SAMPLE_SORT_BUCKET_SIZE" "O_DIRECT_MULTIPLE dvd R"
    using el pod_repr.size_pos [OF P] by (simp_all add: element_size_ok_def)
  have fl: "\<forall>info \<in> set files. file_on_disk fs info \<and> fi_file_index info < length files" using files by (simp add: inputs_ok_def)
  show "\<exists>zs. assign_phase P R (W - ?io) ?m (sg_reader_config config) assigner fs files zs"
    using assign_phase_result(1) [OF c(1,2) sz fl assigner c(3)] .
  show "(\<forall>w \<in> set zs. write_ok (SAMPLE_SORT_BUCKET_SIZE div pod_size P) ?m assigner w) \<and>
      (\<Sum>w\<leftarrow>zs. mset (snd w)) = (\<Sum>info\<leftarrow>files. mset (file_elems P fs info)) \<and>
      gather_ok junk (write_bytes P zs) \<and> (\<forall>w \<in> set (write_bytes P zs). fst w < ?m)"
    if ph: "assign_phase P R (W - ?io) ?m (sg_reader_config config) assigner fs files zs"
  proof -
    have w: "\<forall>w \<in> set zs. write_ok (SAMPLE_SORT_BUCKET_SIZE div pod_size P) ?m assigner w"
      and e: "(\<Sum>w\<leftarrow>zs. mset (snd w)) = (\<Sum>info\<leftarrow>files. mset (file_elems P fs info))"
      using assign_phase_result(2) [OF c(1,2) sz fl assigner ph] by simp_all
    have "\<forall>w \<in> set (write_bytes P zs). fst w < ?m" using w by (auto simp: write_bytes_def write_ok_def)
    then show ?thesis using w e memory_gather_ok [OF P mem e] by blast
  qed
qed

text \<open>A result file can be read back whole.\<close>

definition result_readable :: "fstore \<Rightarrow> FileInfo \<Rightarrow> bool" where
  "result_readable fs info \<longleftrightarrow> fs (fi_file_name info) \<noteq> None \<and> fi_true_size info \<le> fi_file_size info \<and>
     O_DIRECT_MULTIPLE dvd fi_file_size info \<and> fi_file_size info \<le> length (file_of fs (fi_file_name info))"

lemma written_prefix: "take (length bs) (pwrite_bytes f 0 bs) = bs"
  using read_pwrite_same [of bs 0 f] by simp

lemma true_size_bytes:
  assumes P: "pod_repr P"
  shows "length (concat (aligned_of b (write_bytes P zs))) + length (concat (misaligned_of b (write_bytes P zs))) =
    length (bucket_elems P b zs) * pod_size P"
  by (simp add: bucket_elems_bytes [OF P] pod_repr.length_enc_list [OF P] bucket_elems_def add_mult_distrib)

lemma contents_split:
  assumes P: "pod_repr P" and g: "gather_ok junk (write_bytes P zs)"
  shows "\<exists>tail. bucket_contents junk b (write_bytes P zs) = enc_list P (bucket_elems P b zs) @ tail"
    and "O_DIRECT_MULTIPLE dvd length (bucket_contents junk b (write_bytes P zs))"
proof -
  have "take (length (concat (misaligned_of b (write_bytes P zs)))) (gathered junk b (write_bytes P zs)) =
      concat (misaligned_of b (write_bytes P zs))"
    using gathered_result(1) [OF g] .
  then have "take (length (bucket_elems P b zs) * pod_size P) (bucket_contents junk b (write_bytes P zs)) = enc_list P (bucket_elems P b zs)"
    unfolding true_size_bytes [OF P, symmetric] by (simp add: bucket_contents_def bucket_elems_bytes [OF P] bucket_elems_def)
  then show "\<exists>tail. bucket_contents junk b (write_bytes P zs) = enc_list P (bucket_elems P b zs) @ tail"
    by (metis append_take_drop_id)
  show "O_DIRECT_MULTIPLE dvd length (bucket_contents junk b (write_bytes P zs))"
    using gathered_result(2) [OF g] aligned_dvd by (simp add: bucket_contents_def)
qed

text \<open>A bucket is never longer than the input and one block of padding.\<close>

lemma contents_small:
  assumes P: "pod_repr P" and g: "gather_ok junk (write_bytes P zs)" and b: "b < m"
    and sum: "(\<Sum>b\<leftarrow>[0..<m]. mset (bucket_elems P b zs)) = (\<Sum>info\<leftarrow>files. mset (file_elems P fs info))"
  shows "length (bucket_contents junk b (write_bytes P zs)) < (\<Sum>info\<leftarrow>files. fi_file_size info) + METADATA_SIZE + O_DIRECT_MULTIPLE"
proof -
  have "length (gathered junk b (write_bytes P zs)) <
      length (concat (misaligned_of b (write_bytes P zs))) + METADATA_SIZE + O_DIRECT_MULTIPLE"
    using gather_result [of "junk b" "misaligned_of b (write_bytes P zs)"] g by (auto simp: gather_ok_def gathered_def)
  then have "length (bucket_contents junk b (write_bytes P zs)) <
      length (bucket_elems P b zs) * pod_size P + METADATA_SIZE + O_DIRECT_MULTIPLE"
    unfolding bucket_contents_def length_append using true_size_bytes [OF P, of b zs] by linarith
  moreover have sizes: "size (\<Sum>b\<leftarrow>bs. mset (bucket_elems P b zs)) = (\<Sum>b\<leftarrow>bs. length (bucket_elems P b zs))" for bs
    by (induction bs) simp_all
  have "length (bucket_elems P b zs) \<le> (\<Sum>b\<leftarrow>[0..<m]. length (bucket_elems P b zs))"
    using b by (intro member_le_sum_list) (auto simp del: upt_Suc)
  then have "length (bucket_elems P b zs) \<le> size (\<Sum>b\<leftarrow>[0..<m]. mset (bucket_elems P b zs))"
    unfolding sizes .
  then have "length (bucket_elems P b zs) * pod_size P \<le> (\<Sum>info\<leftarrow>files. fi_file_size info)"
    unfolding sum using elems_le_files [OF pod_repr.size_pos [OF P], of fs files] by (meson le_trans mult_le_mono1)
  ultimately show ?thesis by linarith
qed

text \<open>What phase 2 leaves in the result file of a bucket.\<close>

lemma phase2_file:
  fixes P :: "'a pod"
  assumes P: "pod_repr P" and proc: "\<forall>xs. length (processor xs) = length xs" and slash: "CHR ''/'' \<notin> set result_prefix"
    and b: "b < m" and infos: "infos = map (bucket_info ssds scatter_prefix junk (write_bytes P zs)) [0..<m]"
    and fs1: "fs1 = write_bucket_files ssds scatter_prefix m (\<lambda>b. bucket_contents junk b (write_bytes P zs)) fs"
    and contents: "bucket_contents junk b (write_bytes P zs) = enc_list P (bucket_elems P b zs) @ tail"
    and cap: "fi_file_size (infos ! b) \<le> cap"
  shows "\<exists>f. fold apply_op (map (phase2_op P cap buffers ssds result_prefix processor infos fs1) [0..<m]) fs1
      (GetFileName ssds result_prefix b) = Some (pwrite_bytes f 0 (enc_list P (processor (bucket_elems P b zs)) @ tail))"
proof -
  let ?op = "phase2_op P cap buffers ssds result_prefix processor infos fs1"
  have sl: "CHR ''/'' \<notin> set scatter_prefix" by (simp add: scatter_prefix_def)
  have info: "infos ! b = bucket_info ssds scatter_prefix junk (write_bytes P zs) b" using b by (simp add: infos)
  have size: "fi_file_size (infos ! b) = length (enc_list P (bucket_elems P b zs) @ tail)"
    unfolding info contents [symmetric] by (simp add: bucket_info_def new_FileInfo_def)
  have "fs1 (fi_file_name (infos ! b)) =
      Some (pwrite_bytes (file_of fs (GetFileName ssds scatter_prefix b)) 0 (enc_list P (bucket_elems P b zs) @ tail))"
    using write_bucket_files_file [OF sl b] by (simp add: fs1 info bucket_info_def new_FileInfo_def contents)
  moreover have "fi_true_size (infos ! b) = length (bucket_elems P b zs) * pod_size P"
    using true_size_bytes [OF P] by (simp add: info bucket_info_def new_FileInfo_def)
  ultimately have op: "?op b = (GetFileName ssds result_prefix b, 0, enc_list P (processor (bucket_elems P b zs)) @ tail)"
    using phase2_bucket [OF P proc _ size cap] by blast
  have "\<forall>j < m. \<forall>k < m. j \<noteq> k \<longrightarrow> fst (?op j) \<noteq> fst (?op k)"
    using GetFileName_inject [OF slash] by (auto simp: phase2_op_def Let_def)
  from fold_ops_at [OF this b, of fs1] show ?thesis by (auto simp: op)
qed

lemma result_file:
  assumes P: "pod_repr P" and g: "gather_ok junk (write_bytes P zs)"
    and contents: "bucket_contents junk b (write_bytes P zs) = enc_list P (bucket_elems P b zs) @ tail"
    and len: "length ys = length (bucket_elems P b zs)"
    and disk: "fs' (GetFileName ssds result_prefix b) = Some (pwrite_bytes f 0 (enc_list P ys @ tail))"
  shows "result_elems P fs' (sg_info P ssds result_prefix junk zs b) = ys"
    and "result_readable fs' (sg_info P ssds result_prefix junk zs b)"
proof -
  let ?c = "enc_list P ys @ tail" and ?info = "sg_info P ssds result_prefix junk zs b"
  have lc: "length (bucket_contents junk b (write_bytes P zs)) = length ?c"
    using len by (simp add: contents pod_repr.length_enc_list [OF P])
  have "length ys * pod_size P \<le> length ?c" by (simp add: pod_repr.length_enc_list [OF P])
  then have "dec_list P (length ys) (pwrite_bytes f 0 ?c) = ys"
    using written_prefix [of ?c f] dec_list_take [of "length ys" P] dec_enc_prefix [OF P refl] by metis
  then show "result_elems P fs' ?info = ys"
    using len disk pod_repr.size_pos [OF P] by (simp add: result_elems_def sg_info_def new_FileInfo_def file_of_def)
  show "result_readable fs' ?info"
    using disk lc contents_split(2) [OF P g, of b] len
    by (simp add: result_readable_def sg_info_def new_FileInfo_def file_of_def length_pwrite pod_repr.length_enc_list [OF P])
qed

lemma scatter_gather_result:
  fixes P :: "'a pod"
  assumes P: "pod_repr P" and el: "element_size_ok P R" and cfg: "sg_config_ok W config"
    and files: "inputs_ok fs files" and mem: "memory_ok junk files"
    and assigner: "\<forall>x g. assigner x g < bwc_num_buckets (sg_bucketed_writer_config config)"
    and slash: "CHR ''/'' \<notin> set result_prefix" and sep: "separate_prefixes ssds scatter_prefix result_prefix"
    and proc: "\<forall>xs. length (processor xs) = length xs"
  shows "\<exists>results fs'. scatter_gather P R cap W junk buffers ssds config files result_prefix assigner processor fs results fs'"
    and "scatter_gather P R cap W junk buffers ssds config files result_prefix assigner processor fs results fs' \<Longrightarrow>
      \<exists>zs. (\<Sum>b\<leftarrow>[0..<bwc_num_buckets (sg_bucketed_writer_config config)]. mset (bucket_elems P b zs)) =
          (\<Sum>info\<leftarrow>files. mset (file_elems P fs info)) \<and>
        (\<forall>b. assigned assigner b (bucket_elems P b zs)) \<and>
        results = map (sg_info P ssds result_prefix junk zs) [0..<bwc_num_buckets (sg_bucketed_writer_config config)] \<and>
        (\<forall>b < bwc_num_buckets (sg_bucketed_writer_config config).
           fi_file_size (sg_info P ssds result_prefix junk zs b) <
             (\<Sum>info\<leftarrow>files. fi_file_size info) + METADATA_SIZE + O_DIRECT_MULTIPLE \<and>
           (fi_file_size (sg_info P ssds result_prefix junk zs b) \<le> cap \<longrightarrow>
             result_elems P fs' (sg_info P ssds result_prefix junk zs b) = processor (bucket_elems P b zs) \<and>
             result_readable fs' (sg_info P ssds result_prefix junk zs b)))"
proof -
  let ?m = "bwc_num_buckets (sg_bucketed_writer_config config)" and ?io = "bwc_num_threads (sg_bucketed_writer_config config)"
  let ?ws = "write_bytes P" and ?infos = "\<lambda>zs. map (bucket_info ssds scatter_prefix junk (write_bytes P zs)) [0..<?m]"
  let ?fs1 = "\<lambda>zs. write_bucket_files ssds scatter_prefix ?m (\<lambda>b. bucket_contents junk b (write_bytes P zs)) fs"
  have io: "0 < ?io" "?io < W" "0 < W" using cfg by (auto simp: sg_config_ok_def)
  have sl: "CHR ''/'' \<notin> set scatter_prefix" by (simp add: scatter_prefix_def)
  have d: "0 < RING_DEPTH" by (simp add: RING_DEPTH_def)
  have writer: "bucket_writer_runs (2 ^ 20) IO_VECTOR_SIZE RING_DEPTH junk ssds scatter_prefix ?m ?io fs (?ws zs) fs1 infos \<longleftrightarrow>
      fs1 = ?fs1 zs \<and> infos = ?infos zs"
    if "assign_phase P R (W - ?io) ?m (sg_reader_config config) assigner fs files zs" for zs fs1 infos
    using bucket_writer_equiv [OF d io(1) _ _ sl] scatter_buckets(2) [OF P el cfg files mem assigner that] by blast
  have sepn: "files_apart ssds result_prefix (?infos zs)" for zs
    using sep by (auto simp: files_apart_def separate_prefixes_def bucket_info_def new_FileInfo_def)
  note phase2 = WorkerOnlyPhase2_equiv [OF io(3) slash sepn, of P cap buffers processor]
  obtain zs where zs: "assign_phase P R (W - ?io) ?m (sg_reader_config config) assigner fs files zs"
    using scatter_buckets(1) [OF P el cfg files mem assigner] by blast
  show "\<exists>results fs'. scatter_gather P R cap W junk buffers ssds config files result_prefix assigner processor fs results fs'"
    unfolding scatter_gather_def Let_def using io(2) zs writer [OF zs] phase2 by blast
  show "\<exists>zs. (\<Sum>b\<leftarrow>[0..<?m]. mset (bucket_elems P b zs)) = (\<Sum>info\<leftarrow>files. mset (file_elems P fs info)) \<and>
        (\<forall>b. assigned assigner b (bucket_elems P b zs)) \<and>
        results = map (sg_info P ssds result_prefix junk zs) [0..<?m] \<and>
        (\<forall>b < ?m. fi_file_size (sg_info P ssds result_prefix junk zs b) <
             (\<Sum>info\<leftarrow>files. fi_file_size info) + METADATA_SIZE + O_DIRECT_MULTIPLE \<and>
           (fi_file_size (sg_info P ssds result_prefix junk zs b) \<le> cap \<longrightarrow>
             result_elems P fs' (sg_info P ssds result_prefix junk zs b) = processor (bucket_elems P b zs) \<and>
             result_readable fs' (sg_info P ssds result_prefix junk zs b)))"
    if run: "scatter_gather P R cap W junk buffers ssds config files result_prefix assigner processor fs results fs'"
  proof -
    obtain zs infos fs1 where ph: "assign_phase P R (W - ?io) ?m (sg_reader_config config) assigner fs files zs"
      and wr: "bucket_writer_runs (2 ^ 20) IO_VECTOR_SIZE RING_DEPTH junk ssds scatter_prefix ?m ?io fs (?ws zs) fs1 infos"
      and p2: "WorkerOnlyPhase2 P cap W buffers ssds result_prefix processor infos fs1 results fs'"
      using run unfolding scatter_gather_def Let_def by blast
    from wr writer [OF ph] have fs1: "fs1 = ?fs1 zs" and infos: "infos = ?infos zs" by simp_all
    have zs: "\<forall>w \<in> set zs. write_ok (SAMPLE_SORT_BUCKET_SIZE div pod_size P) ?m assigner w"
        "(\<Sum>w\<leftarrow>zs. mset (snd w)) = (\<Sum>info\<leftarrow>files. mset (file_elems P fs info))" "gather_ok junk (?ws zs)"
      using scatter_buckets(2) [OF P el cfg files mem assigner ph] by blast+
    let ?op = "phase2_op P cap buffers ssds result_prefix processor infos fs1"
    have len: "length infos = ?m" by (simp add: infos)
    have out: "results = map (\<lambda>k. (infos ! k)\<lparr>fi_file_index := k, fi_file_name := GetFileName ssds result_prefix k\<rparr>) [0..<length infos]"
        "fs' = fold apply_op (map ?op [0..<length infos]) fs1"
      using p2 phase2 unfolding infos by blast+
    note res = out(1) [unfolded len] and fs' = out(2) [unfolded len]
    have results: "results = map (sg_info P ssds result_prefix junk zs) [0..<?m]"
      unfolding res by (intro map_cong refl)
        (simp add: infos sg_info_def bucket_info_def new_FileInfo_def true_size_bytes [OF P])
    have on_disk: "result_elems P fs' (sg_info P ssds result_prefix junk zs b) = processor (bucket_elems P b zs) \<and>
        result_readable fs' (sg_info P ssds result_prefix junk zs b)" if b: "b < ?m" and cap: "fi_file_size (sg_info P ssds result_prefix junk zs b) \<le> cap" for b
    proof -
      obtain tl where contents: "bucket_contents junk b (?ws zs) = enc_list P (bucket_elems P b zs) @ tl"
        using contents_split(1) [OF P zs(3)] by blast
      have "fi_file_size (infos ! b) \<le> cap" using cap b by (simp add: infos sg_info_def bucket_info_def new_FileInfo_def)
      from phase2_file [OF P proc slash b infos fs1 contents this, of buffers]
      obtain f where "fs' (GetFileName ssds result_prefix b) = Some (pwrite_bytes f 0 (enc_list P (processor (bucket_elems P b zs)) @ tl))"
        unfolding fs' by blast
      moreover have "length (processor (bucket_elems P b zs)) = length (bucket_elems P b zs)" using proc by blast
      ultimately show ?thesis using result_file [where ys = "processor (bucket_elems P b zs)", OF P zs(3) contents] by blast
    qed
    have sum: "(\<Sum>b\<leftarrow>[0..<?m]. mset (bucket_elems P b zs)) = (\<Sum>info\<leftarrow>files. mset (file_elems P fs info))"
      using bucket_elems_sum [of zs ?m P] zs(1,2) by (simp add: write_ok_def)
    have "fi_file_size (sg_info P ssds result_prefix junk zs b) < (\<Sum>info\<leftarrow>files. fi_file_size info) + METADATA_SIZE + O_DIRECT_MULTIPLE"
      if "b < ?m" for b using contents_small [OF P zs(3) that sum] by (simp add: sg_info_def new_FileInfo_def)
    then show ?thesis using bucket_elems_assigned [OF zs(1)] results on_disk sum by (intro exI [of _ zs]) blast
  qed
qed

section \<open>The simple form of phase 2\<close>

definition readable_bucket :: "nat \<Rightarrow> fstore \<Rightarrow> FileInfo \<Rightarrow> bool" where
  "readable_bucket cap fs info \<longleftrightarrow> O_DIRECT_MULTIPLE dvd fi_file_size info \<and> fi_file_size info \<le> cap \<and>
     fs (fi_file_name info) \<noteq> None \<and> fi_file_size info \<le> length (file_of fs (fi_file_name info))"

text \<open>Two calls of \<open>read\<close> are enough: all bytes, and the end of the loop.\<close>

lemma read_bucket:
  assumes ok: "readable_bucket cap fs info" and same: "fs1 (fi_file_name info) = fs (fi_file_name info)"
    and cap: "0 < cap" and fuel: "2 \<le> fuel"
  shows "ReadEntireFile fuel cap fs1 (fi_file_name info) (fi_file_size info) = Some (take (fi_file_size info) (file_of fs (fi_file_name info)))"
proof -
  let ?n = "fi_file_size info" and ?name = "fi_file_name info"
  have O: "0 < O_DIRECT_MULTIPLE" by (simp add: O_DIRECT_MULTIPLE_def)
  have n: "?n \<le> cap" "?n \<le> length (file_of fs ?name)" "fs ?name \<noteq> None" "O_DIRECT_MULTIPLE dvd ?n"
    using ok by (simp_all add: readable_bucket_def)
  have al: "round_up O_DIRECT_MULTIPLE ?n = ?n"
    using round_up_le [OF O n(4) order_refl] round_up_ge [OF O, of ?n] by simp
  have file1: "file_of fs1 ?name = file_of fs ?name" by (simp add: file_of_def same)
  obtain f where f: "fuel = Suc (Suc f)" using fuel by (metis add_2_eq_Suc le_Suc_ex)
  have "read_entire_loop fuel cap fs1 ?name ?n [] = Some (fs_read fs1 ?name 0 ?n)"
    unfolding f using read_entire_enough [of cap ?n fs1 ?name "[]" "Suc f"] cap n(1,2) file1
    by (simp add: fs_read_def trans_le_add1)
  then show ?thesis using n(3) same by (simp add: ReadEntireFile_def al fs_read_def file1)
qed

lemma phase2_buffer:
  assumes "readable_bucket cap fs (bl ! k)"
  shows "lf_buffer (phase2_result P cap junk ssds result_prefix processor bl fs k) =
    process_buffer P processor (fi_true_size (bl ! k) div pod_size P) (take (fi_file_size (bl ! k)) (file_of fs (fi_file_name (bl ! k))))"
proof -
  have "lf_buffer (finish_read cap fs (submit_read junk bl k)) = take (fi_file_size (bl ! k)) (file_of fs (fi_file_name (bl ! k)))"
    using assms by (simp add: readable_bucket_def finish_read_def submit_read_def Let_def fs_read_def min_absorb2)
  moreover have "lf_info (finish_read cap fs (submit_read junk bl k)) = (bl ! k)\<lparr>fi_file_index := k\<rparr>"
    by (simp add: finish_read_def submit_read_def Let_def)
  ultimately show ?thesis by (simp add: phase2_result_def process_file_def)
qed

lemma ProcessBucket_result:
  assumes ok: "readable_bucket cap fs (bl ! k)" and same: "fs1 (fi_file_name (bl ! k)) = fs (fi_file_name (bl ! k))"
    and cap: "0 < cap" and fuel: "2 \<le> fuel"
  shows "ProcessBucket P fuel cap processor (bl ! k) (GetFileName ssds result_prefix k) fs1 =
    Some (renamed_info (GetFileName ssds result_prefix k) (bl ! k),
      apply_op (phase2_op P cap junk ssds result_prefix processor bl fs k) fs1)"
  using read_bucket [where info = "bl ! k" and fs = fs and ?fs1.0 = fs1, OF ok same cap fuel]
  by (simp add: phase2_buffer [OF ok] ProcessBucket_def phase2_op_def apply_op_def Let_def)

text \<open>\<open>SimplePhase2\<close> does what the pipelines of \<open>WorkerOnlyPhase2\<close> do, whatever its order is.\<close>

lemma SimplePhase2_equiv:
  assumes ok: "\<forall>info \<in> set bl. readable_bucket cap fs info" and cap: "0 < cap" and fuel: "2 \<le> fuel"
    and slash: "CHR ''/'' \<notin> set result_prefix" and sep: "files_apart ssds result_prefix bl"
    and order: "mset order = mset [0..<length bl]"
  shows "SimplePhase2 P fuel cap ssds result_prefix processor bl order fs =
    Some (map (\<lambda>k. renamed_info (GetFileName ssds result_prefix k) (bl ! k)) [0..<length bl],
      fold apply_op (map (phase2_op P cap junk ssds result_prefix processor bl fs) [0..<length bl]) fs)"
proof -
  let ?op = "phase2_op P cap junk ssds result_prefix processor bl fs"
  have steps: "process_buckets P fuel cap ssds result_prefix processor bl is (fold apply_op (map ?op C) fs) =
      Some (fold apply_op (map ?op (C @ is)) fs)" if "\<forall>k \<in> set is. k < length bl" for C "is"
    using that
  proof (induction "is" arbitrary: C)
    case Nil
    then show ?case by simp
  next
    case (Cons k "is")
    have k: "k < length bl" "bl ! k \<in> set bl" using Cons.prems by simp_all
    have "fi_file_name (bl ! k) \<notin> fst ` set (map ?op C)"
      using sep k(2) by (auto simp: files_apart_def phase2_op_def Let_def)
    then have same: "fold apply_op (map ?op C) fs (fi_file_name (bl ! k)) = fs (fi_file_name (bl ! k))" by (rule fold_apply_other)
    have "ProcessBucket P fuel cap processor (bl ! k) (GetFileName ssds result_prefix k) (fold apply_op (map ?op C) fs) =
        Some (renamed_info (GetFileName ssds result_prefix k) (bl ! k), fold apply_op (map ?op (C @ [k])) fs)"
      using ProcessBucket_result [where fs = fs, OF bspec [OF ok k(2)] _ cap fuel] same by simp
    then show ?case using Cons.IH [of "C @ [k]"] Cons.prems by simp
  qed
  have "\<forall>k \<in> set order. k < length bl" using mset_eq_setD [OF order] by simp
  from steps [OF this, of "[]"]
  have "process_buckets P fuel cap ssds result_prefix processor bl order fs = Some (fold apply_op (map ?op order) fs)" by simp
  moreover have "mset (map ?op order) = mset (map ?op [0..<length bl])" using order by (metis mset_map)
  from fold_apply_perm [OF this phase2_ops_disjoint [OF slash]]
  have "fold apply_op (map ?op order) fs = fold apply_op (map ?op [0..<length bl]) fs" by simp
  ultimately show ?thesis by (simp add: SimplePhase2_def)
qed

end
