(* ===== verification/RandomRead.thy ===== *)
theory RandomRead
  imports FileReader
begin

text \<open>
  utils/random_read.h: \<open>RandomBatchRead\<close> reads the elements with the given numbers from a list of
  files, as if they were one sequence. Every element is read by one direct read of the aligned range
  around it. The requests are split evenly over \<open>T\<close> threads; a thread returns its results in the
  order in which its reads complete. The buffers come from \<open>malloc\<close> and lie behind a field of eight
  bytes, so they are not aligned; \<open>any_memory\<close> says whether the machine takes direct reads into such
  memory, which depends on the machine according to configs.h. If it does not, the read fails, which
  the code only logs.
\<close>

definition GetRandomBatchReadBufferSize :: "nat \<Rightarrow> nat" where
  "GetRandomBatchReadBufferSize sz = round_up O_DIRECT_MULTIPLE (sz + O_DIRECT_MULTIPLE - 1)"

text \<open>The true sizes of the files up to and including each one.\<close>

fun size_prefix_sum :: "nat \<Rightarrow> FileInfo list \<Rightarrow> nat list" where
  "size_prefix_sum prev [] = []"
| "size_prefix_sum prev (info # infos) = (fi_true_size info + prev) # size_prefix_sum (fi_true_size info + prev) infos"

text \<open>\<open>std::upper_bound\<close> on an ascending list: the number of entries that are not above \<open>x\<close>.\<close>

definition upper_bound :: "nat list \<Rightarrow> nat \<Rightarrow> nat" where
  "upper_bound sums x = length (takeWhile (\<lambda>s. s \<le> x) sums)"

text \<open>
  One request; positions are below \<open>2 ^ 64\<close> and do not wrap around. \<open>junk\<close> is the uninitialised buffer, \<open>None\<close> the failed \<open>CHECK\<close> of the file number.
\<close>

definition read_element_at :: "bool \<Rightarrow> 'a pod \<Rightarrow> fstore \<Rightarrow> FileInfo list \<Rightarrow> byte list \<Rightarrow> nat \<Rightarrow> 'a option" where
  "read_element_at any_memory P fs files junk request =
     (let sums = size_prefix_sum 0 files;
          byte_offset = request * pod_size P;
          start = byte_offset div O_DIRECT_MULTIPLE * O_DIRECT_MULTIPLE;
          stop = round_up O_DIRECT_MULTIPLE (byte_offset + pod_size P);
          file_num = upper_bound sums start
      in if file_num < length files
         then let got = (if any_memory
                    then fs_read fs (fi_file_name (files ! file_num))
                      (if file_num = 0 then start else start - sums ! (file_num - 1)) (stop - start)
                    else []);
                  buffer = got @ drop (length got) junk
              in Some (pod_dec P (take (pod_size P) (drop (byte_offset - start) buffer)))
         else None)"

definition read_element :: "'a pod \<Rightarrow> fstore \<Rightarrow> FileInfo list \<Rightarrow> byte list \<Rightarrow> nat \<Rightarrow> 'a option" where
  "read_element = read_element_at True"

definition segment :: "nat \<Rightarrow> 'b list \<Rightarrow> nat \<Rightarrow> 'b list" where
  "segment T requests s =
     (let segment_size = (length requests + T - 1) div T;
          segment_start = segment_size * s;
          segment_end = min (segment_size * (s + 1)) (length requests)
      in take (segment_end - segment_start) (drop segment_start requests))"

definition RandomBatchRead_at :: "bool \<Rightarrow> 'a pod \<Rightarrow> nat \<Rightarrow> fstore \<Rightarrow> FileInfo list \<Rightarrow> (nat \<Rightarrow> byte list) \<Rightarrow> nat list \<Rightarrow> 'a list \<Rightarrow> bool" where
  "RandomBatchRead_at any_memory P T fs files junk requests out \<longleftrightarrow>
     (\<exists>parts. length parts = T \<and>
        (\<forall>s < T. \<exists>vals. map (\<lambda>r. read_element_at any_memory P fs files (junk r) r) (segment T requests s) = map Some vals \<and>
           mset (parts ! s) = mset vals) \<and>
        out = concat parts)"

text \<open>The callers of the library are taken to run on a machine without a demand on memory.\<close>

definition RandomBatchRead :: "'a pod \<Rightarrow> nat \<Rightarrow> fstore \<Rightarrow> FileInfo list \<Rightarrow> (nat \<Rightarrow> byte list) \<Rightarrow> nat list \<Rightarrow> 'a list \<Rightarrow> bool" where
  "RandomBatchRead = RandomBatchRead_at True"

section \<open>What it reads\<close>

definition all_elems :: "'a pod \<Rightarrow> fstore \<Rightarrow> FileInfo list \<Rightarrow> 'a list" where
  "all_elems P fs files =
     concat (map (\<lambda>info. dec_list P (fi_true_size info div pod_size P) (file_of fs (fi_file_name info))) files)"

text \<open>The condition under which the aligned range lies in the file of the element.\<close>

definition aligned_files :: "'a pod \<Rightarrow> fstore \<Rightarrow> FileInfo list \<Rightarrow> bool" where
  "aligned_files P fs files \<longleftrightarrow>
     (\<forall>info \<in> set files. O_DIRECT_MULTIPLE dvd fi_true_size info \<and> pod_size P dvd fi_true_size info \<and>
        fi_true_size info \<le> length (file_of fs (fi_file_name info)))"

lemma segments_concat: "0 < T \<Longrightarrow> concat (map (segment T requests) [0..<T]) = requests"
proof -
  assume T: "0 < T"
  let ?k = "(length requests + T - 1) div T"
  have "segment T requests = run_of ?k requests"
    by (rule ext) (auto simp: segment_def run_of_def Let_def min_def mult.commute algebra_simps)
  moreover have "length requests \<le> T * ?k"
    using ceil_div_ge [OF T, of "length requests"] by (simp add: ceil_div_def mult.commute)
  ultimately show ?thesis using concat_runs [of requests T ?k] by simp
qed
lemma aligned_start:
  assumes "O_DIRECT_MULTIPLE dvd q" and "q \<le> x"
  shows "q \<le> x div O_DIRECT_MULTIPLE * O_DIRECT_MULTIPLE"
proof -
  obtain k where "q = O_DIRECT_MULTIPLE * k" using assms(1) by (elim dvdE)
  moreover have "0 < O_DIRECT_MULTIPLE" by (simp add: O_DIRECT_MULTIPLE_def)
  ultimately have "k \<le> x div O_DIRECT_MULTIPLE" using assms(2) by (simp add: less_eq_div_iff_mult_less_eq mult.commute)
  then show ?thesis using \<open>q = O_DIRECT_MULTIPLE * k\<close> by (simp add: mult.commute)
qed

text \<open>The aligned read around an element that lies in the file at \<open>off + d\<close> with \<open>d\<close> bytes before it.\<close>

lemma aligned_read_element:
  assumes "d + sz \<le> n" and "off + d + sz \<le> length f"
  shows "take sz (drop d (take n (drop off f) @ drop (length (take n (drop off f))) junk)) = take sz (drop (off + d) f)"
proof (rule nth_equalityI)
  show "length (take sz (drop d (take n (drop off f) @ drop (length (take n (drop off f))) junk))) = length (take sz (drop (off + d) f))"
    using assms by simp
  fix i assume "i < length (take sz (drop d (take n (drop off f) @ drop (length (take n (drop off f))) junk)))"
  then have i: "i < sz" using assms by simp
  then show "take sz (drop d (take n (drop off f) @ drop (length (take n (drop off f))) junk)) ! i = take sz (drop (off + d) f) ! i"
    using assms by (simp add: nth_append ac_simps)
qed

lemma read_element_from:
  assumes P: "0 < pod_size P" and ok: "aligned_files P fs files"
    and prev: "O_DIRECT_MULTIPLE dvd prev" "prev = q * pod_size P" "prev \<le> r * pod_size P"
    and r: "r - q < length (all_elems P fs files)"
  shows "let start = r * pod_size P div O_DIRECT_MULTIPLE * O_DIRECT_MULTIPLE;
             k = upper_bound (size_prefix_sum prev files) start;
             f = file_of fs (fi_file_name (files ! k));
             off = (if k = 0 then start - prev else start - size_prefix_sum prev files ! (k - 1))
         in k < length files \<and>
            (let got = take (round_up O_DIRECT_MULTIPLE (r * pod_size P + pod_size P) - start) (drop off f)
             in pod_dec P (take (pod_size P) (drop (r * pod_size P - start) (got @ drop (length got) junk))) =
               all_elems P fs files ! (r - q))"
  using ok prev r
proof (induction files arbitrary: prev q)
  case Nil
  then show ?case by (simp add: all_elems_def)
next
  case (Cons info files)
  let ?sz = "pod_size P" and ?ts = "fi_true_size info" and ?f = "file_of fs (fi_file_name info)"
  define start where "start = r * ?sz div O_DIRECT_MULTIPLE * O_DIRECT_MULTIPLE"
  define stop where "stop = round_up O_DIRECT_MULTIPLE (r * ?sz + ?sz)"
  have O: "0 < O_DIRECT_MULTIPLE" by (simp add: O_DIRECT_MULTIPLE_def)
  have sle: "start \<le> r * ?sz" unfolding start_def by (rule div_times_less_eq_dividend)
  have ts: "O_DIRECT_MULTIPLE dvd ?ts" "?sz dvd ?ts" "?ts \<le> length ?f" and ok': "aligned_files P fs files"
    using Cons.prems(1) by (simp_all add: aligned_files_def)
  obtain c where c: "?ts = c * ?sz" using ts(2) by (metis dvd_div_mult_self)
  have cd: "?ts div ?sz = c" using c P by simp
  have elems: "all_elems P fs (info # files) = dec_list P c ?f @ all_elems P fs files" by (simp add: all_elems_def cd)
  have qr: "q \<le> r" using Cons.prems(3,4) P by simp
  show ?case
  proof (cases "r * ?sz < prev + ?ts")
    case True
    then have j: "r - q < c" using Cons.prems(3) P c qr by (simp add: less_diff_conv2 flip: add_mult_distrib)
    have k: "upper_bound (size_prefix_sum prev (info # files)) start = 0"
      using sle True by (simp add: upper_bound_def)
    have sp: "prev \<le> start" unfolding start_def by (rule aligned_start) fact+
    have d: "(start - prev) + (r * ?sz - start) = (r - q) * ?sz"
      using sp sle Cons.prems(3) qr by (simp add: diff_mult_distrib)
    have "r * ?sz + ?sz \<le> stop" unfolding stop_def by (rule round_up_ge [OF O])
    then have n: "(r * ?sz - start) + ?sz \<le> stop - start" using sle by simp
    have "(r - q) * ?sz + ?sz \<le> c * ?sz" using j by (metis Suc_leI add.commute mult_Suc mult_le_mono1)
    then have l: "(start - prev) + (r * ?sz - start) + ?sz \<le> length ?f" using d ts(3) c by simp
    have "pod_dec P (take ?sz (drop ((start - prev) + (r * ?sz - start)) ?f)) = all_elems P fs (info # files) ! (r - q)"
      unfolding d elems using j by (simp add: nth_append nth_dec_list)
    then show ?thesis
      using aligned_read_element [OF n l, of junk] unfolding Let_def start_def [symmetric] stop_def [symmetric] k by simp
  next
    case False
    let ?k = "upper_bound (size_prefix_sum (?ts + prev) files) start"
    have pr: "O_DIRECT_MULTIPLE dvd ?ts + prev" "?ts + prev = (c + q) * ?sz" "?ts + prev \<le> r * ?sz"
      using Cons.prems(2,3) ts(1) c False by (simp_all add: add_mult_distrib)
    have "?ts + prev \<le> start" unfolding start_def using pr(1,3) by (rule aligned_start)
    then have k: "upper_bound (size_prefix_sum prev (info # files)) start = Suc ?k" by (simp add: upper_bound_def)
    have cq: "c + q \<le> r" using pr(2,3) P by simp
    then have "r - (c + q) < length (all_elems P fs files)" using Cons.prems(5) by (simp add: elems)
    note IH = Cons.IH [OF ok' pr this]
    have "all_elems P fs (info # files) ! (r - q) = all_elems P fs files ! (r - (c + q))"
      proof -
      have "\<not> r - q < c" "r - q - c = r - (c + q)" using cq by simp_all
      then show ?thesis by (simp add: elems nth_append)
    qed
    then show ?thesis
      using IH unfolding Let_def start_def [symmetric] stop_def [symmetric] k by (cases ?k) simp_all
  qed
qed

lemma read_element_result:
  assumes P: "0 < pod_size P" and ok: "aligned_files P fs files" and r: "r < length (all_elems P fs files)"
  shows "read_element P fs files junk r = Some (all_elems P fs files ! r)"
proof -
  have z: "O_DIRECT_MULTIPLE dvd 0" "0 = 0 * pod_size P" "0 \<le> r * pod_size P" "r - 0 < length (all_elems P fs files)"
    using r by simp_all
  note e = read_element_from [OF P ok z, of junk, unfolded Let_def]
  show ?thesis
    unfolding read_element_def read_element_at_def Let_def fs_read_def if_True using e
    by (simp only: if_True diff_zero option.inject)
qed

lemma RandomBatchRead_exact:
  assumes T: "0 < T" and P: "0 < pod_size P" and ok: "aligned_files P fs files"
    and rs: "\<forall>r \<in> set requests. r < length (all_elems P fs files)"
  shows "\<exists>out. RandomBatchRead P T fs files junk requests out"
    and "RandomBatchRead P T fs files junk requests out \<Longrightarrow> mset out = mset (map (\<lambda>r. all_elems P fs files ! r) requests)"
proof -
  let ?get = "\<lambda>r. all_elems P fs files ! r"
  have sub: "set (segment T requests s) \<subseteq> set requests" for s
    unfolding segment_def Let_def by (meson set_drop_subset set_take_subset subset_trans)
  have vals: "map (\<lambda>r. read_element P fs files (junk r) r) (segment T requests s) = map Some (map ?get (segment T requests s))" for s
    unfolding map_map comp_def
  proof (rule map_cong [OF refl])
    fix r assume "r \<in> set (segment T requests s)"
    then have "r < length (all_elems P fs files)" using rs sub by blast
    then show "read_element P fs files (junk r) r = Some (?get r)" by (rule read_element_result [OF P ok])
  qed
  have "concat (map (\<lambda>s. map ?get (segment T requests s)) [0..<T]) = map ?get (concat (map (segment T requests) [0..<T]))"
    by (simp only: map_concat map_map comp_def)
  then have all: "mset (concat (map (\<lambda>s. map ?get (segment T requests s)) [0..<T])) = mset (map ?get requests)"
    by (simp only: segments_concat [OF T])
  have "RandomBatchRead P T fs files junk requests (concat (map (\<lambda>s. map ?get (segment T requests s)) [0..<T]))"
  proof -
    let ?parts = "map (\<lambda>s. map ?get (segment T requests s)) [0..<T]"
    have "\<exists>vals. map (\<lambda>r. read_element P fs files (junk r) r) (segment T requests s) = map Some vals \<and>
        mset (?parts ! s) = mset vals" if "s < T" for s
      using vals [of s] that by (intro exI [of _ "map ?get (segment T requests s)"]) simp
    then show ?thesis unfolding RandomBatchRead_def RandomBatchRead_at_def read_element_def [symmetric] by (intro exI [of _ ?parts]) simp
  qed
  then show "\<exists>out. RandomBatchRead P T fs files junk requests out" by blast
  assume "RandomBatchRead P T fs files junk requests out"
  then obtain parts where len: "length parts = T" and out: "out = concat parts"
    and parts: "\<forall>s < T. \<exists>vals. map (\<lambda>r. read_element P fs files (junk r) r) (segment T requests s) = map Some vals \<and>
        mset (parts ! s) = mset vals"
    by (auto simp: RandomBatchRead_def RandomBatchRead_at_def read_element_def)
  have eq: "mset (parts ! s) = mset (map ?get (segment T requests s))" if "s < T" for s
  proof -
    obtain vs where v: "map (\<lambda>r. read_element P fs files (junk r) r) (segment T requests s) = map Some vs" "mset (parts ! s) = mset vs"
      using parts \<open>s < T\<close> by blast
    have "map Some vs = map Some (map ?get (segment T requests s))" unfolding v(1) [symmetric] by (rule vals)
    then have "vs = map ?get (segment T requests s)" by (rule inj_map_eq_map [OF inj_Some, THEN iffD1])
    then show ?thesis using v(2) by simp
  qed
  have "parts = map (\<lambda>s. parts ! s) [0..<T]" using len by (metis map_nth)
  then have "mset out = mset (concat (map (\<lambda>s. parts ! s) [0..<T]))" using out by simp
  also have "\<dots> = mset (concat (map (\<lambda>s. map ?get (segment T requests s)) [0..<T]))"
    by (rule mset_concat_cong2) (simp add: eq del: mset_map)
  finally show "mset out = mset (map ?get requests)" using all by simp
qed

text \<open>Where a file ends inside a direct-I/O unit, the element behind it may be read from the wrong file.\<close>

lemma read_element_unaligned:
  "read_element u8_pod [''a'' \<mapsto> [1, 2], ''b'' \<mapsto> [3, 4]] [new_FileInfo ''a'' 0 2 2, new_FileInfo ''b'' 1 2 2] [0, 0, 99] 2 = Some 99
    \<and> all_elems u8_pod [''a'' \<mapsto> [1, 2], ''b'' \<mapsto> [3, 4]] [new_FileInfo ''a'' 0 2 2, new_FileInfo ''b'' 1 2 2] ! 2 = 3"
  by (simp add: read_element_def read_element_at_def all_elems_def u8_pod_def new_FileInfo_def upper_bound_def fs_read_def
      file_of_def O_DIRECT_MULTIPLE_def round_up_def Let_def numeral_2_eq_2)

text \<open>On a machine that demands aligned memory, every element is what its buffer held before.\<close>

lemma read_element_rejected:
  "read_element_at False P fs files junk r = Some x \<Longrightarrow>
    x = pod_dec P (take (pod_size P) (drop (r * pod_size P mod O_DIRECT_MULTIPLE) junk))"
  by (simp add: read_element_at_def Let_def minus_div_mult_eq_mod split: if_splits)

section \<open>Properties\<close>

text \<open>C21: On a machine that takes direct reads into any memory, when the true size of every file is a
multiple of the direct-I/O unit and of the element size, \<open>RandomBatchRead\<close> returns, for every number
of threads, every order of the completions and whatever the buffers held before, exactly the requested
elements of the concatenated files, up to order. The condition on the sizes matters: with two files of
two bytes, the first element of the second file is read from the first one.\<close>

theorem random_batch_read_correct:
  assumes "0 < T" and "0 < pod_size P" and "aligned_files P fs files"
    and "\<forall>r \<in> set requests. r < length (all_elems P fs files)"
    and any_memory and "(\<Sum>info\<leftarrow>files. fi_true_size info) + O_DIRECT_MULTIPLE < 2 ^ 64"
  shows "(\<exists>out. RandomBatchRead_at any_memory P T fs files junk requests out) \<and>
    (\<forall>out. RandomBatchRead_at any_memory P T fs files junk requests out \<longrightarrow>
       mset out = mset (map (\<lambda>r. all_elems P fs files ! r) requests)) \<and>
    (let fs2 = [''a'' \<mapsto> [1, 2], ''b'' \<mapsto> [3, 4]]; files2 = [new_FileInfo ''a'' 0 2 2, new_FileInfo ''b'' 1 2 2]
     in read_element u8_pod fs2 files2 [0, 0, 99] 2 = Some 99 \<and> all_elems u8_pod fs2 files2 ! 2 = 3)"
  using RandomBatchRead_exact [OF assms(1-4)] read_element_unaligned assms(5) by (simp add: Let_def RandomBatchRead_def)

lemma random_batch_read_correct_witness:
  "\<exists>out. RandomBatchRead_at True u8_pod 2 [''a'' \<mapsto> replicate 4096 7] [new_FileInfo ''a'' 0 4096 4096] (\<lambda>r. []) [5, 4095, 5] out"
proof -
  have "aligned_files u8_pod [''a'' \<mapsto> replicate 4096 7] [new_FileInfo ''a'' 0 4096 4096]"
    by (simp add: aligned_files_def new_FileInfo_def O_DIRECT_MULTIPLE_def file_of_def u8_size)
  moreover have "length (all_elems u8_pod [''a'' \<mapsto> replicate 4096 7] [new_FileInfo ''a'' 0 4096 4096]) = 4096"
    by (simp add: all_elems_def new_FileInfo_def u8_size)
  ultimately show ?thesis
    using random_batch_read_correct [of 2 u8_pod "[''a'' \<mapsto> replicate 4096 7]" "[new_FileInfo ''a'' 0 4096 4096]" "[5, 4095, 5]" True]
    by (simp add: u8_size new_FileInfo_def O_DIRECT_MULTIPLE_def)
qed

end
