(* ===== verification/SampleSort.thy ===== *)
theory SampleSort
  imports ScatterCorrect RandomRead Shuffle
begin

text \<open>
  scatter_gather_algorithms/sample_sort.h and permutation.h, two clients of \<open>ScatterGather\<close>. The sort
  samples the input, takes pivots, sends every element to the bucket between its neighbouring pivots
  and sorts the buckets in memory. \<open>lt\<close> is the comparator, \<open>srt\<close> what \<open>parlay::sort\<close> makes of a
  list under it, \<open>srt0\<close> the same for \<open>operator<\<close>; \<open>draw i\<close> is the \<open>i\<close>-th number of
  \<open>uniform_int_distribution(0, n - 1)\<close>, \<open>rand\<close> the random numbers of the assigner and \<open>root\<close> the
  truncated floating-point square root. \<open>T\<close> is the number of workers of the library.
\<close>

section \<open>Pivots\<close>

definition GetSampleSize :: "nat \<Rightarrow> nat \<Rightarrow> FileInfo list \<Rightarrow> nat" where
  "GetSampleSize T sz files =
     (let file_size = sum_list (map fi_true_size files);
          min_sample_size = max 1 (4 * T * file_size div MAIN_MEMORY_SIZE);
          max_sample_size = max 1 (min (file_size div sz) (file_size div O_DIRECT_MULTIPLE))
      in max (min (file_size div 2 ^ 27) max_sample_size) min_sample_size)"

text \<open>The loop that picks pivots from the sorted samples; \<open>None\<close> is an access out of bounds.\<close>

definition next_pivot :: "nat \<Rightarrow> nat \<Rightarrow> nat \<Rightarrow> nat" where
  "next_pivot oversample_size i remaining_pivots =
     (i + max 1 (sub64 (sub64 oversample_size i) remaining_pivots div (remaining_pivots + 1))) mod 2 ^ 64"

fun pick_pivots :: "'a list \<Rightarrow> nat \<Rightarrow> nat \<Rightarrow> nat \<Rightarrow> 'a list option" where
  "pick_pivots samples oversample_size i 0 = Some []"
| "pick_pivots samples oversample_size i (Suc k) =
     (let i' = next_pivot oversample_size i (Suc k)
      in if i' < length samples
         then map_option (\<lambda>ps. samples ! i' # ps) (pick_pivots samples oversample_size (i' + 1) k)
         else None)"

definition GetPivots :: "'a pod \<Rightarrow> nat \<Rightarrow> (nat \<Rightarrow> nat) \<Rightarrow> (nat \<Rightarrow> nat) \<Rightarrow> ('a list \<Rightarrow> 'a list) \<Rightarrow> (nat \<Rightarrow> byte list) \<Rightarrow>
    fstore \<Rightarrow> FileInfo list \<Rightarrow> nat \<Rightarrow> 'a list option \<Rightarrow> bool" where
  "GetPivots P T root draw srt0 junk fs file_list num_pivots result \<longleftrightarrow>
     (let n = sum_list (map fi_true_size file_list) div pod_size P;
          oversample_size = min n (num_pivots * root num_pivots)
      in \<exists>samples. RandomBatchRead P T fs file_list junk (map draw [0..<oversample_size]) samples \<and>
           result = pick_pivots (srt0 samples) oversample_size 0 num_pivots)"

section \<open>Assigners\<close>

definition BinarySearch :: "('a \<Rightarrow> 'a \<Rightarrow> bool) \<Rightarrow> 'a list \<Rightarrow> 'a \<Rightarrow> nat" where
  "BinarySearch lt pivots t = length (takeWhile (\<lambda>p. \<not> lt t p) pivots)"

definition SimpleAssigner :: "('a \<Rightarrow> 'a \<Rightarrow> bool) \<Rightarrow> 'a list \<Rightarrow> 'a \<Rightarrow> nat \<Rightarrow> nat" where
  "SimpleAssigner lt pivots t index = BinarySearch lt pivots t"

text \<open>\<open>btree_map::emplace\<close> does nothing when the key is present.\<close>

definition emplace :: "'k \<Rightarrow> 'v \<Rightarrow> ('k \<times> 'v) list \<Rightarrow> ('k \<times> 'v) list" where
  "emplace k v m = (if map_of m k = None then m @ [(k, v)] else m)"

text \<open>The constructor's loop over \<open>pivots[i..]\<close>, with the current run of equal pivots.\<close>

fun dedup_loop :: "'a list \<Rightarrow> nat \<Rightarrow> 'a \<Rightarrow> nat \<Rightarrow> ('a \<times> nat \<times> nat) list \<Rightarrow> ('a \<times> nat \<times> nat) list" where
  "dedup_loop [] i prev c m = (if 1 < c then emplace prev (i - c, c) m else m)"
| "dedup_loop (val # vs) i prev c m =
     (if val = prev then dedup_loop vs (i + 1) prev (c + 1) m
      else dedup_loop vs (i + 1) val 1 (if 1 < c then emplace prev (i - c, c) m else m))"

text \<open>It reads \<open>pivots[0]\<close>: \<open>None\<close> without pivots.\<close>

fun DeduplicatingAssigner :: "'a list \<Rightarrow> ('a \<times> nat \<times> nat) list option" where
  "DeduplicatingAssigner [] = None"
| "DeduplicatingAssigner (prev # vs) = Some (dedup_loop vs 1 prev 1 [])"

definition GetAssigner :: "('a \<Rightarrow> 'a \<Rightarrow> bool) \<Rightarrow> (nat \<Rightarrow> nat) \<Rightarrow> 'a list \<Rightarrow> ('a \<times> nat \<times> nat) list \<Rightarrow> 'a \<Rightarrow> nat \<Rightarrow> nat" where
  "GetAssigner lt rand pivots m t index =
     (case map_of m t of Some (start, c) \<Rightarrow> start + rand index mod c | None \<Rightarrow> BinarySearch lt pivots t)"

section \<open>Sorting\<close>

definition default_scatter_config :: "nat \<Rightarrow> ScatterGatherConfig" where
  "default_scatter_config num_buckets =
     \<lparr>sg_reader_config = default_file_reader_config,
      sg_bucketed_writer_config = \<lparr>bwc_num_threads = 2, bwc_num_buckets = num_buckets\<rparr>, sg_benchmark_mode = False\<rparr>"

definition SampleSort :: "'a pod \<Rightarrow> nat \<Rightarrow> nat \<Rightarrow> nat \<Rightarrow> (nat \<Rightarrow> nat) \<Rightarrow> (nat \<Rightarrow> nat) \<Rightarrow> (nat \<Rightarrow> nat) \<Rightarrow>
    ('a \<Rightarrow> 'a \<Rightarrow> bool) \<Rightarrow> ('a list \<Rightarrow> 'a list) \<Rightarrow> ('a list \<Rightarrow> 'a list) \<Rightarrow>
    (nat \<Rightarrow> byte list) \<Rightarrow> (nat \<Rightarrow> byte list) \<Rightarrow> (nat \<Rightarrow> byte list) \<Rightarrow> string list \<Rightarrow>
    FileInfo list \<Rightarrow> string \<Rightarrow> fstore \<Rightarrow> FileInfo list \<Rightarrow> fstore \<Rightarrow> bool" where
  "SampleSort P R cap T root draw rand lt srt0 srt junk junk1 buffers ssds input_files result_prefix fs results fs' \<longleftrightarrow>
     (\<exists>files picked m. GetFileInfo fs False True input_files = Some files \<and>
        GetPivots P T root draw srt0 junk1 fs files (GetSampleSize T (pod_size P) files) (Some picked) \<and>
        DeduplicatingAssigner (srt picked) = Some m \<and>
        scatter_gather P R cap T junk buffers ssds (default_scatter_config (GetSampleSize T (pod_size P) files + 1))
          files result_prefix (GetAssigner lt rand (srt picked) m) srt fs results fs')"

section \<open>Permuting\<close>

text \<open>\<open>GetBucketSize\<close> of permutation.h computes what \<open>GetSampleSize\<close> computes.\<close>

definition GetBucketSize :: "nat \<Rightarrow> nat \<Rightarrow> FileInfo list \<Rightarrow> nat" where
  "GetBucketSize T sz files =
     (let file_size = sum_list (map fi_true_size files);
          min_sample_size = max 1 (4 * T * file_size div MAIN_MEMORY_SIZE);
          max_sample_size = max 1 (min (file_size div sz) (file_size div O_DIRECT_MULTIPLE))
      in max (min (file_size div 2 ^ 27) max_sample_size) min_sample_size)"

text \<open>
  \<open>dist m g\<close> is the bucket below \<open>m\<close> drawn for the element number \<open>g\<close>. \<open>shuffle\<close> is what the call of
  \<open>random_shuffle\<close> does to the buffer; permutation.h ignores what the call returns, so for a library that
  returns the shuffled sequence instead of working in place it is the identity. Both are covered.
\<close>

definition Permute :: "'a pod \<Rightarrow> nat \<Rightarrow> nat \<Rightarrow> nat \<Rightarrow> (nat \<Rightarrow> nat \<Rightarrow> nat) \<Rightarrow> ('a list \<Rightarrow> 'a list) \<Rightarrow>
    (nat \<Rightarrow> byte list) \<Rightarrow> (nat \<Rightarrow> byte list) \<Rightarrow> string list \<Rightarrow>
    FileInfo list \<Rightarrow> string \<Rightarrow> fstore \<Rightarrow> FileInfo list \<Rightarrow> fstore \<Rightarrow> bool" where
  "Permute P R cap T dist shuffle junk buffers ssds input_files result_prefix fs results fs' \<longleftrightarrow>
     (\<exists>files0 files. GetFileInfo fs False True input_files = Some files0 \<and> files = ComputeBeforeSize files0 \<and>
        scatter_gather P R cap T junk buffers ssds (default_scatter_config (GetBucketSize T (pod_size P) files + 1))
          files result_prefix (\<lambda>t index. dist (GetBucketSize T (pod_size P) files) index) shuffle fs results fs')"

section \<open>Picking pivots\<close>

text \<open>With at least two samples per pivot the loop stays inside the samples.\<close>

lemma pick_pivots_Some:
  assumes "length samples = n" and "2 * k + i \<le> n" and "n < 2 ^ 64"
  shows "\<exists>ps. pick_pivots samples n i k = Some ps \<and> length ps = k \<and> set ps \<subseteq> set samples"
  using assms(2)
proof (induction k arbitrary: i)
  case 0
  then show ?case by simp
next
  case (Suc k)
  define d where "d = max 1 ((n - i - Suc k) div (Suc k + 1))"
  have sub: "sub64 (sub64 n i) (Suc k) = n - i - Suc k"
  proof -
    have "sub64 n i = n - i" using Suc.prems assms(3) by (intro sub64_le) simp_all
    moreover have "sub64 (n - i) (Suc k) = n - i - Suc k" using Suc.prems assms(3) by (intro sub64_le) simp_all
    ultimately show ?thesis by simp
  qed
  have d: "2 * k + (i + d + 1) \<le> n"
  proof (cases "(n - i - Suc k) div (Suc k + 1) = 0")
    case True
    then have "d = 1" by (simp add: d_def)
    then show ?thesis using Suc.prems by simp
  next
    case False
    then have dd: "d = (n - i - Suc k) div (Suc k + 1)" "1 \<le> d" by (simp_all add: d_def)
    have "d * (Suc k + 1) \<le> n - i - Suc k" unfolding dd(1) by (rule div_times_less_eq_dividend)
    moreover have "d + Suc k \<le> d * (Suc k + 1)" using dd(2) by (cases d) simp_all
    ultimately show ?thesis using Suc.prems by linarith
  qed
  have m: "(i + d) mod 2 ^ 64 = i + d" using d assms(3) by simp
  obtain ps where ps: "pick_pivots samples n (i + d + 1) k = Some ps" "length ps = k" "set ps \<subseteq> set samples"
    using Suc.IH [OF d] by blast
  have "i + d < length samples" using d assms(1) by simp
  then show ?case
    using ps unfolding pick_pivots.simps next_pivot_def Let_def sub d_def [symmetric] m by simp
qed

text \<open>With one, two or three pivots it leaves them.\<close>

lemma pick_pivots_few:
  assumes "k \<in> {1, 2, 3}" and "length samples = k"
  shows "pick_pivots samples k 0 k = None"
proof -
  have n1: "next_pivot 1 0 (Suc 0) = 1" and n2: "next_pivot 2 0 (Suc (Suc 0)) = 1"
    and n3: "next_pivot 2 2 (Suc 0) = 9223372036854775809" and n4: "next_pivot 3 0 (Suc (Suc (Suc 0))) = 1"
    and n5: "next_pivot 3 2 (Suc (Suc 0)) = 6148914691236517207"
    unfolding next_pivot_def sub64_def by (simp_all only: Suc_eq_plus1 add_0 one_add_one) simp_all
  have "pick_pivots xs 1 0 (Suc 0) = None" if "length xs = 1" for xs :: "'a list"
    unfolding pick_pivots.simps Let_def n1 that by simp
  moreover have "pick_pivots xs 2 0 (Suc (Suc 0)) = None" if "length xs = 2" for xs :: "'a list"
    unfolding pick_pivots.simps Let_def n2 one_add_one n3 that by simp
  moreover have "pick_pivots xs 3 0 (Suc (Suc (Suc 0))) = None" if "length xs = 3" for xs :: "'a list"
    unfolding pick_pivots.simps(2) [of _ _ 0] pick_pivots.simps(2) [of _ _ 2] Let_def n4 one_add_one n5 that by simp
  moreover have "(2::nat) = Suc (Suc 0)" "(3::nat) = Suc (Suc (Suc 0))" "(1::nat) = Suc 0" by simp_all
  ultimately show ?thesis using assms by (metis empty_iff insert_iff)
qed

section \<open>Assigners respect the order\<close>

definition strict_weak :: "('a \<Rightarrow> 'a \<Rightarrow> bool) \<Rightarrow> bool" where
  "strict_weak lt \<longleftrightarrow> (\<forall>x. \<not> lt x x) \<and> (\<forall>x y z. lt x y \<longrightarrow> lt y z \<longrightarrow> lt x z) \<and> (\<forall>x y z. lt x z \<longrightarrow> lt x y \<or> lt y z)"

text \<open>What the documentation of \<open>parlay::sort\<close> promises.\<close>

definition sorts :: "('a \<Rightarrow> 'a \<Rightarrow> bool) \<Rightarrow> ('a list \<Rightarrow> 'a list) \<Rightarrow> bool" where
  "sorts lt srt \<longleftrightarrow> (\<forall>xs. mset (srt xs) = mset xs \<and> sorted_wrt (\<lambda>x y. \<not> lt y x) (srt xs))"

text \<open>Bucket \<open>b\<close> lies between the pivots before it and its own pivot.\<close>

definition between :: "('a \<Rightarrow> 'a \<Rightarrow> bool) \<Rightarrow> 'a list \<Rightarrow> 'a \<Rightarrow> nat \<Rightarrow> bool" where
  "between lt pivots x b \<longleftrightarrow> b \<le> length pivots \<and> (\<forall>i < b. \<not> lt x (pivots ! i)) \<and>
     (b < length pivots \<longrightarrow> \<not> lt (pivots ! b) x)"

lemma between_order:
  assumes "strict_weak lt" and "between lt pivots x b" and "between lt pivots y c" and "b < c"
  shows "\<not> lt y x"
proof
  assume "lt y x"
  then have "lt y (pivots ! b) \<or> lt (pivots ! b) x" using assms(1) unfolding strict_weak_def by blast
  moreover have "b < length pivots" using assms(3,4) by (simp add: between_def)
  ultimately show False using assms(2-4) unfolding between_def by blast
qed

lemma BinarySearch_between:
  assumes "strict_weak lt"
  shows "between lt pivots x (BinarySearch lt pivots x)"
  unfolding between_def BinarySearch_def
proof (intro conjI allI impI)
  show "length (takeWhile (\<lambda>p. \<not> lt x p) pivots) \<le> length pivots" by (rule length_takeWhile_le)
  show "\<not> lt x (pivots ! i)" if "i < length (takeWhile (\<lambda>p. \<not> lt x p) pivots)" for i
    using that nth_mem [OF that] set_takeWhileD takeWhile_nth by fastforce
  assume "length (takeWhile (\<lambda>p. \<not> lt x p) pivots) < length pivots"
  then have "lt x (pivots ! length (takeWhile (\<lambda>p. \<not> lt x p) pivots))"
    using nth_length_takeWhile [of "\<lambda>p. \<not> lt x p" pivots] by simp
  then show "\<not> lt (pivots ! length (takeWhile (\<lambda>p. \<not> lt x p) pivots)) x"
    using assms unfolding strict_weak_def by blast
qed

text \<open>The map of the constructor holds runs of equal pivots only.\<close>

definition dedup_ok :: "'a list \<Rightarrow> ('a \<times> nat \<times> nat) list \<Rightarrow> bool" where
  "dedup_ok pivots m \<longleftrightarrow>
     (\<forall>x s c. (x, s, c) \<in> set m \<longrightarrow> 0 < c \<and> s + c \<le> length pivots \<and> (\<forall>j < c. pivots ! (s + j) = x))"

lemma emplace_ok:
  assumes "dedup_ok pivots m" and "c \<le> i" and "i \<le> length pivots" and "\<forall>j < c. pivots ! (i - c + j) = x"
  shows "dedup_ok pivots (if 1 < c then emplace x (i - c, c) m else m)"
  using assms by (auto simp: dedup_ok_def emplace_def)

lemma dedup_loop_ok:
  assumes "dedup_ok pivots m" and "c \<le> i" and "\<forall>j < c. pivots ! (i - c + j) = prev" and "vs = drop i pivots"
    and "i \<le> length pivots"
  shows "dedup_ok pivots (dedup_loop vs i prev c m)"
  using assms
proof (induction vs i prev c m rule: dedup_loop.induct)
  case (1 i prev c m)
  then show ?case using emplace_ok [of pivots m c i prev] by simp
next
  case (2 val vs i prev c m)
  have lt: "i < length pivots" using "2.prems"(4) by (metis drop_all list.distinct(1) not_le)
  then have "val # vs = pivots ! i # drop (i + 1) pivots" using "2.prems"(4) Cons_nth_drop_Suc [OF lt] by simp
  then have val: "pivots ! i = val" and vs: "vs = drop (i + 1) pivots" by simp_all
  show ?case
  proof (cases "val = prev")
    case True
    have "pivots ! (i + 1 - (c + 1) + j) = prev" if "j < c + 1" for j
      using "2.prems"(2,3) val True that by (cases "j = c") auto
    then have "dedup_ok pivots (dedup_loop vs (i + 1) prev (c + 1) m)"
      using "2.IH"(1) [OF True "2.prems"(1)] "2.prems"(2) vs lt by simp
    then show ?thesis using True by simp
  next
    case False
    then have "dedup_ok pivots (dedup_loop vs (i + 1) val 1 (if 1 < c then emplace prev (i - c, c) m else m))"
      using "2.IH"(2) [OF False emplace_ok [OF "2.prems"(1,2,5,3)]] lt vs val by simp
    then show ?thesis using False by simp
  qed
qed

lemma DeduplicatingAssigner_ok:
  assumes "DeduplicatingAssigner pivots = Some m"
  shows "dedup_ok pivots m"
proof -
  obtain prev vs where p: "pivots = prev # vs" and m: "m = dedup_loop vs 1 prev 1 []"
    using assms by (cases pivots) auto
  show ?thesis unfolding m by (rule dedup_loop_ok) (simp_all add: p dedup_ok_def)
qed

lemma GetAssigner_between:
  assumes lt: "strict_weak lt" and m: "DeduplicatingAssigner pivots = Some m"
    and sorted: "sorted_wrt (\<lambda>x y. \<not> lt y x) pivots"
  shows "between lt pivots x (GetAssigner lt rand pivots m x g)"
proof (cases "map_of m x")
  case None
  then show ?thesis using BinarySearch_between [OF lt] by (simp add: GetAssigner_def)
next
  case (Some e)
  obtain s c where e: "e = (s, c)" by (cases e)
  have "(x, s, c) \<in> set m" using Some e by (simp add: map_of_SomeD)
  then have c: "0 < c" "s + c \<le> length pivots" "\<forall>j < c. pivots ! (s + j) = x"
    using DeduplicatingAssigner_ok [OF m] by (auto simp: dedup_ok_def)
  define b where "b = s + rand g mod c"
  have b: "b < length pivots" "pivots ! b = x"
    using c mod_less_divisor [OF c(1), of "rand g"] by (auto simp: b_def)
  have "between lt pivots x b"
    unfolding between_def
  proof (intro conjI allI impI)
    show "\<not> lt x (pivots ! i)" if "i < b" for i
      using sorted_wrt_nth_less [OF sorted that b(1)] b(2) by simp
    show "\<not> lt (pivots ! b) x" using b(2) lt by (simp add: strict_weak_def)
    show "b \<le> length pivots" using b(1) by simp
  qed
  then show ?thesis using Some e by (simp add: GetAssigner_def b_def)
qed

lemma pick_pivots_length:
  "pick_pivots samples n i k = Some ps \<Longrightarrow> length ps = k"
proof (induction k arbitrary: i ps)
  case 0
  then show ?case by simp
next
  case (Suc k)
  then show ?case by (auto simp: Let_def split: if_splits)
qed

lemma sorts_facts: "sorts lt srt \<Longrightarrow> mset (srt xs) = mset xs" "sorts lt srt \<Longrightarrow> length (srt xs) = length xs"
  "sorts lt srt \<Longrightarrow> set (srt xs) = set xs" "sorts lt srt \<Longrightarrow> sorted_wrt (\<lambda>x y. \<not> lt y x) (srt xs)"
  by (auto simp: sorts_def dest: mset_eq_length mset_eq_setD)

lemma concat_sorted:
  assumes lt: "strict_weak lt" and srt: "sorts lt srt" and bs: "\<And>b x. x \<in> set (bs b) \<Longrightarrow> between lt pivots x b"
  shows "sorted_wrt (\<lambda>x y. \<not> lt y x) (concat (map (\<lambda>b. srt (bs b)) [0..<m]))"
proof (induction m)
  case 0
  then show ?case by simp
next
  case (Suc m)
  have "\<not> lt y x" if xy: "x \<in> set (concat (map (\<lambda>b. srt (bs b)) [0..<m]))" "y \<in> set (srt (bs m))" for x y
  proof -
    obtain b where b: "b < m" "x \<in> set (srt (bs b))" using xy(1) by auto
    then have "x \<in> set (bs b)" using sorts_facts(3) [OF srt, of "bs b"] by simp
    note b = b(1) this
    have "y \<in> set (bs m)" using xy(2) sorts_facts(3) [OF srt] by simp
    then show ?thesis using between_order [OF lt bs [OF b(2)] bs b(1)] by blast
  qed
  then show ?case using Suc sorts_facts(4) [OF srt, of "bs m"] by (simp add: sorted_wrt_append del: set_concat)
qed

lemma GetSampleSize_pos: "0 < GetSampleSize T sz files"
  by (simp add: GetSampleSize_def Let_def less_max_iff_disj)

lemma scatter_config_default: "2 < T \<Longrightarrow> sg_config_ok T (default_scatter_config m)"
  by (simp add: sg_config_ok_def default_scatter_config_def file_config_ok_def default_file_reader_config_def)

lemma default_num_buckets [simp]: "bwc_num_buckets (sg_bucketed_writer_config (default_scatter_config m)) = m"
  by (simp add: default_scatter_config_def)

lemma sum_mset_map_concat: "(\<Sum>x\<leftarrow>xs. mset (f x)) = mset (concat (map f xs))"
  by (induction xs) simp_all

text \<open>When the random numbers are in range and there are at least two samples per pivot.\<close>

definition samples_ok :: "'a pod \<Rightarrow> nat \<Rightarrow> (nat \<Rightarrow> nat) \<Rightarrow> (nat \<Rightarrow> nat) \<Rightarrow> ('a list \<Rightarrow> 'a list) \<Rightarrow> fstore \<Rightarrow> FileInfo list \<Rightarrow> bool" where
  "samples_ok P T root draw srt0 fs files \<longleftrightarrow>
     (let k = GetSampleSize T (pod_size P) files;
          os = min (sum_list (map fi_true_size files) div pod_size P) (k * root k)
      in 2 * k \<le> os \<and> os < 2 ^ 64 \<and> aligned_files P fs files \<and>
         (\<forall>i < os. draw i < length (all_elems P fs files)) \<and> (\<forall>xs. mset (srt0 xs) = mset xs))"

lemma GetPivots_exist:
  assumes "0 < T" and "0 < pod_size P" and ok: "samples_ok P T root draw srt0 fs files"
  shows "\<exists>picked. GetPivots P T root draw srt0 junk fs files (GetSampleSize T (pod_size P) files) (Some picked)"
proof -
  let ?k = "GetSampleSize T (pod_size P) files"
  define os where "os = min (sum_list (map fi_true_size files) div pod_size P) (?k * root ?k)"
  have h: "2 * ?k \<le> os" "os < 2 ^ 64" "aligned_files P fs files" "\<forall>i < os. draw i < length (all_elems P fs files)"
    "\<forall>xs. mset (srt0 xs) = mset xs"
    using ok by (simp_all add: samples_ok_def Let_def os_def)
  have rs: "\<forall>r \<in> set (map draw [0..<os]). r < length (all_elems P fs files)" using h(4) by auto
  obtain samples where s: "RandomBatchRead P T fs files junk (map draw [0..<os]) samples"
    using RandomBatchRead_exact(1) [OF assms(1,2) h(3) rs] by blast
  have "length samples = os"
    using mset_eq_length [OF RandomBatchRead_exact(2) [OF assms(1,2) h(3) rs s]] by simp
  then have "length (srt0 samples) = os" using h(5) by (metis mset_eq_length)
  from pick_pivots_Some [OF this _ h(2), of ?k 0] h(1)
  obtain ps where "pick_pivots (srt0 samples) os 0 ?k = Some ps" by auto
  then show ?thesis using s unfolding GetPivots_def Let_def os_def by metis
qed

lemma sample_sort_assigner:
  assumes lt: "strict_weak lt" and srt: "sorts lt srt"
    and picked: "GetPivots P T root draw srt0 junk fs files k (Some picked)"
    and m: "DeduplicatingAssigner (srt picked) = Some m"
  shows "between lt (srt picked) x (GetAssigner lt rand (srt picked) m x g)"
    and "GetAssigner lt rand (srt picked) m x g < k + 1"
proof -
  show b: "between lt (srt picked) x (GetAssigner lt rand (srt picked) m x g)"
    using GetAssigner_between [OF lt m sorts_facts(4) [OF srt]] .
  have "length picked = k" using picked pick_pivots_length by (metis GetPivots_def)
  then show "GetAssigner lt rand (srt picked) m x g < k + 1" using b sorts_facts(2) [OF srt] by (simp add: between_def)
qed

lemma SampleSort_exists:
  assumes P: "pod_repr P" and el: "element_size_ok P R" and T: "2 < T"
    and info: "GetFileInfo fs False True input_files = Some files" and files: "inputs_ok fs files" and mem: "memory_ok junk files"
    and lt: "strict_weak lt" and srt: "sorts lt srt"
    and slash: "CHR ''/'' \<notin> set result_prefix" and sep: "separate_prefixes ssds scatter_prefix result_prefix"
    and ok: "samples_ok P T root draw srt0 fs files"
  shows "\<exists>results fs'. SampleSort P R cap T root draw rand lt srt0 srt junk junk1 buffers ssds input_files result_prefix fs results fs'"
proof -
  let ?k = "GetSampleSize T (pod_size P) files"
  have "0 < T" using T by simp
  from GetPivots_exist [OF this pod_repr.size_pos [OF P] ok]
  obtain picked where p: "GetPivots P T root draw srt0 junk1 fs files ?k (Some picked)" by blast
  have "length picked = ?k" using p pick_pivots_length by (metis GetPivots_def)
  then have "srt picked \<noteq> []" using GetSampleSize_pos [of T "pod_size P" files] sorts_facts(2) [OF srt, of picked] by auto
  then obtain m where m: "DeduplicatingAssigner (srt picked) = Some m" by (cases "srt picked") simp_all
  have "\<forall>x g. GetAssigner lt rand (srt picked) m x g < bwc_num_buckets (sg_bucketed_writer_config (default_scatter_config (?k + 1)))"
    using sample_sort_assigner(2) [OF lt srt p m] by simp
  from scatter_gather_result(1) [OF P el scatter_config_default [OF T] files mem this slash sep, of srt]
  show ?thesis using info p m sorts_facts(2) [OF srt] unfolding SampleSort_def by blast
qed

lemma SampleSort_result:
  assumes P: "pod_repr P" and el: "element_size_ok P R" and T: "2 < T"
    and info: "GetFileInfo fs False True input_files = Some files" and files: "inputs_ok fs files" and mem: "memory_ok junk files"
    and lt: "strict_weak lt" and srt: "sorts lt srt"
    and slash: "CHR ''/'' \<notin> set result_prefix" and sep: "separate_prefixes ssds scatter_prefix result_prefix"
    and run: "SampleSort P R cap T root draw rand lt srt0 srt junk junk1 buffers ssds input_files result_prefix fs results fs'"
  shows "\<forall>r \<in> set results. fi_file_size r < (\<Sum>info\<leftarrow>files. fi_file_size info) + METADATA_SIZE + O_DIRECT_MULTIPLE"
    and "\<forall>r \<in> set results. fi_file_size r \<le> cap \<Longrightarrow>
      sorted_wrt (\<lambda>x y. \<not> lt y x) (concat (map (result_elems P fs') results)) \<and>
      mset (concat (map (result_elems P fs') results)) = mset (concat (map (file_elems P fs) files)) \<and>
      (\<forall>r \<in> set results. result_readable fs' r)"
proof -
  let ?k = "GetSampleSize T (pod_size P) files"
  obtain picked m where p: "GetPivots P T root draw srt0 junk1 fs files ?k (Some picked)"
    and m: "DeduplicatingAssigner (srt picked) = Some m"
    and sg: "scatter_gather P R cap T junk buffers ssds (default_scatter_config (?k + 1)) files result_prefix
        (GetAssigner lt rand (srt picked) m) srt fs results fs'"
    using run info unfolding SampleSort_def by auto
  have bound: "\<forall>x g. GetAssigner lt rand (srt picked) m x g < bwc_num_buckets (sg_bucketed_writer_config (default_scatter_config (?k + 1)))"
    using sample_sort_assigner(2) [OF lt srt p m] by simp
  have len: "\<forall>xs. length (srt xs) = length xs" using sorts_facts(2) [OF srt] by simp
  from scatter_gather_result(2) [OF P el scatter_config_default [OF T] files mem bound slash sep len sg]
  obtain zs where sums: "(\<Sum>b\<leftarrow>[0..<?k + 1]. mset (bucket_elems P b zs)) = (\<Sum>info\<leftarrow>files. mset (file_elems P fs info))"
    and ass: "\<forall>b. assigned (GetAssigner lt rand (srt picked) m) b (bucket_elems P b zs)"
    and res: "results = map (sg_info P ssds result_prefix junk zs) [0..<?k + 1]"
    and small: "\<forall>b < ?k + 1. fi_file_size (sg_info P ssds result_prefix junk zs b) <
        (\<Sum>info\<leftarrow>files. fi_file_size info) + METADATA_SIZE + O_DIRECT_MULTIPLE"
    and on_disk: "\<forall>b < ?k + 1. fi_file_size (sg_info P ssds result_prefix junk zs b) \<le> cap \<longrightarrow>
        result_elems P fs' (sg_info P ssds result_prefix junk zs b) = srt (bucket_elems P b zs) \<and>
        result_readable fs' (sg_info P ssds result_prefix junk zs b)"
    unfolding default_num_buckets by blast
  show "\<forall>r \<in> set results. fi_file_size r < (\<Sum>info\<leftarrow>files. fi_file_size info) + METADATA_SIZE + O_DIRECT_MULTIPLE"
    unfolding res using small by (simp del: upt_Suc)
  assume "\<forall>r \<in> set results. fi_file_size r \<le> cap"
  then have elems: "\<forall>b < ?k + 1. result_elems P fs' (sg_info P ssds result_prefix junk zs b) = srt (bucket_elems P b zs)"
    and readable: "\<forall>b < ?k + 1. result_readable fs' (sg_info P ssds result_prefix junk zs b)"
    using on_disk unfolding res by (simp_all del: upt_Suc)
  have all: "map (result_elems P fs') results = map (\<lambda>b. srt (bucket_elems P b zs)) [0..<?k + 1]"
    unfolding res map_map using elems by (intro map_cong refl) (simp only: set_upt atLeastLessThan_iff comp_apply)
  have "between lt (srt picked) x b" if "x \<in> set (bucket_elems P b zs)" for b x
    using ass sample_sort_assigner(1) [OF lt srt p m] that unfolding assigned_def by metis
  from concat_sorted [OF lt srt this]
  have "sorted_wrt (\<lambda>x y. \<not> lt y x) (concat (map (result_elems P fs') results))" unfolding all .
  moreover have "mset (concat (map (\<lambda>b. srt (bucket_elems P b zs)) [0..<?k + 1])) = mset (concat (map (\<lambda>b. bucket_elems P b zs) [0..<?k + 1]))"
    by (rule mset_concat_cong2) (simp add: sorts_facts(1) [OF srt])
  then have "mset (concat (map (result_elems P fs') results)) = mset (concat (map (file_elems P fs) files))"
    unfolding all using sums unfolding sum_mset_map_concat by (rule trans)
  moreover have "\<forall>r \<in> set results. result_readable fs' r" unfolding res using readable by (simp del: upt_Suc)
  ultimately show "sorted_wrt (\<lambda>x y. \<not> lt y x) (concat (map (result_elems P fs') results)) \<and>
      mset (concat (map (result_elems P fs') results)) = mset (concat (map (file_elems P fs) files)) \<and>
      (\<forall>r \<in> set results. result_readable fs' r)" by blast
qed

lemma Permute_result:
  assumes P: "pod_repr P" and el: "element_size_ok P R" and T: "2 < T"
    and info: "GetFileInfo fs False True input_files = Some files0" and fd: "files = ComputeBeforeSize files0"
    and files: "inputs_ok fs files" and mem: "memory_ok junk files"
    and dist: "\<forall>m g. 0 < m \<longrightarrow> dist m g < m" and shuffle: "\<forall>xs. mset (shuffle xs) = mset xs"
    and slash: "CHR ''/'' \<notin> set result_prefix" and sep: "separate_prefixes ssds scatter_prefix result_prefix"
  shows "\<exists>results fs'. Permute P R cap T dist shuffle junk buffers ssds input_files result_prefix fs results fs'"
    and "Permute P R cap T dist shuffle junk buffers ssds input_files result_prefix fs results fs' \<Longrightarrow>
      \<forall>r \<in> set results. fi_file_size r \<le> cap \<Longrightarrow>
      mset (concat (map (result_elems P fs') results)) = mset (concat (map (file_elems P fs) files))"
proof -
  let ?k = "GetBucketSize T (pod_size P) files" and ?dist = "\<lambda>t index. dist (GetBucketSize T (pod_size P) files) index"
  have "0 < ?k" by (simp add: GetBucketSize_def Let_def less_max_iff_disj)
  then have bound: "\<forall>x g. ?dist x g < bwc_num_buckets (sg_bucketed_writer_config (default_scatter_config (?k + 1)))"
    using dist by (simp add: less_SucI)
  have len: "\<forall>xs. length (shuffle xs) = length xs" using shuffle by (metis mset_eq_length)
  note sg = scatter_gather_result [OF P el scatter_config_default [OF T] files mem bound slash sep len]
  show "\<exists>results fs'. Permute P R cap T dist shuffle junk buffers ssds input_files result_prefix fs results fs'"
    unfolding Permute_def using info fd sg(1) by blast
  assume "Permute P R cap T dist shuffle junk buffers ssds input_files result_prefix fs results fs'"
    and cap: "\<forall>r \<in> set results. fi_file_size r \<le> cap"
  then have "scatter_gather P R cap T junk buffers ssds (default_scatter_config (?k + 1)) files result_prefix ?dist shuffle fs results fs'"
    using info fd unfolding Permute_def by auto
  from sg(2) [OF this] obtain zs where
      sums: "(\<Sum>b\<leftarrow>[0..<?k + 1]. mset (bucket_elems P b zs)) = (\<Sum>info\<leftarrow>files. mset (file_elems P fs info))"
    and res: "results = map (sg_info P ssds result_prefix junk zs) [0..<?k + 1]"
    and on_disk: "\<forall>b < ?k + 1. fi_file_size (sg_info P ssds result_prefix junk zs b) \<le> cap \<longrightarrow>
        result_elems P fs' (sg_info P ssds result_prefix junk zs b) = shuffle (bucket_elems P b zs)"
    unfolding default_num_buckets by blast
  have elems: "\<forall>b < ?k + 1. result_elems P fs' (sg_info P ssds result_prefix junk zs b) = shuffle (bucket_elems P b zs)"
    using on_disk cap unfolding res by (simp del: upt_Suc)
  have "map (result_elems P fs') results = map (\<lambda>b. shuffle (bucket_elems P b zs)) [0..<?k + 1]"
    unfolding res map_map using elems by (intro map_cong refl) (simp only: set_upt atLeastLessThan_iff comp_apply)
  moreover have "mset (concat (map (\<lambda>b. shuffle (bucket_elems P b zs)) [0..<?k + 1])) = mset (concat (map (\<lambda>b. bucket_elems P b zs) [0..<?k + 1]))"
    by (rule mset_concat_cong2) (simp add: shuffle)
  ultimately show "mset (concat (map (result_elems P fs') results)) = mset (concat (map (file_elems P fs) files))"
    using sums unfolding sum_mset_map_concat by metis
qed

section \<open>Properties\<close>

text \<open>C4: The external sample sort sorts. For any strict weak order and any in-memory sort for it, any
random numbers and any interleaving of the readers, the assigning workers, the I/O threads and the
pipelines of phase 2: the result files, read one after the other, hold exactly the elements of the
input files, in ascending order; and a complete run exists when the sample has at least two elements
per pivot.\<close>

theorem sample_sort_correct:
  assumes "pod_repr P" and "element_size_ok P R" and "2 < T"
    and "GetFileInfo fs False True input_files = Some files" and "inputs_ok fs files" and "memory_ok junk files"
    and "strict_weak lt" and "sorts lt srt"
    and "CHR ''/'' \<notin> set result_prefix" and "separate_prefixes ssds scatter_prefix result_prefix"
    and "files_apart ssds scatter_prefix files"
  shows "(samples_ok P T root draw srt0 fs files \<longrightarrow>
      (\<exists>results fs'. SampleSort P R cap T root draw rand lt srt0 srt junk junk1 buffers ssds input_files result_prefix fs results fs')) \<and>
    (\<forall>results fs'. SampleSort P R cap T root draw rand lt srt0 srt junk junk1 buffers ssds input_files result_prefix fs results fs' \<longrightarrow>
      (\<forall>r \<in> set results. fi_file_size r \<le> cap) \<longrightarrow>
      sorted_wrt (\<lambda>x y. \<not> lt y x) (concat (map (result_elems P fs') results)) \<and>
      mset (concat (map (result_elems P fs') results)) = mset (concat (map (file_elems P fs) files)))"
  using SampleSort_exists [OF assms(1-10)] SampleSort_result(2) [OF assms(1-10)] by blast

text \<open>The example: one file of 512 MiB, for which four pivots are taken.\<close>

definition demo_bytes :: nat where
  "demo_bytes = 2 ^ 29"

definition demo_sort_fs :: fstore where
  "demo_sort_fs = [''a'' \<mapsto> replicate demo_bytes 0]"

definition demo_sort_files :: "FileInfo list" where
  "demo_sort_files = [\<lparr>fi_file_name = ''a'', fi_file_index = 0, fi_true_size = demo_bytes, fi_file_size = demo_bytes, fi_before_size = 0\<rparr>]"

lemma demo_sort_info: "GetFileInfo demo_sort_fs False True [new_FileInfo ''a'' 0 0 0] = Some demo_sort_files"
  by (simp add: GetFileInfo_def file_info_one_def demo_sort_fs_def demo_sort_files_def new_FileInfo_def ComputeBeforeSize_def)

lemma demo_sort_ok:
  "inputs_ok demo_sort_fs demo_sort_files" "memory_ok (\<lambda>i. replicate 8192 0) demo_sort_files"
  "element_size_ok u8_pod 4096" "separate_prefixes [] scatter_prefix ''out''"
  "files_apart [] scatter_prefix demo_sort_files"
proof -
  show "inputs_ok demo_sort_fs demo_sort_files"
    by (simp add: inputs_ok_def demo_sort_files_def file_on_disk_def demo_sort_fs_def file_of_def)
  show "memory_ok (\<lambda>i. replicate 8192 0) demo_sort_files"
    by (simp add: memory_ok_def demo_sort_files_def METADATA_SIZE_def O_DIRECT_MULTIPLE_def demo_bytes_def)
  show "element_size_ok u8_pod 4096" by (simp add: element_size_ok_def u8_size SAMPLE_SORT_BUCKET_SIZE_def O_DIRECT_MULTIPLE_def)
  show "separate_prefixes [] scatter_prefix ''out''" by (rule separate_prefixesI) (simp_all add: scatter_prefix_def)
  show "files_apart [] scatter_prefix demo_sort_files" by (rule files_apart_relative) (simp add: demo_sort_files_def)
qed

lemma demo_samples_ok: "samples_ok u8_pod 3 (\<lambda>k. 2) (\<lambda>i. i) sort demo_sort_fs demo_sort_files"
proof -
  have k: "GetSampleSize 3 (pod_size u8_pod) demo_sort_files = 4"
    by (simp add: GetSampleSize_def demo_sort_files_def demo_bytes_def u8_size MAIN_MEMORY_SIZE_def O_DIRECT_MULTIPLE_def Let_def)
  have "length (all_elems u8_pod demo_sort_fs demo_sort_files) = demo_bytes"
    by (simp add: all_elems_def demo_sort_files_def u8_size)
  moreover have "aligned_files u8_pod demo_sort_fs demo_sort_files"
    by (simp add: aligned_files_def demo_sort_files_def u8_size demo_sort_fs_def file_of_def) (simp add: demo_bytes_def O_DIRECT_MULTIPLE_def)
  moreover have "sum_list (map fi_true_size demo_sort_files) div pod_size u8_pod = demo_bytes"
    by (simp add: demo_sort_files_def u8_size)
  moreover have "min demo_bytes 8 = 8" "8 \<le> demo_bytes" by (simp_all add: demo_bytes_def)
  ultimately show ?thesis unfolding samples_ok_def Let_def k by simp
qed

lemma word_sorts: "strict_weak ((<) :: byte \<Rightarrow> byte \<Rightarrow> bool)" "sorts (<) (sort :: byte list \<Rightarrow> byte list)"
  by (auto simp: strict_weak_def sorts_def not_less)

lemma sample_sort_correct_witness:
  "\<exists>results fs'. SampleSort u8_pod 4096 2147479552 3 (\<lambda>k. 2) (\<lambda>i. i) (\<lambda>i. i) (<) sort sort
     (\<lambda>i. replicate 8192 0) (\<lambda>i. []) (\<lambda>i. []) [] [new_FileInfo ''a'' 0 0 0] ''out'' demo_sort_fs results fs'"
  using sample_sort_correct [OF u8_repr.pod_repr_axioms demo_sort_ok(3) _ demo_sort_info demo_sort_ok(1,2) word_sorts _ demo_sort_ok(4,5)]
    demo_samples_ok by simp

text \<open>C38: Picking pivots stays inside the samples whenever there are at least two samples per pivot, and
gives the number of pivots that was asked for; with one, two or three pivots, which is what the sort
asks for on small inputs, it reads behind the samples.\<close>

theorem pick_pivots_bounds:
  assumes "2 * k \<le> length samples" and "length samples < 2 ^ 64"
  shows "(\<exists>ps. pick_pivots samples (length samples) 0 k = Some ps \<and> length ps = k \<and> set ps \<subseteq> set samples) \<and>
    (\<forall>few xs. few \<in> {1, 2, 3} \<and> length xs = few \<longrightarrow> pick_pivots (xs :: 'a list) few 0 few = None)"
proof (intro conjI allI impI)
  show "\<exists>ps. pick_pivots samples (length samples) 0 k = Some ps \<and> length ps = k \<and> set ps \<subseteq> set samples"
    using pick_pivots_Some [OF refl _ assms(2), of k 0] assms(1) by (simp only: add_0_right)
  show "pick_pivots xs few 0 few = None" if "few \<in> {1, 2, 3} \<and> length xs = few" for few and xs :: "'a list"
    using that by (intro pick_pivots_few) (rule conjunct1, assumption, rule conjunct2, assumption)
qed

lemma pick_pivots_bounds_witness:
  "\<exists>ps. pick_pivots [3 :: nat, 5, 7, 9] (length [3 :: nat, 5, 7, 9]) 0 2 = Some ps \<and> length ps = 2 \<and> set ps \<subseteq> {3, 5, 7, 9}"
proof -
  have "2 * 2 \<le> length [3 :: nat, 5, 7, 9]" "length [3 :: nat, 5, 7, 9] < 2 ^ 64" by simp_all
  from pick_pivots_bounds [OF this] have "\<exists>ps. pick_pivots [3 :: nat, 5, 7, 9] (length [3 :: nat, 5, 7, 9]) 0 2 = Some ps \<and>
      length ps = 2 \<and> set ps \<subseteq> set [3, 5, 7, 9]" by (rule conjunct1)
  then show ?thesis by (simp only: list.set)
qed

text \<open>C20: \<open>Permute\<close> permutes: for any random buckets, any in-memory shuffle and any interleaving a run
exists, and the result files of a run together hold exactly the elements of the input files.\<close>

theorem Permute_correct:
  assumes "pod_repr P" and "element_size_ok P R" and "2 < T"
    and "GetFileInfo fs False True input_files = Some files0" and "files = ComputeBeforeSize files0"
    and "inputs_ok fs files" and "memory_ok junk files"
    and "\<forall>m g. 0 < m \<longrightarrow> dist m g < m" and "\<forall>xs. mset (shuffle xs) = mset xs"
    and "CHR ''/'' \<notin> set result_prefix" and "separate_prefixes ssds scatter_prefix result_prefix"
    and "files_apart ssds scatter_prefix files"
  shows "(\<exists>results fs'. Permute P R cap T dist shuffle junk buffers ssds input_files result_prefix fs results fs') \<and>
    (\<forall>results fs'. Permute P R cap T dist shuffle junk buffers ssds input_files result_prefix fs results fs' \<longrightarrow>
      (\<forall>r \<in> set results. fi_file_size r \<le> cap) \<longrightarrow>
      mset (concat (map (result_elems P fs') results)) = mset (concat (map (file_elems P fs) files)))"
  using Permute_result [OF assms(1-11)] by blast

lemma Permute_correct_witness:
  "\<exists>results fs'. Permute u8_pod 4096 2147479552 3 (\<lambda>m g. g mod m) rev
     (\<lambda>i. replicate 8192 0) (\<lambda>i. []) [] [new_FileInfo ''a'' 0 0 0] ''out'' demo_sort_fs results fs'"
proof -
  have "ComputeBeforeSize demo_sort_files = demo_sort_files" by (simp add: ComputeBeforeSize_def demo_sort_files_def)
  then show ?thesis
    using Permute_correct [OF u8_repr.pod_repr_axioms demo_sort_ok(3) _ demo_sort_info refl, of 3 "\<lambda>i. replicate 8192 0"
        "\<lambda>m g. g mod m" rev "''out''" "[]"] demo_sort_ok by simp
qed

end
