(* ===== verification/ReaderAllocator.thy ===== *)
theory ReaderAllocator
  imports Prelude
begin

text \<open>
  \<open>ReaderAllocator\<close> of utils/unordered_file_reader.h and utils/unordered_file_reader_modified.h: the
  pool of read buffers that the readers and their clients share. A pointer is its address. Every
  critical section of a lock is one step; \<open>AllocateMoreMemory\<close> holds \<open>allocation_lock\<close> from its
  size check to the end, but the free list is locked only while it is changed. \<open>al_used\<close> records the
  buffers that are handed out. \<open>R\<close> is \<open>READ_SIZE\<close>, \<open>aligned_alloc\<close> may return any region that does
  not overlap an earlier one.
\<close>

definition INITIAL_BUFFER_COUNT :: nat where
  "INITIAL_BUFFER_COUNT = 100"

definition ALLOCATION_BUFFERS :: nat where
  "ALLOCATION_BUFFERS = 100"

definition ALLOCATION_THRESHOLD :: nat where
  "ALLOCATION_THRESHOLD = 20"

text \<open>Where a thread is inside \<open>Alloc\<close>: before its lock, on the way to \<open>AllocateMoreMemory\<close>, or past its check.\<close>

datatype alloc_phase = Trying | Starved | Filling

record reader_allocator =
  al_free_list :: "nat list"
  al_allocations :: "(nat \<times> nat) list"
  al_lock :: "nat option"
  al_threads :: "alloc_phase list"
  al_used :: "nat list"

definition slab :: "nat \<Rightarrow> nat \<Rightarrow> nat \<Rightarrow> nat list" where
  "slab R ptr num_pointers = map (\<lambda>i. ptr + i * R) [0..<num_pointers]"

definition fill_pool :: "nat \<Rightarrow> nat \<Rightarrow> nat \<Rightarrow> reader_allocator \<Rightarrow> reader_allocator" where
  "fill_pool R ptr num_pointers a =
     a\<lparr>al_free_list := al_free_list a @ slab R ptr num_pointers,
       al_allocations := al_allocations a @ [(ptr, num_pointers)]\<rparr>"

definition new_allocator :: "nat \<Rightarrow> nat \<Rightarrow> nat \<Rightarrow> reader_allocator" where
  "new_allocator R ptr num_threads =
     fill_pool R ptr INITIAL_BUFFER_COUNT
       \<lparr>al_free_list = [], al_allocations = [], al_lock = None, al_threads = replicate num_threads Trying, al_used = []\<rparr>"

text \<open>One pass of the loop of \<open>Alloc\<close> under the lock of the free list: the last pointer, or starvation.\<close>

definition alloc_try :: "nat \<Rightarrow> reader_allocator \<Rightarrow> reader_allocator option" where
  "alloc_try i a =
     (if i < length (al_threads a) \<and> al_threads a ! i = Trying
      then Some (if al_free_list a \<noteq> []
                 then a\<lparr>al_free_list := butlast (al_free_list a), al_used := last (al_free_list a) # al_used a\<rparr>
                 else a\<lparr>al_threads := (al_threads a)[i := Starved]\<rparr>)
      else None)"

text \<open>\<open>AllocateMoreMemory\<close> gets \<open>allocation_lock\<close> and compares the size of the free list.\<close>

definition alloc_enter :: "nat \<Rightarrow> reader_allocator \<Rightarrow> reader_allocator option" where
  "alloc_enter i a =
     (if i < length (al_threads a) \<and> al_threads a ! i = Starved \<and> al_lock a = None
      then Some (if ALLOCATION_THRESHOLD < length (al_free_list a)
                 then a\<lparr>al_threads := (al_threads a)[i := Trying]\<rparr>
                 else a\<lparr>al_threads := (al_threads a)[i := Filling], al_lock := Some i\<rparr>)
      else None)"

definition fresh_region :: "nat \<Rightarrow> nat \<Rightarrow> nat \<Rightarrow> (nat \<times> nat) list \<Rightarrow> bool" where
  "fresh_region R ptr n allocations \<longleftrightarrow>
     (\<forall>(b, m) \<in> set allocations. ptr + n * R \<le> b \<or> b + m * R \<le> ptr)"

definition alloc_fill :: "nat \<Rightarrow> nat \<Rightarrow> nat \<Rightarrow> reader_allocator \<Rightarrow> reader_allocator option" where
  "alloc_fill R ptr i a =
     (if i < length (al_threads a) \<and> al_threads a ! i = Filling \<and> fresh_region R ptr ALLOCATION_BUFFERS (al_allocations a)
      then Some ((fill_pool R ptr ALLOCATION_BUFFERS a)\<lparr>al_threads := (al_threads a)[i := Trying], al_lock := None\<rparr>)
      else None)"

text \<open>A client gives back a buffer it holds.\<close>

definition alloc_free :: "nat \<Rightarrow> reader_allocator \<Rightarrow> reader_allocator option" where
  "alloc_free ptr a =
     (if ptr \<in> set (al_used a)
      then Some (a\<lparr>al_free_list := al_free_list a @ [ptr], al_used := remove1 ptr (al_used a)\<rparr>)
      else None)"

inductive alloc_step :: "nat \<Rightarrow> reader_allocator \<Rightarrow> reader_allocator \<Rightarrow> bool" for R where
  astep_try: "alloc_try i a = Some a' \<Longrightarrow> alloc_step R a a'"
| astep_enter: "alloc_enter i a = Some a' \<Longrightarrow> alloc_step R a a'"
| astep_fill: "alloc_fill R ptr i a = Some a' \<Longrightarrow> alloc_step R a a'"
| astep_free: "alloc_free ptr a = Some a' \<Longrightarrow> alloc_step R a a'"

inductive_cases alloc_stepE: "alloc_step R a a'"

section \<open>The invariant\<close>

definition all_slabs :: "nat \<Rightarrow> (nat \<times> nat) list \<Rightarrow> nat list" where
  "all_slabs R allocations = concat (map (\<lambda>(b, n). slab R b n) allocations)"

text \<open>The allocations do not overlap, in the order in which they were made.\<close>

fun regions_ok :: "nat \<Rightarrow> (nat \<times> nat) list \<Rightarrow> bool" where
  "regions_ok R [] = True"
| "regions_ok R ((b, n) # rs) = (fresh_region R b n rs \<and> regions_ok R rs)"

definition apart :: "nat \<Rightarrow> nat \<Rightarrow> nat \<Rightarrow> bool" where
  "apart R p q \<longleftrightarrow> p + R \<le> q \<or> q + R \<le> p"

lemma slab_step: "x < n \<Longrightarrow> x * R + R \<le> n * (R::nat)"
  using mult_le_mono1 [of "Suc x" n R] by simp

lemma slab_apart: "sorted_wrt (apart R) (slab R b n)"
  unfolding slab_def sorted_wrt_map
  by (rule sorted_wrt_mono_rel [OF _ sorted_wrt_upt]) (auto simp: apart_def intro: slab_step)

lemma slab_inside: "p \<in> set (slab R b n) \<Longrightarrow> b \<le> p \<and> p + R \<le> b + n * R"
  unfolding slab_def by (auto intro: slab_step)

lemma fresh_apart:
  assumes "fresh_region R b n rs" and "p \<in> set (slab R b n)" and "q \<in> set (all_slabs R rs)"
  shows "apart R p q"
proof -
  obtain c m where c: "(c, m) \<in> set rs" "q \<in> set (slab R c m)" using assms(3) by (auto simp: all_slabs_def)
  then have "b + n * R \<le> c \<or> c + m * R \<le> b" using assms(1) by (auto simp: fresh_region_def)
  then show ?thesis using slab_inside [OF assms(2)] slab_inside [OF c(2)] by (auto simp: apart_def)
qed

lemma regions_apart: "regions_ok R rs \<Longrightarrow> sorted_wrt (apart R) (all_slabs R rs)"
proof (induction R rs rule: regions_ok.induct)
  case (1 R)
  then show ?case by (simp add: all_slabs_def)
next
  case (2 R b n rs)
  have "all_slabs R ((b, n) # rs) = slab R b n @ all_slabs R rs" by (simp add: all_slabs_def)
  then show ?case using 2 slab_apart fresh_apart by (auto simp: sorted_wrt_append)
qed

lemma regions_snoc: "regions_ok R (rs @ [(b, n)]) \<longleftrightarrow> regions_ok R rs \<and> fresh_region R b n rs"
  by (induction R rs rule: regions_ok.induct) (auto simp: fresh_region_def)

definition alloc_inv :: "nat \<Rightarrow> reader_allocator \<Rightarrow> bool" where
  "alloc_inv R a \<longleftrightarrow>
     mset (al_free_list a @ al_used a) = mset (all_slabs R (al_allocations a)) \<and>
     regions_ok R (al_allocations a) \<and>
     (\<forall>i < length (al_threads a). al_threads a ! i = Filling \<longleftrightarrow> al_lock a = Some i) \<and>
     (\<forall>i. al_lock a = Some i \<longrightarrow> i < length (al_threads a))"

lemma alloc_step_inv:
  assumes "alloc_step R a a'" and inv: "alloc_inv R a"
  shows "alloc_inv R a'"
  using assms(1)
proof cases
  case (astep_try i)
  show ?thesis
  proof (cases "al_free_list a = []")
    case True
    have i: "i < length (al_threads a)" "al_threads a ! i = Trying" and a': "a' = a\<lparr>al_threads := (al_threads a)[i := Starved]\<rparr>"
      using astep_try True by (auto simp: alloc_try_def split: if_splits)
    then have "al_lock a \<noteq> Some i" using inv unfolding alloc_inv_def by (metis alloc_phase.distinct(3))
    then show ?thesis using i inv unfolding a' by (auto simp: alloc_inv_def nth_list_update)
  next
    case False
    have i: "i < length (al_threads a)" "al_threads a ! i = Trying"
      and a': "a' = a\<lparr>al_free_list := butlast (al_free_list a), al_used := last (al_free_list a) # al_used a\<rparr>"
      using astep_try False by (auto simp: alloc_try_def split: if_splits)
    have fl: "al_free_list a' = butlast (al_free_list a)" "al_used a' = last (al_free_list a) # al_used a" by (simp_all add: a')
    have "butlast (al_free_list a) @ last (al_free_list a) # al_used a = al_free_list a @ al_used a"
      using append_butlast_last_id [OF False] by (metis append.assoc append_Cons append_Nil)
    then have "mset (al_free_list a' @ al_used a') = mset (al_free_list a @ al_used a)"
      by (simp only: fl)
    moreover have "al_allocations a' = al_allocations a" "al_threads a' = al_threads a" "al_lock a' = al_lock a"
      by (simp_all add: a')
    ultimately show ?thesis using inv unfolding alloc_inv_def by (auto simp only:)
  qed
next
  case (astep_enter i)
  then show ?thesis using inv by (auto simp: alloc_enter_def alloc_inv_def nth_list_update split: if_splits)
next
  case (astep_fill ptr i)
  then show ?thesis
    using inv by (auto simp: alloc_fill_def fill_pool_def alloc_inv_def regions_snoc all_slabs_def nth_list_update split: if_splits)
next
  case (astep_free ptr)
  then have ptr: "ptr \<in># mset (al_used a)" and a': "a' = a\<lparr>al_free_list := al_free_list a @ [ptr], al_used := remove1 ptr (al_used a)\<rparr>"
    by (auto simp: alloc_free_def split: if_splits)
  have "mset (al_free_list a' @ al_used a') = mset (al_free_list a) + add_mset ptr (mset (al_used a) - {#ptr#})"
    by (simp add: a')
  also have "\<dots> = mset (al_free_list a @ al_used a)" using ptr by (simp only: insert_DiffM mset_append)
  finally have "mset (al_free_list a' @ al_used a') = mset (al_free_list a @ al_used a)" .
  moreover have "al_allocations a' = al_allocations a" "al_threads a' = al_threads a" "al_lock a' = al_lock a"
    by (simp_all add: a')
  ultimately show ?thesis using inv unfolding alloc_inv_def by (auto simp only:)
qed

lemma new_allocator_inv: "alloc_inv R (new_allocator R ptr num_threads)"
  by (simp add: alloc_inv_def new_allocator_def fill_pool_def all_slabs_def fresh_region_def)


lemma reach_alloc_inv:
  assumes "rtranclp (alloc_step R) a0 a" and "alloc_inv R a0"
  shows "alloc_inv R a"
  using assms by (induction rule: rtranclp_induct) (auto intro: alloc_step_inv)

lemma sorted_wrt_distinct: "0 < R \<Longrightarrow> sorted_wrt (apart R) ps \<Longrightarrow> distinct ps"
  by (induction ps) (auto simp: apart_def)

lemma apart_members:
  assumes "sorted_wrt (apart R) ps" and "p \<in> set ps" and "q \<in> set ps" and "p \<noteq> q"
  shows "apart R p q"
  using assms by (induction ps) (auto simp: apart_def)

lemma fresh_region_exists: "\<exists>ptr. fresh_region R ptr n rs"
proof (intro exI)
  have "b + m * R \<le> (\<Sum>(b, m)\<leftarrow>rs. b + m * R)" if "(b, m) \<in> set rs" for b m
    using that by (induction rs) auto
  then show "fresh_region R (\<Sum>(b, m)\<leftarrow>rs. b + m * R) n rs" by (auto simp: fresh_region_def)
qed

lemma alloc_progress:
  assumes inv: "alloc_inv R a" and ne: "al_threads a \<noteq> []"
  shows "\<exists>a'. alloc_step R a a'"
proof -
  consider (trying) i where "i < length (al_threads a)" "al_threads a ! i = Trying"
    | (filling) i where "i < length (al_threads a)" "al_threads a ! i = Filling"
    | (starved) "\<forall>i < length (al_threads a). al_threads a ! i = Starved"
    using alloc_phase.exhaust by metis
  then show ?thesis
  proof cases
    case (trying i)
    then have "\<exists>a'. alloc_try i a = Some a'" by (simp add: alloc_try_def)
    then show ?thesis by (auto intro: astep_try)
  next
    case (filling i)
    obtain ptr where "fresh_region R ptr ALLOCATION_BUFFERS (al_allocations a)" using fresh_region_exists by blast
    then have "\<exists>a'. alloc_fill R ptr i a = Some a'" using filling by (simp add: alloc_fill_def)
    then show ?thesis by (auto intro: astep_fill)
  next
    case starved
    have "al_lock a = None"
    proof (cases "al_lock a")
      case (Some i)
      then have "i < length (al_threads a)" "al_threads a ! i = Filling" using inv by (auto simp: alloc_inv_def)
      then show ?thesis using starved by simp
    qed
    then have "\<exists>a'. alloc_enter 0 a = Some a'" using starved ne by (simp add: alloc_enter_def)
    then show ?thesis by (auto intro: astep_enter)
  qed
qed

section \<open>Properties\<close>

text \<open>C22: The allocator never hands out memory that is in use. In every state that any number of threads
can reach from a new pool by allocating, starving, adding memory and giving buffers back, the buffers
in the pool and those in use are all different, do not overlap and lie in the allocations; only one
thread at a time adds memory; and as long as memory can be had the threads are never stuck.\<close>

theorem allocator_safe:
  assumes "rtranclp (alloc_step R) (new_allocator R ptr num_threads) a" and "0 < R"
  shows "distinct (al_free_list a @ al_used a) \<and>
    (\<forall>p \<in> set (al_free_list a @ al_used a). \<forall>q \<in> set (al_free_list a @ al_used a). p = q \<or> p + R \<le> q \<or> q + R \<le> p) \<and>
    (\<forall>p \<in> set (al_free_list a @ al_used a). \<exists>(b, n) \<in> set (al_allocations a). b \<le> p \<and> p + R \<le> b + n * R) \<and>
    (\<forall>i j. i < length (al_threads a) \<and> j < length (al_threads a) \<and> al_threads a ! i = Filling \<and> al_threads a ! j = Filling \<longrightarrow> i = j) \<and>
    (al_threads a \<noteq> [] \<longrightarrow> (\<exists>a'. alloc_step R a a'))"
proof -
  have inv: "alloc_inv R a" using reach_alloc_inv [OF assms(1) new_allocator_inv] .
  then have ms: "mset (al_free_list a @ al_used a) = mset (all_slabs R (al_allocations a))" and ok: "regions_ok R (al_allocations a)"
    by (simp_all add: alloc_inv_def)
  note st = regions_apart [OF ok]
  have "distinct (al_free_list a @ al_used a)"
    using sorted_wrt_distinct [OF assms(2) st] mset_eq_imp_distinct_iff [OF ms] by blast
  moreover have "\<forall>p \<in> set (al_free_list a @ al_used a). \<forall>q \<in> set (al_free_list a @ al_used a). p = q \<or> p + R \<le> q \<or> q + R \<le> p"
    unfolding mset_eq_setD [OF ms] using apart_members [OF st] unfolding apart_def by blast
  moreover have "\<forall>p \<in> set (al_free_list a @ al_used a). \<exists>(b, n) \<in> set (al_allocations a). b \<le> p \<and> p + R \<le> b + n * R"
    unfolding mset_eq_setD [OF ms] all_slabs_def using slab_inside by fastforce
  moreover have "\<forall>i j. i < length (al_threads a) \<and> j < length (al_threads a) \<and> al_threads a ! i = Filling \<and> al_threads a ! j = Filling \<longrightarrow> i = j"
    using inv by (auto simp: alloc_inv_def)
  ultimately show ?thesis using alloc_progress [OF inv] by blast
qed

lemma allocator_safe_witness:
  "distinct (al_free_list (new_allocator 4096 8192 3) @ al_used (new_allocator 4096 8192 3))"
  using allocator_safe [OF rtranclp.rtrancl_refl, of 4096 8192 3] by simp

end
