(* ===== verification/FileOps.thy ===== *)
theory FileOps
  imports FileReader FileWriter Interleaving Consumers
begin

text \<open>
  sequence_algorithms/map.h and reduce.h: \<open>Map\<close> sends every chunk of the input files through \<open>f\<close> to
  the same place of the output files, \<open>Reduce\<close> folds all elements with a monoid. \<open>R\<close> is
  \<open>READER_READ_SIZE\<close>, \<open>W\<close> the number of workers of the library.
\<close>

section \<open>Map\<close>

definition map_reader_config :: UnorderedReaderConfig where
  "map_reader_config = default_file_reader_config\<lparr>uc_num_threads := 5, uc_max_requests := 16, uc_queue_depth := 8\<rparr>"

definition map_writer_config :: "nat \<Rightarrow> UnorderedChunkWriterConfig" where
  "map_writer_config num_files =
     default_file_writer_config\<lparr>wc_io_uring_size := 8, wc_num_threads := 5, wc_num_files := num_files\<rparr>"

text \<open>
  The push of one polled chunk: the image of its elements, for the place of the chunk in the file
  with its index. In the \<open>in_place\<close> branch, which is the default for types of the same size, the image
  is stored back into the polled buffer, so converted to the input type (\<open>to_input\<close>), and the bytes are
  then taken for elements of the output type.
\<close>

definition map_elem :: "bool \<Rightarrow> ('b \<Rightarrow> 'a) \<Rightarrow> 'a pod \<Rightarrow> 'b pod \<Rightarrow> ('a \<Rightarrow> 'b) \<Rightarrow> 'a \<Rightarrow> 'b" where
  "map_elem in_place to_input P PR f x = (if in_place then pod_dec PR (pod_enc P (to_input (f x))) else f x)"

definition map_request :: "bool \<Rightarrow> ('b \<Rightarrow> 'a) \<Rightarrow> 'a pod \<Rightarrow> ('a \<Rightarrow> 'b) \<Rightarrow> 'b pod \<Rightarrow> 'a FileBuffer \<Rightarrow> 'b write_request" where
  "map_request in_place to_input P f PR d =
     explicit_request (map (map_elem in_place to_input P PR f) (take (fb_size d) (fb_data d))) (fb_size d)
       (fb_file_index d) (fb_index d * pod_size PR)"

text \<open>
  The workers push in any order. Every pushed buffer is given to \<open>free\<close> after its write; a buffer of
  the \<open>in_place\<close> branch lies inside a slab of the reader's allocator, so its release is undefined, and
  there is a result only without any chunk.
\<close>

definition MapFiles :: "bool \<Rightarrow> ('b \<Rightarrow> 'a) \<Rightarrow> nat \<Rightarrow> string list \<Rightarrow> 'a pod \<Rightarrow> 'b pod \<Rightarrow> nat \<Rightarrow> ('a \<Rightarrow> 'b) \<Rightarrow> string \<Rightarrow> fstore \<Rightarrow>
    FileInfo list \<Rightarrow> fstore \<Rightarrow> bool" where
  "MapFiles in_place to_input A ssds P PR R f result_prefix fs files fs' \<longleftrightarrow>
     (\<exists>ds rs. file_polls P R map_reader_config fs files ds \<and>
        mset rs = mset (map (map_request in_place to_input P f PR) ds) \<and> (in_place \<longrightarrow> ds = []) \<and>
        file_writer_runs A ssds (map_writer_config (length files)) PR (file_names ssds result_prefix (length files)) fs rs fs')"

section \<open>Reduce\<close>

definition reduce_reader_config :: UnorderedReaderConfig where
  "reduce_reader_config = default_file_reader_config\<lparr>uc_num_threads := 10, uc_max_requests := 4, uc_queue_depth := 8\<rparr>"

text \<open>One worker: it stops at a chunk without elements, which is how it sees the end.\<close>

fun reduce_loop :: "('r \<Rightarrow> 'r \<Rightarrow> 'r) \<Rightarrow> ('a \<Rightarrow> 'r) \<Rightarrow> 'a FileBuffer list \<Rightarrow> 'r \<Rightarrow> 'r" where
  "reduce_loop f conv [] acc = acc"
| "reduce_loop f conv (d # ds) acc =
     (if fb_size d = 0 then acc else reduce_loop f conv ds (acc_loop f conv (take (fb_size d) (fb_data d)) acc))"

text \<open>
  The workers poll \<open>polled\<close>; either that is everything, or every worker has stopped at an empty chunk.
\<close>

definition reduce_shares :: "nat \<Rightarrow> 'a FileBuffer list \<Rightarrow> 'a FileBuffer list list \<Rightarrow> bool" where
  "reduce_shares W ds shares \<longleftrightarrow>
     (\<exists>polled left. ds = polled @ left \<and> length shares = W \<and> interleave shares polled \<and>
        (\<forall>share \<in> set shares. \<forall>d \<in> set (butlast share). fb_size d \<noteq> 0) \<and>
        (left = [] \<or> (\<forall>share \<in> set shares. share \<noteq> [] \<and> fb_size (last share) = 0)))"

definition ReduceFiles :: "nat \<Rightarrow> ('r \<Rightarrow> 'r \<Rightarrow> 'r) \<Rightarrow> 'r \<Rightarrow> ('a \<Rightarrow> 'r) \<Rightarrow> 'a pod \<Rightarrow> nat \<Rightarrow> fstore \<Rightarrow> FileInfo list \<Rightarrow> 'r \<Rightarrow> bool" where
  "ReduceFiles W f e conv P R fs files r \<longleftrightarrow>
     (\<exists>ds shares. file_polls P R reduce_reader_config fs files ds \<and> reduce_shares W ds shares \<and>
        bracketing f (map (\<lambda>share. reduce_loop f conv share e) shares) r)"

section \<open>Chunks of whole elements\<close>

definition whole_files :: "'a pod \<Rightarrow> nat \<Rightarrow> fstore \<Rightarrow> FileInfo list \<Rightarrow> bool" where
  "whole_files P R fs files \<longleftrightarrow> 0 < pod_size P \<and> pod_size P dvd R \<and> 0 < R \<and> O_DIRECT_MULTIPLE dvd R \<and>
     (\<forall>info \<in> set files. file_on_disk fs info \<and> pod_size P dvd fi_file_size info)"

definition file_chunk :: "'a pod \<Rightarrow> nat \<Rightarrow> fstore \<Rightarrow> FileInfo \<Rightarrow> nat \<Rightarrow> nat \<times> nat \<times> 'a list" where
  "file_chunk P R fs info c =
     (fi_file_index info, c * (R div pod_size P), run_of (R div pod_size P) (file_elems P fs info) c)"

lemma whole_items:
  assumes "whole_files P R fs files"
  shows "file_items P R None fs files =
    mset (concat (map (\<lambda>info. map (file_chunk P R fs info) [0..<ceil_div (fi_file_size info) R]) files))"
proof -
  have sz: "0 < pod_size P" "pod_size P dvd R" "0 < R" and disk: "\<forall>info \<in> set files. file_on_disk fs info"
    using assms by (simp_all add: whole_files_def)
  have "file_items P R None fs files = (\<Sum>info\<leftarrow>files. file_items P R None fs [info])" by (simp add: file_items_def)
  also have "\<dots> = (\<Sum>info\<leftarrow>files. mset (map (file_chunk P R fs info) [0..<ceil_div (fi_file_size info) R]))"
    using whole_file_items [OF sz] disk by (intro arg_cong [of _ _ sum_list] map_cong refl) (simp add: file_chunk_def [abs_def])
  finally show ?thesis by (simp only: mset_concat map_map comp_def)
qed

lemma chunk_nonempty:
  assumes "whole_files P R fs files" and "info \<in> set files" and "c < ceil_div (fi_file_size info) R"
  shows "snd (snd (file_chunk P R fs info c)) \<noteq> []"
proof -
  have sz: "0 < pod_size P" "pod_size P dvd R" "0 < R" "pod_size P dvd fi_file_size info"
    using assms(1,2) by (simp_all add: whole_files_def)
  have "c * R < fi_file_size info" using assms(3) less_ceil_div_iff [OF sz(3)] by blast
  moreover have "c * R = c * (R div pod_size P) * pod_size P" "fi_file_size info = fi_file_size info div pod_size P * pod_size P"
    using sz by simp_all
  ultimately have "c * (R div pod_size P) < fi_file_size info div pod_size P" by (metis mult_less_cancel2)
  moreover have "0 < R div pod_size P" using sz by (simp add: dvd_imp_le div_greater_zero_iff)
  ultimately show ?thesis by (simp add: file_chunk_def run_of_def file_elems_def)
qed

section \<open>Reduce folds everything\<close>

lemma reduce_loop_fold:
  assumes f: "comm_op f e" and "\<forall>d \<in> set ds. fb_size d \<noteq> 0"
  shows "reduce_loop f conv ds acc = f acc (fold_of f e (map conv (concat (map chunk_elems_of ds))))"
  using assms(2)
proof (induction ds arbitrary: acc)
  case Nil
  then show ?case by (simp add: comm_opD(4) [OF f])
next
  case (Cons d ds)
  then have "reduce_loop f conv (d # ds) acc = f (f acc (fold_of f e (map conv (chunk_elems_of d)))) (fold_of f e (map conv (concat (map chunk_elems_of ds))))"
    by (simp add: acc_loop_fold [OF f] flip: chunk_elems_of_def)
  then show ?case by (simp add: comm_opD(1) [OF f] fold_of_append [OF f])
qed

lemma reduce_shares_fold:
  assumes f: "comm_op f e" and "\<forall>d \<in> set (concat shares). fb_size d \<noteq> 0"
  shows "fold_of f e (map (\<lambda>share. reduce_loop f conv share e) shares) =
    fold_of f e (map conv (concat (map chunk_elems_of (concat shares))))"
  using assms(2)
proof (induction shares)
  case Nil
  then show ?case by simp
next
  case (Cons share shares)
  then have "reduce_loop f conv share e = fold_of f e (map conv (concat (map chunk_elems_of share)))"
    using reduce_loop_fold [OF f, of share conv e] comm_opD(3) [OF f] by simp
  then show ?case using Cons by (simp add: fold_of_append [OF f])
qed

lemma reduce_config_ok: "file_config_ok reduce_reader_config" "uc_active_chunks reduce_reader_config = None"
  by (simp_all add: file_config_ok_def reduce_reader_config_def default_file_reader_config_def)

lemma polled_chunks:
  assumes wf: "whole_files P R fs files" and cfg: "file_config_ok cfg" "uc_active_chunks cfg = None"
    and p: "file_polls P R cfg fs files ds"
  shows "mset (map fb_core ds) =
      mset (concat (map (\<lambda>info. map (file_chunk P R fs info) [0..<ceil_div (fi_file_size info) R]) files))"
    and "\<forall>d \<in> set ds. fb_size d \<noteq> 0 \<and> fb_size d \<le> length (fb_data d)"
    and "mset (concat (map chunk_elems_of ds)) = mset (concat (map (file_elems P fs) files))"
proof -
  have sz: "0 < pod_size P" "pod_size P dvd R" "0 < R" "O_DIRECT_MULTIPLE dvd R" and disk: "\<forall>info \<in> set files. file_on_disk fs info"
    using wf by (simp_all add: whole_files_def)
  have items: "mset (map fb_core ds) = file_items P R None fs files" and ok: "\<forall>d \<in> set ds. fb_ok (R div pod_size P) d"
    using file_reader.polls_items [OF p cfg(1) sz(3,4,1) disk] cfg(2) by simp_all
  then show m: "mset (map fb_core ds) = mset (concat (map (\<lambda>info. map (file_chunk P R fs info) [0..<ceil_div (fi_file_size info) R]) files))"
    using whole_items [OF wf] by simp
  show "mset (concat (map chunk_elems_of ds)) = mset (concat (map (file_elems P fs) files))"
    using file_items_elems(1) [OF sz(1,2,3) disk items] by (simp add: mset_concat comp_def)
  show "\<forall>d \<in> set ds. fb_size d \<noteq> 0 \<and> fb_size d \<le> length (fb_data d)"
  proof
    fix d assume d: "d \<in> set ds"
    then have "fb_core d \<in> set (map fb_core ds)" by simp
    then have "fb_core d \<in> set (concat (map (\<lambda>info. map (file_chunk P R fs info) [0..<ceil_div (fi_file_size info) R]) files))"
      unfolding mset_eq_setD [OF m] .
    then obtain info c where "info \<in> set files" "c < ceil_div (fi_file_size info) R" "fb_core d = file_chunk P R fs info c" by auto
    then have "snd (snd (fb_core d)) \<noteq> []" using chunk_nonempty [OF wf] by metis
    then show "fb_size d \<noteq> 0 \<and> fb_size d \<le> length (fb_data d)" using ok d by (auto simp: fb_core_def fb_ok_def)
  qed
qed

lemma ReduceFiles_fold:
  assumes wf: "whole_files P R fs files" and f: "comm_op f e" and W: "0 < W"
  shows "\<exists>r. ReduceFiles W f e conv P R fs files r"
    and "ReduceFiles W f e conv P R fs files r \<Longrightarrow> r = fold_of f e (map conv (concat (map (file_elems P fs) files)))"
proof -
  have sz: "0 < pod_size P" "0 < R" "O_DIRECT_MULTIPLE dvd R" and disk: "\<forall>info \<in> set files. file_on_disk fs info"
    using wf by (simp_all add: whole_files_def)
  note chunks = polled_chunks [OF wf reduce_config_ok]
  show "\<exists>r. ReduceFiles W f e conv P R fs files r"
  proof -
    obtain ds where ds: "file_polls P R reduce_reader_config fs files ds"
      using file_reader.polls_exist [OF reduce_config_ok(1) sz(2,3,1) disk] by blast
    let ?shares = "ds # replicate (W - 1) []"
    have "\<forall>d \<in> set (butlast ds). fb_size d \<noteq> 0" using chunks(2) [OF ds] by (meson in_set_butlastD)
    then have "reduce_shares W ds ?shares"
      using W interleave_first [of ds "W - 1"] unfolding reduce_shares_def by (intro exI [of _ ds] exI [of _ "[]"]) auto
    moreover obtain v where "bracketing f (map (\<lambda>share. reduce_loop f conv share e) ?shares) v"
      using bracketing_exists [of "map (\<lambda>share. reduce_loop f conv share e) ?shares" f] by blast
    ultimately show ?thesis using ds unfolding ReduceFiles_def by blast
  qed
  assume "ReduceFiles W f e conv P R fs files r"
  then obtain ds shares where ds: "file_polls P R reduce_reader_config fs files ds" and sh: "reduce_shares W ds shares"
    and br: "bracketing f (map (\<lambda>share. reduce_loop f conv share e) shares) r" unfolding ReduceFiles_def by blast
  obtain polled left where pl: "ds = polled @ left" "length shares = W" "interleave shares polled"
      "left = [] \<or> (\<forall>share \<in> set shares. share \<noteq> [] \<and> fb_size (last share) = 0)"
    using sh unfolding reduce_shares_def by blast
  have ms: "mset polled = mset (concat shares)" using interleave_mset [OF pl(3)] .
  have nz: "\<forall>d \<in> set (concat shares). fb_size d \<noteq> 0"
    using chunks(2) [OF ds] mset_eq_setD [OF ms] pl(1) by auto
  have "shares \<noteq> []" using pl(2) W by auto
  then obtain share where s: "share \<in> set shares" by (cases shares) auto
  have "left = []"
  proof (rule ccontr)
    assume "left \<noteq> []"
    then have sh: "share \<noteq> []" "fb_size (last share) = 0" using pl(4) s by auto
    have "last share \<in> set (concat shares)" using s last_in_set [OF sh(1)] by (simp add: bexI)
    then show False using nz sh(2) by blast
  qed
  then have "mset (concat (map chunk_elems_of (concat shares))) = mset (concat (map (file_elems P fs) files))"
    using chunks(3) [OF ds] mset_concat_map_cong [OF ms, of chunk_elems_of] pl(1) by simp
  then have "mset (map conv (concat (map chunk_elems_of (concat shares)))) = mset (map conv (concat (map (file_elems P fs) files)))"
    by (metis mset_map)
  then show "r = fold_of f e (map conv (concat (map (file_elems P fs) files)))"
    using bracketing_fold [OF br f] reduce_shares_fold [OF f nz, of conv] fold_of_perm [OF f] by metis
qed

section \<open>Map writes every file\<close>

text \<open>The conditions under which the pushes pass the checks of the writer.\<close>

definition map_ok :: "nat \<Rightarrow> 'a pod \<Rightarrow> 'b pod \<Rightarrow> nat \<Rightarrow> fstore \<Rightarrow> FileInfo list \<Rightarrow> bool" where
  "map_ok A P PR R fs files \<longleftrightarrow> whole_files P R fs files \<and> files \<noteq> [] \<and>
     A dvd R div pod_size P * pod_size PR \<and>
     (\<forall>k < length files. fi_file_index (files ! k) = k \<and> A dvd fi_file_size (files ! k) div pod_size P * pod_size PR)"

lemma map_config_ok: "file_config_ok map_reader_config" "uc_active_chunks map_reader_config = None"
  by (simp_all add: file_config_ok_def map_reader_config_def default_file_reader_config_def)

text \<open>A file whose chunks are in place decodes to all its elements.\<close>

lemma chunks_in_place:
  assumes P: "pod_repr P" and E: "0 < E"
    and at: "\<forall>c < ceil_div (length ys) E. take (length (run_of E ys c) * pod_size P) (drop (c * E * pod_size P) F) = enc_list P (run_of E ys c)"
  shows "dec_list P (length ys) F = ys"
proof (rule nth_equalityI)
  show "length (dec_list P (length ys) F) = length ys" by simp
  fix j assume "j < length (dec_list P (length ys) F)"
  then have j: "j < length ys" by simp
  define c i where "c = j div E" and "i = j mod E"
  have ji: "j = c * E + i" "i < E" using E by (simp_all add: c_def i_def)
  then have "c * E < length ys" using j by simp
  then have c: "c < ceil_div (length ys) E" using less_ceil_div_iff [OF E] by blast
  let ?zs = "run_of E ys c" and ?sz = "pod_size P"
  have len: "i < length ?zs" using ji j by (simp add: length_run_of)
  have le: "i * ?sz + ?sz \<le> length ?zs * ?sz" using len mult_le_mono1 [of "Suc i" "length ?zs" ?sz] by simp
  have "?sz \<le> length ?zs * ?sz - i * ?sz" using le by linarith
  then have "take ?sz (drop (i * ?sz) (take (length ?zs * ?sz) (drop (c * E * ?sz) F))) = take ?sz (drop (i * ?sz) (drop (c * E * ?sz) F))"
    by (simp only: drop_take take_take min_absorb1)
  then have "take ?sz (drop (j * ?sz) F) = take ?sz (drop (i * ?sz) (take (length ?zs * ?sz) (drop (c * E * ?sz) F)))"
    by (simp only: ji(1) drop_drop add_mult_distrib add.commute)
  also have "\<dots> = take ?sz (drop (i * ?sz) (enc_list P ?zs))" using at c by simp
  finally have "pod_dec P (take ?sz (drop (j * ?sz) F)) = dec_list P (length ?zs) (enc_list P ?zs) ! i"
    using nth_dec_list [OF len, of P "enc_list P ?zs"] by simp
  also have "\<dots> = ?zs ! i" using pod_repr.dec_enc_list [OF P] by simp
  also have "\<dots> = ys ! j" using take_drop_nth_run [OF len] ji(1) by simp
  finally show "dec_list P (length ys) F ! j = ys ! j" using nth_dec_list [OF j, of P F] by simp
qed

lemma run_of_map: "run_of k (map f xs) c = map f (run_of k xs c)"
  by (simp add: run_of_def take_map drop_map)

definition map_op :: "string list \<Rightarrow> 'b pod \<Rightarrow> ('a \<Rightarrow> 'b) \<Rightarrow> nat \<times> nat \<times> 'a list \<Rightarrow> write_op" where
  "map_op names PR f i = (names ! fst i, fst (snd i) * pod_size PR, enc_list PR (map f (snd (snd i))))"

lemma map_request_op:
  "fb_size d \<le> length (fb_data d) \<Longrightarrow> request_op PR names (map_request False to_input P f PR d) = map_op names PR f (fb_core d)"
  by (simp add: request_op_def map_request_def map_elem_def [abs_def] explicit_request_def wr_bytes_def map_op_def fb_core_def)

lemma distinct_indexed: "distinct js \<Longrightarrow> distinct (concat (map (\<lambda>j. map (Pair j) [0..<n j]) js))"
  by (induction js) (auto simp: distinct_map inj_on_def)

text \<open>Chunk \<open>c\<close> of file \<open>j\<close>, and what is written for it.\<close>

definition map_pairs :: "nat \<Rightarrow> FileInfo list \<Rightarrow> (nat \<times> nat) list" where
  "map_pairs R files = concat (map (\<lambda>j. map (Pair j) [0..<ceil_div (fi_file_size (files ! j)) R]) [0..<length files])"

definition map_place :: "string list \<Rightarrow> 'a pod \<Rightarrow> 'b pod \<Rightarrow> nat \<Rightarrow> ('a \<Rightarrow> 'b) \<Rightarrow> fstore \<Rightarrow> FileInfo list \<Rightarrow> nat \<times> nat \<Rightarrow> write_op" where
  "map_place names P PR R f fs files p =
     (names ! fst p, snd p * (R div pod_size P * pod_size PR),
      enc_list PR (map f (run_of (R div pod_size P) (file_elems P fs (files ! fst p)) (snd p))))"

lemma map_by_index: "map g xs = map (\<lambda>j. g (xs ! j)) [0..<length xs]"
  by (rule nth_equalityI) simp_all

lemma map_pairs_mem: "(j, c) \<in> set (map_pairs R files) \<longleftrightarrow> j < length files \<and> c < ceil_div (fi_file_size (files ! j)) R"
  by (auto simp: map_pairs_def image_iff)

lemma distinct_map_pairs: "distinct (map_pairs R files)"
  unfolding map_pairs_def by (rule distinct_indexed) simp

lemma map_place_len:
  assumes "pod_repr PR"
  shows "length (snd (snd (map_place names P PR R f fs files p))) \<le> R div pod_size P * pod_size PR"
  by (simp add: map_place_def pod_repr.length_enc_list [OF assms] length_run_of_le)

text \<open>Places with different numbers do not overlap.\<close>

lemma map_places_apart:
  assumes PR: "pod_repr PR" and E: "0 < R div pod_size P" and names: "distinct names" "length files \<le> length names"
    and v: "v \<in> set (map (map_place names P PR R f fs files) (map_pairs R files))"
    and w: "w \<in> set (map (map_place names P PR R f fs files) (map_pairs R files))" and ne: "v \<noteq> w"
  shows "op_disjoint v w"
proof -
  let ?op = "map_place names P PR R f fs files" and ?B = "R div pod_size P * pod_size PR"
  obtain i c j d where vw: "v = ?op (i, c)" "w = ?op (j, d)" and h: "i < length names" "j < length names"
    using v w names(2) by (auto simp: map_pairs_mem)
  have before: "snd p * ?B + length (snd (snd (?op p))) \<le> d * ?B" if "snd p < d" for p d
    using map_place_len [OF PR, of names P R f fs files p] mult_le_mono1 [of "Suc (snd p)" d ?B] that by simp
  show ?thesis
  proof (cases "i = j")
    case True
    then have "c \<noteq> d" using ne vw by auto
    then have "c < d \<or> d < c" by linarith
    then show ?thesis
      using before [of "(i, c)" d] before [of "(j, d)" c] by (auto simp: vw map_place_def op_disjoint_def)
  next
    case False
    then have "names ! i \<noteq> names ! j" using names(1) h by (simp add: nth_eq_iff_index_eq)
    then show ?thesis by (simp add: vw map_place_def op_disjoint_def)
  qed
qed

lemma distinct_map_places:
  assumes PR: "pod_repr PR" and E: "0 < R div pod_size P" and names: "distinct names" "length files \<le> length names"
  shows "distinct (map (map_place names P PR R f fs files) (map_pairs R files))"
proof -
  have "0 < R div pod_size P * pod_size PR" using E pod_repr.size_pos [OF PR] by simp
  then have "inj_on (map_place names P PR R f fs files) (set (map_pairs R files))"
    using names by (intro inj_onI) (auto simp: map_place_def map_pairs_mem nth_eq_iff_index_eq)
  then show ?thesis by (simp add: distinct_map distinct_map_pairs)
qed

text \<open>The requests that \<open>Map\<close> pushes pass the checks of the writer.\<close>

lemma map_requests_valid:
  fixes P :: "'a pod" and PR :: "'b pod"
  assumes ok: "map_ok A P PR R fs files" and ds: "file_polls P R map_reader_config fs files ds" and d: "d \<in> set ds"
  shows "fb_file_index d < length files" and "0 < fb_size d" and "A dvd fb_size d * pod_size PR"
proof -
  let ?E = "R div pod_size P"
  have wf: "whole_files P R fs files" and A: "A dvd ?E * pod_size PR"
    and idx: "\<forall>k < length files. fi_file_index (files ! k) = k"
    and Af: "\<forall>k < length files. A dvd fi_file_size (files ! k) div pod_size P * pod_size PR"
    using ok by (simp_all add: map_ok_def)
  note chunks = polled_chunks [OF wf map_config_ok ds]
  have "fb_core d \<in> set (map fb_core ds)" using d by simp
  then have "fb_core d \<in> set (concat (map (\<lambda>info. map (file_chunk P R fs info) [0..<ceil_div (fi_file_size info) R]) files))"
    unfolding mset_eq_setD [OF chunks(1)] .
  then obtain info c where info: "info \<in> set files" and core: "fb_core d = file_chunk P R fs info c" by auto
  obtain j where j: "j < length files" "info = files ! j" using info by (metis in_set_conv_nth)
  have "fb_size d = length (take (fb_size d) (fb_data d))" using chunks(2) d by auto
  also have "\<dots> = length (run_of ?E (file_elems P fs info) c)" using core by (simp add: fb_core_def file_chunk_def)
  finally have n: "fb_size d = min (fi_file_size info div pod_size P) ((c + 1) * ?E) - c * ?E"
    by (simp add: length_run_of file_elems_def)
  show "A dvd fb_size d * pod_size PR"
    using A Af j unfolding n by (auto simp: min_def diff_mult_distrib add_mult_distrib mult.assoc intro!: dvd_diff_nat dvd_add dvd_mult)
  show "fb_file_index d < length files" using core idx j by (simp add: fb_core_def file_chunk_def)
  show "0 < fb_size d" using chunks(2) d by auto
qed

lemma map_pushes_valid:
  assumes ok: "map_ok A P PR R fs files" and ds: "file_polls P R map_reader_config fs files ds"
    and rs: "mset rs = mset (map (map_request False to_input P f PR) ds)" and r: "r \<in> set rs"
  shows "(\<exists>i. wr_file_index r = Some i \<and> i < length files) \<and> 0 < wr_size r \<and> wr_file_offset r \<noteq> None \<and> push_check PR A r"
proof -
  have "r \<in> set (map (map_request False to_input P f PR) ds)" using r mset_eq_setD [OF rs] by blast
  then obtain d where "d \<in> set ds" "r = map_request False to_input P f PR d" by auto
  with map_requests_valid [OF ok ds this(1)] show ?thesis
    by (simp add: map_request_def map_elem_def [abs_def] explicit_request_def push_check_def mod_eq_0_iff_dvd)
qed

lemma MapFiles_exists:
  assumes ok: "map_ok A P PR R fs files"
  shows "\<exists>fs'. MapFiles False to_input A ssds P PR R f result_prefix fs files fs'"
proof -
  let ?names = "file_names ssds result_prefix (length files)"
  have wf: "pod_size P dvd R" "0 < R" "O_DIRECT_MULTIPLE dvd R" "0 < pod_size P" "\<forall>info \<in> set files. file_on_disk fs info" and ne: "files \<noteq> []"
    using ok by (simp_all add: map_ok_def whole_files_def)
  obtain ds where ds: "file_polls P R map_reader_config fs files ds"
    using file_reader.polls_exist [OF map_config_ok(1) wf(2,3,4,5)] by blast
  have "\<forall>r \<in> set (map (map_request False to_input P f PR) ds). valid_request PR A (length ?names) r \<and> push_check PR A r"
    using map_pushes_valid [OF ok ds refl] by (auto simp: valid_request_def)
  moreover have "0 < wc_io_uring_size (map_writer_config (length files))" "0 < wc_num_threads (map_writer_config (length files))"
    by (simp_all add: map_writer_config_def)
  moreover have "?names \<noteq> []" using ne by (simp add: file_names_def)
  ultimately obtain fs' where "writer_runs reserve_file A ssds (map_writer_config (length files)) PR ?names fs (map (map_request False to_input P f PR) ds) fs'"
    using writer_runs_exists [OF honest_file] by blast
  then show ?thesis using ds unfolding MapFiles_def file_writer_runs_machine by blast
qed

text \<open>A run performs the writes of all places, in some order.\<close>

lemma MapFiles_writes:
  fixes P :: "'a pod" and PR :: "'b pod"
  assumes ok: "map_ok A P PR R fs files" and run: "MapFiles False to_input A ssds P PR R f result_prefix fs files fs'"
  shows "\<exists>ops. fs' = fold apply_op ops fs \<and>
    mset ops = mset (map (map_place (file_names ssds result_prefix (length files)) P PR R f fs files) (map_pairs R files))"
proof -
  let ?names = "file_names ssds result_prefix (length files)" and ?m = "\<lambda>info. ceil_div (fi_file_size info) R"
  have wf: "whole_files P R fs files" and idx: "\<forall>k < length files. fi_file_index (files ! k) = k"
    using ok by (simp_all add: map_ok_def)
  obtain ds rs where ds: "file_polls P R map_reader_config fs files ds" and rs: "mset rs = mset (map (map_request False to_input P f PR) ds)"
    and wr: "file_writer_runs A ssds (map_writer_config (length files)) PR ?names fs rs fs'"
    using run unfolding MapFiles_def by blast
  note chunks = polled_chunks [OF wf map_config_ok ds]
  have "\<forall>r \<in> set rs. (\<exists>i. wr_file_index r = Some i \<and> i < length ?names) \<and> 0 < wr_size r \<and> wr_file_offset r \<noteq> None \<and> push_check PR A r"
    using map_pushes_valid [OF ok ds rs] by simp
  then obtain order where order: "mset order = mset rs" and fs': "fs' = fold apply_op (map (request_op PR ?names) order) fs"
    using file_writer.final_order [OF wr] by blast
  let ?items = "concat (map (\<lambda>info. map (file_chunk P R fs info) [0..<?m info]) files)"
  have "mset (map (request_op PR ?names) order) = mset (map (request_op PR ?names) (map (map_request False to_input P f PR) ds))" using order rs by (metis mset_map)
  also have "map (request_op PR ?names) (map (map_request False to_input P f PR) ds) = map (map_op ?names PR f) (map fb_core ds)"
    unfolding map_map comp_def using chunks(2) by (intro map_cong refl map_request_op) simp
  also have "mset \<dots> = mset (map (map_op ?names PR f) ?items)" using chunks(1) by (metis mset_map)
  also have "map (map_op ?names PR f) ?items = map (\<lambda>p. map_op ?names PR f (file_chunk P R fs (files ! fst p) (snd p))) (map_pairs R files)"
    unfolding map_pairs_def map_concat map_map comp_def fst_conv snd_conv
      map_by_index [of "\<lambda>info. map (\<lambda>c. map_op ?names PR f (file_chunk P R fs info c)) [0..<?m info]" files] ..
  also have "\<dots> = map (map_place ?names P PR R f fs files) (map_pairs R files)"
    using idx by (intro map_cong refl) (auto simp: map_pairs_mem map_place_def map_op_def file_chunk_def mult.assoc)
  finally show ?thesis using fs' by blast
qed

lemma MapFiles_result:
  fixes P :: "'a pod" and PR :: "'b pod"
  assumes PR: "pod_repr PR" and ok: "map_ok A P PR R fs files" and slash: "CHR ''/'' \<notin> set result_prefix"
    and run: "MapFiles False to_input A ssds P PR R f result_prefix fs files fs'" and k: "k < length files"
  shows "dec_list PR (fi_file_size (files ! k) div pod_size P) (file_of fs' (GetFileName ssds result_prefix k)) =
    map f (file_elems P fs (files ! k))"
proof -
  let ?names = "file_names ssds result_prefix (length files)" and ?E = "R div pod_size P"
  let ?op = "map_place ?names P PR R f fs files"
  have sz: "0 < pod_size P" "pod_size P dvd R" "0 < R" and szf: "pod_size P dvd fi_file_size (files ! k)"
    using ok k by (simp_all add: map_ok_def whole_files_def)
  have E: "0 < ?E" using sz by (simp add: dvd_imp_le div_greater_zero_iff)
  have names: "distinct ?names" "length files \<le> length ?names" using distinct_file_names [OF slash] by simp_all
  obtain ops where fs': "fs' = fold apply_op ops fs" and ops: "mset ops = mset (map ?op (map_pairs R files))"
    using MapFiles_writes [OF ok run] by blast
  have "distinct ops" using distinct_map_places [OF PR E names] mset_eq_imp_distinct_iff [OF ops] by blast
  moreover have "\<forall>v \<in> set ops. \<forall>w \<in> set ops. v \<noteq> w \<longrightarrow> op_disjoint v w"
    using map_places_apart [OF PR E names] unfolding mset_eq_setD [OF ops] by blast
  ultimately have read: "fs_read fs' name off (length bs) = bs" if "(name, off, bs) \<in> set ops" for name off bs
    using fold_apply_read [OF that] unfolding fs' by blast
  let ?xs = "file_elems P fs (files ! k)" and ?F = "file_of fs' (GetFileName ssds result_prefix k)"
  have lx: "length ?xs = fi_file_size (files ! k) div pod_size P" by (simp add: file_elems_def)
  have "take (length (run_of ?E (map f ?xs) c) * pod_size PR) (drop (c * ?E * pod_size PR) ?F) = enc_list PR (run_of ?E (map f ?xs) c)"
    if c: "c < ceil_div (length (map f ?xs)) ?E" for c
  proof -
    have "c * ?E < fi_file_size (files ! k) div pod_size P" using less_ceil_div_iff [OF E] c lx by simp
    then have "c * ?E * pod_size P < fi_file_size (files ! k) div pod_size P * pod_size P" using sz(1) by simp
    then have "c * R < fi_file_size (files ! k)" using sz(2) szf by (simp add: mult.assoc)
    then have "(k, c) \<in> set (map_pairs R files)" using k less_ceil_div_iff [OF sz(3)] by (simp add: map_pairs_mem)
    then have "?op (k, c) \<in> set ops" unfolding mset_eq_setD [OF ops] set_map by (rule imageI)
    then have "(?names ! k, c * (?E * pod_size PR), enc_list PR (run_of ?E (map f ?xs) c)) \<in> set ops"
      by (simp add: map_place_def run_of_map)
    from read [OF this] show ?thesis
      using k by (simp add: fs_read_def pod_repr.length_enc_list [OF PR] file_names_def mult.assoc)
  qed
  then have "dec_list PR (length (map f ?xs)) ?F = map f ?xs" by (intro chunks_in_place [OF PR E]) blast
  then show ?thesis using lx by simp
qed

text \<open>In place, a run that reads any chunk has no defined result.\<close>

lemma MapFiles_in_place:
  assumes "whole_files P R fs files" and "info \<in> set files" and "0 < fi_file_size info"
  shows "\<not> MapFiles True to_input A ssds P PR R f result_prefix fs files fs'"
proof
  assume "MapFiles True to_input A ssds P PR R f result_prefix fs files fs'"
  then have "file_polls P R map_reader_config fs files []" by (auto simp: MapFiles_def)
  from polled_chunks(1) [OF assms(1) map_config_ok this] assms(2)
  have "ceil_div (fi_file_size info) R = 0" by simp
  moreover have "0 < R" using assms(1) by (simp add: whole_files_def)
  ultimately show False using assms(3) less_ceil_div_iff [of R 0 "fi_file_size info"] by simp
qed

section \<open>Properties\<close>

lemma demo_whole: "whole_files u8_pod 4096 demo_file_fs [demo_info]"
  by (simp add: whole_files_def u8_size O_DIRECT_MULTIPLE_def file_on_disk_def demo_info_def demo_file_fs_def file_of_def)

text \<open>C18: \<open>Map\<close> is correct when it does not work in place, for element types of any two sizes: when
the files hold whole elements and the chunks of the results keep the alignment of direct I/O, a run
exists, and after any run, for every order in which chunks are read, pushed and written, the file with
the number of an input file holds the image of its elements, each at its place.\<close>

theorem Map_correct:
  assumes "pod_repr PR" and "map_ok A P PR R fs files" and "\<not> in_place"
    and "CHR ''/'' \<notin> set result_prefix" and "files_apart ssds result_prefix files"
  shows "(\<exists>fs'. MapFiles in_place to_input A ssds P PR R f result_prefix fs files fs') \<and>
    (\<forall>fs'. MapFiles in_place to_input A ssds P PR R f result_prefix fs files fs' \<longrightarrow>
      (\<forall>k < length files. dec_list PR (fi_file_size (files ! k) div pod_size P)
         (file_of fs' (GetFileName ssds result_prefix k)) = map f (file_elems P fs (files ! k))))"
  using MapFiles_exists [OF assms(2)] MapFiles_result [OF assms(1,2,4)] assms(3) by simp

lemma Map_correct_witness:
  "\<exists>fs'. MapFiles False ucast 2 [] u8_pod u16_pod 4096 (\<lambda>x. ucast x * 100) ''out'' demo_file_fs [demo_info] fs' \<and>
     dec_list u16_pod 12 (file_of fs' (GetFileName [] ''out'' 0)) =
       [100, 200, 300, 400, 500, 600, 700, 800, 900, 1000, 1100, 1200]"
proof -
  have ok: "map_ok 2 u8_pod u16_pod 4096 demo_file_fs [demo_info]"
    using demo_whole by (simp add: map_ok_def u8_size u16_pod_def) (simp add: demo_info_def)
  have apart: "files_apart [] ''out'' [demo_info]" by (rule files_apart_relative) (simp add: demo_info_def)
  have n: "fi_file_size ([demo_info] ! 0) div pod_size u8_pod = 12" by (simp add: demo_info_def u8_size)
  have e: "map (\<lambda>x. ucast x * 100) (file_elems u8_pod demo_file_fs ([demo_info] ! 0)) =
      [100, 200, 300, 400, 500, 600, 700, 800, 900, 1000, 1100, 1200 :: 16 word]"
    by (simp add: file_elems_def demo_info_def u8_size dec_list_u8 demo_file_fs_def file_of_def)
  note r = Map_correct [OF u16_repr.pod_repr_axioms ok _ _ apart, where in_place = "False" and to_input = "ucast" and f = "\<lambda>x. ucast x * 100"]
  obtain fs' where run: "MapFiles False ucast 2 [] u8_pod u16_pod 4096 (\<lambda>x. ucast x * 100) ''out'' demo_file_fs [demo_info] fs'"
    using r by auto
  have "dec_list u16_pod 12 (file_of fs' (GetFileName [] ''out'' 0)) = map (\<lambda>x. ucast x * 100) (file_elems u8_pod demo_file_fs ([demo_info] ! 0))"
    using r run n by auto
  with run e show ?thesis by auto
qed

text \<open>C19: \<open>Reduce\<close> is correct for a commutative monoid: when the files hold whole elements it returns,
and whatever share of the chunks each worker gets and however the partial results are combined, the
result is the fold of all elements of all files.\<close>

theorem Reduce_correct:
  assumes "whole_files P R fs files" and "comm_op f e" and "0 < W"
  shows "(\<exists>r. ReduceFiles W f e conv P R fs files r) \<and>
    (\<forall>r. ReduceFiles W f e conv P R fs files r \<longrightarrow>
       r = foldr f (map conv (concat (map (file_elems P fs) files))) e)"
  using ReduceFiles_fold [OF assms] by (auto simp: fold_of_def)

lemma Reduce_correct_witness:
  "\<exists>r. ReduceFiles 3 (+) 0 unat u8_pod 4096 demo_file_fs [demo_info] r \<and> r = 78"
proof -
  have op: "comm_op (+) (0 :: nat)" by (simp add: comm_op_def)
  have "foldr (+) (map unat (concat (map (file_elems u8_pod demo_file_fs) [demo_info]))) 0 = 78"
    by (simp add: file_elems_def demo_info_def u8_size dec_list_u8 demo_file_fs_def file_of_def)
  then show ?thesis using Reduce_correct [OF demo_whole op, of 3 unat] by auto
qed

end
