(* ===== verification/InMemory.thy ===== *)
theory InMemory
  imports Sieve Consumers
begin

text \<open>
  The in-memory programs the external ones are ported from: the doubling search of
  Plaidlay/examples/in_memory/find_if.h, the blocked sieve of
  Plaidlay/examples/in_memory/in_memory_primes.h and the tokens of
  Plaidlay/examples/external/tokens.h. \<open>long\<close> values are natural numbers: none of these programs makes
  one negative but \<open>start - 1\<close> of the first block of the sieve, which C++ divides to 0 as well.
\<close>

section \<open>The search\<close>

text \<open>\<open>parlay::reduce\<close> with \<open>parlay::minimum<long>\<close>, whose identity is the largest \<open>long\<close>.\<close>

definition LONG_MAX :: nat where
  "LONG_MAX = 2 ^ 63 - 1"

definition block_loc :: "('a \<Rightarrow> bool) \<Rightarrow> 'a list \<Rightarrow> nat \<Rightarrow> nat \<Rightarrow> nat" where
  "block_loc p xs start end_pos =
     foldr min (map (\<lambda>i. if p (xs ! (i + start)) then i + start else length xs) [0..<end_pos - start]) LONG_MAX"

function scan_front :: "('a \<Rightarrow> bool) \<Rightarrow> 'a list \<Rightarrow> nat \<Rightarrow> nat \<Rightarrow> nat" where
  "scan_front p xs m i = (if i < m \<and> \<not> p (xs ! i) then scan_front p xs m (i + 1) else i)"
  by pat_completeness auto
termination
  by (relation "measure (\<lambda>(p, xs, m, i). m - i)") auto

declare scan_front.simps [simp del]

partial_function (option) double_search :: "('a \<Rightarrow> bool) \<Rightarrow> 'a list \<Rightarrow> nat \<Rightarrow> nat \<Rightarrow> nat option" where
  "double_search p xs start len =
     (if start < length xs
      then let loc = block_loc p xs start (min (length xs) (start + len))
           in if loc < length xs then Some loc else double_search p xs (start + len) (2 * len)
      else Some (length xs))"

definition memory_find_if :: "('a \<Rightarrow> bool) \<Rightarrow> 'a list \<Rightarrow> nat option" where
  "memory_find_if p xs =
     (let n = length xs; i = scan_front p xs (min 1000 n) 0
      in if i < min 1000 n then Some i
         else if i = n then Some n
         else double_search p xs 1000 2000)"

lemma scan_front_first:
  assumes "m \<le> length xs" and "i \<le> m" and "\<forall>j < i. \<not> p (xs ! j)"
  shows "scan_front p xs m i = min m (first_index p xs)"
  using assms
proof (induction p xs m i rule: scan_front.induct)
  case (1 p xs m i)
  have le: "i \<le> first_index p xs"
  proof (rule ccontr)
    assume "\<not> i \<le> first_index p xs"
    moreover from this have "p (xs ! first_index p xs)" using 1(2,3) first_index_holds [of p xs] by simp
    ultimately show False using 1(4) by simp
  qed
  show ?case
  proof (cases "i < m \<and> \<not> p (xs ! i)")
    case True
    then have "\<forall>j < i + 1. \<not> p (xs ! j)" using 1(4) by (auto simp: less_Suc_eq)
    then show ?thesis using 1(1) [OF True] True 1(2,3) by (subst scan_front.simps) simp
  next
    case False
    then have "i = min m (first_index p xs)" using 1(2,3) le first_index_bound [of i xs p] by (cases "i < m") auto
    moreover have "scan_front p xs m i = i" using False by (subst scan_front.simps) auto
    ultimately show ?thesis by simp
  qed
qed

lemma foldr_min: "foldr min ys e = Min (insert e (set ys))" for e :: nat
  by (induction ys) (auto simp: insert_commute)

lemma block_loc_first:
  assumes len: "length xs \<le> LONG_MAX" and e: "start < e" "e \<le> length xs" and no: "\<forall>j < start. \<not> p (xs ! j)"
  shows "block_loc p xs start e = (if first_index p xs < e then first_index p xs else length xs)"
proof -
  let ?ys = "map (\<lambda>i. if p (xs ! (i + start)) then i + start else length xs) [0..<e - start]"
  have val: "block_loc p xs start e = Min (insert LONG_MAX (set ?ys))" by (simp add: block_loc_def foldr_min)
  have hit: "first_index p xs \<le> j" if "j < e" "p (xs ! j)" for j using first_index_bound [of j xs p] that e by simp
  show ?thesis
  proof (cases "first_index p xs < e")
    case True
    let ?k = "first_index p xs"
    have p: "p (xs ! ?k)" using first_index_holds [of p xs] True e by simp
    then have "start \<le> ?k" using no by (metis not_le)
    then have "?k \<in> set ?ys" using p True by (auto simp: image_iff intro!: bexI [of _ "?k - start"])
    moreover have "?k \<le> y" if "y \<in> insert LONG_MAX (set ?ys)" for y
      using that hit True e len by (fastforce split: if_splits)
    ultimately show ?thesis using True unfolding val by (intro trans [OF Min_eqI [of _ ?k]]) auto
  next
    case False
    then have "?ys = map (\<lambda>i. length xs) [0..<e - start]" using hit by (intro map_cong) (auto simp: less_diff_conv)
    then have "set ?ys = (\<lambda>i. length xs) ` {0..<e - start}" by (metis set_map set_upt)
    then have "set ?ys = {length xs}" using e by (simp only: image_constant_conv) simp
    then show ?thesis using False len unfolding val by simp
  qed
qed

lemma double_search_first:
  assumes "length xs \<le> LONG_MAX" and "0 < len" and "\<forall>j < start. j < length xs \<longrightarrow> \<not> p (xs ! j)"
  shows "double_search p xs start len = Some (first_index p xs)"
  using assms
proof (induction "length xs - start" arbitrary: start len rule: less_induct)
  case less
  show ?case
  proof (cases "start < length xs")
    case True
    let ?e = "min (length xs) (start + len)"
    have loc: "block_loc p xs start ?e = (if first_index p xs < ?e then first_index p xs else length xs)"
      using less(2-4) True by (intro block_loc_first) auto
    show ?thesis
    proof (cases "first_index p xs < ?e")
      case True
      then show ?thesis using loc \<open>start < length xs\<close> by (subst double_search.simps) simp
    next
      case False
      then have "\<forall>j < start + len. j < length xs \<longrightarrow> \<not> p (xs ! j)" using first_index_bound [of _ xs p] by fastforce
      then have "double_search p xs (start + len) (2 * len) = Some (first_index p xs)"
        using less(1) [of "start + len" "2 * len"] less(2,3) True by simp
      then show ?thesis using loc False True by (subst double_search.simps) simp
    qed
  next
    case False
    have "first_index p xs = length xs"
      using first_index_holds [of p xs] first_index_le [of p xs] less(4) False by (metis le_less not_less order_less_le_trans)
    then show ?thesis using False by (subst double_search.simps) simp
  qed
qed

lemma memory_find_if_first:
  assumes "length xs \<le> LONG_MAX"
  shows "memory_find_if p xs = Some (first_index p xs)"
proof -
  let ?m = "min 1000 (length xs)"
  have i: "scan_front p xs ?m 0 = min ?m (first_index p xs)" by (rule scan_front_first) simp_all
  have "double_search p xs 1000 2000 = Some (first_index p xs)" if "\<not> first_index p xs < ?m"
    using assms that first_index_bound [of _ xs p] by (intro double_search_first) fastforce+
  then show ?thesis using i first_index_le [of p xs] by (auto simp: memory_find_if_def Let_def)
qed

section \<open>The sieve\<close>

text \<open>
  The block with number \<open>i\<close> of \<open>s\<close> numbers. The blocks of the \<open>parallel_for\<close> write disjoint parts of the
  flags; \<open>order n\<close> is the order of the blocks, \<open>root\<close> the truncated floating-point square root.
\<close>

definition sieve_prime :: "nat \<Rightarrow> nat \<Rightarrow> nat \<Rightarrow> bool list \<Rightarrow> bool list" where
  "sieve_prime start end_pos p flags = clear_from (max (2 * p) (((start - 1) div p + 1) * p)) p end_pos flags"

definition sieve_block :: "nat \<Rightarrow> nat \<Rightarrow> nat list \<Rightarrow> nat \<Rightarrow> bool list \<Rightarrow> bool list" where
  "sieve_block n s ps i flags = fold (sieve_prime (s * i) (min (s * i + s) (n + 1))) ps flags"

partial_function (option) memory_primes :: "(nat \<Rightarrow> nat) \<Rightarrow> (nat \<Rightarrow> nat list) \<Rightarrow> nat \<Rightarrow> nat list option" where
  "memory_primes root order n =
     (if n < 2 then Some []
      else Option.bind (memory_primes root order (root n)) (\<lambda>ps.
        let flags = (fold (sieve_block n (root n) ps) (order n) (replicate (n + 1) True))[0 := False, 1 := False]
        in Some (filter (\<lambda>i. flags ! i) [0..<n + 1])))"

lemma clear_from_above: "n \<le> i \<Longrightarrow> clear_from k step n xs ! i = xs ! i"
  by (induction k step n xs rule: clear_from.induct) (simp add: clear_from.simps)

lemma multiple_from: "0 < p \<Longrightarrow> 0 < i \<Longrightarrow> p dvd i \<Longrightarrow> ((start - 1) div p + 1) * p \<le> i \<longleftrightarrow> start \<le> i" for p i start :: nat
proof (elim dvdE)
  fix k assume p: "0 < p" and i: "0 < i" "i = p * k"
  have "((start - 1) div p + 1) * p \<le> i \<longleftrightarrow> (start - 1) div p < k"
    unfolding i(2) mult.commute [of p] mult_le_cancel2 using p by auto
  also have "\<dots> \<longleftrightarrow> start - 1 < i" using p i by (simp add: div_less_iff_less_mult mult.commute)
  finally show "((start - 1) div p + 1) * p \<le> i \<longleftrightarrow> start \<le> i" using i by linarith
qed

lemma sieve_prime_nth:
  assumes "0 < p" and "e \<le> length flags" and "i < length flags"
  shows "sieve_prime start e p flags ! i \<longleftrightarrow> flags ! i \<and> \<not> (start \<le> i \<and> i < e \<and> 2 * p \<le> i \<and> p dvd i)"
proof (cases "i < e")
  case True
  let ?f = "max (2 * p) (((start - 1) div p + 1) * p)"
  have "p dvd ?f" by (simp add: max_def)
  then have "?f \<le> i \<and> p dvd i - ?f \<longleftrightarrow> ?f \<le> i \<and> p dvd i" by (metis dvd_diffD dvd_diff_nat)
  also have "\<dots> \<longleftrightarrow> start \<le> i \<and> 2 * p \<le> i \<and> p dvd i"
    using multiple_from [of p i start] assms(1) by (cases "i = 0") auto
  finally show ?thesis using clear_from_nth [of p e flags i ?f] assms True by (simp add: sieve_prime_def)
next
  case False
  then show ?thesis by (simp add: sieve_prime_def clear_from_above)
qed

lemma length_sieve_prime [simp]: "length (sieve_prime start e p flags) = length flags"
  by (simp add: sieve_prime_def)

lemma sieve_block_nth:
  assumes "\<forall>p \<in> set ps. 0 < p" and "length flags = n + 1" and "i \<le> n"
  shows "length (sieve_block n s ps b flags) = n + 1 \<and>
    (sieve_block n s ps b flags ! i \<longleftrightarrow> flags ! i \<and> \<not> (s * b \<le> i \<and> i < s * b + s \<and> (\<exists>p \<in> set ps. 2 * p \<le> i \<and> p dvd i)))"
  using assms
proof (induction ps arbitrary: flags)
  case Nil
  then show ?case by (simp add: sieve_block_def)
next
  case (Cons p ps)
  let ?fl = "sieve_prime (s * b) (min (s * b + s) (n + 1)) p flags"
  have "?fl ! i \<longleftrightarrow> flags ! i \<and> \<not> (s * b \<le> i \<and> i < s * b + s \<and> 2 * p \<le> i \<and> p dvd i)"
    using sieve_prime_nth [of p "min (s * b + s) (n + 1)" flags i "s * b"] Cons(2-4) by auto
  moreover have "sieve_block n s (p # ps) b flags = sieve_block n s ps b ?fl" by (simp add: sieve_block_def)
  ultimately show ?case using Cons(1) [of ?fl] Cons(2-4) by auto
qed

lemma sieve_blocks_nth:
  assumes "\<forall>p \<in> set ps. 0 < p" and "length flags = n + 1" and "i \<le> n" and "0 < s"
  shows "length (fold (sieve_block n s ps) bs flags) = n + 1 \<and>
    (fold (sieve_block n s ps) bs flags ! i \<longleftrightarrow> flags ! i \<and> \<not> (i div s \<in> set bs \<and> (\<exists>p \<in> set ps. 2 * p \<le> i \<and> p dvd i)))"
  using assms(2)
proof (induction bs arbitrary: flags)
  case Nil
  then show ?case by simp
next
  case (Cons b bs)
  have "s * b \<le> i \<and> i < s * b + s \<longleftrightarrow> i div s = b"
    using assms(4) by (metis add.commute div_nat_eqI dividend_less_times_div mult_Suc_right times_div_less_eq_dividend)
  then show ?case
    using sieve_block_nth [OF assms(1) Cons(2) assms(3), of s b] Cons(1) [of "sieve_block n s ps b flags"] by auto
qed

text \<open>
  \<open>std::sqrt\<close> on a \<open>double\<close> is the correctly rounded square root. Up to \<open>2 ^ 52\<close> every integer is a
  \<open>double\<close> and rounding never reaches the next integer, so that its truncation is the integer root;
  further on it need not be.
\<close>

definition exact_root :: "(nat \<Rightarrow> nat) \<Rightarrow> bool" where
  "exact_root root \<longleftrightarrow> (\<forall>n < 2 ^ 52. root n * root n \<le> n \<and> n < (root n + 1) * (root n + 1))"

lemma memory_primes_result:
  assumes root: "exact_root root" and order: "\<forall>n. set (order n) = {0..<n div root n + 1}"
    and n: "n < 2 ^ 52"
  shows "memory_primes root order n = Some (filter is_prime [0..<n + 1])"
  using n
proof (induction n rule: less_induct)
  case (less n)
  show ?case
  proof (cases "n < 2")
    case True
    then have "filter is_prime [0..<n + 1] = []" by (simp add: is_prime_def filter_empty_conv)
    then show ?thesis using True by (subst memory_primes.simps) simp
  next
    case False
    let ?s = "root n"
    have s: "?s * ?s \<le> n" "n < (?s + 1) * (?s + 1)" using root less.prems by (simp_all add: exact_root_def)
    then have pos: "0 < ?s" using False by (cases "?s = 0") simp_all
    have lt: "?s < n"
    proof (rule ccontr)
      assume "\<not> ?s < n"
      then have "n * n \<le> ?s * ?s" by (intro mult_le_mono) simp_all
      moreover have "2 * n \<le> n * n" using False by (intro mult_le_mono1) simp
      ultimately show False using s(1) False by linarith
    qed
    let ?ps = "filter is_prime [0..<?s + 1]"
    let ?F = "fold (sieve_block n ?s ?ps) (order n) (replicate (n + 1) True)"
    have ps: "\<forall>p \<in> set ?ps. 0 < p" by (auto dest!: prime_ge_2)
    have fl: "length ?F = n + 1 \<and> (?F ! i \<longleftrightarrow> \<not> (\<exists>p \<in> set ?ps. 2 * p \<le> i \<and> p dvd i))" if "i \<le> n" for i
      using sieve_blocks_nth [OF ps _ that pos, of "replicate (n + 1) True" "order n"] order div_le_mono [OF that, of ?s] that
      by (simp del: replicate.simps)
    have flag: "?F[0 := False, 1 := False] ! i \<longleftrightarrow> is_prime i" if i: "i \<le> n" for i
    proof (cases "i < 2")
      case True
      then have "i = 0 \<or> i = 1" by auto
      then show ?thesis using fl [of 0] False by (auto simp: is_prime_def nth_list_update)
    next
      case ge: False
      have "is_prime i \<longleftrightarrow> \<not> (\<exists>p \<in> set ?ps. 2 * p \<le> i \<and> p dvd i)"
      proof
        assume pr: "is_prime i"
        show "\<not> (\<exists>p \<in> set ?ps. 2 * p \<le> i \<and> p dvd i)"
        proof
          assume "\<exists>p \<in> set ?ps. 2 * p \<le> i \<and> p dvd i"
          then obtain p where p: "is_prime p" "2 * p \<le> i" "p dvd i" unfolding set_filter by blast
          then have "p \<in> {2..<i}" using prime_ge_2 [OF p(1)] by simp
          then show False using pr p(3) unfolding is_prime_def by blast
        qed
      next
        assume none: "\<not> (\<exists>p \<in> set ?ps. 2 * p \<le> i \<and> p dvd i)"
        show "is_prime i"
        proof (rule ccontr)
          assume "\<not> is_prime i"
          then obtain d where d: "is_prime d" "d * d \<le> i" "d dvd i" using composite_divisor [of i] ge by auto
          have "d \<le> ?s"
          proof (rule ccontr)
            assume "\<not> d \<le> ?s"
            then have "(?s + 1) * (?s + 1) \<le> d * d" by (intro mult_le_mono) simp_all
            then show False using d(2) i s(2) by linarith
          qed
          moreover have "2 * d \<le> i" using d prime_ge_2 [of d] mult_le_mono1 [of 2 d d] by linarith
          ultimately have "d \<in> set ?ps \<and> 2 * d \<le> i" using d(1) unfolding set_filter by auto
          then show False using none d(3) by blast
        qed
      qed
      then show ?thesis using fl [OF i] ge by simp
    qed
    have "filter (\<lambda>i. ?F[0 := False, 1 := False] ! i) [0..<n + 1] = filter is_prime [0..<n + 1]"
      using flag by (intro filter_cong) auto
    then show ?thesis using False less.IH [OF lt] lt less.prems by (subst memory_primes.simps) (simp only: if_False bind.simps Let_def)
  qed
qed

section \<open>Tokens\<close>

text \<open>Reading \<open>str[n - 1]\<close> or \<open>str[0]\<close> of an empty string is \<open>None\<close>.\<close>

definition token_edge :: "('a \<Rightarrow> bool) \<Rightarrow> 'a list \<Rightarrow> nat \<Rightarrow> bool" where
  "token_edge sp str i =
     (if i = length str then \<not> sp (str ! (length str - 1))
      else if i = 0 then \<not> sp (str ! 0)
      else (sp (str ! i) \<and> \<not> sp (str ! (i - 1))) \<or> (sp (str ! (i - 1)) \<and> \<not> sp (str ! i)))"

definition tokens :: "('a \<Rightarrow> bool) \<Rightarrow> 'a list \<Rightarrow> 'a list list option" where
  "tokens sp str =
     (if str = [] then None
      else let ids = filter (token_edge sp str) [0..<length str + 1]
           in Some (map (\<lambda>i. take (ids ! (2 * i + 1) - ids ! (2 * i)) (drop (ids ! (2 * i)) str)) [0..<length ids div 2]))"

text \<open>The reference: the maximal runs of characters that are no spaces.\<close>

function split_words :: "('a \<Rightarrow> bool) \<Rightarrow> 'a list \<Rightarrow> 'a list list" where
  "split_words sp str =
     (case dropWhile sp str of
        [] \<Rightarrow> []
      | c # cs \<Rightarrow> (c # takeWhile (\<lambda>x. \<not> sp x) cs) # split_words sp (dropWhile (\<lambda>x. \<not> sp x) cs))"
  by pat_completeness auto
termination
proof (relation "measure (\<lambda>(sp, str). length str)")
  fix sp :: "'a \<Rightarrow> bool" and str cs c
  assume "dropWhile sp str = c # cs"
  then have "length (c # cs) \<le> length str" by (metis length_dropWhile_le)
  moreover have "length (dropWhile (\<lambda>x. \<not> sp x) cs) \<le> length cs" by (rule length_dropWhile_le)
  ultimately show "((sp, dropWhile (\<lambda>x. \<not> sp x) cs), sp, str) \<in> measure (\<lambda>(sp, str). length str)"
    by simp
qed simp

declare split_words.simps [simp del]

text \<open>The edges from position \<open>k\<close> on, inside or outside a word.\<close>

fun edges :: "('a \<Rightarrow> bool) \<Rightarrow> bool \<Rightarrow> nat \<Rightarrow> 'a list \<Rightarrow> nat list" where
  "edges sp inside k [] = (if inside then [k] else [])"
| "edges sp inside k (x # xs) = (if inside = sp x then k # edges sp (\<not> inside) (k + 1) xs else edges sp inside (k + 1) xs)"

fun cut_pairs :: "'a list \<Rightarrow> nat list \<Rightarrow> 'a list list" where
  "cut_pairs str (a # b # ids) = take (b - a) (drop a str) # cut_pairs str ids"
| "cut_pairs str ids = []"

lemma token_edges:
  assumes "str \<noteq> []" and "k \<le> length str"
  shows "filter (token_edge sp str) [k..<length str + 1] = edges sp (0 < k \<and> \<not> sp (str ! (k - 1))) k (drop k str)"
  using assms(2)
proof (induction rule: inc_induct)
  case base
  then show ?case using assms(1) by (simp add: token_edge_def)
next
  case (step k)
  have eqs: "drop k str = str ! k # drop (k + 1) str" "[k..<length str + 1] = k # [k + 1..<length str + 1]"
    using step(2) by (simp_all add: Cons_nth_drop_Suc upt_conv_Cons)
  have IH: "filter (token_edge sp str) [k + 1..<length str + 1] = edges sp (\<not> sp (str ! k)) (k + 1) (drop (k + 1) str)"
    using step(3) by simp
  have e: "token_edge sp str k \<longleftrightarrow> (0 < k \<and> \<not> sp (str ! (k - 1))) = sp (str ! k)"
    using step(2) by (auto simp: token_edge_def)
  show ?case unfolding eqs filter.simps edges.simps e IH by auto
qed

lemma cut_pairs_map:
  "map (\<lambda>i. take (ids ! (2 * i + 1) - ids ! (2 * i)) (drop (ids ! (2 * i)) str)) [0..<length ids div 2] = cut_pairs str ids"
proof (induction str ids rule: cut_pairs.induct)
  case (1 str a b ids)
  have "[0..<length (a # b # ids) div 2] = 0 # map Suc [0..<length ids div 2]" by (simp add: upt_conv_Cons map_Suc_upt)
  then show ?case using 1 by (simp add: comp_def)
qed simp_all

lemma edges_outside: "edges sp False k ys = edges sp False (k + length (takeWhile sp ys)) (dropWhile sp ys)"
  by (induction ys arbitrary: k) auto

lemma edges_inside:
  "edges sp True k ys = (k + length (takeWhile (\<lambda>x. \<not> sp x) ys)) #
     edges sp False (k + length (takeWhile (\<lambda>x. \<not> sp x) ys)) (dropWhile (\<lambda>x. \<not> sp x) ys)"
  by (induction ys arbitrary: k) auto

lemma cut_edges: "cut_pairs str (edges sp False k (drop k str)) = split_words sp (drop k str)"
proof (induction "length str - k" arbitrary: k rule: less_induct)
  case less
  let ?ys = "drop k str"
  let ?a = "k + length (takeWhile sp ?ys)"
  have rest: "dropWhile sp ?ys = drop ?a str" by (simp add: dropWhile_eq_drop add.commute)
  show ?case
  proof (cases "dropWhile sp ?ys")
    case Nil
    have "edges sp False k ?ys = []" using edges_outside [of sp k ?ys] by (simp only: Nil edges.simps if_False)
    moreover have "split_words sp ?ys = []" by (subst split_words.simps) (simp only: Nil list.case)
    ultimately show ?thesis by simp
  next
    case (Cons c cs)
    let ?w = "takeWhile (\<lambda>x. \<not> sp x) cs" and ?r = "dropWhile (\<lambda>x. \<not> sp x) cs"
    have c: "\<not> sp c" using Cons by (metis dropWhile_eq_Cons_conv)
    have r: "?r = drop (?a + 1 + length ?w) str"
      using rest Cons by (simp add: dropWhile_eq_drop) (metis drop_Suc drop_drop list.sel(3) add.commute tl_drop)
    have "?a < length str" using rest Cons by (metis drop_eq_Nil list.distinct(1) not_less)
    then have "cut_pairs str (edges sp False (?a + 1 + length ?w) ?r) = split_words sp ?r"
      using less [of "?a + 1 + length ?w"] r by simp
    moreover have "take (1 + length ?w) (drop ?a str) = c # ?w"
      using rest Cons by (metis One_nat_def plus_1_eq_Suc take_Suc_Cons takeWhile_eq_take)
    moreover have "edges sp False k ?ys = ?a # (?a + 1 + length ?w) # edges sp False (?a + 1 + length ?w) ?r"
      using c by (subst edges_outside) (simp add: Cons edges_inside)
    ultimately show ?thesis by (subst split_words.simps) (simp add: Cons)
  qed
qed

lemma tokens_words: "str \<noteq> [] \<Longrightarrow> tokens sp str = Some (split_words sp str)"
  using token_edges [of str 0 sp] cut_edges [of str sp 0] cut_pairs_map [of _ str]
  by (simp add: tokens_def Let_def)

section \<open>Properties\<close>

text \<open>C39: The blocked sieve is correct below \<open>2 ^ 52\<close>: when the truncated square root is exact for
these numbers, which correct rounding gives, then for every order of the blocks the recursion ends and
the result is the primes up to and including \<open>n\<close> in increasing order.\<close>

theorem memory_primes_correct:
  assumes "\<forall>m < 2 ^ 52. root m * root m \<le> m \<and> m < (root m + 1) * (root m + 1)"
    and "\<forall>m. set (order m) = {0..<m div root m + 1}" and "n < 2 ^ 52"
  shows "memory_primes root order n = Some (filter is_prime [0..<n + 1])"
  using assms by (intro memory_primes_result) (simp_all add: exact_root_def)

lemma exact_sqrt: "\<forall>m < 2 ^ 52. the (sqrt_n 0 m) * the (sqrt_n 0 m) \<le> m \<and> m < (the (sqrt_n 0 m) + 1) * (the (sqrt_n 0 m) + 1)"
proof (intro allI impI)
  fix m :: nat assume "m < 2 ^ 52"
  then have "m < 2 ^ 62" by simp
  from sqrt_n_result [OF this, of 0]
  show "the (sqrt_n 0 m) * the (sqrt_n 0 m) \<le> m \<and> m < (the (sqrt_n 0 m) + 1) * (the (sqrt_n 0 m) + 1)" by auto
qed

lemma memory_primes_correct_witness:
  "memory_primes (\<lambda>n. the (sqrt_n 0 n)) (\<lambda>n. rev [0..<n div the (sqrt_n 0 n) + 1]) 30 = Some [2, 3, 5, 7, 11, 13, 17, 19, 23, 29]"
proof -
  have "filter is_prime [0..<30 + 1] = [2, 3, 5, 7, 11, 13, 17, 19, 23, 29]" by code_simp
  moreover have order: "\<forall>n. set (rev [0..<n div the (sqrt_n 0 n) + 1]) = {0..<n div the (sqrt_n 0 n) + 1}"
    unfolding set_rev set_upt by simp
  moreover have "30 < (2 ^ 52 :: nat)" by simp
  ultimately show ?thesis using memory_primes_correct [OF exact_sqrt order, of 30] by (simp only:)
qed

text \<open>The doubling search always returns, and what it returns is the first position whose element
satisfies the predicate, or the length when there is none: the search over blocks of growing size is
equivalent to the sequential one.\<close>

theorem memory_find_if_correct:
  assumes "length xs \<le> LONG_MAX"
  shows "memory_find_if p xs = Some (length (takeWhile (\<lambda>x. \<not> p x) xs))"
  using memory_find_if_first [OF assms] by (simp add: first_index_def)

lemma memory_find_if_correct_witness: "memory_find_if (\<lambda>x. 3 < x) [1 :: nat, 2, 3, 4, 5] = Some 3"
  using memory_find_if_correct [of "[1, 2, 3, 4, 5 :: nat]" "\<lambda>x. 3 < x"] by (simp add: LONG_MAX_def)

text \<open>C40: \<open>tokens\<close> returns exactly the maximal runs of characters that are no spaces, in order; on an empty
string it reads outside it.\<close>

theorem tokens_correct: "tokens sp str = (if str = [] then None else Some (split_words sp str))"
  using tokens_words [of str sp] by (simp add: tokens_def)

end
