(* ===== verification/Harness.thy ===== *)
theory Harness
  imports Generators Engine Consumers
    "HOL-Library.Char_ord" "HOL-Library.List_Lexorder" "HOL-Library.Product_Lexorder"
begin

text \<open>
  The end-to-end cases of Plaidlay/external_main.cpp: each builds an input on disk, runs a primitive,
  reads the result back and checks its headers and its elements against an in-memory reference. The
  checks are computed as in the code; what they decide is proved for every input and every
  interleaving, not only for the cases the program lists. \<open>A\<close> is \<open>O_DIRECT_MULTIPLE\<close>, \<open>B\<close> the block
  size of 4 MiB and \<open>N\<close> is \<open>NUM_SSDS\<close>.
\<close>

section \<open>Inputs and files\<close>

definition input_name :: "string \<Rightarrow> nat \<Rightarrow> string" where
  "input_name prefix i = prefix @ ''_in_'' @ to_string i"

text \<open>The bytes of a chunk, padded with zeros to a multiple of the direct-I/O unit.\<close>

definition input_file :: "'a pod \<Rightarrow> nat \<Rightarrow> 'a list \<Rightarrow> byte list" where
  "input_file P A chunk =
     (let used = length chunk * pod_size P
      in enc_list P chunk @ replicate (round_up A used - used) 0)"

definition input_header :: "'a pod \<Rightarrow> string \<Rightarrow> 'a list list \<Rightarrow> nat \<Rightarrow> chunk_header" where
  "input_header P prefix chunks i =
     \<lparr>h_filename = input_name prefix i, h_begin_address = 0, h_used = length (chunks ! i) * pod_size P, h_index = i\<rparr>"

definition BuildInput :: "'a pod \<Rightarrow> nat \<Rightarrow> string \<Rightarrow> 'a list list \<Rightarrow> fstore \<Rightarrow> External_Sequence \<times> fstore \<times> string list" where
  "BuildInput P A prefix chunks fs =
     (\<lparr>ordered_underlying_sequence = map (input_header P prefix chunks) [0..<length chunks]\<rparr>,
      fold (\<lambda>i fs. fs(input_name prefix i \<mapsto> input_file P A (chunks ! i))) [0..<length chunks] fs,
      map (input_name prefix) [0..<length chunks])"

definition RemoveFiles :: "string list \<Rightarrow> fstore \<Rightarrow> fstore" where
  "RemoveFiles files fs = fold (\<lambda>f fs. fs(f := None)) files fs"

definition OutputNames :: "nat \<Rightarrow> string \<Rightarrow> string list" where
  "OutputNames N prefix = map (\<lambda>i. prefix @ ''_out_'' @ to_string i) [0..<N]"

definition MakeOutputNames :: "nat \<Rightarrow> string \<Rightarrow> fstore \<Rightarrow> string list \<times> fstore" where
  "MakeOutputNames N prefix fs = (OutputNames N prefix, RemoveFiles (OutputNames N prefix) fs)"

definition VariedLen :: "nat \<Rightarrow> nat" where
  "VariedLen c = 300 + (c * 37) mod 900"

definition TinyLen :: "nat \<Rightarrow> nat" where
  "TinyLen c = 1 + (c * 13) mod 17"

text \<open>
  One chunk after the other is made and appended, with its elements numbered through by \<open>counter\<close>; what
  satisfies the predicate is appended to the reference at the same time.
\<close>

fun make_chunks :: "(nat \<Rightarrow> 'a) \<Rightarrow> ('a \<Rightarrow> bool) \<Rightarrow> (nat \<Rightarrow> nat) \<Rightarrow> nat list \<Rightarrow> nat \<Rightarrow> 'a list list \<Rightarrow> 'a list \<Rightarrow>
    'a list list \<times> 'a list" where
  "make_chunks mk predicate len [] counter chunks reference = (chunks, reference)"
| "make_chunks mk predicate len (c # cs) counter chunks reference =
     (let chunk = map mk [counter..<counter + len c]
      in make_chunks mk predicate len cs (counter + len c) (chunks @ [chunk]) (reference @ filter predicate chunk))"

definition MakeChunks :: "nat \<Rightarrow> (nat \<Rightarrow> 'a) \<Rightarrow> ('a \<Rightarrow> bool) \<Rightarrow> (nat \<Rightarrow> nat) \<Rightarrow> 'a list list \<times> 'a list" where
  "MakeChunks chunk_count mk predicate len = make_chunks mk predicate len [0..<chunk_count] 0 [] []"

section \<open>The cases\<close>

text \<open>The checks of the headers. The keys, once sorted, must be \<open>0, 1, 2\<close> and so on.\<close>

definition keys_dense :: "chunk_header list \<Rightarrow> bool" where
  "keys_dense hs = (let indices = sort (map h_index hs) in \<forall>i \<in> set [0..<length indices]. indices ! i = i)"

definition header_fits :: "'a pod \<Rightarrow> nat \<Rightarrow> string list \<Rightarrow> chunk_header \<Rightarrow> bool" where
  "header_fits P B out_names h \<longleftrightarrow> h_used h mod pod_size P = 0 \<and> h_used h \<le> B \<and> h_filename h \<in> set out_names"

definition CheckOutputInvariants :: "'a pod \<Rightarrow> nat \<Rightarrow> External_Sequence \<Rightarrow> nat \<Rightarrow> string list \<Rightarrow> bool" where
  "CheckOutputInvariants P B out num_input_chunks out_names =
     (let hs = ordered_underlying_sequence out
      in length hs = num_input_chunks \<and> (\<forall>h \<in> set hs. header_fits P B out_names h) \<and> keys_dense hs)"

definition CheckMapInvariants :: "'a pod \<Rightarrow> nat \<Rightarrow> External_Sequence \<Rightarrow> nat \<Rightarrow> string list \<Rightarrow> bool" where
  "CheckMapInvariants P B out elem_total out_names =
     (let hs = ordered_underlying_sequence out
      in (\<forall>h \<in> set hs. header_fits P B out_names h) \<and> keys_dense hs \<and>
         (\<Sum>h\<leftarrow>hs. h_used h div pod_size P) = elem_total)"

definition RunFilter :: "'a pod \<Rightarrow> nat \<Rightarrow> nat \<Rightarrow> nat \<Rightarrow> string list \<Rightarrow> string \<Rightarrow> 'a list list \<Rightarrow> ('a \<Rightarrow> bool) \<Rightarrow> fstore \<Rightarrow>
    External_Sequence \<Rightarrow> fstore \<Rightarrow> string list \<Rightarrow> bool" where
  "RunFilter P A B N ssds prefix chunks predicate fs out fs' files \<longleftrightarrow>
     (case BuildInput P A prefix chunks fs of (s, fs1, created) \<Rightarrow>
      case MakeOutputNames N prefix fs1 of (out_names, fs2) \<Rightarrow>
        ExternalFilter predicate P A B N ssds out_names fs2 s out fs' \<and> files = created @ out_names)"

text \<open>
  One filter case. The outcome is the result of the checks, \<open>None\<close> if a \<open>CHECK\<close> of \<open>ReadOutput\<close> aborts,
  and the files that are left.
\<close>

definition RunSizeCase :: "'a pod \<Rightarrow> nat \<Rightarrow> nat \<Rightarrow> nat \<Rightarrow> string list \<Rightarrow> string \<Rightarrow> nat \<Rightarrow> (nat \<Rightarrow> 'a) \<Rightarrow> ('a \<Rightarrow> bool) \<Rightarrow>
    (nat \<Rightarrow> nat) \<Rightarrow> fstore \<Rightarrow> bool list option \<Rightarrow> fstore \<Rightarrow> bool" where
  "RunSizeCase P A B N ssds prefix chunk_count mk predicate len fs checks fs' \<longleftrightarrow>
     (case MakeChunks chunk_count mk predicate len of (chunks, reference) \<Rightarrow>
      \<exists>out fs1 files. RunFilter P A B N ssds prefix chunks predicate fs out fs1 files \<and>
        checks = map_option (\<lambda>got. [CheckOutputInvariants P B out chunk_count (OutputNames N prefix),
          length got = length reference, got = reference]) (ReadOutput P fs1 out) \<and>
        fs' = RemoveFiles files fs1)"

text \<open>The map case keeps the image of every element as the reference; \<open>None\<close> also stands for a header that
  the map stores outside its array.\<close>

definition RunMapCase :: "'a pod \<Rightarrow> 'b pod \<Rightarrow> nat \<Rightarrow> nat \<Rightarrow> nat \<Rightarrow> string list \<Rightarrow> (nat \<Rightarrow> nat) \<Rightarrow> string \<Rightarrow> nat \<Rightarrow>
    (nat \<Rightarrow> 'a) \<Rightarrow> (nat \<Rightarrow> nat) \<Rightarrow> ('a \<Rightarrow> 'b) \<Rightarrow> fstore \<Rightarrow> bool list option \<Rightarrow> fstore \<Rightarrow> bool" where
  "RunMapCase P Q A B N ssds hash64 prefix chunk_count mk len f fs checks fs' \<longleftrightarrow>
     (case MakeChunks chunk_count mk (\<lambda>x. True) len of (chunks, elems) \<Rightarrow>
      case BuildInput P A prefix chunks fs of (s, fs1, created) \<Rightarrow>
      case MakeOutputNames N prefix fs1 of (out_names, fs2) \<Rightarrow>
      \<exists>res fs3. ExternalMap hash64 f P Q A B N ssds out_names fs2 s res fs3 \<and>
        checks = Option.bind res (\<lambda>out. map_option (\<lambda>got. let reference = map f elems
          in [CheckMapInvariants Q B out (length reference) (OutputNames N prefix),
              length got = length reference, got = reference]) (ReadOutput Q fs3 out)) \<and>
        fs' = RemoveFiles (created @ out_names) fs3)"

definition RunReduceCase :: "nat \<Rightarrow> 'a pod \<Rightarrow> nat \<Rightarrow> nat \<Rightarrow> string \<Rightarrow> nat \<Rightarrow> (nat \<Rightarrow> 'a) \<Rightarrow> (nat \<Rightarrow> nat) \<Rightarrow>
    ('r \<Rightarrow> 'r \<Rightarrow> 'r) \<Rightarrow> ('a \<Rightarrow> 'r) \<Rightarrow> 'r \<Rightarrow> fstore \<Rightarrow> bool \<Rightarrow> fstore \<Rightarrow> bool" where
  "RunReduceCase W P A B prefix chunk_count mk len f conv e fs check fs' \<longleftrightarrow>
     (case MakeChunks chunk_count mk (\<lambda>x. True) len of (chunks, elems) \<Rightarrow>
      case BuildInput P A prefix chunks fs of (s, fs1, created) \<Rightarrow>
      \<exists>got. ExternalReduce W f e conv P A B fs1 s got \<and>
        check = (got = foldl (\<lambda>r x. f r (conv x)) e elems) \<and> fs' = RemoveFiles created fs1)"

section \<open>The generator cases\<close>

definition IotaElemsPerChunk :: "'a pod \<Rightarrow> nat \<Rightarrow> nat" where
  "IotaElemsPerChunk P B = B div pod_size P"

definition IotaChunkCount :: "'a pod \<Rightarrow> nat \<Rightarrow> nat \<Rightarrow> nat" where
  "IotaChunkCount P B n = (n + IotaElemsPerChunk P B - 1) mod 2 ^ 64 div IotaElemsPerChunk P B"

definition RunIota :: "(nat \<Rightarrow> 'a) \<Rightarrow> 'a pod \<Rightarrow> nat \<Rightarrow> nat \<Rightarrow> nat \<Rightarrow> string list \<Rightarrow> string \<Rightarrow> nat \<Rightarrow> fstore \<Rightarrow>
    External_Sequence \<Rightarrow> fstore \<Rightarrow> string list \<Rightarrow> bool" where
  "RunIota conv P A B N ssds prefix n fs out fs' out_files \<longleftrightarrow>
     (case MakeOutputNames N prefix fs of (out_names, fs1) \<Rightarrow>
        ExternalIota conv P A B N ssds n (new_sequence (IotaChunkCount P B n)) out_names fs1 out fs' \<and>
        out_files = out_names)"

text \<open>The checks of one header and of the places of all blocks, sorted by file name and address.\<close>

definition iota_header_ok :: "'a pod \<Rightarrow> nat \<Rightarrow> nat \<Rightarrow> nat \<Rightarrow> string list \<Rightarrow> nat \<Rightarrow> chunk_header \<Rightarrow> bool" where
  "iota_header_ok P A B n out_names i h \<longleftrightarrow>
     h_index h = i \<and> h_filename h \<in> set out_names \<and> h_used h mod pod_size P = 0 \<and> h_used h \<noteq> 0 \<and> h_used h \<le> B \<and>
     h_begin_address h mod A = 0 \<and>
     h_used h = min (IotaElemsPerChunk P B) (sub64 n (i * IotaElemsPerChunk P B)) * pod_size P"

definition regions_apart :: "nat \<Rightarrow> (string \<times> nat) list \<Rightarrow> bool" where
  "regions_apart B regions \<longleftrightarrow>
     (\<forall>i \<in> set [1..<length regions]. \<not> (fst (regions ! i) = fst (regions ! (i - 1)) \<and>
        snd (regions ! i) < snd (regions ! (i - 1)) + B))"

definition CheckIotaInvariants :: "'a pod \<Rightarrow> nat \<Rightarrow> nat \<Rightarrow> External_Sequence \<Rightarrow> nat \<Rightarrow> string list \<Rightarrow> bool" where
  "CheckIotaInvariants P A B out n out_names =
     (let hs = sort_key h_index (ordered_underlying_sequence out)
      in length hs = IotaChunkCount P B n \<and> (\<forall>i \<in> set [0..<length hs]. iota_header_ok P A B n out_names i (hs ! i)) \<and>
         (\<Sum>h\<leftarrow>hs. h_used h div pod_size P) = n \<and>
         regions_apart B (sort (map (\<lambda>h. (h_filename h, h_begin_address h)) hs)))"

fun verify_blocks :: "'a pod \<Rightarrow> nat \<Rightarrow> fstore \<Rightarrow> (nat \<Rightarrow> 'a) \<Rightarrow> chunk_header list \<Rightarrow> bool \<Rightarrow> nat \<Rightarrow> (bool \<times> nat) option" where
  "verify_blocks P B fs mk [] ok total_out = Some (ok, total_out)"
| "verify_blocks P B fs mk (h # hs) ok total_out =
     (let cnt = h_used h div pod_size P
      in if cnt = 0 then verify_blocks P B fs mk hs ok total_out
         else (case read_block P fs h of
             None \<Rightarrow> None
           | Some buf \<Rightarrow>
               let start = h_index h * IotaElemsPerChunk P B
               in verify_blocks P B fs mk hs (ok \<and> (\<forall>j \<in> set [0..<cnt]. buf ! j = mk (start + j))) (total_out + cnt)))"

definition VerifyIotaData :: "'a pod \<Rightarrow> nat \<Rightarrow> fstore \<Rightarrow> External_Sequence \<Rightarrow> (nat \<Rightarrow> 'a) \<Rightarrow> (bool \<times> nat) option" where
  "VerifyIotaData P B fs out mk =
     verify_blocks P B fs mk (sort_key h_index (ordered_underlying_sequence out)) True 0"

definition RunIotaCase :: "(nat \<Rightarrow> 'a) \<Rightarrow> 'a pod \<Rightarrow> nat \<Rightarrow> nat \<Rightarrow> nat \<Rightarrow> string list \<Rightarrow> string \<Rightarrow> nat \<Rightarrow> (nat \<Rightarrow> 'a) \<Rightarrow> fstore \<Rightarrow>
    bool list option \<Rightarrow> fstore \<Rightarrow> bool" where
  "RunIotaCase conv P A B N ssds prefix n mk fs checks fs' \<longleftrightarrow>
     (\<exists>out fs1 files. RunIota conv P A B N ssds prefix n fs out fs1 files \<and>
        checks = map_option (\<lambda>(data_ok, total_out). [CheckIotaInvariants P A B out n (OutputNames N prefix),
          total_out = n, data_ok \<and> total_out = n]) (VerifyIotaData P B fs1 out mk) \<and>
        fs' = RemoveFiles files fs1)"

section \<open>What the inputs hold\<close>

definition sizes_ok :: "'a pod \<Rightarrow> nat \<Rightarrow> nat \<Rightarrow> nat \<Rightarrow> bool" where
  "sizes_ok P A B N \<longleftrightarrow> pod_size P dvd B \<and> 0 < B \<and> 0 < A \<and> A dvd B \<and> 0 < N \<and> N < 2 ^ 64"

lemma input_name_inject [simp]: "input_name prefix i = input_name prefix j \<longleftrightarrow> i = j"
  by (simp add: input_name_def to_string_inject)

lemma input_not_output: "input_name prefix i \<notin> set (OutputNames N prefix)"
  by (auto simp: input_name_def OutputNames_def)

lemma output_env: "sizes_ok P A B N \<Longrightarrow> env_ok P A B N (OutputNames N prefix)"
  by (simp add: env_ok_def sizes_ok_def OutputNames_def distinct_map inj_on_def to_string_inject)

lemma RemoveFiles_eq: "RemoveFiles files fs = (\<lambda>f. if f \<in> set files then None else fs f)"
  unfolding RemoveFiles_def by (induction files arbitrary: fs) auto

lemma make_chunks_eq:
  "make_chunks mk p len cs n chunks (filter p (concat chunks)) = (chunks', ref) \<Longrightarrow>
     ref = filter p (concat chunks') \<and> length chunks' = length chunks + length cs \<and>
     map length chunks' = map length chunks @ map len cs"
proof (induction cs arbitrary: n chunks)
  case (Cons c cs)
  from Cons(1) [of "n + len c" "chunks @ [map mk [n..<n + len c]]"] Cons(2) show ?case by (simp add: Let_def)
qed auto

lemma MakeChunks_eq:
  assumes "MakeChunks nc mk p len = (chunks, ref)"
  shows "ref = filter p (concat chunks) \<and> length chunks = nc \<and> map length chunks = map len [0..<nc]"
  using make_chunks_eq [of mk p len "[0..<nc]" 0 "[]" chunks ref] assms by (simp add: MakeChunks_def)

lemma input_written:
  "fold (\<lambda>i fs. fs(input_name prefix i \<mapsto> input_file P A (chunks ! i))) is fs (input_name prefix j) =
     (if j \<in> set is then Some (input_file P A (chunks ! j)) else fs (input_name prefix j))"
  by (induction "is" arbitrary: fs) auto

text \<open>The input is well formed and reads back as the concatenation of its chunks, whatever output files
  are removed after it was built.\<close>

lemma BuildInput_result:
  assumes P: "pod_repr P" and bi: "BuildInput P A prefix chunks fs = (s, fs1, created)"
    and len: "\<forall>c \<in> set chunks. length c * pod_size P \<le> B" and keep: "\<forall>f \<in> set created. fs2 f = fs1 f"
  shows "wf_seq P B fs2 s \<and> ReadOutput P fs2 s = Some (concat chunks) \<and> seq_size s = length chunks \<and>
    map h_index (ordered_underlying_sequence s) = [0..<length chunks] \<and>
    map h_filename (ordered_underlying_sequence s) = created \<and> created = map (input_name prefix) [0..<length chunks]"
proof -
  have s: "ordered_underlying_sequence s = map (input_header P prefix chunks) [0..<length chunks]"
    and created: "created = map (input_name prefix) [0..<length chunks]"
    using bi by (auto simp: BuildInput_def)
  have disk: "fs2 (input_name prefix i) = Some (input_file P A (chunks ! i))" if "i < length chunks" for i
    using that keep bi input_written [of prefix P A chunks "[0..<length chunks]" fs i] by (auto simp: BuildInput_def)
  have wfb: "wf_block P B fs2 (input_header P prefix chunks i)" if "i < length chunks" for i
    using that disk [OF that] len by (simp add: wf_block_def input_header_def file_of_def input_file_def Let_def
        pod_repr.length_enc_list [OF P])
  have core: "chunk_core P fs2 (input_header P prefix chunks i) = (i, chunks ! i)" if "i < length chunks" for i
    using disk [OF that] pod_repr.size_pos [OF P]
    by (simp add: chunk_core_def chunk_elems_def input_header_def fs_read_def file_of_def input_file_def Let_def
        pod_repr.length_enc_list [OF P] pod_repr.dec_enc_list [OF P])
  have keys: "map h_index (ordered_underlying_sequence s) = [0..<length chunks]"
    by (simp add: s comp_def input_header_def)
  have wf: "wf_seq P B fs2 s" unfolding wf_seq_def keys using wfb by (auto simp: s)
  have cores: "map (chunk_core P fs2) (ordered_underlying_sequence s) = map (\<lambda>i. (i, chunks ! i)) [0..<length chunks]"
    using core by (simp add: s)
  have "sort_key fst (map (\<lambda>i. (i, chunks ! i)) [0..<length chunks]) = map (\<lambda>i. (i, chunks ! i)) [0..<length chunks]"
    by (rule sort_key_id_if_sorted) (simp add: comp_def)
  then have "ordered_elems (map (\<lambda>i. (i, chunks ! i)) [0..<length chunks]) = concat chunks"
    by (simp add: ordered_elems_def comp_def map_nth)
  then have "ReadOutput P fs2 s = Some (concat chunks)" using ReadOutput_ordered [OF wf] cores by simp
  then show ?thesis using wf keys created by (simp add: s seq_size_def comp_def input_header_def)
qed

lemma headers_fit:
  assumes "wf_seq P B fs out" and "blocks_apart B names (ordered_underlying_sequence out)"
  shows "\<forall>h \<in> set (ordered_underlying_sequence out). header_fits P B names h"
  using assms by (auto simp: wf_seq_def wf_block_def blocks_apart_def header_fits_def)

lemma keys_dense_upt: "map h_index hs = [0..<n] \<Longrightarrow> keys_dense hs"
  by (simp add: keys_dense_def Let_def sorted_sort_id)

lemma chunks_fit:
  assumes "MakeChunks nc mk p len = (chunks, ref)" and "\<forall>c < nc. len c * k \<le> B"
  shows "\<forall>c \<in> set chunks. length c * k \<le> B"
proof
  fix c assume "c \<in> set chunks"
  then have "length c \<in> set (map length chunks)" by simp
  then show "length c * k \<le> B" using MakeChunks_eq [OF assms(1)] assms(2) by auto
qed

text \<open>What a case hands to its primitive.\<close>

lemma case_input:
  assumes P: "pod_repr P" and mc: "MakeChunks nc mk p len = (chunks, ref)"
    and bi: "BuildInput P A prefix chunks fs = (s, fs1, created)" and out: "MakeOutputNames N prefix fs1 = (names, fs2)"
    and len: "\<forall>c < nc. len c * pod_size P \<le> B"
  shows "wf_seq P B fs2 s \<and> ReadOutput P fs2 s = Some (concat chunks) \<and> seq_size s = nc \<and>
    map h_index (ordered_underlying_sequence s) = [0..<nc] \<and> fresh_seq s names \<and>
    ref = filter p (concat chunks) \<and> names = OutputNames N prefix \<and> created = map (input_name prefix) [0..<nc]"
proof -
  have names: "names = OutputNames N prefix" "fs2 = RemoveFiles names fs1" using out by (auto simp: MakeOutputNames_def)
  have created: "created = map (input_name prefix) [0..<length chunks]" using bi by (auto simp: BuildInput_def)
  have apart: "set created \<inter> set names = {}" using input_not_output by (fastforce simp: created names)
  then have keep: "\<forall>f \<in> set created. fs2 f = fs1 f" by (auto simp: names(2) RemoveFiles_eq)
  note b = BuildInput_result [OF P bi chunks_fit [OF mc len] keep]
  have "fresh_seq s names" using b apart by (simp add: fresh_seq_def fresh_outputs_def)
  then show ?thesis using b MakeChunks_eq [OF mc] names(1) by simp
qed

section \<open>The cases pass\<close>

lemma filter_case:
  assumes P: "pod_repr P" and sizes: "sizes_ok P A B N" and len: "\<forall>c < nc. len c * pod_size P \<le> B" and nc: "nc < 2 ^ 64"
  shows "\<exists>checks fs'. RunSizeCase P A B N ssds prefix nc mk p len fs checks fs'"
    and "RunSizeCase P A B N ssds prefix nc mk p len fs checks fs' \<Longrightarrow> checks = Some [True, True, True] \<and>
      (\<forall>f \<in> set (map (input_name prefix) [0..<nc] @ OutputNames N prefix). fs' f = None)"
proof -
  obtain chunks ref where mc: "MakeChunks nc mk p len = (chunks, ref)" by force
  obtain s fs1 created where bi: "BuildInput P A prefix chunks fs = (s, fs1, created)" using prod_cases3 by blast
  obtain names fs2 where mo: "MakeOutputNames N prefix fs1 = (names, fs2)" by force
  note ci = case_input [OF P mc bi mo len]
  have env: "env_ok P A B N names" using output_env [OF sizes] ci by simp
  have wf: "wf_seq P B fs2 s" and sz: "seq_size s < 2 ^ 64" and xs: "ReadOutput P fs2 s = Some (concat chunks)"
    using ci nc by simp_all
  show "\<exists>checks fs'. RunSizeCase P A B N ssds prefix nc mk p len fs checks fs'"
    using ExternalFilter_exists [OF P env wf sz, of p ssds] unfolding RunSizeCase_def RunFilter_def
    by (simp add: mc bi mo)
  assume "RunSizeCase P A B N ssds prefix nc mk p len fs checks fs'"
  then obtain out fs3 where ef: "ExternalFilter p P A B N ssds names fs2 s out fs3"
    and ck: "checks = map_option (\<lambda>got. [CheckOutputInvariants P B out nc (OutputNames N prefix),
          length got = length ref, got = ref]) (ReadOutput P fs3 out)"
    and rm: "fs' = RemoveFiles (created @ names) fs3"
    unfolding RunSizeCase_def RunFilter_def by (auto simp: mc bi mo)
  note en = ExternalFilter_entries [OF ef P env wf sz xs]
  let ?hs = "ordered_underlying_sequence out"
  have "mset (map h_index ?hs) = mset [0..<nc]" using en ci by metis
  then have "length ?hs = nc" "sort (map h_index ?hs) = [0..<nc]"
    by (metis length_map size_mset length_upt diff_zero, metis sort_upt properties_for_sort mset_sort sorted_sort)
  then have "CheckOutputInvariants P B out nc names"
    using headers_fit [of P B fs3 out names] en by (simp add: CheckOutputInvariants_def keys_dense_def Let_def)
  then show "checks = Some [True, True, True] \<and> (\<forall>f \<in> set (map (input_name prefix) [0..<nc] @ OutputNames N prefix). fs' f = None)"
    using en ci ck rm by (simp add: RemoveFiles_eq)
qed

lemma map_case:
  assumes P: "pod_repr P" and Q: "pod_repr Q" and div: "pod_size P dvd B" and sizes: "sizes_ok Q A B N"
    and len: "\<forall>c < nc. len c * pod_size P \<le> B"
  shows "\<exists>checks fs'. RunMapCase P Q A B N ssds hash64 prefix nc mk len f fs checks fs'"
    and "RunMapCase P Q A B N ssds hash64 prefix nc mk len f fs checks fs' \<Longrightarrow> checks = Some [True, True, True] \<and>
      (\<forall>f \<in> set (map (input_name prefix) [0..<nc] @ OutputNames N prefix). fs' f = None)"
proof -
  obtain chunks ref where mc: "MakeChunks nc mk (\<lambda>x. True) len = (chunks, ref)" by force
  obtain s fs1 created where bi: "BuildInput P A prefix chunks fs = (s, fs1, created)" using prod_cases3 by blast
  obtain names fs2 where mo: "MakeOutputNames N prefix fs1 = (names, fs2)" by force
  note ci = case_input [OF P mc bi mo len]
  have env: "env_ok Q A B N names" using output_env [OF sizes] ci by simp
  have wf: "wf_seq P B fs2 s" and xs: "ReadOutput P fs2 s = Some (concat chunks)" using ci by simp_all
  note map_ok = ExternalMap_result [OF P Q div env wf xs]
  show "\<exists>checks fs'. RunMapCase P Q A B N ssds hash64 prefix nc mk len f fs checks fs'"
    using map_ok(1) [of hash64 f ssds] unfolding RunMapCase_def by (simp add: mc bi mo)
  assume "RunMapCase P Q A B N ssds hash64 prefix nc mk len f fs checks fs'"
  then obtain res fs3 where em: "ExternalMap hash64 f P Q A B N ssds names fs2 s res fs3"
    and ck: "checks = Option.bind res (\<lambda>out. map_option (\<lambda>got. [CheckMapInvariants Q B out (length ref) (OutputNames N prefix),
              length got = length ref, got = map f ref]) (ReadOutput Q fs3 out))"
    and rm: "fs' = RemoveFiles (created @ names) fs3"
    unfolding RunMapCase_def Let_def by (auto simp: mc bi mo)
  obtain out where res: "res = Some out" and wo: "wf_seq Q B fs3 out" and ro: "ReadOutput Q fs3 out = Some (map f (concat chunks))"
    and keys: "map h_index (ordered_underlying_sequence out) = [0..<seq_size out]"
    and apart: "blocks_apart B names (ordered_underlying_sequence out)"
    using map_ok(2) [OF em] by blast
  let ?hs = "ordered_underlying_sequence out"
  have ref: "ref = concat chunks" using ci by simp
  have "length (map f ref) = (\<Sum>h\<leftarrow>sort_key h_index ?hs. length (chunk_elems Q fs3 h))"
    using ReadOutput_wf [OF wo] ro ref by (simp add: length_concat comp_def)
  also have "\<dots> = (\<Sum>h\<leftarrow>?hs. h_used h div pod_size Q)"
    using sum_list_perm [of "sort_key h_index ?hs" ?hs "\<lambda>h. h_used h div pod_size Q"] by simp
  finally have "CheckMapInvariants Q B out (length ref) names"
    using headers_fit [OF wo apart] keys_dense_upt [OF keys] by (simp add: CheckMapInvariants_def Let_def)
  then show "checks = Some [True, True, True] \<and> (\<forall>f \<in> set (map (input_name prefix) [0..<nc] @ OutputNames N prefix). fs' f = None)"
    using ro ci ck rm ref by (simp add: RemoveFiles_eq res)
qed

lemma reduce_case:
  assumes P: "pod_repr P" and sizes: "sizes_ok P A B N" and len: "\<forall>c < nc. len c * pod_size P \<le> B"
    and f: "comm_op f e" and W: "0 < W"
  shows "\<exists>check fs'. RunReduceCase W P A B prefix nc mk len f conv e fs check fs'"
    and "RunReduceCase W P A B prefix nc mk len f conv e fs check fs' \<Longrightarrow>
      check \<and> (\<forall>f \<in> set (map (input_name prefix) [0..<nc]). fs' f = None)"
proof -
  obtain chunks ref where mc: "MakeChunks nc mk (\<lambda>x. True) len = (chunks, ref)" by force
  obtain s fs1 created where bi: "BuildInput P A prefix chunks fs = (s, fs1, created)" using prod_cases3 by blast
  note b = BuildInput_result [OF P bi chunks_fit [OF mc len], of fs1]
  have e: "0 < pod_size P" "0 < A" "A dvd B" using sizes pod_repr.size_pos [OF P] by (simp_all add: sizes_ok_def)
  have wf: "wf_seq P B fs1 s" and xs: "ReadOutput P fs1 s = Some (concat chunks)" using b by simp_all
  show "\<exists>check fs'. RunReduceCase W P A B prefix nc mk len f conv e fs check fs'"
    using ExternalReduce_exists [OF W e wf, of f e conv] unfolding RunReduceCase_def by (simp add: mc bi)
  assume "RunReduceCase W P A B prefix nc mk len f conv e fs check fs'"
  then obtain got where er: "ExternalReduce W f e conv P A B fs1 s got"
    and ck: "check = (got = foldl (\<lambda>r x. f r (conv x)) e ref)" and rm: "fs' = RemoveFiles created fs1"
    unfolding RunReduceCase_def by (auto simp: mc bi)
  have "foldl (\<lambda>r x. f r (conv x)) a ys = f a (fold_of f e (map conv ys))" for a ys
    by (induction ys arbitrary: a) (simp_all add: comm_opD(1,4) [OF f] fold_of_simps)
  then have "foldl (\<lambda>r x. f r (conv x)) e ref = fold_of f e (map conv ref)" by (simp add: comm_opD(3) [OF f])
  then have "got = foldl (\<lambda>r x. f r (conv x)) e ref"
    using ExternalReduce_fold [OF er f e wf xs] MakeChunks_eq [OF mc] by simp
  then show "check \<and> (\<forall>f \<in> set (map (input_name prefix) [0..<nc]). fs' f = None)"
    using ck rm b MakeChunks_eq [OF mc] by (simp add: RemoveFiles_eq)
qed

section \<open>The generator cases pass\<close>

text \<open>Blocks at distinct multiples of the block size do not overlap.\<close>

lemma regions_apart_sorted:
  assumes "distinct rs" and "\<forall>x \<in> set rs. B dvd snd x"
  shows "regions_apart B (sort rs)"
  unfolding regions_apart_def
proof (intro ballI notI)
  let ?rs = "sort rs"
  fix i assume "i \<in> set [1..<length ?rs]" and bad: "fst (?rs ! i) = fst (?rs ! (i - 1)) \<and> snd (?rs ! i) < snd (?rs ! (i - 1)) + B"
  then have i: "i < length ?rs" "0 < i" by simp_all
  have "distinct ?rs" using assms(1) by simp
  then have ne: "?rs ! (i - 1) \<noteq> ?rs ! i" using i by (simp add: nth_eq_iff_index_eq)
  have "?rs ! (i - 1) \<le> ?rs ! i" using i by (intro sorted_nth_mono) simp_all
  then have "snd (?rs ! (i - 1)) < snd (?rs ! i)" using ne bad by (simp add: less_eq_prod_def prod_eq_iff)
  moreover have "B dvd snd (?rs ! (i - 1))" "B dvd snd (?rs ! i)"
    using assms(2) i nth_mem [of "i - 1" ?rs] nth_mem [of i ?rs] by simp_all
  then obtain a b where "snd (?rs ! (i - 1)) = B * a" "snd (?rs ! i) = B * b" by (elim dvdE)
  ultimately have "B * a < B * b" "B * b < B * a + B" using bad by simp_all
  then have "a < b" "B * b < B * (a + 1)" by (simp_all add: algebra_simps)
  then show False unfolding mult_less_cancel1 by simp
qed

lemma verify_blocks_result:
  assumes "\<forall>h \<in> set hs. wf_block P B fs h"
  shows "verify_blocks P B fs mk hs ok n =
    Some (ok \<and> (\<forall>h \<in> set hs. \<forall>j < h_used h div pod_size P. chunk_elems P fs h ! j = mk (h_index h * IotaElemsPerChunk P B + j)),
      n + (\<Sum>h\<leftarrow>hs. h_used h div pod_size P))"
  using assms
proof (induction hs arbitrary: ok n)
  case (Cons h hs)
  have "read_block P fs h = Some (chunk_elems P fs h)" using Cons(2) read_block_wf [of P B fs h] by simp
  then show ?case using Cons by (auto simp: Let_def atLeast0LessThan)
qed simp

text \<open>Blocks with dense keys that hold the runs of a sequence, as \<open>ExternalIota\<close> leaves them.\<close>

lemma dense_blocks:
  assumes cap: "0 < cap" and keys: "map h_index hs = [0..<num_chunks cap n]"
    and cores: "mset (map (chunk_core P fs) hs) = mset (map (chunk_of conv n cap) [0..<num_chunks cap n])"
    and i: "i < length hs"
  shows "h_index (hs ! i) = i" and "chunk_elems P fs (hs ! i) = run_of cap (map conv [0..<n]) i" and "i * cap < n"
proof -
  have len: "length hs = num_chunks cap n" using keys by (metis length_map length_upt diff_zero)
  show "h_index (hs ! i) = i" using i keys len by (metis nth_map nth_upt add_0)
  show "i * cap < n" using i len less_ceil_div_iff [OF cap] num_chunks_le [of cap n] by (metis less_le_trans)
  have "map fst (map (chunk_core P fs) hs) = [0..<num_chunks cap n]" by (simp add: comp_def keys)
  moreover have "map fst (map (chunk_of conv n cap) [0..<num_chunks cap n]) = [0..<num_chunks cap n]"
    by (simp add: chunk_of_def comp_def)
  ultimately have "map (chunk_core P fs) hs = map (chunk_of conv n cap) [0..<num_chunks cap n]"
    using sort_key_perm [of "map (chunk_core P fs) hs" "map (chunk_of conv n cap) [0..<num_chunks cap n]" fst] cores
    by (metis sort_key_id_if_sorted sorted_upt distinct_upt)
  from arg_cong [OF this, of "\<lambda>zs. zs ! i"] have "chunk_core P fs (hs ! i) = chunk_of conv n cap i" using i len by simp
  then show "chunk_elems P fs (hs ! i) = run_of cap (map conv [0..<n]) i" by (simp add: chunk_core_def chunk_of_def)
qed

lemma iota_header:
  assumes P: "pod_repr P" and n: "n < 2 ^ 64" and cap: "0 < B div pod_size P" and A: "A dvd B"
    and place: "h_filename h \<in> set names" "B dvd h_begin_address h" and wf: "wf_block P B fs h"
    and index: "h_index h = i" and elems: "chunk_elems P fs h = run_of (B div pod_size P) (map conv [0..<n]) i"
    and below: "i * (B div pod_size P) < n"
  shows "iota_header_ok P A B n names i h"
proof -
  let ?cap = "B div pod_size P"
  have used: "pod_size P dvd h_used h" "h_used h \<le> B" using wf by (simp_all add: wf_block_def)
  have "h_used h div pod_size P = length (run_of ?cap (map conv [0..<n]) i)" using elems by (metis length_chunk_elems)
  also have "\<dots> = min ?cap (n - i * ?cap)" by (simp add: run_of_def)
  finally have "h_used h = min ?cap (n - i * ?cap) * pod_size P" using used(1) by (metis dvd_div_mult_self)
  moreover have "0 < min ?cap (n - i * ?cap)" using below cap by simp
  moreover have "A dvd h_begin_address h" using A place(2) by (rule dvd_trans)
  ultimately show ?thesis using used place index pod_repr.size_pos [OF P] below n
    by (simp add: iota_header_ok_def IotaElemsPerChunk_def sub64_le)
qed

lemma iota_data:
  assumes "0 < cap" and "map h_index hs = [0..<num_chunks cap n]"
    and "mset (map (chunk_core P fs) hs) = mset (map (chunk_of conv n cap) [0..<num_chunks cap n])"
    and h: "h \<in> set hs" and j: "j < h_used h div pod_size P"
  shows "chunk_elems P fs h ! j = conv (h_index h * cap + j)"
proof -
  obtain i where i: "i < length hs" "h = hs ! i" using h by (metis in_set_conv_nth)
  note dense = dense_blocks [OF assms(1-3) i(1), folded i(2)]
  have "j < length (run_of cap (map conv [0..<n]) i)" using j dense(2) by (metis length_chunk_elems)
  then have "run_of cap (map conv [0..<n]) i ! j = map conv [0..<n] ! (i * cap + j)" "i * cap + j < n"
    by (auto simp: run_of_def)
  then show ?thesis using dense(1,2) by simp
qed

lemma iota_case:
  assumes P: "pod_repr P" and sizes: "sizes_ok P A B N" and small: "n + B div pod_size P + N \<le> 2 ^ 64"
  shows "\<exists>checks fs'. RunIotaCase conv P A B N ssds prefix n conv fs checks fs'"
    and "RunIotaCase conv P A B N ssds prefix n conv fs checks fs' \<Longrightarrow> checks = Some [True, True, True] \<and>
      (\<forall>f \<in> set (OutputNames N prefix). fs' f = None)"
proof -
  let ?cap = "B div pod_size P" and ?names = "OutputNames N prefix"
  note env = output_env [OF sizes, of prefix]
  have cap: "0 < ?cap" using env_ok_cap [OF env P] by blast
  have n: "n < 2 ^ 64" using small cap by linarith
  have count: "IotaChunkCount P B n = num_chunks ?cap n" by (simp add: IotaChunkCount_def IotaElemsPerChunk_def num_chunks_def)
  have s: "seq_size (new_sequence (IotaChunkCount P B n)) = num_chunks ?cap n"
    by (simp add: seq_size_def new_sequence_def count)
  have f: "fills (\<lambda>b k. conv (b + k)) conv" by (simp add: fills_def)
  show "\<exists>checks fs'. RunIotaCase conv P A B N ssds prefix n conv fs checks fs'"
    using generate_exists [OF f P env small s, of ssds "snd (MakeOutputNames N prefix fs)"]
    unfolding RunIotaCase_def RunIota_def ExternalIota_def iota_work_def by (auto simp: MakeOutputNames_def)
  assume "RunIotaCase conv P A B N ssds prefix n conv fs checks fs'"
  then obtain out fs1 where gen: "generate (chunk_work (\<lambda>b k. conv (b + k)) n ?cap N) P A B N ssds ?names
        (RemoveFiles ?names fs) (expected_write_count ?cap N n) (new_sequence (IotaChunkCount P B n)) out fs1"
    and ck: "checks = map_option (\<lambda>(data_ok, total_out). [CheckIotaInvariants P A B out n ?names,
          total_out = n, data_ok \<and> total_out = n]) (VerifyIotaData P B fs1 out conv)"
    and rm: "fs' = RemoveFiles ?names fs1"
    unfolding RunIotaCase_def RunIota_def ExternalIota_def iota_work_def by (auto simp: MakeOutputNames_def)
  note gc = generate_correct [OF gen f P env small s]
  let ?hs = "ordered_underlying_sequence out"
  have keys: "map h_index ?hs = [0..<num_chunks ?cap n]" using gc by blast
  have hs: "sort_key h_index ?hs = ?hs" by (rule sort_key_id_if_sorted) (simp add: keys)
  have wf: "\<forall>h \<in> set ?hs. wf_block P B fs1 h" using gc by (simp add: wf_seq_def)
  have len: "length ?hs = num_chunks ?cap n" using keys by (metis length_map length_upt diff_zero)
  have cores: "mset (map (chunk_core P fs1) ?hs) = mset (map (chunk_of conv n ?cap) [0..<num_chunks ?cap n])" using gc by blast
  have AB: "A dvd B" using sizes by (simp add: sizes_ok_def)
  have header: "iota_header_ok P A B n ?names i (?hs ! i)" if i: "i < length ?hs" for i
  proof -
    have h: "?hs ! i \<in> set ?hs" using i by simp
    then have "h_filename (?hs ! i) \<in> set ?names" "B dvd h_begin_address (?hs ! i)" using gc unfolding blocks_apart_def by blast+
    then show ?thesis using iota_header [OF P n cap AB _ _ bspec [OF wf h]] dense_blocks [OF cap keys cores i] by blast
  qed
  have total: "(\<Sum>h\<leftarrow>?hs. h_used h div pod_size P) = n"
  proof -
    have "concat (map (chunk_elems P fs1) ?hs) = map conv [0..<n]" using gc ReadOutput_wf [of P B fs1 out] hs by simp
    from arg_cong [OF this, of length] show ?thesis by (simp add: length_concat comp_def)
  qed
  have regions: "regions_apart B (sort (map (\<lambda>h. (h_filename h, h_begin_address h)) ?hs))"
    using gc by (intro regions_apart_sorted) (auto simp: blocks_apart_def)
  have inv: "CheckIotaInvariants P A B out n ?names"
    unfolding CheckIotaInvariants_def Let_def hs count using len header total regions by simp
  have "VerifyIotaData P B fs1 out conv = Some (True, n)"
    unfolding VerifyIotaData_def hs verify_blocks_result [OF wf] using iota_data [OF cap keys cores] total
    by (simp add: IotaElemsPerChunk_def)
  then show "checks = Some [True, True, True] \<and> (\<forall>f \<in> set ?names. fs' f = None)"
    using inv ck rm by (simp add: RemoveFiles_eq)
qed

section \<open>Properties\<close>

lemma demo_sizes: "sizes_ok u8_pod 2 4 2" "sizes_ok u16_pod 2 4 2"
  by (simp_all add: sizes_ok_def u8_pod_def u16_pod_def)

text \<open>C24: Every filter case passes: for every element type, every chunk of at most one block, every
predicate and every interleaving, building the input, filtering it and reading the result back
completes, the headers satisfy all the invariants that the program checks, the elements are those of
the in-memory reference, and none of the case's files is left.\<close>

theorem filter_cases_pass:
  assumes "pod_repr P" and "sizes_ok P A B N" and "\<forall>c < nc. len c * pod_size P \<le> B" and "nc < 2 ^ 64"
  shows "(\<exists>checks fs'. RunSizeCase P A B N ssds prefix nc mk p len fs checks fs') \<and>
    (\<forall>checks fs'. RunSizeCase P A B N ssds prefix nc mk p len fs checks fs' \<longrightarrow> checks = Some [True, True, True] \<and>
      (\<forall>f \<in> set (map (input_name prefix) [0..<nc] @ OutputNames N prefix). fs' f = None))"
  using filter_case [OF assms] by blast

lemma filter_cases_pass_witness:
  "\<exists>fs'. RunSizeCase u8_pod 2 4 2 [] ''t'' 5 of_nat even (\<lambda>c. c mod 4) Map.empty (Some [True, True, True]) fs'"
  using filter_cases_pass [OF u8_repr.pod_repr_axioms demo_sizes(1), of 5 "\<lambda>c. c mod 4" "[]" "''t''" of_nat even Map.empty]
  by (fastforce simp: u8_pod_def)

text \<open>C26: Every generator case passes, for an \<open>n\<close> for which the sums that count the chunks and the
batches do not wrap around: \<open>ExternalIota\<close> on fresh files gives blocks that satisfy all the invariants
that the program checks (dense keys, exact sizes, aligned places that do not overlap), and every element read back from its block is the number of its position.\<close>

theorem iota_cases_pass:
  assumes "pod_repr P" and "sizes_ok P A B N" and "n + B div pod_size P + N \<le> 2 ^ 64"
  shows "(\<exists>checks fs'. RunIotaCase conv P A B N ssds prefix n conv fs checks fs') \<and>
    (\<forall>checks fs'. RunIotaCase conv P A B N ssds prefix n conv fs checks fs' \<longrightarrow> checks = Some [True, True, True] \<and>
      (\<forall>f \<in> set (OutputNames N prefix). fs' f = None))"
  using iota_case [OF assms] by blast

lemma iota_cases_pass_witness:
  "\<exists>fs'. RunIotaCase of_nat u16_pod 2 4 2 [] ''t'' 7 of_nat Map.empty (Some [True, True, True]) fs'"
  using iota_cases_pass [OF u16_repr.pod_repr_axioms demo_sizes(2), of 7 of_nat "[]" "''t''" Map.empty]
  by (fastforce simp: u16_pod_def)

text \<open>C25: Every map case passes, for element types of any two sizes, also when a block of the input fans out
into several blocks: the result has dense keys, as many elements as the input and the values of the
in-memory reference.\<close>

theorem map_cases_pass:
  assumes "pod_repr P" and "pod_repr Q" and "pod_size P dvd B" and "sizes_ok Q A B N" and "\<forall>c < nc. len c * pod_size P \<le> B"
  shows "(\<exists>checks fs'. RunMapCase P Q A B N ssds hash64 prefix nc mk len f fs checks fs') \<and>
    (\<forall>checks fs'. RunMapCase P Q A B N ssds hash64 prefix nc mk len f fs checks fs' \<longrightarrow> checks = Some [True, True, True] \<and>
      (\<forall>f \<in> set (map (input_name prefix) [0..<nc] @ OutputNames N prefix). fs' f = None))"
  using map_case [OF assms] by blast

lemma map_cases_pass_witness:
  "\<exists>fs'. RunMapCase u8_pod u16_pod 2 4 2 [] id ''t'' 3 of_nat (\<lambda>c. c + 2) (\<lambda>x. ucast x + 300) Map.empty (Some [True, True, True]) fs'"
  using map_cases_pass [OF u8_repr.pod_repr_axioms u16_repr.pod_repr_axioms _ demo_sizes(2), of 3 "\<lambda>c. c + 2" "[]" id "''t''" of_nat
      "\<lambda>x. ucast x + 300" Map.empty]
  by (fastforce simp: u8_pod_def)

text \<open>Every reduce case with a commutative monoid passes, also on empty chunks: the value is that of the
in-memory loop over the elements in order.\<close>

theorem reduce_cases_pass:
  assumes "pod_repr P" and "sizes_ok P A B N" and "\<forall>c < nc. len c * pod_size P \<le> B" and "comm_op f e" and "0 < W"
  shows "(\<exists>check fs'. RunReduceCase W P A B prefix nc mk len f conv e fs check fs') \<and>
    (\<forall>check fs'. RunReduceCase W P A B prefix nc mk len f conv e fs check fs' \<longrightarrow>
       check \<and> (\<forall>f \<in> set (map (input_name prefix) [0..<nc]). fs' f = None))"
  using reduce_case [OF assms] by blast

lemma reduce_cases_pass_witness:
  "\<exists>fs'. RunReduceCase 3 u8_pod 2 4 ''t'' 5 of_nat (\<lambda>c. c mod 4) (+) unat (0 :: nat) Map.empty True fs'"
proof -
  have op: "comm_op (+) (0 :: nat)" by (simp add: comm_op_def)
  show ?thesis
    using reduce_cases_pass [OF u8_repr.pod_repr_axioms demo_sizes(1) _ op, of 5 "\<lambda>c. c mod 4" 3 "''t''" of_nat unat Map.empty]
    by (fastforce simp: u8_pod_def)
qed

end
