(* ===== verification/SortVerify.thy ===== *)
theory SortVerify
  imports SampleSort
begin

text \<open>
  The checks of sample-sort.cpp on the files that the sort produced: \<open>VerifySortingResult\<close> reads them one
  after the other and looks for an element below its predecessor, \<open>CompareSortingResult\<close> compares every
  element with an expected sequence, given as a function of the position. \<open>cap\<close> is the largest number
  of bytes one \<open>read\<close> returns; \<open>None\<close> is a read that fails or never ends, or an access out of range.
\<close>

text \<open>\<open>ReadEntireFile\<close> with enough fuel for one byte per \<open>read\<close> (\<open>read_entire_enough\<close>).\<close>

definition read_file :: "nat \<Rightarrow> fstore \<Rightarrow> string \<Rightarrow> nat \<Rightarrow> byte list option" where
  "read_file cap fs name read_size = ReadEntireFile (Suc (round_up O_DIRECT_MULTIPLE read_size)) cap fs name read_size"

section \<open>Verifying the order\<close>

datatype sort_check = Unsorted | SizeMismatch nat | Passed

text \<open>One file; \<open>prev\<close> is the element before, and the last one is handed on.\<close>

fun verify_elems :: "('a \<Rightarrow> 'a \<Rightarrow> bool) \<Rightarrow> 'a \<Rightarrow> 'a list \<Rightarrow> 'a option" where
  "verify_elems lt prev [] = Some prev"
| "verify_elems lt prev (x # xs) = (if lt x prev then None else verify_elems lt x xs)"

fun verify_files :: "'a pod \<Rightarrow> nat \<Rightarrow> fstore \<Rightarrow> ('a \<Rightarrow> 'a \<Rightarrow> bool) \<Rightarrow> FileInfo list \<Rightarrow> nat \<Rightarrow> 'a \<Rightarrow> sort_check option" where
  "verify_files P cap fs lt [] expected_size prev =
     Some (if expected_size \<noteq> 0 then SizeMismatch expected_size else Passed)"
| "verify_files P cap fs lt (info # infos) expected_size prev =
     (case read_file cap fs (fi_file_name info) (fi_file_size info) of
        None \<Rightarrow> None
      | Some arr \<Rightarrow>
          let n = fi_true_size info div pod_size P
          in case verify_elems lt prev (dec_list P n arr) of
               None \<Rightarrow> Some Unsorted
             | Some last_elem \<Rightarrow> verify_files P cap fs lt infos (sub64 expected_size n) last_elem)"

definition VerifySortingResult :: "'a pod \<Rightarrow> nat \<Rightarrow> fstore \<Rightarrow> ('a \<Rightarrow> 'a \<Rightarrow> bool) \<Rightarrow> 'a \<Rightarrow> FileInfo list \<Rightarrow> nat \<Rightarrow> sort_check option" where
  "VerifySortingResult P cap fs lt least file_list expected_size = verify_files P cap fs lt file_list expected_size least"

section \<open>Comparing with an expected sequence\<close>

datatype 'a compare_check = WrongSize nat nat | Mismatch "(nat \<times> 'a) list" | NoMismatch

text \<open>The loop gives up after the eleventh mismatch of a file.\<close>

fun mismatch_loop :: "(nat \<Rightarrow> 'a) \<Rightarrow> nat \<Rightarrow> 'a list \<Rightarrow> (nat \<times> 'a) list \<Rightarrow> (nat \<times> 'a) list" where
  "mismatch_loop expected i [] mismatches = mismatches"
| "mismatch_loop expected i (x # xs) mismatches =
     (if expected i \<noteq> x
      then if 10 < length (mismatches @ [(i, x)]) then mismatches @ [(i, x)]
           else mismatch_loop expected (i + 1) xs (mismatches @ [(i, x)])
      else mismatch_loop expected (i + 1) xs mismatches)"

definition CompareSortingResultFile :: "'a pod \<Rightarrow> nat \<Rightarrow> fstore \<Rightarrow> (nat \<Rightarrow> 'a) \<Rightarrow> nat \<Rightarrow> FileInfo \<Rightarrow> (nat \<times> 'a) list option" where
  "CompareSortingResultFile P cap fs expected start_index f =
     map_option (\<lambda>current_file. mismatch_loop expected start_index (dec_list P (fi_true_size f div pod_size P) current_file) [])
       (read_file cap fs (fi_file_name f) (fi_true_size f))"

text \<open>The first element of each file; entry \<open>n_files\<close> of the vector stays 0.\<close>

fun file_starts :: "'a pod \<Rightarrow> nat \<Rightarrow> FileInfo list \<Rightarrow> nat list" where
  "file_starts P start [] = []"
| "file_starts P start (f # fs) = start # file_starts P (start + fi_true_size f div pod_size P) fs"

text \<open>An empty list of files is read out of range. The files are compared in parallel.\<close>

definition CompareSortingResult :: "'a pod \<Rightarrow> nat \<Rightarrow> fstore \<Rightarrow> (nat \<Rightarrow> 'a) \<Rightarrow> nat \<Rightarrow> FileInfo list \<Rightarrow> 'a compare_check option" where
  "CompareSortingResult P cap fs expected total_size file_list =
     (if file_list = [] then None
      else let prefix_sum = file_starts P 0 file_list;
               file_size = last prefix_sum + fi_true_size (last file_list) div pod_size P
           in if file_size \<noteq> total_size then Some (WrongSize total_size file_size)
              else let found = map (\<lambda>(start, f). CompareSortingResultFile P cap fs expected start f) (zip prefix_sum file_list)
                   in if None \<in> set found then None
                      else let mismatches = concat (map the found)
                           in Some (if mismatches = [] then NoMismatch else Mismatch (take 10 mismatches)))"

section \<open>What the checks decide\<close>

lemma read_result:
  assumes r: "result_readable fs info" and cap: "0 < cap" and n: "fi_true_size info \<le> n" "n \<le> fi_file_size info"
  shows "\<exists>arr. read_file cap fs (fi_file_name info) n = Some arr \<and>
    dec_list P (fi_true_size info div pod_size P) arr = result_elems P fs info"
proof -
  let ?N = "round_up O_DIRECT_MULTIPLE n" and ?F = "file_of fs (fi_file_name info)" and ?m = "fi_true_size info div pod_size P"
  have O: "0 < O_DIRECT_MULTIPLE" by (simp add: O_DIRECT_MULTIPLE_def)
  have "?N \<le> fi_file_size info" using r n(2) by (intro round_up_le [OF O]) (simp_all add: result_readable_def)
  then have "?N \<le> length ?F" using r by (simp add: result_readable_def)
  moreover have "?N \<le> 0 + ?N * cap" using cap by simp
  ultimately have "read_entire_loop (Suc ?N) cap fs (fi_file_name info) ?N [] = Some (fs_read fs (fi_file_name info) 0 ?N)"
    using read_entire_enough [OF cap, of ?N fs "fi_file_name info" "[]" ?N] by (simp add: fs_read_def)
  then have "read_file cap fs (fi_file_name info) n = Some (take ?N ?F)"
    using r by (simp add: read_file_def ReadEntireFile_def result_readable_def fs_read_def)
  moreover have "?m * pod_size P \<le> ?N"
    using div_times_less_eq_dividend [of "fi_true_size info" "pod_size P"] n(1) round_up_ge [OF O, of n] by linarith
  ultimately show ?thesis by (simp add: result_elems_def dec_list_take)
qed

definition ascending :: "('a \<Rightarrow> 'a \<Rightarrow> bool) \<Rightarrow> 'a list \<Rightarrow> bool" where
  "ascending lt = sorted_wrt (\<lambda>x y. \<not> lt y x)"

lemma ascending_one [simp]: "ascending lt [x]"
  by (simp add: ascending_def)

lemma ascending_Cons: "strict_weak lt \<Longrightarrow> ascending lt (x # y # zs) \<longleftrightarrow> \<not> lt y x \<and> ascending lt (y # zs)"
  unfolding ascending_def by (rule sorted_wrt2) (simp add: strict_weak_def transp_def, blast)

lemma ascending_split:
  assumes "strict_weak lt"
  shows "ascending lt (prev # xs @ ys) \<longleftrightarrow> ascending lt (prev # xs) \<and> ascending lt (last (prev # xs) # ys)"
proof (induction xs arbitrary: prev)
  case (Cons x xs)
  then show ?case by (simp add: ascending_Cons [OF assms])
qed simp

lemma verify_elems_result:
  assumes "strict_weak lt"
  shows "verify_elems lt prev xs = (if ascending lt (prev # xs) then Some (last (prev # xs)) else None)"
proof (induction xs arbitrary: prev)
  case (Cons x xs)
  then show ?case by (simp add: ascending_Cons [OF assms])
qed simp

lemma sub64_eq: "e < 2 ^ 64 \<Longrightarrow> n + k < 2 ^ 64 \<Longrightarrow> sub64 e n = k \<longleftrightarrow> e = n + k"
proof (cases "n \<le> e")
  case True
  then show "sub64 e n = k \<longleftrightarrow> e = n + k" if "e < 2 ^ 64" using that by (auto simp: sub64_le)
next
  case False
  then show "sub64 e n = k \<longleftrightarrow> e = n + k" if "n + k < 2 ^ 64" using that by (simp add: sub64_def)
qed

lemma verify_files_result:
  assumes lt: "strict_weak lt" and cap: "0 < cap"
  shows "\<forall>r \<in> set infos. result_readable fs r \<Longrightarrow> e < 2 ^ 64 \<Longrightarrow> length (concat (map (result_elems P fs) infos)) < 2 ^ 64 \<Longrightarrow>
    \<exists>r. verify_files P cap fs lt infos e prev = Some r \<and>
      (r = Passed \<longleftrightarrow> ascending lt (prev # concat (map (result_elems P fs) infos)) \<and> length (concat (map (result_elems P fs) infos)) = e)"
proof (induction infos arbitrary: e prev)
  case (Cons info infos)
  let ?xs = "result_elems P fs info" and ?ys = "concat (map (result_elems P fs) infos)"
  have r: "result_readable fs info" using Cons(2) by simp
  then obtain arr where arr: "read_file cap fs (fi_file_name info) (fi_file_size info) = Some arr"
      "dec_list P (fi_true_size info div pod_size P) arr = ?xs"
    using read_result [OF r cap, of "fi_file_size info" P] by (auto simp: result_readable_def)
  have len: "length ?xs = fi_true_size info div pod_size P" by (simp add: result_elems_def)
  show ?case
  proof (cases "ascending lt (prev # ?xs)")
    case False
    then show ?thesis using arr ascending_split [OF lt, of prev ?xs ?ys]
      by (simp add: verify_elems_result [OF lt] Let_def)
  next
    case True
    let ?e = "sub64 e (length ?xs)" and ?last = "last (prev # ?xs)"
    have e: "?e < 2 ^ 64" "?e = length ?ys \<longleftrightarrow> e = length ?xs + length ?ys"
      using Cons(4) by (simp add: sub64_def) (rule sub64_eq [OF Cons(3)], use Cons(4) in simp)
    have "length ?ys < 2 ^ 64" using Cons(4) by simp
    from Cons(1) [OF _ e(1) this, of ?last] Cons(2)
    obtain r where "verify_files P cap fs lt infos ?e ?last = Some r"
        "r = Passed \<longleftrightarrow> ascending lt (?last # ?ys) \<and> length ?ys = ?e" by auto
    then show ?thesis
      using arr True e(2) ascending_split [OF lt, of prev ?xs ?ys] len
      by (simp add: verify_elems_result [OF lt] Let_def) (metis add.commute)
  qed
qed auto

lemma mismatch_loop_result:
  "\<exists>ys. mismatch_loop expected i xs acc = acc @ ys \<and> (ys = [] \<longleftrightarrow> xs = map expected [i..<i + length xs])"
proof (induction expected i xs acc rule: mismatch_loop.induct)
  case (2 expected i x xs acc)
  have up: "map expected [i..<i + length (x # xs)] = expected i # map expected [i + 1..<i + 1 + length xs]"
    by (simp add: upt_conv_Cons del: upt_Suc)
  show ?case
  proof (cases "expected i = x")
    case True
    then show ?thesis using 2(2) unfolding up by auto
  next
    case False
    then show ?thesis using 2(1) unfolding up by (cases "10 < length (acc @ [(i, x)])") auto
  qed
qed simp

lemma file_starts_last:
  "files \<noteq> [] \<Longrightarrow> last (file_starts P start files) + fi_true_size (last files) div pod_size P =
     start + (\<Sum>f\<leftarrow>files. fi_true_size f div pod_size P)"
proof (induction P start files rule: file_starts.induct)
  case (2 P start f fs)
  then show ?case by (cases fs) simp_all
qed simp

lemma append_upt: "xs = map expected [s..<s + length xs] \<and> ys = map expected [s + length xs..<s + length xs + length ys]
    \<longleftrightarrow> xs @ ys = map expected [s..<s + length (xs @ ys)]"
proof -
  have "map expected [s..<s + length (xs @ ys)] =
      map expected [s..<s + length xs] @ map expected [s + length xs..<s + length xs + length ys]"
    using upt_add_eq_append [of s "s + length xs" "length ys"] by (simp only: le_add1 length_append add.assoc map_append)
  then show ?thesis by (simp del: length_append)
qed

lemma compare_files_result:
  assumes cap: "0 < cap"
  shows "\<forall>r \<in> set files. result_readable fs r \<Longrightarrow>
    None \<notin> set (map (\<lambda>(start, f). CompareSortingResultFile P cap fs expected start f) (zip (file_starts P s files) files)) \<and>
    (concat (map the (map (\<lambda>(start, f). CompareSortingResultFile P cap fs expected start f) (zip (file_starts P s files) files))) = []
      \<longleftrightarrow> concat (map (result_elems P fs) files) = map expected [s..<s + length (concat (map (result_elems P fs) files))])"
proof (induction files arbitrary: s)
  case (Cons f files)
  let ?xs = "result_elems P fs f" and ?ys = "concat (map (result_elems P fs) files)"
  have r: "result_readable fs f" using Cons(2) by simp
  have len: "length ?xs = fi_true_size f div pod_size P" by (simp add: result_elems_def)
  obtain arr where arr: "read_file cap fs (fi_file_name f) (fi_true_size f) = Some arr"
      "dec_list P (fi_true_size f div pod_size P) arr = ?xs"
    using read_result [OF r cap, of "fi_true_size f" P] r by (auto simp: result_readable_def)
  obtain zs where zs: "mismatch_loop expected s ?xs [] = zs" "zs = [] \<longleftrightarrow> ?xs = map expected [s..<s + length ?xs]"
    using mismatch_loop_result [of expected s ?xs "[]"] by auto
  have "CompareSortingResultFile P cap fs expected s f = Some zs"
    using arr zs(1) by (simp add: CompareSortingResultFile_def)
  then show ?case
    using Cons(1) [of "s + length ?xs"] Cons(2) zs(2) append_upt [of ?xs expected s ?ys] len
    by (simp del: length_append length_concat)
qed simp

lemma CompareSortingResult_eq:
  assumes "0 < cap" and "\<forall>r \<in> set files. result_readable fs r" and "files \<noteq> []"
  shows "CompareSortingResult P cap fs expected n files = Some NoMismatch \<longleftrightarrow>
    concat (map (result_elems P fs) files) = map expected [0..<n]"
proof -
  let ?all = "concat (map (result_elems P fs) files)"
  have len: "length ?all = last (file_starts P 0 files) + fi_true_size (last files) div pod_size P"
    using file_starts_last [OF assms(3), of P 0] by (simp add: length_concat comp_def result_elems_def)
  have all: "?all = map expected [0..<n] \<longleftrightarrow> length ?all = n \<and> ?all = map expected [0..<0 + length ?all]"
    by (metis add_0 length_map length_upt diff_zero)
  let ?found = "map (\<lambda>(start, f). CompareSortingResultFile P cap fs expected start f) (zip (file_starts P 0 files) files)"
  have "CompareSortingResult P cap fs expected n files =
      (if length ?all \<noteq> n then Some (WrongSize n (length ?all)) else if None \<in> set ?found then None
       else Some (if concat (map the ?found) = [] then NoMismatch else Mismatch (take 10 (concat (map the ?found)))))"
    unfolding CompareSortingResult_def Let_def len using assms(3) by simp
  moreover have "None \<notin> set ?found" "concat (map the ?found) = [] \<longleftrightarrow> ?all = map expected [0..<0 + length ?all]"
    using compare_files_result [OF assms(1,2), of P expected 0] by simp_all
  ultimately show ?thesis unfolding all by (cases "length ?all = n") (simp_all only: simp_thms if_True if_False option.inject compare_check.distinct split: if_split)
qed

section \<open>Properties\<close>

lemma count_bound: "length (concat (map (file_elems P fs) files)) \<le> (\<Sum>info\<leftarrow>files. fi_file_size info)"
  by (induction files) (auto simp: file_elems_def intro: add_mono)

text \<open>C23: Sorting and then verifying always passes: for a strict weak order whose least value is
\<open>numeric_limits<T>::min()\<close>, whatever random numbers, interleavings and threads the sort has, every run
of it leaves files that \<open>VerifySortingResult\<close> reads completely and accepts, with the number of
elements of the input.\<close>

theorem sort_then_verify:
  assumes "pod_repr P" and "element_size_ok P R" and "2 < T"
    and "GetFileInfo fs False True input_files = Some files" and "inputs_ok fs files" and "memory_ok junk files"
    and "strict_weak lt" and "sorts lt srt"
    and "CHR ''/'' \<notin> set result_prefix" and "separate_prefixes ssds scatter_prefix result_prefix"
    and "files_apart ssds scatter_prefix files" and "\<forall>x. \<not> lt x least" and "0 < cap"
    and "SampleSort P R cap T root draw rand lt srt0 srt junk junk1 buffers ssds input_files result_prefix fs results fs'"
    and "\<forall>r \<in> set results. fi_file_size r \<le> cap"
  shows "VerifySortingResult P cap fs' lt least results (length (concat (map (file_elems P fs) files))) = Some Passed"
proof -
  note s = SampleSort_result(2) [OF assms(1-10,14,15)]
  let ?out = "concat (map (result_elems P fs') results)" and ?in = "concat (map (file_elems P fs) files)"
  have len: "length ?out = length ?in" using s mset_eq_length by blast
  have "length ?in < 2 ^ 64" using count_bound [of P fs files] assms(6) by (simp add: memory_ok_def)
  moreover have "ascending lt (least # ?out)" using s assms(12) by (simp add: ascending_def)
  ultimately show ?thesis
    using verify_files_result [OF assms(7,13), of results fs' "length ?in" P least] s len
    by (auto simp: VerifySortingResult_def)
qed

lemma sort_then_verify_witness:
  "\<exists>results fs'. SampleSort u8_pod 4096 2147479552 3 (\<lambda>k. 2) (\<lambda>i. i) (\<lambda>i. i) (<) sort sort
       (\<lambda>i. replicate 8192 0) (\<lambda>i. []) (\<lambda>i. []) [] [new_FileInfo ''a'' 0 0 0] ''out'' demo_sort_fs results fs' \<and>
     VerifySortingResult u8_pod 2147479552 fs' (<) 0 results
       (length (concat (map (file_elems u8_pod demo_sort_fs) demo_sort_files))) = Some Passed"
proof -
  have T: "(2 :: nat) < 3" and slash: "CHR ''/'' \<notin> set ''out''" and least: "\<forall>x :: byte. \<not> x < 0" and cap: "(0 :: nat) < 2147479552" by simp_all
  note ok = u8_repr.pod_repr_axioms demo_sort_ok(3) T demo_sort_info demo_sort_ok(1,2) word_sorts slash demo_sort_ok(4)
  obtain results fs' where run: "SampleSort u8_pod 4096 2147479552 3 (\<lambda>k. 2) (\<lambda>i. i) (\<lambda>i. i) (<) sort sort
       (\<lambda>i. replicate 8192 0) (\<lambda>i. []) (\<lambda>i. []) [] [new_FileInfo ''a'' 0 0 0] ''out'' demo_sort_fs results fs'"
    using SampleSort_exists [OF ok demo_samples_ok] by blast
  have "(\<Sum>info\<leftarrow>demo_sort_files. fi_file_size info) + METADATA_SIZE + O_DIRECT_MULTIPLE \<le> 2147479552"
    by (simp add: demo_sort_files_def demo_bytes_def METADATA_SIZE_def O_DIRECT_MULTIPLE_def)
  then have "\<forall>r \<in> set results. fi_file_size r \<le> 2147479552"
    using SampleSort_result(1) [OF ok run] by (meson less_imp_le order_less_le_trans)
  from sort_then_verify [OF ok demo_sort_ok(5) least cap run this] run show ?thesis by blast
qed

text \<open>\<open>CompareSortingResult\<close> reports no mismatch exactly if the files, one after the other, hold the
expected sequence; an empty list of files makes it read outside its vector.\<close>

theorem CompareSortingResult_correct:
  assumes "0 < cap" and "\<forall>r \<in> set files. result_readable fs r"
  shows "CompareSortingResult P cap fs expected n files = Some NoMismatch \<longleftrightarrow>
    files \<noteq> [] \<and> concat (map (result_elems P fs) files) = map expected [0..<n]"
  using CompareSortingResult_eq [OF assms] by (cases "files = []") (auto simp: CompareSortingResult_def)

lemma CompareSortingResult_correct_witness:
  "CompareSortingResult u8_pod 4096 [''r'' \<mapsto> replicate 4096 0] (\<lambda>i. word_of_nat (i div 2)) 2 [new_FileInfo ''r'' 0 2 4096] = Some NoMismatch"
proof -
  let ?fs = "[''r'' \<mapsto> replicate 4096 (0 :: byte)]" and ?info = "new_FileInfo ''r'' 0 2 4096"
  have r: "\<forall>r \<in> set [?info]. result_readable ?fs r"
    by (simp add: result_readable_def new_FileInfo_def file_of_def O_DIRECT_MULTIPLE_def)
  have "concat (map (result_elems u8_pod ?fs) [?info]) = map (\<lambda>i. word_of_nat (i div 2)) [0..<2]"
    by (simp add: result_elems_def new_FileInfo_def file_of_def u8_size dec_list_u8 upt_rec numeral_2_eq_2 u8_pod_def)
  with CompareSortingResult_correct [OF _ r, of 4096 u8_pod "\<lambda>i. word_of_nat (i div 2)" 2] show ?thesis by simp
qed

end
