(* ===== verification/QueuePhase.thy ===== *)
theory QueuePhase
  imports ScatterCorrect SimpleQueue
begin

text \<open>
  \<open>QueuePhase2\<close> of scatter_gather_algorithms/scatter_gather.h: phase 2 with three groups of threads. The
  read workers load the buckets and push them to the read queue, the processors take them from there and
  push the result to the write queue, the write workers write it. The threads of a group are alike, so
  the state keeps the multiset of the points they are at, with the values of their local variables. A
  step is one atomic access to the shared state, together with the local work before it.
\<close>

type_synonym loaded = "nat \<times> byte list"

datatype reader_pc = RNext | RLoaded nat "byte list" | RPushed | RClosing | RReturned
datatype processor_pc = PPoll | PHolds nat "byte list" | PReturned
datatype writer_pc = WPoll | WHolds nat "byte list" | WReturned

record queue_phase =
  qp_current_file :: nat
  qp_files_read :: nat
  qp_read_queue :: "loaded simple_queue"
  qp_write_queue :: "loaded simple_queue"
  qp_readers :: "reader_pc multiset"
  qp_processors :: "processor_pc multiset"
  qp_writers :: "writer_pc multiset"
  qp_store :: fstore
  qp_results :: "FileInfo list"

definition process_pointer :: "'a pod \<Rightarrow> ('a list \<Rightarrow> 'a list) \<Rightarrow> FileInfo \<Rightarrow> byte list \<Rightarrow> byte list" where
  "process_pointer P processor info pointer = process_buffer P processor (fi_true_size info div pod_size P) pointer"

text \<open>The write queue is closed after \<open>parallel_for\<close> has ended, when all processors have returned.\<close>

inductive queue_step :: "'a pod \<Rightarrow> nat \<Rightarrow> nat \<Rightarrow> string list \<Rightarrow> string \<Rightarrow> ('a list \<Rightarrow> 'a list) \<Rightarrow> FileInfo list \<Rightarrow>
    queue_phase \<Rightarrow> queue_phase \<Rightarrow> bool"
  for P fuel cap ssds result_prefix processor bucket_list s where
  r_take: "qp_readers s = add_mset RNext R \<Longrightarrow> index = qp_current_file s \<Longrightarrow> index < length bucket_list \<Longrightarrow>
    ReadEntireFile fuel cap (qp_store s) (fi_file_name (bucket_list ! index)) (fi_file_size (bucket_list ! index)) = Some pointer \<Longrightarrow>
    queue_step P fuel cap ssds result_prefix processor bucket_list s
      (s\<lparr>qp_current_file := index + 1, qp_readers := add_mset (RLoaded index pointer) R\<rparr>)"
| r_return: "qp_readers s = add_mset RNext R \<Longrightarrow> length bucket_list \<le> qp_current_file s \<Longrightarrow>
    queue_step P fuel cap ssds result_prefix processor bucket_list s
      (s\<lparr>qp_current_file := qp_current_file s + 1, qp_readers := add_mset RReturned R\<rparr>)"
| r_push: "qp_readers s = add_mset (RLoaded index pointer) R \<Longrightarrow> Push (qp_read_queue s) (index, pointer) = Some q \<Longrightarrow>
    queue_step P fuel cap ssds result_prefix processor bucket_list s
      (s\<lparr>qp_read_queue := q, qp_readers := add_mset RPushed R\<rparr>)"
| r_count: "qp_readers s = add_mset RPushed R \<Longrightarrow> index = qp_files_read s + 1 \<Longrightarrow>
    queue_step P fuel cap ssds result_prefix processor bucket_list s
      (s\<lparr>qp_files_read := index, qp_readers := add_mset (if index = length bucket_list then RClosing else RNext) R\<rparr>)"
| r_close: "qp_readers s = add_mset RClosing R \<Longrightarrow>
    queue_step P fuel cap ssds result_prefix processor bucket_list s
      (s\<lparr>qp_read_queue := Close (qp_read_queue s), qp_readers := add_mset RNext R\<rparr>)"
| p_poll: "qp_processors s = add_mset PPoll R \<Longrightarrow> Poll (qp_read_queue s) (0, []) (-1) False = Polled (index, pointer) SUCCESS q \<Longrightarrow>
    queue_step P fuel cap ssds result_prefix processor bucket_list s
      (s\<lparr>qp_read_queue := q, qp_processors := add_mset (PHolds index (process_pointer P processor (bucket_list ! index) pointer)) R\<rparr>)"
| p_return: "qp_processors s = add_mset PPoll R \<Longrightarrow> Poll (qp_read_queue s) (0, []) (-1) False = Polled res FINISH q \<Longrightarrow>
    queue_step P fuel cap ssds result_prefix processor bucket_list s (s\<lparr>qp_processors := add_mset PReturned R\<rparr>)"
| p_push: "qp_processors s = add_mset (PHolds index pointer) R \<Longrightarrow> Push (qp_write_queue s) (index, pointer) = Some q \<Longrightarrow>
    queue_step P fuel cap ssds result_prefix processor bucket_list s
      (s\<lparr>qp_write_queue := q, qp_processors := add_mset PPoll R\<rparr>)"
| close: "set_mset (qp_processors s) \<subseteq> {PReturned} \<Longrightarrow> sq_open (qp_write_queue s) \<Longrightarrow>
    queue_step P fuel cap ssds result_prefix processor bucket_list s (s\<lparr>qp_write_queue := Close (qp_write_queue s)\<rparr>)"
| w_poll: "qp_writers s = add_mset WPoll R \<Longrightarrow> Poll (qp_write_queue s) (0, []) (-1) False = Polled (index, pointer) SUCCESS q \<Longrightarrow>
    queue_step P fuel cap ssds result_prefix processor bucket_list s
      (s\<lparr>qp_write_queue := q, qp_writers := add_mset (WHolds index pointer) R\<rparr>)"
| w_return: "qp_writers s = add_mset WPoll R \<Longrightarrow> Poll (qp_write_queue s) (0, []) (-1) False = Polled res FINISH q \<Longrightarrow>
    queue_step P fuel cap ssds result_prefix processor bucket_list s (s\<lparr>qp_writers := add_mset WReturned R\<rparr>)"
| w_write: "qp_writers s = add_mset (WHolds index pointer) R \<Longrightarrow> file_name = GetFileName ssds result_prefix index \<Longrightarrow>
    queue_step P fuel cap ssds result_prefix processor bucket_list s
      (s\<lparr>qp_store := fs_write (qp_store s) file_name 0 (take (min cap (fi_file_size (bucket_list ! index))) pointer),
         qp_results := (qp_results s)[index := renamed_info file_name (bucket_list ! index)], qp_writers := add_mset WPoll R\<rparr>)"

definition start_queue_phase :: "nat \<Rightarrow> FileInfo list \<Rightarrow> fstore \<Rightarrow> queue_phase" where
  "start_queue_phase processors bucket_list fs =
     \<lparr>qp_current_file = 0, qp_files_read = 0,
      qp_read_queue = SetSizeLimit (SimpleQueue 0) 256, qp_write_queue = SetSizeLimit (SimpleQueue 0) 256,
      qp_readers = replicate_mset 256 RNext, qp_processors = replicate_mset processors PPoll,
      qp_writers = replicate_mset 256 WPoll,
      qp_store = fs, qp_results = replicate (length bucket_list) (new_FileInfo '''' 0 0 0)\<rparr>"

text \<open>All threads have been joined.\<close>

definition queue_done :: "queue_phase \<Rightarrow> bool" where
  "queue_done s \<longleftrightarrow> set_mset (qp_readers s) \<subseteq> {RReturned} \<and> set_mset (qp_processors s) \<subseteq> {PReturned} \<and>
     set_mset (qp_writers s) \<subseteq> {WReturned}"

text \<open>\<open>W\<close> is the number of workers; the loop bound \<open>num_workers() - 4\<close> is a \<open>size_t\<close>.\<close>

definition QueuePhase2 :: "'a pod \<Rightarrow> nat \<Rightarrow> nat \<Rightarrow> nat \<Rightarrow> string list \<Rightarrow> string \<Rightarrow> ('a list \<Rightarrow> 'a list) \<Rightarrow> FileInfo list \<Rightarrow>
    fstore \<Rightarrow> FileInfo list \<Rightarrow> fstore \<Rightarrow> bool" where
  "QueuePhase2 P fuel cap W ssds result_prefix processor bucket_list fs results fs' \<longleftrightarrow>
     (\<exists>s. rtranclp (queue_step P fuel cap ssds result_prefix processor bucket_list)
        (start_queue_phase (sub64 W 4) bucket_list fs) s \<and> queue_done s \<and> results = qp_results s \<and> fs' = qp_store s)"

section \<open>Where the buckets are\<close>

fun reader_holds :: "reader_pc \<Rightarrow> loaded multiset" where
  "reader_holds (RLoaded index pointer) = {#(index, pointer)#}"
| "reader_holds pc = {#}"

fun processor_holds :: "processor_pc \<Rightarrow> loaded multiset" where
  "processor_holds (PHolds index pointer) = {#(index, pointer)#}"
| "processor_holds pc = {#}"

fun writer_holds :: "writer_pc \<Rightarrow> loaded multiset" where
  "writer_holds (WHolds index pointer) = {#(index, pointer)#}"
| "writer_holds pc = {#}"

definition raw_of :: "queue_phase \<Rightarrow> loaded multiset" where
  "raw_of s = (\<Sum>pc\<in>#qp_readers s. reader_holds pc) + mset (sq_queue (qp_read_queue s))"

definition ready_of :: "queue_phase \<Rightarrow> loaded multiset" where
  "ready_of s = (\<Sum>pc\<in>#qp_processors s. processor_holds pc) + mset (sq_queue (qp_write_queue s)) + (\<Sum>pc\<in>#qp_writers s. writer_holds pc)"

definition bucket_raw :: "FileInfo list \<Rightarrow> fstore \<Rightarrow> nat \<Rightarrow> byte list" where
  "bucket_raw bucket_list fs k = take (fi_file_size (bucket_list ! k)) (file_of fs (fi_file_name (bucket_list ! k)))"

definition bucket_ready :: "'a pod \<Rightarrow> ('a list \<Rightarrow> 'a list) \<Rightarrow> FileInfo list \<Rightarrow> fstore \<Rightarrow> nat \<Rightarrow> byte list" where
  "bucket_ready P processor bucket_list fs k = process_pointer P processor (bucket_list ! k) (bucket_raw bucket_list fs k)"

definition bucket_op :: "'a pod \<Rightarrow> nat \<Rightarrow> string list \<Rightarrow> string \<Rightarrow> ('a list \<Rightarrow> 'a list) \<Rightarrow> FileInfo list \<Rightarrow> fstore \<Rightarrow> nat \<Rightarrow> write_op" where
  "bucket_op P cap ssds result_prefix processor bucket_list fs k =
     (GetFileName ssds result_prefix k, 0, take (min cap (fi_file_size (bucket_list ! k))) (bucket_ready P processor bucket_list fs k))"

definition bucket_out :: "string list \<Rightarrow> string \<Rightarrow> FileInfo list \<Rightarrow> nat \<Rightarrow> FileInfo" where
  "bucket_out ssds result_prefix bucket_list k = renamed_info (GetFileName ssds result_prefix k) (bucket_list ! k)"

definition buckets_at :: "(nat \<Rightarrow> byte list) \<Rightarrow> nat multiset \<Rightarrow> loaded multiset" where
  "buckets_at content X = image_mset (\<lambda>k. (k, content k)) X"

lemma buckets_at_simps [simp]:
  "buckets_at content {#} = {#}" "buckets_at content (add_mset k X) = add_mset (k, content k) (buckets_at content X)"
  by (simp_all add: buckets_at_def)

lemma buckets_at_split:
  "buckets_at content X = add_mset (index, pointer) M \<Longrightarrow>
    \<exists>X'. X = add_mset index X' \<and> pointer = content index \<and> M = buckets_at content X'"
  unfolding buckets_at_def by (auto dest!: msed_map_invR)

text \<open>Every bucket is still to be taken, loaded, processed or written, with the right content.\<close>

definition queue_data :: "'a pod \<Rightarrow> nat \<Rightarrow> string list \<Rightarrow> string \<Rightarrow> ('a list \<Rightarrow> 'a list) \<Rightarrow> FileInfo list \<Rightarrow> fstore \<Rightarrow> queue_phase \<Rightarrow> bool" where
  "queue_data P cap ssds result_prefix processor bucket_list fs0 s \<longleftrightarrow>
     (\<exists>X Y C. raw_of s = buckets_at (bucket_raw bucket_list fs0) X \<and>
        ready_of s = buckets_at (bucket_ready P processor bucket_list fs0) Y \<and>
        X + Y + mset C = mset [0..<min (length bucket_list) (qp_current_file s)] \<and>
        qp_store s = fold apply_op (map (bucket_op P cap ssds result_prefix processor bucket_list fs0) C) fs0 \<and>
        length (qp_results s) = length bucket_list \<and>
        (\<forall>k \<in> set C. qp_results s ! k = bucket_out ssds result_prefix bucket_list k))"

lemma queue_dataI:
  assumes "raw_of s = buckets_at (bucket_raw bucket_list fs0) X" and "ready_of s = buckets_at (bucket_ready P processor bucket_list fs0) Y"
    and "X + Y + mset C = mset [0..<min (length bucket_list) (qp_current_file s)]"
    and "qp_store s = fold apply_op (map (bucket_op P cap ssds result_prefix processor bucket_list fs0) C) fs0"
    and "length (qp_results s) = length bucket_list" and "\<forall>k \<in> set C. qp_results s ! k = bucket_out ssds result_prefix bucket_list k"
  shows "queue_data P cap ssds result_prefix processor bucket_list fs0 s"
  using assms unfolding queue_data_def by blast

lemma Poll_takes:
  "Poll q dflt (-1) expired = Polled x SUCCESS q' \<longleftrightarrow> (\<exists>xs. sq_queue q = x # xs \<and> q' = q\<lparr>sq_queue := xs\<rparr>)"
  by (auto simp: Poll_def split: list.splits)

text \<open>A step that moves no bucket, and the four that do.\<close>

lemma queue_step_cases:
  assumes st: "queue_step P fuel cap ssds result_prefix processor bucket_list s t"
  obtains (same) "raw_of t = raw_of s" "ready_of t = ready_of s" "qp_store t = qp_store s" "qp_results t = qp_results s"
      "min (length bucket_list) (qp_current_file t) = min (length bucket_list) (qp_current_file s)"
  | (load) index pointer where "index = qp_current_file s" "index < length bucket_list"
      "ReadEntireFile fuel cap (qp_store s) (fi_file_name (bucket_list ! index)) (fi_file_size (bucket_list ! index)) = Some pointer"
      "raw_of t = add_mset (index, pointer) (raw_of s)" "ready_of t = ready_of s" "qp_store t = qp_store s"
      "qp_results t = qp_results s" "qp_current_file t = index + 1"
  | (process) index pointer where "raw_of s = add_mset (index, pointer) (raw_of t)"
      "ready_of t = add_mset (index, process_pointer P processor (bucket_list ! index) pointer) (ready_of s)"
      "qp_store t = qp_store s" "qp_results t = qp_results s" "qp_current_file t = qp_current_file s"
  | (written) index pointer where "raw_of t = raw_of s" "ready_of s = add_mset (index, pointer) (ready_of t)"
      "qp_store t = fs_write (qp_store s) (GetFileName ssds result_prefix index) 0 (take (min cap (fi_file_size (bucket_list ! index))) pointer)"
      "qp_results t = (qp_results s)[index := bucket_out ssds result_prefix bucket_list index]" "qp_current_file t = qp_current_file s"
  using st
proof cases
  case (r_take R index pointer)
  then show ?thesis by (intro load) (simp_all add: raw_of_def ready_of_def)
next
  case (p_poll R index pointer q)
  then show ?thesis by (intro process) (auto simp: raw_of_def ready_of_def Poll_takes)
next
  case (w_write index pointer R)
  then show ?thesis by (intro written) (simp_all add: raw_of_def ready_of_def bucket_out_def)
qed (rule same; auto simp: raw_of_def ready_of_def Push_Some Poll_takes Close_def)+

lemma bucket_unchanged:
  assumes inv: "queue_data P cap ssds result_prefix processor bucket_list fs0 s"
    and ok: "\<forall>info \<in> set bucket_list. readable_bucket cap fs0 info" and cap: "0 < cap" and fuel: "2 \<le> fuel"
    and sep: "files_apart ssds result_prefix bucket_list" and index: "index < length bucket_list"
  shows "ReadEntireFile fuel cap (qp_store s) (fi_file_name (bucket_list ! index)) (fi_file_size (bucket_list ! index)) =
    Some (bucket_raw bucket_list fs0 index)"
proof -
  have info: "bucket_list ! index \<in> set bucket_list" using index by simp
  obtain C where store: "qp_store s = fold apply_op (map (bucket_op P cap ssds result_prefix processor bucket_list fs0) C) fs0"
    using inv unfolding queue_data_def by blast
  have "qp_store s (fi_file_name (bucket_list ! index)) = fs0 (fi_file_name (bucket_list ! index))"
    unfolding store using sep info by (intro fold_apply_other) (auto simp: files_apart_def bucket_op_def)
  from read_bucket [where info = "bucket_list ! index" and fs = fs0 and ?fs1.0 = "qp_store s", OF bspec [OF ok info] this cap fuel] show ?thesis by (simp add: bucket_raw_def)
qed

lemma queue_data_step:
  assumes inv: "queue_data P cap ssds result_prefix processor bucket_list fs0 s"
    and st: "queue_step P fuel cap ssds result_prefix processor bucket_list s t"
    and ok: "\<forall>info \<in> set bucket_list. readable_bucket cap fs0 info" and cap: "0 < cap" and fuel: "2 \<le> fuel"
    and sep: "files_apart ssds result_prefix bucket_list"
  shows "queue_data P cap ssds result_prefix processor bucket_list fs0 t"
proof -
  let ?n = "length bucket_list" and ?op = "bucket_op P cap ssds result_prefix processor bucket_list fs0"
  obtain X Y C where raw: "raw_of s = buckets_at (bucket_raw bucket_list fs0) X"
    and ready: "ready_of s = buckets_at (bucket_ready P processor bucket_list fs0) Y"
    and all: "X + Y + mset C = mset [0..<min ?n (qp_current_file s)]"
    and store: "qp_store s = fold apply_op (map ?op C) fs0" and len: "length (qp_results s) = ?n"
    and out: "\<forall>k \<in> set C. qp_results s ! k = bucket_out ssds result_prefix bucket_list k"
    using inv unfolding queue_data_def by blast
  show ?thesis using st
  proof (cases rule: queue_step_cases)
    case same
    then show ?thesis using raw ready all store len out by (intro queue_dataI [of t _ _ X _ _ Y C]) simp_all
  next
    case (load index pointer)
    have "pointer = bucket_raw bucket_list fs0 index" using bucket_unchanged [OF inv ok cap fuel sep load(2)] load(3) by simp
    then show ?thesis using load raw ready all store len out mset_upt_min [of ?n index]
      by (intro queue_dataI [of t _ _ "add_mset index X" _ _ Y C]) (simp_all del: mset_upt)
  next
    case (process index pointer)
    obtain X' where "X = add_mset index X'" "pointer = bucket_raw bucket_list fs0 index" "raw_of t = buckets_at (bucket_raw bucket_list fs0) X'"
      using buckets_at_split process(1) raw by metis
    then show ?thesis using process ready all store len out
      by (intro queue_dataI [of t _ _ X' _ _ "add_mset index Y" C]) (simp_all add: bucket_ready_def)
  next
    case (written index pointer)
    obtain Y' where Y: "Y = add_mset index Y'" "pointer = bucket_ready P processor bucket_list fs0 index"
        "ready_of t = buckets_at (bucket_ready P processor bucket_list fs0) Y'"
      using buckets_at_split written(2) ready by metis
    then have "index \<in># mset [0..<min ?n (qp_current_file s)]" unfolding all [symmetric] by simp
    then have "index < ?n" by simp
    moreover have "qp_store t = apply_op (?op index) (qp_store s)" using written(3) Y(2) by (simp add: apply_op_def bucket_op_def)
    ultimately show ?thesis using written Y raw all store len out
      by (intro queue_dataI [of t _ _ X _ _ Y' "C @ [index]"]) (auto simp: nth_list_update)
  qed
qed

section \<open>Who can go on\<close>

fun reader_loaded :: "reader_pc \<Rightarrow> nat" where
  "reader_loaded (RLoaded index pointer) = 1"
| "reader_loaded RPushed = 1"
| "reader_loaded pc = 0"

definition queue_flow :: "FileInfo list \<Rightarrow> queue_phase \<Rightarrow> bool" where
  "queue_flow bucket_list s \<longleftrightarrow>
     qp_files_read s + (\<Sum>pc\<in>#qp_readers s. reader_loaded pc) = min (length bucket_list) (qp_current_file s) \<and>
     count (qp_readers s) RClosing = (if qp_files_read s = length bucket_list \<and> sq_open (qp_read_queue s) then 1 else 0) \<and>
     (\<not> sq_open (qp_read_queue s) \<longrightarrow> qp_files_read s = length bucket_list) \<and>
     (RReturned \<in># qp_readers s \<longrightarrow> length bucket_list \<le> qp_current_file s) \<and>
     (PReturned \<in># qp_processors s \<longrightarrow> \<not> sq_open (qp_read_queue s) \<and> sq_queue (qp_read_queue s) = []) \<and>
     (\<not> sq_open (qp_write_queue s) \<longrightarrow> set_mset (qp_processors s) \<subseteq> {PReturned}) \<and>
     (WReturned \<in># qp_writers s \<longrightarrow> \<not> sq_open (qp_write_queue s) \<and> sq_queue (qp_write_queue s) = []) \<and>
     qp_readers s \<noteq> {#} \<and> qp_processors s \<noteq> {#} \<and> qp_writers s \<noteq> {#}"

lemma queue_flow_step:
  assumes inv: "queue_flow bucket_list s" and st: "queue_step P fuel cap ssds result_prefix processor bucket_list s t"
  shows "queue_flow bucket_list t"
  using st
proof cases
  case (r_take R index pointer)
  then show ?thesis using inv by (auto simp: queue_flow_def)
next
  case (r_return R)
  then show ?thesis using inv by (auto simp: queue_flow_def)
next
  case (r_push index pointer R q)
  then show ?thesis using inv by (auto simp: queue_flow_def Push_Some)
next
  case (r_count R index)
  then show ?thesis using inv by (auto simp: queue_flow_def)
next
  case (r_close R)
  then show ?thesis using inv by (auto simp: queue_flow_def Close_def split: if_splits)
next
  case (p_poll R index pointer q)
  then show ?thesis using inv by (auto simp: queue_flow_def Poll_takes split: if_splits)
next
  case (p_return R res q)
  then show ?thesis using inv by (auto simp: queue_flow_def Poll_finish)
next
  case (p_push index pointer R q)
  then show ?thesis using inv by (auto simp: queue_flow_def Push_Some)
next
  case close
  then show ?thesis using inv by (auto simp: queue_flow_def Close_def)
next
  case (w_poll R index pointer q)
  then show ?thesis using inv by (auto simp: queue_flow_def Poll_takes)
next
  case (w_return R res q)
  then show ?thesis using inv by (auto simp: queue_flow_def Poll_finish)
next
  case (w_write index pointer R file_name)
  then show ?thesis using inv by (auto simp: queue_flow_def)
qed

text \<open>The number of steps that are left at most.\<close>

fun reader_work :: "reader_pc \<Rightarrow> nat" where
  "reader_work RNext = 1"
| "reader_work (RLoaded index pointer) = 8"
| "reader_work RPushed = 3"
| "reader_work RClosing = 2"
| "reader_work RReturned = 0"

fun processor_work :: "processor_pc \<Rightarrow> nat" where
  "processor_work PPoll = 1"
| "processor_work (PHolds index pointer) = 4"
| "processor_work PReturned = 0"

fun writer_work :: "writer_pc \<Rightarrow> nat" where
  "writer_work WPoll = 1"
| "writer_work (WHolds index pointer) = 2"
| "writer_work WReturned = 0"

definition queue_work :: "FileInfo list \<Rightarrow> queue_phase \<Rightarrow> nat" where
  "queue_work bucket_list s = 8 * (length bucket_list - qp_current_file s) + (\<Sum>pc\<in>#qp_readers s. reader_work pc) +
     4 * length (sq_queue (qp_read_queue s)) + (\<Sum>pc\<in>#qp_processors s. processor_work pc) +
     2 * length (sq_queue (qp_write_queue s)) + (\<Sum>pc\<in>#qp_writers s. writer_work pc) + (if sq_open (qp_write_queue s) then 1 else 0)"

lemma queue_step_work:
  assumes "queue_step P fuel cap ssds result_prefix processor bucket_list s t"
  shows "queue_work bucket_list t < queue_work bucket_list s"
  using assms by cases (auto simp: queue_work_def Push_Some Poll_takes Poll_finish Close_def)

text \<open>A state in which no thread can go on is the final one.\<close>

lemma queue_progress:
  assumes flow: "queue_flow bucket_list s"
    and rd: "\<And>index. index < length bucket_list \<Longrightarrow> \<exists>pointer. ReadEntireFile fuel cap (qp_store s)
      (fi_file_name (bucket_list ! index)) (fi_file_size (bucket_list ! index)) = Some pointer"
    and stuck: "\<And>t. \<not> queue_step P fuel cap ssds result_prefix processor bucket_list s t"
  shows "queue_done s"
proof -
  let ?rq = "qp_read_queue s" and ?wq = "qp_write_queue s"
  have writer: "pc = WReturned \<or> pc = WPoll \<and> sq_queue ?wq = [] \<and> sq_open ?wq" if pc: "pc \<in># qp_writers s" for pc
  proof (cases pc)
    case WPoll
    obtain R where R: "qp_writers s = add_mset WPoll R" using multi_member_split [OF pc [unfolded WPoll]] by blast
    have "sq_queue ?wq = []" using w_poll [OF R] stuck unfolding Poll_takes by (metis list.exhaust prod.exhaust)
    moreover have "sq_open ?wq" using calculation w_return [OF R] stuck unfolding Poll_finish timed_out_def by blast
    ultimately show ?thesis using WPoll by simp
  next
    case (WHolds index pointer)
    obtain R where "qp_writers s = add_mset (WHolds index pointer) R" using multi_member_split [OF pc [unfolded WHolds]] by blast
    from w_write [OF this refl] show ?thesis using stuck by blast
  qed simp
  obtain wpc where "wpc \<in># qp_writers s" using flow by (auto simp: queue_flow_def)
  then have wq: "sq_queue ?wq = []" using writer [of wpc] flow by (auto simp: queue_flow_def)
  have processor: "pc = PReturned \<or> pc = PPoll \<and> sq_queue ?rq = [] \<and> sq_open ?rq" if pc: "pc \<in># qp_processors s" for pc
  proof (cases pc)
    case PPoll
    obtain R where R: "qp_processors s = add_mset PPoll R" using multi_member_split [OF pc [unfolded PPoll]] by blast
    have "sq_queue ?rq = []" using p_poll [OF R] stuck unfolding Poll_takes by (metis list.exhaust prod.exhaust)
    moreover have "sq_open ?rq" using calculation p_return [OF R] stuck unfolding Poll_finish timed_out_def by blast
    ultimately show ?thesis using PPoll by simp
  next
    case (PHolds index pointer)
    obtain R where "qp_processors s = add_mset (PHolds index pointer) R" using multi_member_split [OF pc [unfolded PHolds]] by blast
    from p_push [OF this] show ?thesis using stuck Push_empty [OF wq] by blast
  qed simp
  obtain ppc where "ppc \<in># qp_processors s" using flow by (auto simp: queue_flow_def)
  then have rq: "sq_queue ?rq = []" using processor [of ppc] flow by (auto simp: queue_flow_def)
  have reader: "pc = RReturned" if pc: "pc \<in># qp_readers s" for pc
  proof (cases pc)
    case RNext
    obtain R where "qp_readers s = add_mset RNext R" using multi_member_split [OF pc [unfolded RNext]] by blast
    from r_take [OF this refl] r_return [OF this] show ?thesis using stuck rd by (meson not_less)
  next
    case (RLoaded index pointer)
    obtain R where "qp_readers s = add_mset (RLoaded index pointer) R" using multi_member_split [OF pc [unfolded RLoaded]] by blast
    from r_push [OF this] show ?thesis using stuck Push_empty [OF rq] by blast
  next
    case RPushed
    obtain R where "qp_readers s = add_mset RPushed R" using multi_member_split [OF pc [unfolded RPushed]] by blast
    from r_count [OF this refl] show ?thesis using stuck by blast
  next
    case RClosing
    obtain R where "qp_readers s = add_mset RClosing R" using multi_member_split [OF pc [unfolded RClosing]] by blast
    from r_close [OF this] show ?thesis using stuck by blast
  qed simp
  have all: "\<forall>pc \<in># qp_readers s. pc = RReturned" using reader by blast
  then have "RClosing \<notin># qp_readers s" by blast
  then have "count (qp_readers s) RClosing = 0" by (simp add: count_eq_zero_iff)
  moreover have "(\<Sum>pc\<in>#qp_readers s. reader_loaded pc) = 0" "RReturned \<in># qp_readers s"
    using all flow by (auto simp: queue_flow_def)
  ultimately have none: "(\<Sum>pc\<in>#qp_readers s. reader_loaded pc) = 0" "RReturned \<in># qp_readers s" "count (qp_readers s) RClosing = 0"
    by blast+
  then have "qp_files_read s = length bucket_list" using flow unfolding queue_flow_def none(1) by simp
  then have closed: "\<not> sq_open ?rq" using flow none(3) unfolding queue_flow_def by presburger
  then have ps: "set_mset (qp_processors s) \<subseteq> {PReturned}" using processor by blast
  then have "\<not> sq_open ?wq" using close stuck by blast
  then have "set_mset (qp_writers s) \<subseteq> {WReturned}" using writer by blast
  then show ?thesis using all ps by (auto simp: queue_done_def)
qed

definition queue_good :: "'a pod \<Rightarrow> nat \<Rightarrow> nat \<Rightarrow> string list \<Rightarrow> string \<Rightarrow> ('a list \<Rightarrow> 'a list) \<Rightarrow> FileInfo list \<Rightarrow> fstore \<Rightarrow> queue_phase \<Rightarrow> bool" where
  "queue_good P fuel cap ssds result_prefix processor bucket_list fs0 s \<longleftrightarrow>
     queue_data P cap ssds result_prefix processor bucket_list fs0 s \<and> queue_flow bucket_list s \<and>
     (\<forall>info \<in> set bucket_list. readable_bucket cap fs0 info) \<and> 0 < cap \<and> 2 \<le> fuel \<and> files_apart ssds result_prefix bucket_list"

interpretation queue_machine: finite_machine "queue_step P fuel cap ssds result_prefix processor bucket_list"
    "queue_good P fuel cap ssds result_prefix processor bucket_list fs0" "queue_work bucket_list" queue_done
    for P fuel cap ssds result_prefix processor bucket_list fs0
proof unfold_locales
  fix s t :: queue_phase
  assume g: "queue_good P fuel cap ssds result_prefix processor bucket_list fs0 s"
  show "\<exists>t. queue_step P fuel cap ssds result_prefix processor bucket_list s t" if "\<not> queue_done s"
    using that queue_progress [of bucket_list s fuel cap] bucket_unchanged g unfolding queue_good_def by meson
  assume st: "queue_step P fuel cap ssds result_prefix processor bucket_list s t"
  show "queue_good P fuel cap ssds result_prefix processor bucket_list fs0 t"
    using queue_data_step [OF _ st] queue_flow_step [OF _ st] g unfolding queue_good_def by blast
  show "queue_work bucket_list t < queue_work bucket_list s" using queue_step_work [OF st] .
qed

lemma queue_start_good:
  assumes "bucket_list \<noteq> []" and "0 < processors" and "\<forall>info \<in> set bucket_list. readable_bucket cap fs info"
    and "0 < cap" and "2 \<le> fuel" and "files_apart ssds result_prefix bucket_list"
  shows "queue_good P fuel cap ssds result_prefix processor bucket_list fs (start_queue_phase processors bucket_list fs)"
proof -
  let ?s = "start_queue_phase processors bucket_list fs"
  have "raw_of ?s = {#}" "ready_of ?s = {#}"
    by (auto simp: raw_of_def ready_of_def start_queue_phase_def SetSizeLimit_def SimpleQueue_def)
  then have "queue_data P cap ssds result_prefix processor bucket_list fs ?s"
    by (intro queue_dataI [of ?s _ _ "{#}" _ _ "{#}" "[]"]) (simp_all add: start_queue_phase_def)
  moreover have "queue_flow bucket_list ?s"
    using assms(1,2) by (auto simp: queue_flow_def start_queue_phase_def SetSizeLimit_def SimpleQueue_def)
  ultimately show ?thesis using assms by (simp add: queue_good_def)
qed

section \<open>What it computes\<close>

lemma queue_done_result:
  assumes g: "queue_good P fuel cap ssds result_prefix processor bucket_list fs s" and d: "queue_done s"
    and slash: "CHR ''/'' \<notin> set result_prefix"
  shows "qp_results s = map (bucket_out ssds result_prefix bucket_list) [0..<length bucket_list]"
    and "qp_store s = fold apply_op (map (bucket_op P cap ssds result_prefix processor bucket_list fs) [0..<length bucket_list]) fs"
proof -
  let ?n = "length bucket_list" and ?op = "bucket_op P cap ssds result_prefix processor bucket_list fs"
  have flow: "queue_flow bucket_list s" using g by (simp add: queue_good_def)
  obtain X Y C where raw: "raw_of s = buckets_at (bucket_raw bucket_list fs) X"
    and ready: "ready_of s = buckets_at (bucket_ready P processor bucket_list fs) Y"
    and all: "X + Y + mset C = mset [0..<min ?n (qp_current_file s)]"
    and store: "qp_store s = fold apply_op (map ?op C) fs" and len: "length (qp_results s) = ?n"
    and out: "\<forall>k \<in> set C. qp_results s ! k = bucket_out ssds result_prefix bucket_list k"
    using g unfolding queue_good_def queue_data_def by blast
  have pcs: "\<forall>pc \<in># qp_readers s. pc = RReturned" "\<forall>pc \<in># qp_processors s. pc = PReturned" "\<forall>pc \<in># qp_writers s. pc = WReturned"
    using d by (auto simp: queue_done_def)
  then have "RReturned \<in># qp_readers s" "PReturned \<in># qp_processors s" "WReturned \<in># qp_writers s"
    using flow by (auto simp: queue_flow_def)
  then have "sq_queue (qp_read_queue s) = []" "sq_queue (qp_write_queue s) = []" and n: "?n \<le> qp_current_file s"
    using flow by (simp_all add: queue_flow_def)
  then have "raw_of s = {#}" "ready_of s = {#}" using pcs by (auto simp: raw_of_def ready_of_def)
  then have "X = {#}" "Y = {#}" using raw ready by (simp_all add: buckets_at_def)
  then have ms: "mset C = mset [0..<?n]" using all n by (simp del: mset_upt add: min_absorb1)
  then have "\<forall>k < ?n. qp_results s ! k = bucket_out ssds result_prefix bucket_list k"
    using out mset_eq_setD [OF ms] by simp
  then show "qp_results s = map (bucket_out ssds result_prefix bucket_list) [0..<?n]" using len by (intro nth_equalityI) simp_all
  have "ops_disjoint (map ?op [0..<?n])"
    using GetFileName_inject [OF slash] by (auto simp: ops_disjoint_def op_disjoint_def bucket_op_def)
  moreover have "mset (map ?op C) = mset (map ?op [0..<?n])" using ms by (metis mset_map)
  ultimately show "qp_store s = fold apply_op (map ?op [0..<?n]) fs" unfolding store by (metis fold_apply_perm)
qed

lemma QueuePhase2_equiv:
  assumes ne: "bucket_list \<noteq> []" and W: "4 < W" "W < 2 ^ 64" and ok: "\<forall>info \<in> set bucket_list. readable_bucket cap fs info"
    and cap: "0 < cap" and fuel: "2 \<le> fuel" and sep: "files_apart ssds result_prefix bucket_list"
    and slash: "CHR ''/'' \<notin> set result_prefix"
  shows "QueuePhase2 P fuel cap W ssds result_prefix processor bucket_list fs results fs' \<longleftrightarrow>
    results = map (bucket_out ssds result_prefix bucket_list) [0..<length bucket_list] \<and>
    fs' = fold apply_op (map (bucket_op P cap ssds result_prefix processor bucket_list fs) [0..<length bucket_list]) fs"
proof -
  have "0 < sub64 W 4" using W by (simp add: sub64_le)
  from queue_start_good [OF ne this ok cap fuel sep]
  have good: "queue_good P fuel cap ssds result_prefix processor bucket_list fs (start_queue_phase (sub64 W 4) bucket_list fs)" .
  note final = queue_done_result [OF queue_machine.reach_good [OF _ good] _ slash]
  show ?thesis using queue_machine.reach_halted [OF good] final unfolding QueuePhase2_def by metis
qed

lemma bucket_op_phase2:
  assumes "readable_bucket cap fs (bucket_list ! k)"
  shows "bucket_op P cap ssds result_prefix processor bucket_list fs k = phase2_op P cap junk ssds result_prefix processor bucket_list fs k"
  by (simp add: bucket_op_def bucket_ready_def process_pointer_def bucket_raw_def phase2_op_def Let_def phase2_buffer [OF assms])

lemma map_bucket_op_phase2:
  assumes "\<forall>info \<in> set bucket_list. readable_bucket cap fs info"
  shows "map (bucket_op P cap ssds result_prefix processor bucket_list fs) [0..<length bucket_list] =
    map (phase2_op P cap junk ssds result_prefix processor bucket_list fs) [0..<length bucket_list]"
  using bucket_op_phase2 [OF bspec [OF assms nth_mem]] by (intro map_cong refl) simp

text \<open>Without a bucket nobody closes the read queue.\<close>

definition queue_waits :: "queue_phase \<Rightarrow> bool" where
  "queue_waits s \<longleftrightarrow> sq_open (qp_read_queue s) \<and> sq_queue (qp_read_queue s) = [] \<and>
     set_mset (qp_readers s) \<subseteq> {RNext, RReturned} \<and> qp_processors s \<noteq> {#} \<and> set_mset (qp_processors s) \<subseteq> {PPoll}"

lemma queue_waits_step:
  assumes "queue_waits s" and "queue_step P fuel cap ssds result_prefix processor [] s t"
  shows "queue_waits t"
  using assms(2,1) by cases (auto simp: queue_waits_def Poll_takes Poll_finish)

lemma queue_waits_not_done: "queue_waits s \<Longrightarrow> \<not> queue_done s"
  unfolding queue_waits_def queue_done_def by (metis multiset_nonemptyE processor_pc.distinct(3) singletonD subsetD)

lemma QueuePhase2_empty:
  assumes "4 < W" and "W < 2 ^ 64"
  shows "\<not> QueuePhase2 P fuel cap W ssds result_prefix processor [] fs results fs'"
proof -
  have start: "queue_waits (start_queue_phase (sub64 W 4) [] fs)"
    using assms by (auto simp: queue_waits_def start_queue_phase_def SetSizeLimit_def SimpleQueue_def sub64_le)
  have "queue_waits s" if "rtranclp (queue_step P fuel cap ssds result_prefix processor []) (start_queue_phase (sub64 W 4) [] fs) s" for s
    using that start by (induction rule: rtranclp_induct) (auto intro: queue_waits_step)
  then show ?thesis using queue_waits_not_done unfolding QueuePhase2_def by blast
qed

text \<open>Without a processor nothing is written.\<close>

definition queue_idle :: "queue_phase \<Rightarrow> queue_phase \<Rightarrow> bool" where
  "queue_idle s0 s \<longleftrightarrow> qp_processors s = {#} \<and> sq_queue (qp_write_queue s) = [] \<and> set_mset (qp_writers s) \<subseteq> {WPoll, WReturned} \<and>
     qp_store s = qp_store s0 \<and> qp_results s = qp_results s0"

lemma queue_idle_step:
  assumes "queue_idle s0 s" and "queue_step P fuel cap ssds result_prefix processor bucket_list s t"
  shows "queue_idle s0 t"
  using assms(2,1) by cases (auto simp: queue_idle_def Poll_takes Poll_finish Close_def)

lemma QueuePhase2_idle:
  assumes "QueuePhase2 P fuel cap 4 ssds result_prefix processor bucket_list fs results fs'"
  shows "fs' = fs \<and> results = replicate (length bucket_list) (new_FileInfo '''' 0 0 0)"
proof -
  let ?s = "start_queue_phase (sub64 4 4) bucket_list fs"
  obtain s where s: "rtranclp (queue_step P fuel cap ssds result_prefix processor bucket_list) ?s s" "results = qp_results s" "fs' = qp_store s"
    using assms unfolding QueuePhase2_def by blast
  have "queue_idle ?s ?s" by (auto simp: queue_idle_def start_queue_phase_def SetSizeLimit_def SimpleQueue_def sub64_def)
  with s(1) have "queue_idle ?s s" by (induction rule: rtranclp_induct) (auto intro: queue_idle_step)
  then show ?thesis using s(2,3) by (simp add: queue_idle_def start_queue_phase_def)
qed

section \<open>Properties\<close>

text \<open>C10: The queue-based phase 2 refines the sequential one: with at least one bucket and more than four
workers a run exists, and every interleaving of its three groups of threads ends with the same result
list and the same files as processing the buckets one after the other, in whatever order. Without a
bucket it never returns, and with exactly four workers it returns without having written anything.\<close>

theorem QueuePhase2_correct:
  assumes "W < 2 ^ 64" and "\<forall>info \<in> set bucket_list. readable_bucket cap fs info" and "0 < cap" and "2 \<le> fuel"
    and "files_apart ssds result_prefix bucket_list" and "CHR ''/'' \<notin> set result_prefix"
    and "mset order = mset [0..<length bucket_list]"
  shows "(bucket_list \<noteq> [] \<and> 4 < W \<longrightarrow> (\<forall>results fs'.
      QueuePhase2 P fuel cap W ssds result_prefix processor bucket_list fs results fs' \<longleftrightarrow>
      SimplePhase2 P fuel cap ssds result_prefix processor bucket_list order fs = Some (results, fs'))) \<and>
    (bucket_list = [] \<and> 4 < W \<longrightarrow> (\<nexists>results fs'. QueuePhase2 P fuel cap W ssds result_prefix processor bucket_list fs results fs')) \<and>
    (W = 4 \<longrightarrow> (\<forall>results fs'. QueuePhase2 P fuel cap W ssds result_prefix processor bucket_list fs results fs' \<longrightarrow>
      fs' = fs \<and> results = replicate (length bucket_list) (new_FileInfo '''' 0 0 0)))"
proof (intro conjI impI)
  have "SimplePhase2 P fuel cap ssds result_prefix processor bucket_list order fs =
      Some (map (bucket_out ssds result_prefix bucket_list) [0..<length bucket_list],
        fold apply_op (map (bucket_op P cap ssds result_prefix processor bucket_list fs) [0..<length bucket_list]) fs)"
    unfolding SimplePhase2_equiv [where junk = "\<lambda>i. []", OF assms(2-4,6,5,7)] map_bucket_op_phase2 [where junk = "\<lambda>i. []", OF assms(2)]
    by (simp add: bucket_out_def)
  moreover assume "bucket_list \<noteq> [] \<and> 4 < W"
  ultimately show "\<forall>results fs'. QueuePhase2 P fuel cap W ssds result_prefix processor bucket_list fs results fs' \<longleftrightarrow>
      SimplePhase2 P fuel cap ssds result_prefix processor bucket_list order fs = Some (results, fs')"
    using QueuePhase2_equiv [OF _ _ assms(1-6)] by auto
qed (use QueuePhase2_empty QueuePhase2_idle assms(1) in blast)+

lemma QueuePhase2_correct_witness:
  "\<exists>results fs'. QueuePhase2 u8_pod 2 2147479552 8 [] ''out'' rev [new_FileInfo ''b'' 0 3 4096, new_FileInfo ''c'' 1 2 4096]
     [''b'' \<mapsto> replicate 4096 1, ''c'' \<mapsto> replicate 4096 2] results fs'"
proof -
  let ?bl = "[new_FileInfo ''b'' 0 3 4096, new_FileInfo ''c'' 1 2 4096]" and ?fs = "[''b'' \<mapsto> replicate 4096 (1 :: byte), ''c'' \<mapsto> replicate 4096 2]"
  have ok: "\<forall>info \<in> set ?bl. readable_bucket 2147479552 ?fs info"
    by (simp add: readable_bucket_def new_FileInfo_def O_DIRECT_MULTIPLE_def file_of_def)
  have apart: "files_apart [] ''out'' ?bl" by (rule files_apart_relative) (simp add: new_FileInfo_def)
  have order: "mset [1, 0] = mset [0..<length ?bl]" by (simp add: numeral_2_eq_2)
  note simple = SimplePhase2_equiv [where P = u8_pod and processor = rev and fuel = 2, OF ok _ _ _ apart order]
  obtain results fs' where run: "SimplePhase2 u8_pod 2 2147479552 [] ''out'' rev ?bl [1, 0] ?fs = Some (results, fs')"
    using simple by fastforce
  have "QueuePhase2 u8_pod 2 2147479552 8 [] ''out'' rev ?bl ?fs results fs'"
    using QueuePhase2_correct [where P = u8_pod and processor = rev and fuel = 2 and W = 8, OF _ ok _ _ apart _ order] run by simp
  then show ?thesis by blast
qed

end
