(* ===== verification/Spec2Isabelle.thy ===== *)
theory Spec2Isabelle
  imports SimpleQueue FileUtils ExternalFilter Generators Engine Consumers Primes ShuffleCorrect NaiveSeq FileReader FileWriter FileStreams SampleSort ReaderAllocator FileOps InMemory Harness SortVerify QueuePhase
begin

text \<open>
  A verification development for Plaidlay, a library of parallel primitives (map, filter, reduce,
  scan, sort, shuffle, primes, ...) over sequences that live on many SSDs.

  \<^bold>\<open>The program.\<close> A large sequence is kept on disk in one of two forms. An \<^emph>\<open>external sequence\<close>
  (Plaidlay/chunk_header.h) is a list of block headers; a header names a file, an offset, the number
  of valid bytes of the block and its ordering key \<open>index\<close>, and the sequence is what the blocks hold
  in the order of their keys. A \<^emph>\<open>file sequence\<close> (utils/file_info.h) is a list of whole files in the
  order of their numbers, each with an end marker that gives its true size. Readers
  (utils/unordered_file_reader.h, utils/unordered_file_reader_modified.h) are worker threads that
  submit direct reads to io_uring and pass the buffers, in the order of completion, through a bounded
  blocking queue (utils/simple_queue.h) to the tasks of a primitive. Writers
  (utils/unordered_file_writer.h, utils/unordered_file_writer_modified.h, utils/ordered_file_writer.h)
  take buffers from such a queue, or from the calling task, and submit writes. A primitive connects
  the two: tasks poll blocks, compute, reserve a place in some file with an atomic \<open>fetch_add\<close>, store a
  header in the next slot of the result and push the buffer. Nothing orders these steps but the
  locks, the atomics and the queues, so the result must not depend on their order; that is what most
  of the theorems say.

  \<^bold>\<open>Theories and the code they model.\<close>
  \<^item> Prelude: words, rounding, strides, sorting by a key; the locale \<open>finite_machine\<close> (a step relation
    with an invariant and a measure ends, in a final state that satisfies the invariant), which every
    machine below interprets.
  \<^item> Storage: the file store \<open>fstore\<close> (a map from names to byte lists, with positioned reads and
    writes) and the representation \<open>'a pod\<close> of elements as bytes. The locale \<open>pod_repr\<close> is its contract,
    interpreted for 64, 16 and 8 bit words and booleans.
  \<^item> ChunkHeader (Plaidlay/chunk_header.h, \<open>ReadOutput\<close> of Plaidlay/external_main.cpp): headers, external
    sequences, reading them back.
  \<^item> Placement: the discipline of reserved places, and the locale \<open>block_sink\<close> of a writer that performs
    all requests pushed to it; Interleaving: draws of several workers in any order.
  \<^item> SimpleQueue (utils/simple_queue.h): the queue as atomic operations; a waiting operation has no step.
    The locale \<open>bounded_fifo\<close> is its contract.
  \<^item> FileUtils (utils/file_utils.h, utils/file_utils.cpp, utils/file_info.h): alignment on 64 bit words,
    file names, \<open>FindFiles\<close>, end markers, \<open>GetFileInfo\<close>, \<open>ReadFileOnce\<close>, \<open>ReadEntireFile\<close>.
  \<^item> ChunkReader, ChunkWriter, FileReader, FileWriter, BucketWriter: each reader and writer class as one
    state record and an inductive step relation whose steps are iterations of a worker's loops, device
    completions, calls of a client and phase changes. ReaderAllocator: the buffer pool of both
    readers, one step for each critical section. Interfaces: \<open>chunk_source\<close>, \<open>file_source\<close>, \<open>block_sink\<close>.
  \<^item> TwoPhase, PolledBatches: the batches that the primitives of Plaidlay/*.h share (phase 1 in
    parallel, phase 2 sequential); \<open>block_work\<close> is the contract of what a task computes. On them
    ExternalFilter (Plaidlay/externalFilter.h), Generators (Plaidlay/ExternalIota.h,
    Plaidlay/ExternalBoolean.h), Sieve and Primes (Plaidlay/examples/external/primes.h).
  \<^item> Emitter, Engine (Plaidlay/external_engine/, Plaidlay/ExternalMap.h): tasks that draw the slot and
    the place of a block separately, in every interleaving; \<open>block_body\<close> is the contract of a body.
  \<^item> Consumers (Plaidlay/ExternalReduce.h, Plaidlay/extern_find_if.h): primitives that only read.
  \<^item> Shuffle, ShuffleCorrect (Plaidlay/examples/Extern_random_shuffle.h): scatter into buckets, shuffle each.
  \<^item> NaiveSeq (Plaidlay/plaidlay.h, filter.h, NaiveExternalScan.h, flatten.h): the in-memory sequences and
    blocked scans, filters and flatten. InMemory (Plaidlay/examples/in_memory/, tokens.h): the in-memory
    search, sieve and tokens.
  \<^item> FileStreams (sequence_algorithms/filter.h, Plaidlay/NaiveExternalScan.h), FileOps
    (sequence_algorithms/map.h, reduce.h): primitives on file sequences.
  \<^item> ScatterGather, ScatterCorrect, QueuePhase (scatter_gather_algorithms/scatter_gather.h), SampleSort
    (sample_sort.h, permutation.h), SortVerify (sample-sort.cpp): distribution into buckets, processing
    of each bucket, and the two clients. RandomRead (utils/random_read.h): batched reads of elements.
  \<^item> Harness (Plaidlay/external_main.cpp): the end-to-end cases of the program's own test driver.

  \<^bold>\<open>What the lemmas show.\<close> For every step relation: an invariant of all reachable states, a measure that
  every step decreases (so every run ends), that a state without a step is the intended final one (so
  no run gets stuck), and what the final state holds. These give each reader the contract that its
  clients receive every block exactly once, in some order, and each writer the contract that the final
  store is the initial one with all requests performed. For every primitive: a run exists, and every
  run, whatever the scheduler, the device and the random generators do, leaves a well-formed sequence
  that reads back as the specified function of the input. For the in-memory code: equality with the
  list function. For the sort: the result files hold the elements of the input in ascending order, and
  the program's own check accepts them. Errors are values: an access out of range, a failed \<open>CHECK\<close>,
  an endless loop and an operation that waits are branches of the model, and theorems say when they
  occur (\<open>ReadEntireFile_total\<close>, \<open>zero_size_request_ends_writer\<close>, \<open>pick_pivots_bounds\<close>,
  \<open>ExternalReduce_order_matters\<close> among others).

  \<^bold>\<open>Reading the model.\<close>
  \<^item> Elements are a type \<open>'a\<close> with a representation \<open>P :: 'a pod\<close>. \<open>A\<close> is \<open>O_DIRECT_MULTIPLE\<close>, \<open>B\<close> the
    block size of 4 MiB, \<open>R\<close> the \<open>READ_SIZE\<close> of the file reader, \<open>N\<close> is \<open>NUM_SSDS\<close>, \<open>ssds\<close> the list of
    directories, \<open>W\<close> or \<open>T\<close> a number of threads. They are parameters, with the code's values in the
    witnesses or instances, because the code is compiled with other values too.
  \<^item> Nondeterminism is explicit: runs are relations, or functions of a schedule that says in which order
    blocks arrive, places are drawn and requests complete. Random draws, \<open>hash64\<close>, the comparison and
    the in-memory sort and shuffle of the parlay library, \<open>parlay::reduce\<close> (some bracketing of its
    arguments in order), the floating-point square root and the content of uninitialised memory are
    parameters. Theorems assume of them what the library documents (a draw is in its range, a sort
    sorts, a shuffle permutes). The square root that \<open>memory_primes\<close> truncates is assumed exact below
    \<open>2 ^ 52\<close> only, where each argument is a \<open>double\<close> and rounding cannot reach the next integer.
  \<^item> Sizes and offsets are natural numbers where the code only adds up what is on disk; they are 64 bit
    words, or reduced modulo \<open>2 ^ 64\<close>, or carry an explicit bound, where the code relies on wrap-around or
    may suffer from it: alignment, pivots, the end marker of 16 bits, \<open>expected_size -= n\<close> of the sort
    check, the rounded-up numbers of chunks (\<open>num_chunks\<close>, \<open>counts_fit\<close>), the keys \<open>index * FANOUT + s\<close> of a
    map (\<open>keys_fit\<close>), the square-root loop and \<open>n + 1\<close> of the sieve (\<open>sqrt_up\<close>, \<open>n < 2 ^ 62\<close>), the requested
    positions and sizes of RandomRead, \<open>int\<close> positions of in-memory sequences (below \<open>2 ^ 31\<close>) and their
    \<open>long\<close> offsets (\<open>exclusive_scan\<close>).
  \<^item> Alignment of memory is an input where the code can get it wrong: \<open>addr\<close> of a buffer of the file
    reader, \<open>realloc_at\<close> of the buffer that filter.h grows, \<open>any_memory\<close> of RandomRead (whether the
    machine accepts direct reads to any address; configs.h says that some do).
  \<^item> A store is shared by reader and writer of one primitive. Theorems on primitives therefore ask that the
    output files are new or at least not the input files (\<open>fresh_outputs\<close>, \<open>fresh_seq\<close>, \<open>files_apart\<close>,
    \<open>separate_prefixes\<close>) and that no two input blocks share a place (\<open>blocks_apart\<close>).
  \<^item> Fuel: \<open>ReadEntireFile\<close> is given one unit for each call of \<open>read\<close>. Two are enough when one read can
    return the whole file, and one for each byte and one more always are (\<open>read_entire_enough\<close>,
    \<open>read_file\<close>); on a file that ends early no fuel is enough, which is the code's endless loop.
    \<open>double_search\<close>, \<open>memory_primes\<close> and \<open>sqrt_up\<close> are partial functions, \<open>None\<close> is an endless loop; the
    theorems prove that they return, and \<open>sqrt_up_endless\<close> that the last does not for \<open>2 ^ 64 - 1\<close>.
  \<^item> Two simplifications of granularity: a \<open>take\<close> of a writer's worker (pop, reservation, submission) is
    one step, and \<open>Write\<close> of the bucket writer is one step up to its submission.

  \<^bold>\<open>Not modelled.\<close> Parsing of the command line, logging, timing and printing; the distributions of
  utils/random_number_generator.cpp; the benchmarks, the driver programs but their checks of results, the
  lists of concrete cases and the memory measurements of external_main.cpp; the ray tracer, the scripts and the STREAM benchmark,
  which are independent programs. Plaidlay/externalScan.h, externalSeq.h, Extern_random_shuffle.h (the
  copy outside examples/) and examples/external/kth_smallest.h do not compile; documented_filter.h,
  old_filter.h, plaidlay_main.cpp and external_main_old.cpp are copies or commented out;
  \<open>naive_parallel_dram_filter_lock\<close> of Plaidlay/filter.h does not compile once it is instantiated. Failures
  of the operating system and the device are left out: \<open>SYSCALL\<close> logs an error code and the code goes on with
  a buffer, size or descriptor that is not defined. So are short reads below the limit \<open>cap\<close>, and a \<open>writev\<close>
  of more bytes than Linux takes at once, which no configuration of the code reaches.
\<close>

end
